(* ===== verification/Egos_Prelude.thy ===== *)
theory Egos_Prelude
  imports Main "HOL-Library.Word"
begin

text \<open>
  The shared vocabulary of the development: the machine integers of the C sources
  (\<^verbatim>\<open>m_uint8\<close> to \<^verbatim>\<open>m_uint64\<close> of library/egos.h), the outcome of code that may
  call \<^verbatim>\<open>FATAL\<close> or fail an \<^verbatim>\<open>ASSERT\<close> (both end in \<^verbatim>\<open>tty_fatal\<close>, which never
  returns, so the call has no value), byte-addressed memory with the C library's
  \<^verbatim>\<open>memset\<close> and \<^verbatim>\<open>memcpy\<close>, and the scanning loops
  (\<^verbatim>\<open>for (i = 0; i < n; i++) if (...) { ...; return }\<close>) that most tables of the system
  are searched with.
\<close>

section \<open>Machine integers\<close>

type_synonym m_uint8 = "8 word"
type_synonym m_uint16 = "16 word"
type_synonym m_uint32 = "32 word"
type_synonym m_uint64 = "64 word"

unbundle bit_operations_syntax

named_theorems res_simps \<open>how results of fallible code propagate\<close>
named_theorems mem_simps \<open>reads of memory after writes\<close>

section \<open>Fallible code\<close>

text \<open>
  \<open>Fatal msg\<close> is a call of \<^verbatim>\<open>FATAL(msg)\<close> or a failed \<^verbatim>\<open>ASSERT\<close>;
  \<open>Out_of_bounds\<close> an access outside a C array, which the language leaves undefined;
  \<open>Diverges\<close> a loop that never ends.
\<close>

datatype fault = Fatal string | Out_of_bounds | Diverges

type_synonym 'a res = "fault + 'a"

definition rbind :: "'a res \<Rightarrow> ('a \<Rightarrow> 'b res) \<Rightarrow> 'b res" where
  "rbind m f = (case m of Inl e \<Rightarrow> Inl e | Inr x \<Rightarrow> f x)"

definition rassert :: "bool \<Rightarrow> string \<Rightarrow> unit res" where
  "rassert c msg = (if c then Inr () else Inl (Fatal msg))"

lemma rbind_simps [simp, res_simps]:
  "rbind (Inl e) f = Inl e" "rbind (Inr x) f = f x"
  by (simp_all add: rbind_def)

lemma rbind_Inr_iff [res_simps]: "rbind m f = Inr y \<longleftrightarrow> (\<exists>x. m = Inr x \<and> f x = Inr y)"
  by (cases m) auto

lemma rbind_Inl_iff [res_simps]:
  "rbind m f = Inl e \<longleftrightarrow> m = Inl e \<or> (\<exists>x. m = Inr x \<and> f x = Inl e)"
  by (cases m) auto

lemma rbind_assoc: "rbind (rbind m f) g = rbind m (\<lambda>x. rbind (f x) g)"
  by (cases m) auto

lemma rassert_Inr_iff [res_simps]: "rassert c msg = Inr u \<longleftrightarrow> c"
  by (simp add: rassert_def)

lemma rassert_Inl_iff [res_simps]: "rassert c msg = Inl e \<longleftrightarrow> \<not> c \<and> e = Fatal msg"
  by (auto simp: rassert_def)

lemma rassert_True [simp]: "rassert True msg = Inr ()"
  by (simp add: rassert_def)

text \<open>
  The loop \<^verbatim>\<open>for (i = ...) body(i)\<close> over the indices \<open>is\<close>, left at the first fault of
  the body.
\<close>

fun rfor :: "('i \<Rightarrow> 's \<Rightarrow> 's res) \<Rightarrow> 'i list \<Rightarrow> 's \<Rightarrow> 's res" where
  "rfor body [] s = Inr s"
| "rfor body (i # is) s = rbind (body i s) (rfor body is)"

lemma rfor_Nil_fun [simp]: "rfor body [] = Inr"
  by (rule ext) simp

lemma rfor_append: "rfor body (is @ js) s = rbind (rfor body is s) (rfor body js)"
  by (induction "is" arbitrary: s) (auto simp: rbind_def split: sum.splits)

lemma rfor_cong:
  "(\<And>i s. i \<in> set is \<Longrightarrow> f i s = g i s) \<Longrightarrow> rfor f is s = rfor g is s"
  by (induction "is" arbitrary: s) (auto simp: rbind_def split: sum.splits)

lemma rfor_Inr:
  "(\<And>i s. i \<in> set is \<Longrightarrow> f i s = Inr (g i s)) \<Longrightarrow> rfor f is s = Inr (fold g is s)"
  by (induction "is" arbitrary: s) auto

lemma rfor_inv:
  assumes "rfor body is s = Inr s'" "P s"
    and "\<And>i s s'. i \<in> set is \<Longrightarrow> P s \<Longrightarrow> body i s = Inr s' \<Longrightarrow> P s'"
  shows "P s'"
  using assms
proof (induction "is" arbitrary: s)
  case (Cons i "is")
  then obtain s1 where "body i s = Inr s1" "rfor body is s1 = Inr s'"
    by (auto simp: rbind_Inr_iff)
  with Cons show ?case by (metis list.set_intros)
qed simp

lemma rfor_total:
  assumes "P s" and "\<And>i s. i \<in> set is \<Longrightarrow> P s \<Longrightarrow> \<exists>s'. body i s = Inr s' \<and> P s'"
  shows "\<exists>s'. rfor body is s = Inr s' \<and> P s'"
  using assms
proof (induction "is" arbitrary: s)
  case (Cons i "is")
  then obtain s1 where "body i s = Inr s1" "P s1" by (metis list.set_intros(1))
  with Cons show ?case by (metis list.set_intros(2) rbind_simps(2) rfor.simps(2))
qed simp

lemma rfor_upt:
  assumes "P 0 s" and "\<And>i s. i < n \<Longrightarrow> P i s \<Longrightarrow> \<exists>s'. body i s = Inr s' \<and> P (Suc i) s'"
  shows "\<exists>s'. rfor body [0..<n] s = Inr s' \<and> P n s'"
  using assms(2)
proof (induction n)
  case 0
  with assms(1) show ?case by simp
next
  case (Suc n)
  then obtain s1 where 1: "rfor body [0..<n] s = Inr s1" "P n s1" by (metis less_SucI)
  obtain s2 where "body n s1 = Inr s2" "P (Suc n) s2" using Suc.prems [OF _ 1(2)] by auto
  with 1 show ?case by (simp add: rfor_append)
qed

lemma rfor_nth: "rfor (\<lambda>i. g (xs ! i)) [0..<length xs] s = rfor g xs s"
proof (induction xs rule: rev_induct)
  case (snoc x xs)
  have "rfor (\<lambda>i. g ((xs @ [x]) ! i)) [0..<length xs] s = rfor (\<lambda>i. g (xs ! i)) [0..<length xs] s"
    by (rule rfor_cong) (simp add: nth_append)
  with snoc show ?case by (cases "rfor g xs s") (simp_all add: rfor_append)
qed simp

lemma rfor_filter: "rfor (\<lambda>x s. if P x then g x s else Inr s) xs s = rfor g (filter P xs) s"
  by (induction xs arbitrary: s) (auto simp: rbind_def split: sum.splits)

section \<open>Scanning loops\<close>

text \<open>
  The first index in \<open>[i, n)\<close> where \<open>P\<close> holds: the loop
  \<^verbatim>\<open>for (; i < n; i++) if (P(i)) break;\<close>, \<open>None\<close> when it runs to the end.
\<close>

function scan_from :: "(nat \<Rightarrow> bool) \<Rightarrow> nat \<Rightarrow> nat \<Rightarrow> nat option" where
  "scan_from P i n = (if i < n then (if P i then Some i else scan_from P (Suc i) n) else None)"
  by pat_completeness auto
termination
  by (relation "measure (\<lambda>(P, i, n). n - i)") auto

declare scan_from.simps [simp del]

lemma scan_from_Some_iff:
  "scan_from P i n = Some k \<longleftrightarrow> i \<le> k \<and> k < n \<and> P k \<and> (\<forall>j. i \<le> j \<and> j < k \<longrightarrow> \<not> P j)"
proof (induction P i n rule: scan_from.induct)
  case (1 P i n)
  show ?case
  proof (cases "i < n \<and> \<not> P i")
    case True
    then have "scan_from P i n = scan_from P (Suc i) n"
      by (simp add: scan_from.simps)
    with True 1 show ?thesis
      by (auto simp: Suc_le_eq) (metis le_neq_implies_less)
  next
    case False
    then show ?thesis
      by (auto simp: scan_from.simps [of P i n] not_less)
  qed
qed

lemma scan_from_None_iff:
  "scan_from P i n = None \<longleftrightarrow> (\<forall>j. i \<le> j \<and> j < n \<longrightarrow> \<not> P j)"
proof (induction P i n rule: scan_from.induct)
  case (1 P i n)
  show ?case
  proof (cases "i < n \<and> \<not> P i")
    case True
    then have "scan_from P i n = scan_from P (Suc i) n"
      by (simp add: scan_from.simps)
    with True 1 show ?thesis
      by (auto simp: Suc_le_eq) (metis le_neq_implies_less)
  next
    case False
    then show ?thesis
      by (auto simp: scan_from.simps [of P i n])
  qed
qed

lemma scan_from_ex: "i \<le> k \<Longrightarrow> k < n \<Longrightarrow> P k \<Longrightarrow> \<exists>j. scan_from P i n = Some j"
  using scan_from_None_iff [of P i n] by (cases "scan_from P i n") auto

lemma scan_from_cong:
  "(\<And>j. i \<le> j \<Longrightarrow> j < n \<Longrightarrow> P j = Q j) \<Longrightarrow> scan_from P i n = scan_from Q i n"
  by (induction P i n rule: scan_from.induct) (simp add: scan_from.simps)

lemma find_map: "find P (map f xs) = map_option f (find (P \<circ> f) xs)"
  by (induction xs) auto

lemma find_SomeD: "find P xs = Some x \<Longrightarrow> x \<in> set xs \<and> P x"
  by (auto simp: find_Some_iff)

lemma find_unique:
  "x \<in> set xs \<Longrightarrow> P x \<Longrightarrow> (\<And>y. y \<in> set xs \<Longrightarrow> P y \<Longrightarrow> y = x) \<Longrightarrow> find P xs = Some x"
proof (induction xs)
  case (Cons y ys)
  show ?case
  proof (cases "P y")
    case True
    with Cons.prems(3) have "y = x" by simp
    with True show ?thesis by simp
  next
    case False
    with Cons.prems(1,2) have "x \<in> set ys" by auto
    then have "find P ys = Some x"
      by (rule Cons.IH) (use Cons.prems(2,3) in \<open>auto intro: Cons.prems(3)\<close>)
    with False show ?thesis by simp
  qed
qed simp

section \<open>Byte-addressed memory\<close>

type_synonym addr = m_uint32
type_synonym mem = "addr \<Rightarrow> m_uint8"

text \<open>The \<open>n\<close> bytes from \<open>a\<close>, where addresses wrap at \<open>2 ^ 32\<close>.\<close>

definition in_range :: "addr \<Rightarrow> addr \<Rightarrow> nat \<Rightarrow> bool" where
  "in_range x a n \<longleftrightarrow> unat (x - a) < n"

definition memset :: "mem \<Rightarrow> addr \<Rightarrow> m_uint8 \<Rightarrow> nat \<Rightarrow> mem" where
  "memset m a v n = (\<lambda>x. if in_range x a n then v else m x)"

definition memcpy :: "mem \<Rightarrow> addr \<Rightarrow> addr \<Rightarrow> nat \<Rightarrow> mem" where
  "memcpy m dst src n = (\<lambda>x. if in_range x dst n then m (src + (x - dst)) else m x)"

definition store_bytes :: "mem \<Rightarrow> addr \<Rightarrow> m_uint8 list \<Rightarrow> mem" where
  "store_bytes m a bs = (\<lambda>x. if in_range x a (length bs) then bs ! unat (x - a) else m x)"

definition load_bytes :: "mem \<Rightarrow> addr \<Rightarrow> nat \<Rightarrow> m_uint8 list" where
  "load_bytes m a n = map (\<lambda>i. m (a + of_nat i)) [0..<n]"

lemma length_load_bytes [simp]: "length (load_bytes m a n) = n"
  by (simp add: load_bytes_def)

lemma nth_load_bytes [simp]: "i < n \<Longrightarrow> load_bytes m a n ! i = m (a + of_nat i)"
  by (simp add: load_bytes_def)

lemma memcpy_outside [mem_simps]: "\<not> in_range x dst n \<Longrightarrow> memcpy m dst src n x = m x"
  by (simp add: memcpy_def)

lemma memcpy_inside [mem_simps]:
  "in_range x dst n \<Longrightarrow> memcpy m dst src n x = m (src + (x - dst))"
  by (simp add: memcpy_def)

lemma memset_outside [mem_simps]: "\<not> in_range x a n \<Longrightarrow> memset m a v n x = m x"
  by (simp add: memset_def)

lemma memset_inside [mem_simps]: "in_range x a n \<Longrightarrow> memset m a v n x = v"
  by (simp add: memset_def)

lemma store_bytes_outside [mem_simps]:
  "\<not> in_range x a (length bs) \<Longrightarrow> store_bytes m a bs x = m x"
  by (simp add: store_bytes_def)

lemma store_bytes_inside [mem_simps]:
  "in_range x a (length bs) \<Longrightarrow> store_bytes m a bs x = bs ! unat (x - a)"
  by (simp add: store_bytes_def)

lemma in_range_shift: "in_range (a + d) a n \<longleftrightarrow> unat d < n"
  by (simp add: in_range_def)

lemma unat_of_nat_small: "i < 2 ^ 32 \<Longrightarrow> unat (of_nat i :: 32 word) = i"
  by (simp add: unat_of_nat take_bit_nat_eq_self)

lemma load_store_bytes:
  assumes "length bs \<le> 2 ^ 32"
  shows "load_bytes (store_bytes m a bs) a (length bs) = bs"
proof (rule nth_equalityI)
  fix i assume "i < length (load_bytes (store_bytes m a bs) a (length bs))"
  then have i: "i < length bs" by simp
  with assms have "unat (of_nat i :: 32 word) = i"
    by (intro unat_of_nat_small) linarith
  with i show "load_bytes (store_bytes m a bs) a (length bs) ! i = bs ! i"
    by (simp add: store_bytes_def in_range_def)
qed simp

text \<open>Little-endian 32-bit words in memory, as the RISC-V core stores them.\<close>

definition bytes32 :: "m_uint32 \<Rightarrow> m_uint8 list" where
  "bytes32 w = [ucast w, ucast (drop_bit 8 w), ucast (drop_bit 16 w), ucast (drop_bit 24 w)]"

definition le32 :: "m_uint8 \<Rightarrow> m_uint8 \<Rightarrow> m_uint8 \<Rightarrow> m_uint8 \<Rightarrow> m_uint32" where
  "le32 a b c d = ucast a OR push_bit 8 (ucast b) OR push_bit 16 (ucast c) OR push_bit 24 (ucast d)"

lemma length_bytes32 [simp]: "length (bytes32 w) = 4"
  by (simp add: bytes32_def)

lemma le32_bytes32:
  "le32 (ucast w) (ucast (drop_bit 8 w)) (ucast (drop_bit 16 w)) (ucast (drop_bit 24 w)) = w"
proof (rule bit_word_eqI)
  fix n assume n: "n < LENGTH(32)"
  consider "n < 8" | "8 \<le> n" "n < 16" | "16 \<le> n" "n < 24" | "24 \<le> n" by linarith
  then show "bit (le32 (ucast w) (ucast (drop_bit 8 w)) (ucast (drop_bit 16 w)) (ucast (drop_bit 24 w))) n
      = bit w n"
    using n by cases (auto simp: le32_def bit_or_iff bit_push_bit_iff bit_ucast_iff bit_drop_bit_eq)
qed

lemma byte_bit_beyond: "8 \<le> n \<Longrightarrow> \<not> bit (a :: m_uint8) n"
  by (auto dest: bit_imp_le_length)

lemma bytes32_le32: "bytes32 (le32 a b c d) = [a, b, c, d]"
  by (auto intro!: bit_word_eqI
      simp: bytes32_def le32_def bit_or_iff bit_push_bit_iff bit_ucast_iff bit_drop_bit_eq
        byte_bit_beyond)

definition load_u32 :: "mem \<Rightarrow> addr \<Rightarrow> m_uint32" where
  "load_u32 m a = le32 (m a) (m (a + 1)) (m (a + 2)) (m (a + 3))"

definition store_u32 :: "mem \<Rightarrow> addr \<Rightarrow> m_uint32 \<Rightarrow> mem" where
  "store_u32 m a w = store_bytes m a (bytes32 w)"

lemma load_store_u32 [mem_simps]: "load_u32 (store_u32 m a w) a = w"
  by (simp add: load_u32_def store_u32_def store_bytes_def in_range_def bytes32_def le32_bytes32)

text \<open>
  Ranges of one page at a page-aligned address: two such ranges are equal or disjoint, so
  membership is equality of page numbers.
\<close>

definition page_no :: "addr \<Rightarrow> nat" where
  "page_no x = unat x div 4096"

definition aligned :: "addr \<Rightarrow> bool" where
  "aligned a \<longleftrightarrow> unat a mod 4096 = 0"

lemma aligned_obtain:
  assumes "aligned a"
  obtains k where "unat a = 4096 * k" "k < 1048576"
proof -
  obtain k where k: "unat a = 4096 * k" using assms by (auto simp: aligned_def)
  moreover have "k < 1048576" using k unsigned_less [of a, where ?'a = nat] by simp
  ultimately show ?thesis by (rule that)
qed

lemma in_page_iff:
  assumes "aligned a"
  shows "in_range x a 4096 \<longleftrightarrow> page_no x = page_no a"
proof -
  obtain k where k: "unat a = 4096 * k" "k < 1048576" using assms by (rule aligned_obtain)
  have x: "unat x < 4294967296" using unsigned_less [of x, where ?'a = nat] by simp
  show ?thesis
  proof (cases "unat a \<le> unat x")
    case True
    then have "unat (x - a) = unat x - 4096 * k"
      using k by (simp add: unat_sub_if')
    moreover have "unat x - 4096 * k < 4096 \<longleftrightarrow> unat x div 4096 = k"
      using True k(1) by (auto simp: div_nat_eqI)
    ultimately show ?thesis
      by (simp add: in_range_def page_no_def k)
  next
    case False
    then have "unat (x - a) = unat x + 4294967296 - 4096 * k"
      using k by (simp add: unat_sub_if')
    moreover have "unat x div 4096 < k" using False k(1) by (simp add: less_mult_imp_div_less mult.commute)
    ultimately show ?thesis
      using k x by (auto simp: in_range_def page_no_def)
  qed
qed

lemma page_no_eq_aligned: "aligned a \<Longrightarrow> aligned b \<Longrightarrow> page_no a = page_no b \<longleftrightarrow> a = b"
  by (auto simp: aligned_def page_no_def word_unat_eq_iff mod_eq_0_iff_dvd elim!: dvdE)

section \<open>Constants of library/egos.h\<close>

definition PAGE_SIZE :: nat where "PAGE_SIZE = 4096"
definition QUANTUM :: m_uint32 where "QUANTUM = 0x100000"
definition MAX_NPROCESS :: nat where "MAX_NPROCESS = 16"

lemma sint_unat:
  assumes "unat (w :: m_uint32) < 2 ^ 31"
  shows "sint w = int (unat w)"
proof -
  have "uint w = int (unat w)" "unat w < 2147483648" using assms by simp_all
  then have "uint w < 2147483648" by linarith
  moreover have "- 2147483648 \<le> uint w" using uint_ge_0 [of w] by linarith
  ultimately show ?thesis using signed_take_bit_int_eq_self [of 31 "uint w"] by (simp add: sint_uint)
qed

end
