(* ===== verification/Uip_Base.thy ===== *)
theory Uip_Base
  imports Egos_Prelude
begin

text \<open>
  library/uip/uip.h, uipopt.h, uip-conf.h and the first part of uip.c: the state of the TCP/IP
  stack, the fields of the packet in \<^verbatim>\<open>uip_buf\<close>, 32-bit addition on byte arrays and the
  Internet checksum.

  The build has a little-endian processor, IPv4, no UDP, no reassembly, active opens, statistics
  and no logging. A 16-bit field of a packet is read and written as the processor does, low byte
  first, so ports and addresses are kept in network byte order. Pointers into \<^verbatim>\<open>uip_buf\<close> are
  offsets, the pointer \<^verbatim>\<open>uip_conn\<close> is an index of \<^verbatim>\<open>uip_conns\<close> or nothing. The
  temporaries \<^verbatim>\<open>c\<close>, \<^verbatim>\<open>opt\<close>, \<^verbatim>\<open>tmp16\<close> and \<^verbatim>\<open>uip_acc32\<close>, which are always
  assigned before they are read, are local values. The application state \<open>'a\<close> of a connection is
  a parameter.
\<close>

named_theorems uip_consts \<open>numeric constants of the uIP stack\<close>

section \<open>Constants\<close>

definition UIP_BUFSIZE :: nat where [uip_consts]: "UIP_BUFSIZE = 420"
definition UIP_LLH_LEN :: nat where [uip_consts]: "UIP_LLH_LEN = 14"
definition UIP_IPH_LEN :: nat where [uip_consts]: "UIP_IPH_LEN = 20"
definition UIP_TCPH_LEN :: nat where [uip_consts]: "UIP_TCPH_LEN = 20"
definition UIP_IPTCPH_LEN :: nat where [uip_consts]: "UIP_IPTCPH_LEN = UIP_TCPH_LEN + UIP_IPH_LEN"
definition UIP_TCP_MSS :: m_uint16 where [uip_consts]: "UIP_TCP_MSS = of_nat (UIP_BUFSIZE - UIP_LLH_LEN - UIP_IPTCPH_LEN)"
definition UIP_RECEIVE_WINDOW :: m_uint16 where [uip_consts]: "UIP_RECEIVE_WINDOW = UIP_TCP_MSS"
definition UIP_CONNS :: nat where [uip_consts]: "UIP_CONNS = 40"
definition UIP_LISTENPORTS :: nat where [uip_consts]: "UIP_LISTENPORTS = 40"
definition UIP_TTL :: m_uint8 where [uip_consts]: "UIP_TTL = 64"
definition UIP_RTO :: m_uint8 where [uip_consts]: "UIP_RTO = 3"
definition UIP_MAXRTX :: m_uint8 where [uip_consts]: "UIP_MAXRTX = 8"
definition UIP_MAXSYNRTX :: m_uint8 where [uip_consts]: "UIP_MAXSYNRTX = 5"
definition UIP_TIME_WAIT_TIMEOUT :: m_uint8 where [uip_consts]: "UIP_TIME_WAIT_TIMEOUT = 120"

definition UIP_PROTO_ICMP :: m_uint8 where [uip_consts]: "UIP_PROTO_ICMP = 1"
definition UIP_PROTO_TCP :: m_uint8 where [uip_consts]: "UIP_PROTO_TCP = 6"

definition TCP_FIN :: m_uint8 where [uip_consts]: "TCP_FIN = 0x01"
definition TCP_SYN :: m_uint8 where [uip_consts]: "TCP_SYN = 0x02"
definition TCP_RST :: m_uint8 where [uip_consts]: "TCP_RST = 0x04"
definition TCP_PSH :: m_uint8 where [uip_consts]: "TCP_PSH = 0x08"
definition TCP_ACK :: m_uint8 where [uip_consts]: "TCP_ACK = 0x10"
definition TCP_URG :: m_uint8 where [uip_consts]: "TCP_URG = 0x20"
definition TCP_CTL :: m_uint8 where [uip_consts]: "TCP_CTL = 0x3f"

definition TCP_OPT_END :: m_uint8 where [uip_consts]: "TCP_OPT_END = 0"
definition TCP_OPT_NOOP :: m_uint8 where [uip_consts]: "TCP_OPT_NOOP = 1"
definition TCP_OPT_MSS :: m_uint8 where [uip_consts]: "TCP_OPT_MSS = 2"
definition TCP_OPT_MSS_LEN :: m_uint8 where [uip_consts]: "TCP_OPT_MSS_LEN = 4"

definition ICMP_ECHO_REPLY :: m_uint8 where [uip_consts]: "ICMP_ECHO_REPLY = 0"
definition ICMP_ECHO :: m_uint8 where [uip_consts]: "ICMP_ECHO = 8"

text \<open>The flags between the stack and the application, and the reasons to call uip_process.\<close>

definition UIP_ACKDATA :: m_uint8 where [uip_consts]: "UIP_ACKDATA = 1"
definition UIP_NEWDATA :: m_uint8 where [uip_consts]: "UIP_NEWDATA = 2"
definition UIP_REXMIT :: m_uint8 where [uip_consts]: "UIP_REXMIT = 4"
definition UIP_POLL :: m_uint8 where [uip_consts]: "UIP_POLL = 8"
definition UIP_CLOSE :: m_uint8 where [uip_consts]: "UIP_CLOSE = 16"
definition UIP_ABORT :: m_uint8 where [uip_consts]: "UIP_ABORT = 32"
definition UIP_CONNECTED :: m_uint8 where [uip_consts]: "UIP_CONNECTED = 64"
definition UIP_TIMEDOUT :: m_uint8 where [uip_consts]: "UIP_TIMEDOUT = 128"

definition UIP_DATA :: m_uint8 where [uip_consts]: "UIP_DATA = 1"
definition UIP_TIMER :: m_uint8 where [uip_consts]: "UIP_TIMER = 2"
definition UIP_POLL_REQUEST :: m_uint8 where [uip_consts]: "UIP_POLL_REQUEST = 3"

text \<open>The states of a connection.\<close>

definition UIP_CLOSED :: m_uint8 where [uip_consts]: "UIP_CLOSED = 0"
definition UIP_SYN_RCVD :: m_uint8 where [uip_consts]: "UIP_SYN_RCVD = 1"
definition UIP_SYN_SENT :: m_uint8 where [uip_consts]: "UIP_SYN_SENT = 2"
definition UIP_ESTABLISHED :: m_uint8 where [uip_consts]: "UIP_ESTABLISHED = 3"
definition UIP_FIN_WAIT_1 :: m_uint8 where [uip_consts]: "UIP_FIN_WAIT_1 = 4"
definition UIP_FIN_WAIT_2 :: m_uint8 where [uip_consts]: "UIP_FIN_WAIT_2 = 5"
definition UIP_CLOSING :: m_uint8 where [uip_consts]: "UIP_CLOSING = 6"
definition UIP_TIME_WAIT :: m_uint8 where [uip_consts]: "UIP_TIME_WAIT = 7"
definition UIP_LAST_ACK :: m_uint8 where [uip_consts]: "UIP_LAST_ACK = 8"
definition UIP_TS_MASK :: m_uint8 where [uip_consts]: "UIP_TS_MASK = 15"
definition UIP_STOPPED :: m_uint8 where [uip_consts]: "UIP_STOPPED = 16"

section \<open>State\<close>

type_synonym uip_ipaddr_t = "m_uint16 \<times> m_uint16"
type_synonym seqno = "m_uint8 \<times> m_uint8 \<times> m_uint8 \<times> m_uint8"

record 'a uip_conn =
  ripaddr :: uip_ipaddr_t
  lport :: m_uint16
  rport :: m_uint16
  rcv_nxt :: seqno
  snd_nxt :: seqno
  c_len :: m_uint16
  mss :: m_uint16
  initialmss :: m_uint16
  sa :: m_uint8
  sv :: m_uint8
  rto :: m_uint8
  tcpstateflags :: m_uint8
  timer :: m_uint8
  nrtx :: m_uint8
  appstate :: 'a

record uip_stats =
  ip_drop :: m_uint16
  ip_recv :: m_uint16
  ip_sent :: m_uint16
  ip_vhlerr :: m_uint16
  ip_hblenerr :: m_uint16
  ip_lblenerr :: m_uint16
  ip_fragerr :: m_uint16
  ip_chkerr :: m_uint16
  ip_protoerr :: m_uint16
  icmp_drop :: m_uint16
  icmp_recv :: m_uint16
  icmp_sent :: m_uint16
  icmp_typeerr :: m_uint16
  tcp_drop :: m_uint16
  tcp_recv :: m_uint16
  tcp_sent :: m_uint16
  tcp_chkerr :: m_uint16
  tcp_ackerr :: m_uint16
  tcp_rst :: m_uint16
  tcp_rexmit :: m_uint16
  tcp_syndrop :: m_uint16
  tcp_synrst :: m_uint16

record 'a uip =
  uip_hostaddr :: uip_ipaddr_t
  uip_buf :: "m_uint8 list"
  uip_appdata :: nat
  uip_sappdata :: nat
  uip_len :: m_uint16
  uip_slen :: m_uint16
  uip_flags :: m_uint8
  cur_conn :: "nat option"
  uip_conns :: "'a uip_conn list"
  uip_listenports :: "m_uint16 list"
  ipid :: m_uint16
  iss :: seqno
  lastport :: m_uint16
  uip_stat :: uip_stats

definition UIP_STAT :: "((m_uint16 \<Rightarrow> m_uint16) \<Rightarrow> uip_stats \<Rightarrow> uip_stats) \<Rightarrow> 'a uip \<Rightarrow> 'a uip" where
  "UIP_STAT counter s = s\<lparr>uip_stat := counter (\<lambda>n. n + 1) (uip_stat s)\<rparr>"

definition set_flags :: "m_uint8 \<Rightarrow> 'a uip \<Rightarrow> 'a uip" where "set_flags f s = s\<lparr>uip_flags := f\<rparr>"
definition set_len :: "m_uint16 \<Rightarrow> 'a uip \<Rightarrow> 'a uip" where "set_len n s = s\<lparr>uip_len := n\<rparr>"
definition set_slen :: "m_uint16 \<Rightarrow> 'a uip \<Rightarrow> 'a uip" where "set_slen n s = s\<lparr>uip_slen := n\<rparr>"

definition conn_at :: "nat \<Rightarrow> 'a uip \<Rightarrow> 'a uip_conn" where "conn_at i s = uip_conns s ! i"

definition upd_conn :: "nat \<Rightarrow> ('a uip_conn \<Rightarrow> 'a uip_conn) \<Rightarrow> 'a uip \<Rightarrow> 'a uip" where
  "upd_conn i f s = s\<lparr>uip_conns := (uip_conns s)[i := f (uip_conns s ! i)]\<rparr>"

section \<open>Fields of the packet\<close>

definition htons :: "m_uint16 \<Rightarrow> m_uint16" where
  "htons n = push_bit 8 n OR drop_bit 8 n"

definition le16 :: "m_uint8 \<Rightarrow> m_uint8 \<Rightarrow> m_uint16" where
  "le16 b0 b1 = ucast b0 OR push_bit 8 (ucast b1)"

definition be16 :: "m_uint8 \<Rightarrow> m_uint8 \<Rightarrow> m_uint16" where
  "be16 b0 b1 = push_bit 8 (ucast b0) + ucast b1"

definition lo8 :: "m_uint16 \<Rightarrow> m_uint8" where "lo8 w = ucast w"
definition hi8 :: "m_uint16 \<Rightarrow> m_uint8" where "hi8 w = ucast (drop_bit 8 w)"

text \<open>A byte and a 16-bit field at an offset of the IP header, and a sequence number.\<close>

definition get8 :: "nat \<Rightarrow> 'a uip \<Rightarrow> m_uint8" where "get8 p s = uip_buf s ! (UIP_LLH_LEN + p)"

definition put8 :: "nat \<Rightarrow> m_uint8 \<Rightarrow> 'a uip \<Rightarrow> 'a uip" where
  "put8 p v s = s\<lparr>uip_buf := (uip_buf s)[UIP_LLH_LEN + p := v]\<rparr>"

definition get16 :: "nat \<Rightarrow> 'a uip \<Rightarrow> m_uint16" where "get16 p s = le16 (get8 p s) (get8 (p + 1) s)"
definition put16 :: "nat \<Rightarrow> m_uint16 \<Rightarrow> 'a uip \<Rightarrow> 'a uip" where "put16 p v s = put8 (p + 1) (hi8 v) (put8 p (lo8 v) s)"

definition get_seq :: "nat \<Rightarrow> 'a uip \<Rightarrow> seqno" where
  "get_seq p s = (get8 p s, get8 (p + 1) s, get8 (p + 2) s, get8 (p + 3) s)"

definition put_seq :: "nat \<Rightarrow> seqno \<Rightarrow> 'a uip \<Rightarrow> 'a uip" where
  "put_seq p v s = (case v of (a, b, c, d) \<Rightarrow> put8 (p + 3) d (put8 (p + 2) c (put8 (p + 1) b (put8 p a s))))"

definition get_addr :: "nat \<Rightarrow> 'a uip \<Rightarrow> uip_ipaddr_t" where "get_addr p s = (get16 p s, get16 (p + 2) s)"
definition put_addr :: "nat \<Rightarrow> uip_ipaddr_t \<Rightarrow> 'a uip \<Rightarrow> 'a uip" where
  "put_addr p a s = put16 (p + 2) (snd a) (put16 p (fst a) s)"

text \<open>The offsets of the fields of struct uip_tcpip_hdr and struct uip_icmpip_hdr.\<close>

definition VHL :: nat where [uip_consts]: "VHL = 0"
definition TOS :: nat where [uip_consts]: "TOS = 1"
definition LEN :: nat where [uip_consts]: "LEN = 2"
definition IPID :: nat where [uip_consts]: "IPID = 4"
definition IPOFFSET :: nat where [uip_consts]: "IPOFFSET = 6"
definition TTL :: nat where [uip_consts]: "TTL = 8"
definition PROTO :: nat where [uip_consts]: "PROTO = 9"
definition IPCHKSUM :: nat where [uip_consts]: "IPCHKSUM = 10"
definition SRCIPADDR :: nat where [uip_consts]: "SRCIPADDR = 12"
definition DESTIPADDR :: nat where [uip_consts]: "DESTIPADDR = 16"
definition SRCPORT :: nat where [uip_consts]: "SRCPORT = 20"
definition DESTPORT :: nat where [uip_consts]: "DESTPORT = 22"
definition SEQNO :: nat where [uip_consts]: "SEQNO = 24"
definition ACKNO :: nat where [uip_consts]: "ACKNO = 28"
definition TCPOFFSET :: nat where [uip_consts]: "TCPOFFSET = 32"
definition FLAGS :: nat where [uip_consts]: "FLAGS = 33"
definition WND :: nat where [uip_consts]: "WND = 34"
definition TCPCHKSUM :: nat where [uip_consts]: "TCPCHKSUM = 36"
definition URGP :: nat where [uip_consts]: "URGP = 38"
definition OPTDATA :: nat where [uip_consts]: "OPTDATA = 40"
definition ICMP_TYPE :: nat where [uip_consts]: "ICMP_TYPE = 20"
definition ICMPCHKSUM :: nat where [uip_consts]: "ICMPCHKSUM = 22"

text \<open>The length field of the IP header.\<close>

definition ip_length :: "'a uip \<Rightarrow> m_uint16" where "ip_length s = be16 (get8 LEN s) (get8 (LEN + 1) s)"

section \<open>Addition and checksums\<close>

definition uip_add32 :: "seqno \<Rightarrow> m_uint16 \<Rightarrow> seqno" where
  "uip_add32 op32 op16 = (case op32 of (o0, o1, o2, o3) \<Rightarrow>
     let acc3 = o3 + lo8 op16; acc2 = o2 + hi8 op16;
         carry = (acc2 < hi8 op16);
         acc1 = (if carry then o1 + 1 else o1);
         acc0 = (if carry \<and> acc1 = 0 then o0 + 1 else o0);
         carry = (acc3 < lo8 op16);
         acc2 = (if carry then acc2 + 1 else acc2);
         acc1' = (if carry \<and> acc2 = 0 then acc1 + 1 else acc1);
         acc0' = (if carry \<and> acc2 = 0 \<and> acc1' = 0 then acc0 + 1 else acc0)
     in (acc0', acc1', acc2, acc3))"

definition add_carry :: "m_uint16 \<Rightarrow> m_uint16 \<Rightarrow> m_uint16" where
  "add_carry acc t = (let s = acc + t in if s < t then s + 1 else s)"

fun chksum :: "m_uint16 \<Rightarrow> m_uint8 list \<Rightarrow> m_uint16" where
  "chksum acc (b0 # b1 # bs) = chksum (add_carry acc (be16 b0 b1)) bs"
| "chksum acc [b0] = add_carry acc (be16 b0 0)"
| "chksum acc [] = acc"

text \<open>The bytes of \<^verbatim>\<open>uip_buf\<close> that a call of \<^verbatim>\<open>chksum\<close> reads.\<close>

definition buf_bytes :: "nat \<Rightarrow> nat \<Rightarrow> 'a uip \<Rightarrow> m_uint8 list res" where
  "buf_bytes off n s = (if off + n \<le> length (uip_buf s) then Inr (take n (drop off (uip_buf s))) else Inl Out_of_bounds)"

definition uip_chksum :: "m_uint8 list \<Rightarrow> m_uint16" where "uip_chksum data = htons (chksum 0 data)"

definition uip_ipchksum :: "'a uip \<Rightarrow> m_uint16 res" where
  "uip_ipchksum s = rbind (buf_bytes UIP_LLH_LEN UIP_IPH_LEN s) (\<lambda>bs.
     let acc = chksum 0 bs in Inr (if acc = 0 then 0xffff else htons acc))"

definition upper_layer_chksum :: "m_uint8 \<Rightarrow> 'a uip \<Rightarrow> m_uint16 res" where
  "upper_layer_chksum proto s =
     (let upper_layer_len = ip_length s - of_nat UIP_IPH_LEN;
          acc = upper_layer_len + ucast proto
      in rbind (buf_bytes (UIP_LLH_LEN + SRCIPADDR) 8 s) (\<lambda>addrs.
         let acc = chksum acc addrs
         in rbind (buf_bytes (UIP_IPH_LEN + UIP_LLH_LEN) (unat upper_layer_len) s) (\<lambda>seg.
            let acc = chksum acc seg in Inr (if acc = 0 then 0xffff else htons acc))))"

definition uip_tcpchksum :: "'a uip \<Rightarrow> m_uint16 res" where
  "uip_tcpchksum s = upper_layer_chksum UIP_PROTO_TCP s"

section \<open>Sequence numbers are 32-bit numbers\<close>

definition seq_val :: "seqno \<Rightarrow> m_uint32" where
  "seq_val q = (case q of (a, b, c, d) \<Rightarrow>
     of_nat (unat a * 16777216 + unat b * 65536 + unat c * 256 + unat d))"

lemma unat_lo8: "unat (lo8 n) = unat n mod 256"
  by (simp add: lo8_def unsigned_ucast_eq take_bit_eq_mod)

lemma unat_hi8: "unat (hi8 n) = unat n div 256"
proof -
  have "unat n < 65536" using unsigned_less [of n, where ?'a = nat] by simp
  then have "unat n div 256 < 256" by simp
  then show ?thesis by (simp add: hi8_def unsigned_ucast_eq unat_div_distrib take_bit_eq_mod unat_drop_bit_eq drop_bit_eq_div)
qed

lemma byte_carry:
  fixes x y :: m_uint8
  shows "x + y < y \<longleftrightarrow> 256 \<le> unat x + unat y"
    "unat (x + y) = (if 256 \<le> unat x + unat y then unat x + unat y - 256 else unat x + unat y)"
proof -
  have b: "unat x < 256" "unat y < 256"
    using unsigned_less [of x, where ?'a = nat] unsigned_less [of y, where ?'a = nat] by simp_all
  then show *: "unat (x + y) = (if 256 \<le> unat x + unat y then unat x + unat y - 256 else unat x + unat y)"
    by (simp add: unat_word_ariths mod_if)
  show "x + y < y \<longleftrightarrow> 256 \<le> unat x + unat y"
    unfolding word_less_nat_alt * using b by auto
qed

lemma byte_inc:
  fixes x :: m_uint8
  shows "x + 1 = 0 \<longleftrightarrow> unat x = 255" "unat (x + 1) = (if unat x = 255 then 0 else unat x + 1)"
proof -
  have "unat x < 256" using unsigned_less [of x, where ?'a = nat] by simp
  then show *: "unat (x + 1) = (if unat x = 255 then 0 else unat x + 1)"
    by (auto simp: unat_word_ariths mod_if)
  show "x + 1 = 0 \<longleftrightarrow> unat x = 255" by (subst word_unat_eq_iff) (simp add: *)
qed

lemma of_nat_wrap: "m = n \<or> m + 4294967296 = n \<Longrightarrow> (of_nat m :: m_uint32) = of_nat n"
proof -
  have "(of_nat 4294967296 :: m_uint32) = 0" by simp
  then show "m = n \<or> m + 4294967296 = n \<Longrightarrow> (of_nat m :: m_uint32) = of_nat n"
    by (metis add.right_neutral of_nat_add)
qed


lemma add32_nat:
  fixes a b c d n :: nat
  assumes "a < 256" "b < 256" "c < 256" "d < 256" "l < 256" "h < 256"
    "d' + (if 256 \<le> d + l then 256 else 0) = d + l" "c1 + (if 256 \<le> c + h then 256 else 0) = c + h"
    "b1 = (if 256 \<le> c + h then if b = 255 then 0 else b + 1 else b)"
    "a1 = (if 256 \<le> c + h \<and> b = 255 then if a = 255 then 0 else a + 1 else a)"
    "c' = (if 256 \<le> d + l then if c1 = 255 then 0 else c1 + 1 else c1)"
    "b' = (if 256 \<le> d + l \<and> c1 = 255 then if b1 = 255 then 0 else b1 + 1 else b1)"
    "a' = (if 256 \<le> d + l \<and> c1 = 255 \<and> b1 = 255 then if a1 = 255 then 0 else a1 + 1 else a1)"
  shows "a' * 16777216 + b' * 65536 + c' * 256 + d' = a * 16777216 + b * 65536 + c * 256 + d + (h * 256 + l) \<or>
    a' * 16777216 + b' * 65536 + c' * 256 + d' + 4294967296 = a * 16777216 + b * 65536 + c * 256 + d + (h * 256 + l)"
  using assms by (auto split: if_splits)

lemma uip_add32_val: "seq_val (uip_add32 q n) = seq_val q + ucast n"
proof -
  obtain a b c d where q: "q = (a, b, c, d)" by (cases q)
  let ?h = "hi8 n" and ?l = "lo8 n"
  define c1 where "c1 = c + ?h"
  define b1 where "b1 = (if c1 < ?h then b + 1 else b)"
  define a1 where "a1 = (if c1 < ?h \<and> b1 = 0 then a + 1 else a)"
  define d' where "d' = d + ?l"
  define c' where "c' = (if d' < ?l then c1 + 1 else c1)"
  define b' where "b' = (if d' < ?l \<and> c' = 0 then b1 + 1 else b1)"
  define a' where "a' = (if d' < ?l \<and> c' = 0 \<and> b' = 0 then a1 + 1 else a1)"
  note defs = c1_def b1_def a1_def d'_def c'_def b'_def a'_def
  have r: "uip_add32 q n = (a', b', c', d')" unfolding defs by (simp add: q uip_add32_def Let_def)
  have bd: "unat x < 256" for x :: m_uint8 using unsigned_less [of x, where ?'a = nat] by simp
  have k1: "c1 < ?h \<longleftrightarrow> 256 \<le> unat c + unat ?h" and k2: "d' < ?l \<longleftrightarrow> 256 \<le> unat d + unat ?l"
    by (simp_all add: c1_def d'_def byte_carry(1))
  have a1: "a1 = (if 256 \<le> unat c + unat ?h \<and> unat b = 255 then a + 1 else a)"
    unfolding a1_def b1_def k1 by (auto simp: byte_inc(1))
  have b': "b' = (if 256 \<le> unat d + unat ?l \<and> unat c1 = 255 then b1 + 1 else b1)"
    unfolding b'_def c'_def k2 by (auto simp: byte_inc(1))
  have a': "a' = (if 256 \<le> unat d + unat ?l \<and> unat c1 = 255 \<and> unat b1 = 255 then a1 + 1 else a1)"
    unfolding a'_def b' c'_def k2 by (auto simp: byte_inc(1))
  have "unat d' + (if 256 \<le> unat d + unat ?l then 256 else 0) = unat d + unat ?l"
    "unat c1 + (if 256 \<le> unat c + unat ?h then 256 else 0) = unat c + unat ?h"
    unfolding d'_def c1_def byte_carry(2) by simp_all
  moreover have "unat b1 = (if 256 \<le> unat c + unat ?h then if unat b = 255 then 0 else unat b + 1 else unat b)"
    unfolding b1_def k1 if_distrib [of unat] byte_inc(2) by (rule refl)
  moreover have "unat a1 = (if 256 \<le> unat c + unat ?h \<and> unat b = 255 then if unat a = 255 then 0 else unat a + 1 else unat a)"
    unfolding a1 if_distrib [of unat] byte_inc(2) by (rule refl)
  moreover have "unat c' = (if 256 \<le> unat d + unat ?l then if unat c1 = 255 then 0 else unat c1 + 1 else unat c1)"
    unfolding c'_def k2 if_distrib [of unat] byte_inc(2) by (rule refl)
  moreover have "unat b' = (if 256 \<le> unat d + unat ?l \<and> unat c1 = 255 then if unat b1 = 255 then 0 else unat b1 + 1 else unat b1)"
    unfolding b' if_distrib [of unat] byte_inc(2) by (rule refl)
  moreover have "unat a' = (if 256 \<le> unat d + unat ?l \<and> unat c1 = 255 \<and> unat b1 = 255
      then if unat a1 = 255 then 0 else unat a1 + 1 else unat a1)"
    unfolding a' if_distrib [of unat] byte_inc(2) by (rule refl)
  moreover have n: "(ucast n :: m_uint32) = of_nat (unat (hi8 n) * 256 + unat (lo8 n))"
    by (simp add: unat_lo8 unat_hi8)
  ultimately have "unat a' * 16777216 + unat b' * 65536 + unat c' * 256 + unat d' =
      unat a * 16777216 + unat b * 65536 + unat c * 256 + unat d + (unat ?h * 256 + unat ?l) \<or>
    unat a' * 16777216 + unat b' * 65536 + unat c' * 256 + unat d' + 4294967296 =
      unat a * 16777216 + unat b * 65536 + unat c * 256 + unat d + (unat ?h * 256 + unat ?l)"
    by (intro add32_nat [OF bd bd bd bd bd bd])
  then show ?thesis
    unfolding r unfolding q seq_val_def n prod.case of_nat_add [symmetric] by (rule of_nat_wrap)
qed

section \<open>The Internet checksum\<close>

lemma unat16: "unat (w :: m_uint16) < 65536"
  using unsigned_less [of w, where ?'a = nat] by simp

lemma unat_add_carry:
  "unat (add_carry x y) = (if 65536 \<le> unat x + unat y then unat x + unat y - 65535 else unat x + unat y)"
proof -
  have s: "unat (x + y) = (if 65536 \<le> unat x + unat y then unat x + unat y - 65536 else unat x + unat y)"
    using unat16 [of x] unat16 [of y] by (simp add: unat_word_ariths mod_if)
  then have c: "x + y < y \<longleftrightarrow> 65536 \<le> unat x + unat y"
    unfolding word_less_nat_alt using unat16 [of x] unat16 [of y] by auto
  have "unat (x + y + 1) = unat (x + y) + 1" if "65536 \<le> unat x + unat y"
  proof -
    have "unat (x + y) + 1 < 65536" using s that unat16 [of x] unat16 [of y] by simp
    then show ?thesis by (simp add: unat_word_ariths)
  qed
  with s c show ?thesis unfolding add_carry_def Let_def by (cases "65536 \<le> unat x + unat y") auto
qed

lemma add_carry_comm: "add_carry x y = add_carry y x"
  by (simp add: word_unat_eq_iff unat_add_carry add.commute)

lemma add_carry_0 [simp]: "add_carry x 0 = x" "add_carry 0 x = x"
  by (simp_all add: add_carry_def)

lemma add_carry_assoc: "add_carry (add_carry x y) z = add_carry x (add_carry y z)"
proof -
  have "(if 65536 \<le> (if 65536 \<le> a + b then a + b - 65535 else a + b) + c
         then (if 65536 \<le> a + b then a + b - 65535 else a + b) + c - 65535
         else (if 65536 \<le> a + b then a + b - 65535 else a + b) + c) =
        (if 65536 \<le> a + (if 65536 \<le> b + c then b + c - 65535 else b + c)
         then a + (if 65536 \<le> b + c then b + c - 65535 else b + c) - 65535
         else a + (if 65536 \<le> b + c then b + c - 65535 else b + c))"
    if "a < 65536" "b < 65536" "c < 65536" for a b c :: nat
    using that by (cases "65536 \<le> a + b"; cases "65536 \<le> b + c") auto
  then show ?thesis unfolding word_unat_eq_iff unat_add_carry using unat16 by blast
qed

lemma add_carry_left_comm: "add_carry x (add_carry y z) = add_carry y (add_carry x z)"
  by (metis add_carry_assoc add_carry_comm)

lemmas add_carry_ac = add_carry_assoc add_carry_comm add_carry_left_comm

lemma add_carry_not: "add_carry w (NOT w) = 0xffff"
proof -
  have "NOT w = 0xffff - w" by (simp add: not_eq_complement)
  moreover have "unat (0xffff - w) = 65535 - unat w"
    using unat16 [of w] by (subst unat_sub) (simp_all add: word_le_nat_alt)
  ultimately show ?thesis
    unfolding word_unat_eq_iff unat_add_carry using unat16 [of w] by simp
qed

text \<open>The 16-bit words of a list of bytes, high byte first, padded with a zero byte.\<close>

fun words16 :: "m_uint8 list \<Rightarrow> m_uint16 list" where
  "words16 (b0 # b1 # bs) = be16 b0 b1 # words16 bs"
| "words16 [b0] = [be16 b0 0]"
| "words16 [] = []"

lemma chksum_acc: "chksum acc bs = add_carry acc (chksum 0 bs)"
proof (induction bs arbitrary: acc rule: words16.induct)
  case (1 b0 b1 bs)
  have "chksum acc (b0 # b1 # bs) = add_carry (add_carry acc (be16 b0 b1)) (chksum 0 bs)" by (simp add: 1 [of "add_carry acc (be16 b0 b1)"])
  moreover have "chksum 0 (b0 # b1 # bs) = add_carry (be16 b0 b1) (chksum 0 bs)" by (simp add: 1 [of "be16 b0 b1"])
  ultimately show ?case by (simp add: add_carry_assoc)
qed simp_all

definition ones_sum :: "nat \<Rightarrow> nat" where
  "ones_sum n = (if n = 0 then 0 else (n - 1) mod 65535 + 1)"

lemma ones_sum_add:
  assumes "x < 65536"
  shows "ones_sum (x + n) = (if 65536 \<le> x + ones_sum n then x + ones_sum n - 65535 else x + ones_sum n)"
proof (cases "x = 0 \<or> n = 0")
  case False
  define k where "k = (n - 1) mod 65535"
  have k: "k < 65535" by (simp add: k_def)
  have "(x + n - 1) mod 65535 = (x + (n - 1)) mod 65535" using False by simp
  also have "\<dots> = (x + k) mod 65535" by (simp add: k_def mod_add_right_eq)
  finally have e: "(x + n - 1) mod 65535 = (x + k) mod 65535" .
  have "(x + k) mod 65535 = (if 65535 \<le> x + k then x + k - 65535 else x + k)"
    using assms k by (simp add: mod_if)
  moreover have "ones_sum n = k + 1" "ones_sum (x + n) = (x + n - 1) mod 65535 + 1"
    using False by (simp_all add: ones_sum_def k_def)
  ultimately show ?thesis using e by (cases "65535 \<le> x + k") auto
next
  case True
  have "ones_sum n < 65536" by (simp add: ones_sum_def less_Suc_eq_le)
  moreover have "ones_sum x = x" using assms by (simp add: ones_sum_def)
  ultimately show ?thesis using True assms by (auto simp: ones_sum_def)
qed

lemma chksum_spec: "unat (chksum 0 bs) = ones_sum (sum_list (map unat (words16 bs)))"
proof (induction bs rule: words16.induct)
  case (1 b0 b1 bs)
  have "chksum 0 (b0 # b1 # bs) = add_carry (be16 b0 b1) (chksum 0 bs)"
    using chksum_acc [of "be16 b0 b1" bs] by simp
  then show ?case using 1 by (simp add: unat_add_carry ones_sum_add unat16)
next
  case (2 b0)
  show ?case using unat16 [of "be16 b0 0"] by (simp add: ones_sum_def)
qed (simp add: ones_sum_def)

text \<open>Filling in a field of two bytes that was zero.\<close>

lemma chksum_fill:
  assumes "2 * k + 1 < length bs" "bs ! (2 * k) = 0" "bs ! (2 * k + 1) = 0"
  shows "chksum a (bs[2 * k := x, 2 * k + 1 := y]) = add_carry (chksum a bs) (be16 x y)"
  using assms
proof (induction k arbitrary: a bs)
  case 0
  then obtain bs' where bs: "bs = 0 # 0 # bs'"
    by (cases bs; cases "tl bs") auto
  have "be16 0 0 = 0" by (simp add: be16_def)
  then show ?case
    using chksum_acc [of "add_carry a (be16 x y)" bs'] chksum_acc [of a bs'] by (simp add: bs add_carry_ac)
next
  case (Suc k)
  then obtain b0 b1 bs' where bs: "bs = b0 # b1 # bs'"
    by (cases bs; cases "tl bs") auto
  show ?case using Suc.prems Suc.IH [of bs' "add_carry a (be16 b0 b1)"] by (simp add: bs)
qed

lemma unat_be16: "unat (be16 x y) = unat x * 256 + unat y"
proof -
  have b: "unat x < 256" "unat y < 256"
    using unsigned_less [of x, where ?'a = nat] unsigned_less [of y, where ?'a = nat] by simp_all
  then show ?thesis
    by (simp add: be16_def unat_word_ariths unsigned_push_bit_eq unsigned_ucast_eq take_bit_eq_mod push_bit_eq_mult)
qed




lemma htons_be16: "htons (be16 x y) = be16 y x"
proof -
  have "bit (htons (be16 x y)) n = bit (be16 y x) n" if "n < 16" for n
  proof -
    have "be16 a b = push_bit 8 (ucast a) OR ucast b" for a b :: m_uint8
      unfolding be16_def by (rule disjunctive_add) (auto simp: bit_simps byte_bit_beyond)
    with that show ?thesis
      by (cases "n < 8") (auto simp: htons_def bit_simps byte_bit_beyond)
  qed
  then show ?thesis by (intro bit_word_eqI) simp
qed

lemma be16_bytes: "be16 (hi8 w) (lo8 w) = w"
  by (simp add: word_unat_eq_iff unat_be16 unat_hi8 unat_lo8)

lemma not_bytes: "lo8 (NOT w) = NOT (lo8 w)" "hi8 (NOT w) = NOT (hi8 w)"
  by (rule bit_word_eqI; auto simp: lo8_def hi8_def bit_simps)+

lemma bytes_be16: "hi8 (be16 x y) = x" "lo8 (be16 x y) = y"
proof -
  have b: "unat x < 256" "unat y < 256"
    using unsigned_less [of x, where ?'a = nat] unsigned_less [of y, where ?'a = nat] by simp_all
  then show "hi8 (be16 x y) = x" "lo8 (be16 x y) = y"
    by (simp_all add: word_unat_eq_iff unat_hi8 unat_lo8 unat_be16)
qed

lemma be16_not: "be16 (NOT x) (NOT y) = NOT (be16 x y)"
  by (metis be16_bytes bytes_be16 not_bytes)

lemma htons_bytes: "lo8 (htons w) = hi8 w" "hi8 (htons w) = lo8 w"
  by (metis be16_bytes bytes_be16 htons_be16)+

text \<open>
  Sealing: the complement of the checksum of a list with a zero field, stored low byte first in
  the field, makes the checksum 0xffff.
\<close>

definition fold_sum :: "m_uint16 \<Rightarrow> m_uint16" where
  "fold_sum acc = (if acc = 0 then 0xffff else htons acc)"

lemma chksum_seal:
  assumes "2 * k + 1 < length bs" "bs ! (2 * k) = 0" "bs ! (2 * k + 1) = 0"
    and v: "v = NOT (fold_sum (chksum a bs))"
  shows "fold_sum (chksum a (bs[2 * k := lo8 v, 2 * k + 1 := hi8 v])) = 0xffff"
proof (cases "chksum a bs = 0")
  case True
  then have "lo8 v = 0" "hi8 v = 0" by (simp_all add: v fold_sum_def lo8_def hi8_def)
  then show ?thesis using chksum_fill [OF assms(1-3), of a 0 0] True by (simp add: be16_def fold_sum_def)
next
  case False
  then have "be16 (lo8 v) (hi8 v) = NOT (chksum a bs)"
    by (simp add: v fold_sum_def not_bytes htons_bytes be16_not be16_bytes)
  then show ?thesis
    using chksum_fill [OF assms(1-3), of a "lo8 v" "hi8 v"] by (simp add: add_carry_not fold_sum_def htons_def)
qed

end
