(* ===== verification/Uip.thy ===== *)
theory Uip
  imports Uip_Base
begin

text \<open>
  library/uip/uip.c: the functions on ports and connections and \<^verbatim>\<open>uip_process\<close>, one
  definition for every label the function jumps to. The application \<^verbatim>\<open>UIP_APPCALL\<close> is the
  parameter \<open>app\<close>; a jump passes the index \<open>i\<close> of the connection \<^verbatim>\<open>uip_connr\<close>.
\<close>

section \<open>Ports and connections\<close>

definition uip_init :: "'a uip \<Rightarrow> 'a uip" where
  "uip_init s = s\<lparr>uip_listenports := replicate UIP_LISTENPORTS 0,
     uip_conns := map (\<lambda>c. c\<lparr>tcpstateflags := UIP_CLOSED\<rparr>) (uip_conns s), lastport := 1024\<rparr>"

definition uip_setipid :: "m_uint16 \<Rightarrow> 'a uip \<Rightarrow> 'a uip" where "uip_setipid n s = s\<lparr>ipid := n\<rparr>"

definition uip_unlisten :: "m_uint16 \<Rightarrow> 'a uip \<Rightarrow> 'a uip" where
  "uip_unlisten port s = (case scan_from (\<lambda>c. uip_listenports s ! c = port) 0 UIP_LISTENPORTS of
     None \<Rightarrow> s | Some c \<Rightarrow> s\<lparr>uip_listenports := (uip_listenports s)[c := 0]\<rparr>)"

definition uip_listen :: "m_uint16 \<Rightarrow> 'a uip \<Rightarrow> 'a uip" where
  "uip_listen port s = (case scan_from (\<lambda>c. uip_listenports s ! c = 0) 0 UIP_LISTENPORTS of
     None \<Rightarrow> s | Some c \<Rightarrow> s\<lparr>uip_listenports := (uip_listenports s)[c := port]\<rparr>)"

text \<open>
  The loop over the connections that looks for a closed one and otherwise for the one that has
  been in TIME_WAIT longest.
\<close>

fun find_unused :: "'a uip_conn list \<Rightarrow> nat list \<Rightarrow> nat option \<Rightarrow> nat option" where
  "find_unused conns [] found = found"
| "find_unused conns (c # cs) found =
     (if tcpstateflags (conns ! c) = UIP_CLOSED then Some c
      else find_unused conns cs
        (if tcpstateflags (conns ! c) = UIP_TIME_WAIT \<and>
            (case found of None \<Rightarrow> True | Some f \<Rightarrow> timer (conns ! c) > timer (conns ! f))
         then Some c else found))"

definition port_in_use :: "'a uip_conn list \<Rightarrow> m_uint16 \<Rightarrow> bool" where
  "port_in_use conns port = list_ex (\<lambda>c. tcpstateflags c \<noteq> UIP_CLOSED \<and> lport c = htons port) conns"

definition next_port :: "m_uint16 \<Rightarrow> m_uint16" where
  "next_port p = (if p + 1 \<ge> 32000 then 4096 else p + 1)"

text \<open>The jumps back to \<^verbatim>\<open>again\<close>, which might never end.\<close>

partial_function (option) unused_port :: "'a uip_conn list \<Rightarrow> m_uint16 \<Rightarrow> m_uint16 option" where
  "unused_port conns p = (let p = next_port p in if port_in_use conns p then unused_port conns p else Some p)"

definition uip_connect :: "uip_ipaddr_t \<Rightarrow> m_uint16 \<Rightarrow> 'a uip \<Rightarrow> (nat option \<times> 'a uip) res" where
  "uip_connect addr port s = (case unused_port (uip_conns s) (lastport s) of
     None \<Rightarrow> Inl Diverges
   | Some p \<Rightarrow>
       let s = s\<lparr>lastport := p\<rparr>
       in case find_unused (uip_conns s) [0..<UIP_CONNS] None of
            None \<Rightarrow> Inr (None, s)
          | Some i \<Rightarrow> Inr (Some i, upd_conn i (\<lambda>c. c\<lparr>tcpstateflags := UIP_SYN_SENT, snd_nxt := iss s,
               initialmss := UIP_TCP_MSS, mss := UIP_TCP_MSS, c_len := 1, nrtx := 0, timer := 1, rto := UIP_RTO,
               sa := 0, sv := 16, lport := htons p, rport := port, ripaddr := addr\<rparr>) s))"

text \<open>The application puts data of its own into the buffer.\<close>

definition uip_send :: "m_uint8 list \<Rightarrow> int \<Rightarrow> 'a uip \<Rightarrow> 'a uip res" where
  "uip_send data len s =
     (if len > 0
      then let s = s\<lparr>uip_slen := word_of_int len\<rparr>; n = unat (uip_slen s)
           in if n \<le> length data \<and> uip_sappdata s + n \<le> length (uip_buf s)
              then Inr (s\<lparr>uip_buf := take (uip_sappdata s) (uip_buf s) @ take n data @ drop (uip_sappdata s + n) (uip_buf s)\<rparr>)
              else Inl Out_of_bounds
      else Inr s)"

definition uip_outstanding :: "'a uip_conn \<Rightarrow> bool" where "uip_outstanding c = (c_len c \<noteq> 0)"

definition uip_add_rcv_nxt :: "nat \<Rightarrow> m_uint16 \<Rightarrow> 'a uip \<Rightarrow> 'a uip" where
  "uip_add_rcv_nxt i n = upd_conn i (\<lambda>c. c\<lparr>rcv_nxt := uip_add32 (rcv_nxt c) n\<rparr>)"

text \<open>The carry of \<^verbatim>\<open>++x[3]\<close> through the bytes of a sequence number.\<close>

definition seq_inc :: "seqno \<Rightarrow> seqno" where
  "seq_inc q = (case q of (a, b, c, d) \<Rightarrow>
     (if d + 1 = 0 \<and> c + 1 = 0 \<and> b + 1 = 0 then a + 1 else a,
      if d + 1 = 0 \<and> c + 1 = 0 then b + 1 else b, if d + 1 = 0 then c + 1 else c, d + 1))"

section \<open>The end of uip_process\<close>

definition uip_drop :: "'a uip \<Rightarrow> 'a uip" where
  "uip_drop s = set_flags 0 (set_len 0 s)"

definition send :: "'a uip \<Rightarrow> 'a uip" where
  "send s = set_flags 0 (UIP_STAT ip_sent_update s)"

definition ip_send_nolen :: "'a uip \<Rightarrow> 'a uip res" where
  "ip_send_nolen s =
     (let s = put8 VHL 0x45 s;
          s = put8 TOS 0 s;
          s = put8 IPOFFSET 0 (put8 (IPOFFSET + 1) 0 s);
          s = s\<lparr>ipid := ipid s + 1\<rparr>;
          s = put8 (IPID + 1) (lo8 (ipid s)) (put8 IPID (hi8 (ipid s)) s);
          s = put16 IPCHKSUM 0 s
      in rbind (uip_ipchksum s) (\<lambda>acc.
         Inr (send (UIP_STAT tcp_sent_update (put16 IPCHKSUM (NOT acc) s)))))"

definition tcp_send_noconn :: "'a uip \<Rightarrow> 'a uip res" where
  "tcp_send_noconn s =
     (let s = put8 TTL UIP_TTL s;
          s = put8 (LEN + 1) (lo8 (uip_len s)) (put8 LEN (hi8 (uip_len s)) s);
          s = put8 URGP 0 (put8 (URGP + 1) 0 s);
          s = put16 TCPCHKSUM 0 s
      in rbind (uip_tcpchksum s) (\<lambda>acc.
         ip_send_nolen (put16 TCPCHKSUM (NOT acc) s)))"

definition tcp_send :: "nat \<Rightarrow> 'a uip \<Rightarrow> 'a uip res" where
  "tcp_send i s =
     (let s = put_seq ACKNO (rcv_nxt (conn_at i s)) s;
          s = put_seq SEQNO (snd_nxt (conn_at i s)) s;
          s = put8 PROTO UIP_PROTO_TCP s;
          s = put16 SRCPORT (lport (conn_at i s)) s;
          s = put16 DESTPORT (rport (conn_at i s)) s;
          s = put_addr SRCIPADDR (uip_hostaddr s) s;
          s = put_addr DESTIPADDR (ripaddr (conn_at i s)) s;
          s = (if tcpstateflags (conn_at i s) AND UIP_STOPPED \<noteq> 0
               then put8 WND 0 (put8 (WND + 1) 0 s)
               else put8 (WND + 1) (lo8 UIP_RECEIVE_WINDOW) (put8 WND (hi8 UIP_RECEIVE_WINDOW) s))
      in tcp_send_noconn s)"

definition tcp_send_noopts :: "nat \<Rightarrow> 'a uip \<Rightarrow> 'a uip res" where
  "tcp_send_noopts i s = tcp_send i (put8 TCPOFFSET (push_bit 4 (of_nat (UIP_TCPH_LEN div 4))) s)"

definition tcp_send_nodata :: "nat \<Rightarrow> 'a uip \<Rightarrow> 'a uip res" where
  "tcp_send_nodata i s = tcp_send_noopts i (set_len (of_nat UIP_IPTCPH_LEN) s)"

definition tcp_send_ack :: "nat \<Rightarrow> 'a uip \<Rightarrow> 'a uip res" where
  "tcp_send_ack i s = tcp_send_nodata i (put8 FLAGS TCP_ACK s)"

definition tcp_send_finack :: "nat \<Rightarrow> 'a uip \<Rightarrow> 'a uip res" where
  "tcp_send_finack i s = tcp_send_nodata i (put8 FLAGS (TCP_FIN OR TCP_ACK) s)"

definition tcp_send_syn :: "nat \<Rightarrow> 'a uip \<Rightarrow> 'a uip res" where
  "tcp_send_syn i s =
     (let s = put8 FLAGS (get8 FLAGS s OR TCP_SYN) s;
          s = put8 OPTDATA TCP_OPT_MSS s;
          s = put8 (OPTDATA + 1) TCP_OPT_MSS_LEN s;
          s = put8 (OPTDATA + 2) (ucast (UIP_TCP_MSS div 256)) s;
          s = put8 (OPTDATA + 3) (ucast (UIP_TCP_MSS AND 255)) s;
          s = set_len (of_nat UIP_IPTCPH_LEN + ucast TCP_OPT_MSS_LEN) s;
          s = put8 TCPOFFSET (push_bit 4 ((of_nat UIP_TCPH_LEN + TCP_OPT_MSS_LEN) div 4)) s
      in tcp_send i s)"

definition tcp_send_synack :: "nat \<Rightarrow> 'a uip \<Rightarrow> 'a uip res" where
  "tcp_send_synack i s = tcp_send_syn i (put8 FLAGS TCP_ACK s)"

text \<open>
  Sending what the application has put into the buffer: \<^verbatim>\<open>apprexmit\<close> and \<^verbatim>\<open>appsend\<close>.
\<close>

definition apprexmit :: "nat \<Rightarrow> 'a uip \<Rightarrow> 'a uip res" where
  "apprexmit i s =
     (let s = s\<lparr>uip_appdata := uip_sappdata s\<rparr>
      in if uip_slen s > 0 \<and> c_len (conn_at i s) > 0
         then tcp_send_noopts i (put8 FLAGS (TCP_ACK OR TCP_PSH) (set_len (c_len (conn_at i s) + of_nat UIP_IPTCPH_LEN) s))
         else if uip_flags s AND UIP_NEWDATA \<noteq> 0
         then tcp_send_noopts i (put8 FLAGS TCP_ACK (set_len (of_nat UIP_IPTCPH_LEN) s))
         else Inr (uip_drop s))"

definition clip_send :: "nat \<Rightarrow> 'a uip \<Rightarrow> 'a uip" where
  "clip_send i s =
     (if uip_slen s > 0
      then let s = (if uip_flags s AND UIP_ACKDATA \<noteq> 0 then upd_conn i (\<lambda>c. c\<lparr>c_len := 0\<rparr>) s else s)
           in if c_len (conn_at i s) = 0
              then let s = (if uip_slen s > mss (conn_at i s) then set_slen (mss (conn_at i s)) s else s)
                   in upd_conn i (\<lambda>c. c\<lparr>c_len := uip_slen s\<rparr>) s
              else set_slen (c_len (conn_at i s)) s
      else s)"

definition appsend :: "nat \<Rightarrow> 'a uip \<Rightarrow> 'a uip res" where
  "appsend i s =
     (if uip_flags s AND UIP_ABORT \<noteq> 0
      then tcp_send_nodata i (put8 FLAGS (TCP_RST OR TCP_ACK)
             (upd_conn i (\<lambda>c. c\<lparr>tcpstateflags := UIP_CLOSED\<rparr>) (set_slen 0 s)))
      else if uip_flags s AND UIP_CLOSE \<noteq> 0
      then tcp_send_nodata i (put8 FLAGS (TCP_FIN OR TCP_ACK)
             (upd_conn i (\<lambda>c. c\<lparr>c_len := 1, tcpstateflags := UIP_FIN_WAIT_1, nrtx := 0\<rparr>) (set_slen 0 s)))
      else apprexmit i (upd_conn i (\<lambda>c. c\<lparr>nrtx := 0\<rparr>) (clip_send i s)))"

section \<open>TCP input\<close>

definition reset :: "'a uip \<Rightarrow> 'a uip res" where
  "reset s =
     (if get8 FLAGS s AND TCP_RST \<noteq> 0 then Inr (uip_drop s)
      else let s = UIP_STAT tcp_rst_update s;
               s = put8 FLAGS (TCP_RST OR TCP_ACK) s;
               s = set_len (of_nat UIP_IPTCPH_LEN) s;
               s = put8 TCPOFFSET (push_bit 4 5) s;
               seqno = get_seq SEQNO s;
               s = put_seq SEQNO (get_seq ACKNO s) s;
               s = put_seq ACKNO (seq_inc seqno) s;
               port = get16 SRCPORT s;
               s = put16 SRCPORT (get16 DESTPORT s) s;
               s = put16 DESTPORT port s;
               s = put_addr DESTIPADDR (get_addr SRCIPADDR s) s;
               s = put_addr SRCIPADDR (uip_hostaddr s) s
           in tcp_send_noconn s)"

text \<open>
  The loop over the TCP options. \<open>limit\<close> is the number of option bytes; the counter is a byte and
  wraps. \<open>None\<close> is a loop that never ends, \<open>Some None\<close> no MSS option.
\<close>

partial_function (option) mss_loop :: "m_uint8 list \<Rightarrow> nat \<Rightarrow> m_uint8 \<Rightarrow> m_uint16 option option" where
  "mss_loop buf limit c =
     (let base = UIP_IPTCPH_LEN + UIP_LLH_LEN;
          opt = buf ! (base + unat c); optlen = buf ! (base + 1 + unat c)
      in if unat c < limit
         then if opt = TCP_OPT_END then Some None
              else if opt = TCP_OPT_NOOP then mss_loop buf limit (c + 1)
              else if opt = TCP_OPT_MSS \<and> optlen = TCP_OPT_MSS_LEN
              then Some (Some (push_bit 8 (ucast (buf ! (base + 2 + unat c))) OR ucast (buf ! (base + 3 + unat c))))
              else if optlen = 0 then Some None
              else mss_loop buf limit (c + optlen)
         else Some None)"

definition parse_mss :: "nat \<Rightarrow> 'a uip \<Rightarrow> 'a uip res" where
  "parse_mss i s =
     (if get8 TCPOFFSET s AND 0xf0 > 0x50
      then case mss_loop (uip_buf s) ((unat (drop_bit 4 (get8 TCPOFFSET s)) - 5) * 4) 0 of
             None \<Rightarrow> Inl Diverges
           | Some None \<Rightarrow> Inr s
           | Some (Some v) \<Rightarrow>
               let m = (if v > UIP_TCP_MSS then UIP_TCP_MSS else v)
               in Inr (upd_conn i (\<lambda>c. c\<lparr>initialmss := m, mss := m\<rparr>) s)
      else Inr s)"

definition found_listen :: "'a uip \<Rightarrow> 'a uip res" where
  "found_listen s = (case find_unused (uip_conns s) [0..<UIP_CONNS] None of
     None \<Rightarrow> Inr (uip_drop (UIP_STAT tcp_syndrop_update s))
   | Some i \<Rightarrow>
       let s = s\<lparr>cur_conn := Some i\<rparr>;
           s = upd_conn i (\<lambda>c. c\<lparr>rto := UIP_RTO, timer := UIP_RTO, sa := 0, sv := 4, nrtx := 0,
                 lport := get16 DESTPORT s, rport := get16 SRCPORT s, ripaddr := get_addr SRCIPADDR s,
                 tcpstateflags := UIP_SYN_RCVD, snd_nxt := iss s, c_len := 1, rcv_nxt := get_seq SEQNO s\<rparr>) s;
           s = uip_add_rcv_nxt i 1 s
       in rbind (parse_mss i s) (tcp_send_synack i))"

text \<open>The round trip time estimation, in signed and unsigned bytes.\<close>

definition rtt_estimate :: "'a uip_conn \<Rightarrow> 'a uip_conn" where
  "rtt_estimate c =
     (let m = rto c - timer c;
          m = m - drop_bit 3 (sa c);
          sa' = sa c + m;
          m = (if sint m < 0 then - m else m);
          m = m - drop_bit 2 (sv c);
          sv' = sv c + m
      in c\<lparr>sa := sa', sv := sv', rto := drop_bit 3 sa' + sv'\<rparr>)"

definition acknowledge :: "nat \<Rightarrow> 'a uip \<Rightarrow> 'a uip" where
  "acknowledge i s =
     (let acc32 = uip_add32 (snd_nxt (conn_at i s)) (c_len (conn_at i s))
      in if get8 FLAGS s AND TCP_ACK \<noteq> 0 \<and> uip_outstanding (conn_at i s) \<and> get_seq ACKNO s = acc32
         then let s = upd_conn i (\<lambda>c. c\<lparr>snd_nxt := acc32\<rparr>) s;
                  s = (if nrtx (conn_at i s) = 0 then upd_conn i rtt_estimate s else s);
                  s = set_flags UIP_ACKDATA s
              in upd_conn i (\<lambda>c. c\<lparr>timer := rto c, c_len := 0\<rparr>) s
         else s)"

text \<open>The cases of the switch over the state of the connection.\<close>

definition in_syn_rcvd :: "('a uip \<Rightarrow> 'a uip res) \<Rightarrow> nat \<Rightarrow> 'a uip \<Rightarrow> 'a uip res" where
  "in_syn_rcvd app i s =
     (if uip_flags s AND UIP_ACKDATA \<noteq> 0
      then let s = upd_conn i (\<lambda>c. c\<lparr>tcpstateflags := UIP_ESTABLISHED\<rparr>) s;
               s = set_flags UIP_CONNECTED s;
               s = upd_conn i (\<lambda>c. c\<lparr>c_len := 0\<rparr>) s;
               s = (if uip_len s > 0 then uip_add_rcv_nxt i (uip_len s) (set_flags (uip_flags s OR UIP_NEWDATA) s) else s)
           in rbind (app (set_slen 0 s)) (appsend i)
      else Inr (uip_drop s))"

definition in_syn_sent :: "('a uip \<Rightarrow> 'a uip res) \<Rightarrow> nat \<Rightarrow> 'a uip \<Rightarrow> 'a uip res" where
  "in_syn_sent app i s =
     (if uip_flags s AND UIP_ACKDATA \<noteq> 0 \<and> get8 FLAGS s AND TCP_CTL = TCP_SYN OR TCP_ACK
      then rbind (parse_mss i s) (\<lambda>s.
           let s = upd_conn i (\<lambda>c. c\<lparr>tcpstateflags := UIP_ESTABLISHED, rcv_nxt := get_seq SEQNO s\<rparr>) s;
               s = uip_add_rcv_nxt i 1 s;
               s = set_flags (UIP_CONNECTED OR UIP_NEWDATA) s;
               s = upd_conn i (\<lambda>c. c\<lparr>c_len := 0\<rparr>) s;
               s = set_slen 0 (set_len 0 s)
           in rbind (app s) (appsend i))
      else rbind (app (set_flags UIP_ABORT s)) (\<lambda>s.
           reset (upd_conn i (\<lambda>c. c\<lparr>tcpstateflags := UIP_CLOSED\<rparr>) s)))"

definition urgent :: "'a uip \<Rightarrow> 'a uip" where
  "urgent s =
     (if get8 FLAGS s AND TCP_URG \<noteq> 0
      then let u = be16 (get8 URGP s) (get8 (URGP + 1) s)
           in s\<lparr>uip_appdata := uip_appdata s + unat u, uip_len := uip_len s - u\<rparr>
      else s)"

definition window_mss :: "nat \<Rightarrow> 'a uip \<Rightarrow> 'a uip" where
  "window_mss i s =
     (let wnd = be16 (get8 WND s) (get8 (WND + 1) s);
          m = (if wnd > initialmss (conn_at i s) \<or> wnd = 0 then initialmss (conn_at i s) else wnd)
      in upd_conn i (\<lambda>c. c\<lparr>mss := m\<rparr>) s)"

definition in_established :: "('a uip \<Rightarrow> 'a uip res) \<Rightarrow> nat \<Rightarrow> 'a uip \<Rightarrow> 'a uip res" where
  "in_established app i s =
     (if get8 FLAGS s AND TCP_FIN \<noteq> 0 \<and> tcpstateflags (conn_at i s) AND UIP_STOPPED = 0
      then if uip_outstanding (conn_at i s) then Inr (uip_drop s)
           else let s = uip_add_rcv_nxt i (1 + uip_len s) s;
                    s = set_flags (uip_flags s OR UIP_CLOSE) s;
                    s = (if uip_len s > 0 then set_flags (uip_flags s OR UIP_NEWDATA) s else s)
                in rbind (app s) (\<lambda>s.
                   tcp_send_finack i (upd_conn i (\<lambda>c. c\<lparr>c_len := 1, tcpstateflags := UIP_LAST_ACK, nrtx := 0\<rparr>) s))
      else let s = urgent s;
               s = (if uip_len s > 0 \<and> tcpstateflags (conn_at i s) AND UIP_STOPPED = 0
                    then uip_add_rcv_nxt i (uip_len s) (set_flags (uip_flags s OR UIP_NEWDATA) s) else s);
               s = window_mss i s
           in if uip_flags s AND (UIP_NEWDATA OR UIP_ACKDATA) \<noteq> 0
              then rbind (app (set_slen 0 s)) (appsend i)
              else Inr (uip_drop s))"

definition in_last_ack :: "('a uip \<Rightarrow> 'a uip res) \<Rightarrow> nat \<Rightarrow> 'a uip \<Rightarrow> 'a uip res" where
  "in_last_ack app i s =
     (if uip_flags s AND UIP_ACKDATA \<noteq> 0
      then rbind (app (set_flags UIP_CLOSE (upd_conn i (\<lambda>c. c\<lparr>tcpstateflags := UIP_CLOSED\<rparr>) s))) (\<lambda>s. Inr (uip_drop s))
      else Inr (uip_drop s))"

definition in_fin_wait_1 :: "('a uip \<Rightarrow> 'a uip res) \<Rightarrow> nat \<Rightarrow> 'a uip \<Rightarrow> 'a uip res" where
  "in_fin_wait_1 app i s =
     (let s = (if uip_len s > 0 then uip_add_rcv_nxt i (uip_len s) s else s)
      in if get8 FLAGS s AND TCP_FIN \<noteq> 0
         then let s = (if uip_flags s AND UIP_ACKDATA \<noteq> 0
                       then upd_conn i (\<lambda>c. c\<lparr>tcpstateflags := UIP_TIME_WAIT, timer := 0, c_len := 0\<rparr>) s
                       else upd_conn i (\<lambda>c. c\<lparr>tcpstateflags := UIP_CLOSING\<rparr>) s);
                  s = uip_add_rcv_nxt i 1 s
              in rbind (app (set_flags UIP_CLOSE s)) (tcp_send_ack i)
         else if uip_flags s AND UIP_ACKDATA \<noteq> 0
         then Inr (uip_drop (upd_conn i (\<lambda>c. c\<lparr>tcpstateflags := UIP_FIN_WAIT_2, c_len := 0\<rparr>) s))
         else if uip_len s > 0 then tcp_send_ack i s
         else Inr (uip_drop s))"

definition in_fin_wait_2 :: "('a uip \<Rightarrow> 'a uip res) \<Rightarrow> nat \<Rightarrow> 'a uip \<Rightarrow> 'a uip res" where
  "in_fin_wait_2 app i s =
     (let s = (if uip_len s > 0 then uip_add_rcv_nxt i (uip_len s) s else s)
      in if get8 FLAGS s AND TCP_FIN \<noteq> 0
         then let s = upd_conn i (\<lambda>c. c\<lparr>tcpstateflags := UIP_TIME_WAIT, timer := 0\<rparr>) s;
                  s = uip_add_rcv_nxt i 1 s
              in rbind (app (set_flags UIP_CLOSE s)) (tcp_send_ack i)
         else if uip_len s > 0 then tcp_send_ack i s
         else Inr (uip_drop s))"

definition in_closing :: "nat \<Rightarrow> 'a uip \<Rightarrow> 'a uip res" where
  "in_closing i s =
     (if uip_flags s AND UIP_ACKDATA \<noteq> 0
      then Inr (uip_drop (upd_conn i (\<lambda>c. c\<lparr>tcpstateflags := UIP_TIME_WAIT, timer := 0\<rparr>) s))
      else Inr (uip_drop s))"

definition state_switch :: "('a uip \<Rightarrow> 'a uip res) \<Rightarrow> nat \<Rightarrow> 'a uip \<Rightarrow> 'a uip res" where
  "state_switch app i s =
     (let st = tcpstateflags (conn_at i s) AND UIP_TS_MASK
      in if st = UIP_SYN_RCVD then in_syn_rcvd app i s
         else if st = UIP_SYN_SENT then in_syn_sent app i s
         else if st = UIP_ESTABLISHED then in_established app i s
         else if st = UIP_LAST_ACK then in_last_ack app i s
         else if st = UIP_FIN_WAIT_1 then in_fin_wait_1 app i s
         else if st = UIP_FIN_WAIT_2 then in_fin_wait_2 app i s
         else if st = UIP_TIME_WAIT then tcp_send_ack i s
         else if st = UIP_CLOSING then in_closing i s
         else Inr (uip_drop s))"

definition found :: "('a uip \<Rightarrow> 'a uip res) \<Rightarrow> nat \<Rightarrow> 'a uip \<Rightarrow> 'a uip res" where
  "found app i s =
     (let s = set_flags 0 (s\<lparr>cur_conn := Some i\<rparr>)
      in if get8 FLAGS s AND TCP_RST \<noteq> 0
         then rbind (app (set_flags UIP_ABORT (upd_conn i (\<lambda>c. c\<lparr>tcpstateflags := UIP_CLOSED\<rparr>) s)))
                (\<lambda>s. Inr (uip_drop s))
         else let c = push_bit 2 (drop_bit 4 (get8 TCPOFFSET s));
                  s = set_len (uip_len s - ucast c - of_nat UIP_IPH_LEN) s
              in if \<not> (tcpstateflags (conn_at i s) AND UIP_TS_MASK = UIP_SYN_SENT \<and>
                       get8 FLAGS s AND TCP_CTL = TCP_SYN OR TCP_ACK) \<and>
                    (uip_len s > 0 \<or> get8 FLAGS s AND (TCP_SYN OR TCP_FIN) \<noteq> 0) \<and>
                    get_seq SEQNO s \<noteq> rcv_nxt (conn_at i s)
                 then tcp_send_ack i s
                 else state_switch app i (acknowledge i s))"

definition tcp_input :: "('a uip \<Rightarrow> 'a uip res) \<Rightarrow> 'a uip \<Rightarrow> 'a uip res" where
  "tcp_input app s =
     (let s = UIP_STAT tcp_recv_update s
      in rbind (uip_tcpchksum s) (\<lambda>acc.
         if acc \<noteq> 0xffff then Inr (uip_drop (UIP_STAT tcp_chkerr_update (UIP_STAT tcp_drop_update s)))
         else case scan_from (\<lambda>i. tcpstateflags (conn_at i s) \<noteq> UIP_CLOSED \<and>
                     get16 DESTPORT s = lport (conn_at i s) \<and> get16 SRCPORT s = rport (conn_at i s) \<and>
                     get_addr SRCIPADDR s = ripaddr (conn_at i s)) 0 UIP_CONNS of
                Some i \<Rightarrow> found app i s
              | None \<Rightarrow>
                  if get8 FLAGS s AND TCP_CTL \<noteq> TCP_SYN then reset s
                  else case scan_from (\<lambda>c. get16 DESTPORT s = uip_listenports s ! c) 0 UIP_LISTENPORTS of
                         Some c \<Rightarrow> found_listen s
                       | None \<Rightarrow> reset (UIP_STAT tcp_synrst_update s)))"

section \<open>IP input, the timer and polling\<close>

definition icmp_input :: "'a uip \<Rightarrow> 'a uip" where
  "icmp_input s =
     (let s = UIP_STAT icmp_recv_update s
      in if get8 ICMP_TYPE s \<noteq> ICMP_ECHO
         then uip_drop (UIP_STAT icmp_typeerr_update (UIP_STAT icmp_drop_update s))
         else let s = put8 ICMP_TYPE ICMP_ECHO_REPLY s;
                  acc = get16 ICMPCHKSUM s;
                  s = put16 ICMPCHKSUM
                        (if acc \<ge> htons (0xffff - push_bit 8 (ucast ICMP_ECHO))
                         then acc + (htons (push_bit 8 (ucast ICMP_ECHO)) + 1)
                         else acc + htons (push_bit 8 (ucast ICMP_ECHO))) s;
                  s = put_addr DESTIPADDR (get_addr SRCIPADDR s) s;
                  s = put_addr SRCIPADDR (uip_hostaddr s) s
              in send (UIP_STAT icmp_sent_update s))"

definition ip_input :: "('a uip \<Rightarrow> 'a uip res) \<Rightarrow> 'a uip \<Rightarrow> 'a uip res" where
  "ip_input app s =
     (let s = UIP_STAT ip_recv_update s
      in if get8 VHL s \<noteq> 0x45
         then Inr (uip_drop (UIP_STAT ip_vhlerr_update (UIP_STAT ip_drop_update s)))
         else if \<not> ip_length s \<le> uip_len s then Inr (uip_drop s)
         else let s = set_len (ip_length s) s
              in if get8 IPOFFSET s AND 0x3f \<noteq> 0 \<or> get8 (IPOFFSET + 1) s \<noteq> 0
                 then Inr (uip_drop (UIP_STAT ip_fragerr_update (UIP_STAT ip_drop_update s)))
                 else if uip_hostaddr s \<noteq> (0, 0) \<and> get_addr DESTIPADDR s \<noteq> uip_hostaddr s
                 then Inr (uip_drop (UIP_STAT ip_drop_update s))
                 else rbind (uip_ipchksum s) (\<lambda>acc.
                      if acc \<noteq> 0xffff
                      then Inr (uip_drop (UIP_STAT ip_chkerr_update (UIP_STAT ip_drop_update s)))
                      else if get8 PROTO s = UIP_PROTO_TCP then tcp_input app s
                      else if get8 PROTO s \<noteq> UIP_PROTO_ICMP
                      then Inr (uip_drop (UIP_STAT ip_protoerr_update (UIP_STAT ip_drop_update s)))
                      else Inr (icmp_input s)))"

definition rexmit :: "('a uip \<Rightarrow> 'a uip res) \<Rightarrow> nat \<Rightarrow> 'a uip \<Rightarrow> 'a uip res" where
  "rexmit app i s =
     (let s = upd_conn i (\<lambda>c. c\<lparr>timer := push_bit (if nrtx c > 4 then 4 else unat (nrtx c)) UIP_RTO, nrtx := nrtx c + 1\<rparr>) s;
          s = UIP_STAT tcp_rexmit_update s;
          st = tcpstateflags (conn_at i s) AND UIP_TS_MASK
      in if st = UIP_SYN_RCVD then tcp_send_synack i s
         else if st = UIP_SYN_SENT then tcp_send_syn i (put8 FLAGS 0 s)
         else if st = UIP_ESTABLISHED then rbind (app (set_flags UIP_REXMIT s)) (apprexmit i)
         else if st = UIP_FIN_WAIT_1 \<or> st = UIP_CLOSING \<or> st = UIP_LAST_ACK then tcp_send_finack i s
         else Inr (uip_drop s))"

definition timer_input :: "('a uip \<Rightarrow> 'a uip res) \<Rightarrow> nat \<Rightarrow> 'a uip \<Rightarrow> 'a uip res" where
  "timer_input app i s =
     (let s = s\<lparr>iss := seq_inc (iss s)\<rparr>;
          s = set_slen 0 (set_len 0 s);
          c = conn_at i s
      in if tcpstateflags c = UIP_TIME_WAIT \<or> tcpstateflags c = UIP_FIN_WAIT_2
         then Inr (uip_drop (upd_conn i (\<lambda>c. c\<lparr>timer := timer c + 1,
                tcpstateflags := (if timer c + 1 = UIP_TIME_WAIT_TIMEOUT then UIP_CLOSED else tcpstateflags c)\<rparr>) s))
         else if tcpstateflags c = UIP_CLOSED then Inr (uip_drop s)
         else if uip_outstanding c
         then let expired = (timer c = 0);
                  s = upd_conn i (\<lambda>c. c\<lparr>timer := timer c - 1\<rparr>) s
              in if \<not> expired then Inr (uip_drop s)
                 else if nrtx c = UIP_MAXRTX \<or>
                         (tcpstateflags c = UIP_SYN_SENT \<or> tcpstateflags c = UIP_SYN_RCVD) \<and> nrtx c = UIP_MAXSYNRTX
                 then rbind (app (set_flags UIP_TIMEDOUT (upd_conn i (\<lambda>c. c\<lparr>tcpstateflags := UIP_CLOSED\<rparr>) s))) (\<lambda>s.
                      tcp_send_nodata i (put8 FLAGS (TCP_RST OR TCP_ACK) s))
                 else rexmit app i s
         else if tcpstateflags c AND UIP_TS_MASK = UIP_ESTABLISHED
         then rbind (app (set_flags UIP_POLL s)) (appsend i)
         else Inr (uip_drop s))"

definition poll_request :: "('a uip \<Rightarrow> 'a uip res) \<Rightarrow> nat \<Rightarrow> 'a uip \<Rightarrow> 'a uip res" where
  "poll_request app i s =
     (if tcpstateflags (conn_at i s) AND UIP_TS_MASK = UIP_ESTABLISHED \<and> \<not> uip_outstanding (conn_at i s)
      then rbind (app (set_flags UIP_POLL s)) (appsend i)
      else Inr (uip_drop s))"

definition uip_process :: "('a uip \<Rightarrow> 'a uip res) \<Rightarrow> m_uint8 \<Rightarrow> 'a uip \<Rightarrow> 'a uip res" where
  "uip_process app flag s =
     (let s = s\<lparr>uip_sappdata := UIP_IPTCPH_LEN + UIP_LLH_LEN, uip_appdata := UIP_IPTCPH_LEN + UIP_LLH_LEN\<rparr>
      in if flag = UIP_POLL_REQUEST
         then case cur_conn s of None \<Rightarrow> Inl Out_of_bounds | Some i \<Rightarrow> poll_request app i s
         else if flag = UIP_TIMER
         then case cur_conn s of None \<Rightarrow> Inl Out_of_bounds | Some i \<Rightarrow> timer_input app i s
         else ip_input app s)"

definition uip_input :: "('a uip \<Rightarrow> 'a uip res) \<Rightarrow> 'a uip \<Rightarrow> 'a uip res" where
  "uip_input app s = uip_process app UIP_DATA s"

definition uip_periodic :: "('a uip \<Rightarrow> 'a uip res) \<Rightarrow> nat \<Rightarrow> 'a uip \<Rightarrow> 'a uip res" where
  "uip_periodic app i s = uip_process app UIP_TIMER (s\<lparr>cur_conn := Some i\<rparr>)"

definition uip_poll_conn :: "('a uip \<Rightarrow> 'a uip res) \<Rightarrow> nat \<Rightarrow> 'a uip \<Rightarrow> 'a uip res" where
  "uip_poll_conn app i s = uip_process app UIP_POLL_REQUEST (s\<lparr>cur_conn := Some i\<rparr>)"

end
