(* ===== verification/Uip_Send.thy ===== *)
theory Uip_Send
  imports Uip
begin

text \<open>
  What the sending half of uip_process puts into the buffer: the projections of the state after
  the elementary updates, and the proof that every TCP segment leaves with the checksums its
  receiver expects.
\<close>

section \<open>Elementary updates\<close>

lemma put8_simps [simp]:
  "uip_hostaddr (put8 p v s) = uip_hostaddr s" "uip_appdata (put8 p v s) = uip_appdata s"
  "uip_sappdata (put8 p v s) = uip_sappdata s" "uip_len (put8 p v s) = uip_len s"
  "uip_slen (put8 p v s) = uip_slen s" "uip_flags (put8 p v s) = uip_flags s"
  "cur_conn (put8 p v s) = cur_conn s" "uip_conns (put8 p v s) = uip_conns s"
  "uip_listenports (put8 p v s) = uip_listenports s" "ipid (put8 p v s) = ipid s" "iss (put8 p v s) = iss s"
  "lastport (put8 p v s) = lastport s" "length (uip_buf (put8 p v s)) = length (uip_buf s)"
  "conn_at i (put8 p v s) = conn_at i s"
  by (simp_all add: put8_def conn_at_def)

lemma put16_simps [simp]:
  "uip_hostaddr (put16 p w s) = uip_hostaddr s" "uip_appdata (put16 p w s) = uip_appdata s"
  "uip_sappdata (put16 p w s) = uip_sappdata s" "uip_len (put16 p w s) = uip_len s"
  "uip_slen (put16 p w s) = uip_slen s" "uip_flags (put16 p w s) = uip_flags s"
  "cur_conn (put16 p w s) = cur_conn s" "uip_conns (put16 p w s) = uip_conns s"
  "uip_listenports (put16 p w s) = uip_listenports s" "ipid (put16 p w s) = ipid s" "iss (put16 p w s) = iss s"
  "lastport (put16 p w s) = lastport s" "length (uip_buf (put16 p w s)) = length (uip_buf s)"
  "conn_at i (put16 p w s) = conn_at i s"
  by (simp_all add: put16_def)

lemma put_seq_simps [simp]:
  "uip_hostaddr (put_seq p q s) = uip_hostaddr s" "uip_sappdata (put_seq p q s) = uip_sappdata s"
  "uip_len (put_seq p q s) = uip_len s" "uip_slen (put_seq p q s) = uip_slen s"
  "uip_flags (put_seq p q s) = uip_flags s" "cur_conn (put_seq p q s) = cur_conn s"
  "uip_conns (put_seq p q s) = uip_conns s" "uip_listenports (put_seq p q s) = uip_listenports s"
  "length (uip_buf (put_seq p q s)) = length (uip_buf s)" "conn_at i (put_seq p q s) = conn_at i s"
  by (simp_all add: put_seq_def split: prod.split)

lemma put_addr_simps [simp]:
  "uip_hostaddr (put_addr p a s) = uip_hostaddr s" "uip_sappdata (put_addr p a s) = uip_sappdata s"
  "uip_len (put_addr p a s) = uip_len s" "uip_slen (put_addr p a s) = uip_slen s"
  "uip_flags (put_addr p a s) = uip_flags s" "cur_conn (put_addr p a s) = cur_conn s"
  "uip_conns (put_addr p a s) = uip_conns s" "uip_listenports (put_addr p a s) = uip_listenports s"
  "length (uip_buf (put_addr p a s)) = length (uip_buf s)" "conn_at i (put_addr p a s) = conn_at i s"
  by (simp_all add: put_addr_def)

lemma set_simps [simp]:
  "uip_buf (set_len n s) = uip_buf s" "uip_len (set_len n s) = n" "uip_slen (set_len n s) = uip_slen s"
  "uip_flags (set_len n s) = uip_flags s" "cur_conn (set_len n s) = cur_conn s" "uip_conns (set_len n s) = uip_conns s"
  "uip_buf (set_slen n s) = uip_buf s" "uip_len (set_slen n s) = uip_len s" "uip_slen (set_slen n s) = n"
  "uip_flags (set_slen n s) = uip_flags s" "cur_conn (set_slen n s) = cur_conn s" "uip_conns (set_slen n s) = uip_conns s"
  "uip_buf (set_flags f s) = uip_buf s" "uip_len (set_flags f s) = uip_len s" "uip_slen (set_flags f s) = uip_slen s"
  "uip_flags (set_flags f s) = f" "cur_conn (set_flags f s) = cur_conn s" "uip_conns (set_flags f s) = uip_conns s"
  "uip_buf (UIP_STAT k s) = uip_buf s" "uip_len (UIP_STAT k s) = uip_len s" "uip_slen (UIP_STAT k s) = uip_slen s"
  "uip_flags (UIP_STAT k s) = uip_flags s" "cur_conn (UIP_STAT k s) = cur_conn s" "uip_conns (UIP_STAT k s) = uip_conns s"
  "uip_hostaddr (set_len n s) = uip_hostaddr s" "uip_hostaddr (set_slen n s) = uip_hostaddr s"
  "uip_hostaddr (set_flags f s) = uip_hostaddr s" "uip_hostaddr (UIP_STAT k s) = uip_hostaddr s"
  "uip_listenports (set_len n s) = uip_listenports s" "uip_listenports (set_slen n s) = uip_listenports s"
  "uip_listenports (set_flags f s) = uip_listenports s" "uip_listenports (UIP_STAT k s) = uip_listenports s"
  "uip_sappdata (set_len n s) = uip_sappdata s" "uip_sappdata (set_slen n s) = uip_sappdata s"
  "uip_sappdata (set_flags f s) = uip_sappdata s" "uip_sappdata (UIP_STAT k s) = uip_sappdata s"
  "iss (set_len n s) = iss s" "iss (set_slen n s) = iss s" "iss (set_flags f s) = iss s" "iss (UIP_STAT k s) = iss s"
  "conn_at i (set_len n s) = conn_at i s" "conn_at i (set_slen n s) = conn_at i s"
  "conn_at i (set_flags f s) = conn_at i s" "conn_at i (UIP_STAT k s) = conn_at i s"
  by (simp_all add: set_len_def set_slen_def set_flags_def UIP_STAT_def conn_at_def)

lemma upd_conn_simps [simp]:
  "uip_buf (upd_conn i f s) = uip_buf s" "uip_len (upd_conn i f s) = uip_len s" "uip_slen (upd_conn i f s) = uip_slen s"
  "uip_flags (upd_conn i f s) = uip_flags s" "cur_conn (upd_conn i f s) = cur_conn s"
  "uip_conns (upd_conn i f s) = (uip_conns s)[i := f (conn_at i s)]"
  "uip_hostaddr (upd_conn i f s) = uip_hostaddr s" "uip_listenports (upd_conn i f s) = uip_listenports s"
  "uip_sappdata (upd_conn i f s) = uip_sappdata s" "iss (upd_conn i f s) = iss s"
  by (simp_all add: upd_conn_def conn_at_def)

lemma conn_at_upd_conn [simp]:
  "i < length (uip_conns s) \<Longrightarrow> conn_at i (upd_conn i f s) = f (conn_at i s)"
  "i \<noteq> j \<Longrightarrow> conn_at j (upd_conn i f s) = conn_at j s"
  by (simp_all add: upd_conn_def conn_at_def)

lemma get8_buf: "uip_buf s = uip_buf s' \<Longrightarrow> get8 p s = get8 p s'"
  by (simp add: get8_def)

lemma get8_other [simp]:
  "get8 p (set_len n s) = get8 p s" "get8 p (set_slen n s) = get8 p s" "get8 p (set_flags f s) = get8 p s"
  "get8 p (UIP_STAT k s) = get8 p s" "get8 p (upd_conn i g s) = get8 p s" "get8 p (s\<lparr>ipid := w\<rparr>) = get8 p s"
  "get8 p (s\<lparr>cur_conn := c\<rparr>) = get8 p s" "get8 p (s\<lparr>uip_appdata := a\<rparr>) = get8 p s" "get8 p (s\<lparr>iss := q\<rparr>) = get8 p s"
  by (simp_all add: get8_def)

lemma get8_put8 [simp]:
  "14 + p < length (uip_buf s) \<Longrightarrow> get8 p (put8 p v s) = v"
  "p \<noteq> q \<Longrightarrow> get8 q (put8 p v s) = get8 q s"
  by (simp_all add: get8_def put8_def UIP_LLH_LEN_def)

lemma chksum_buf:
  assumes "uip_buf s = uip_buf s'"
  shows "uip_ipchksum s = uip_ipchksum s'" "uip_tcpchksum s = uip_tcpchksum s'" "ip_length s = ip_length s'"
proof -
  have "buf_bytes off n s = buf_bytes off n s'" for off n using assms by (simp add: buf_bytes_def)
  moreover show "ip_length s = ip_length s'" using assms by (simp add: ip_length_def get8_def)
  ultimately show "uip_ipchksum s = uip_ipchksum s'" "uip_tcpchksum s = uip_tcpchksum s'"
    by (simp_all add: uip_ipchksum_def uip_tcpchksum_def upper_layer_chksum_def)
qed

lemma chksum_fields [simp]:
  "uip_ipchksum (send s) = uip_ipchksum s" "uip_tcpchksum (send s) = uip_tcpchksum s"
  "uip_ipchksum (UIP_STAT k s) = uip_ipchksum s" "uip_tcpchksum (UIP_STAT k s) = uip_tcpchksum s"
  "uip_tcpchksum (s\<lparr>ipid := w\<rparr>) = uip_tcpchksum s"
  by (rule chksum_buf; simp add: send_def)+

section \<open>Checksums of a segment that is sent\<close>

lemma tcpchksum_put8 [simp]:
  "p < 12 \<Longrightarrow> p \<noteq> 2 \<Longrightarrow> p \<noteq> 3 \<Longrightarrow> uip_tcpchksum (put8 p v s) = uip_tcpchksum s"
proof -
  assume p: "p < 12" "p \<noteq> 2" "p \<noteq> 3"
  have "buf_bytes off n (put8 p v s) = buf_bytes off n s" if "26 \<le> off" for off n
    using p(1) that by (simp add: buf_bytes_def put8_def UIP_LLH_LEN_def)
  with p show ?thesis
    by (simp add: uip_tcpchksum_def upper_layer_chksum_def ip_length_def uip_consts)
qed

lemma fold_sum_ipchksum:
  "length (uip_buf s) = 422 \<Longrightarrow> uip_ipchksum s = Inr (fold_sum (chksum 0 (take 20 (drop 14 (uip_buf s)))))"
  by (simp add: uip_ipchksum_def buf_bytes_def fold_sum_def uip_consts Let_def)

lemma fold_sum_tcpchksum:
  assumes "length (uip_buf s) = 422" "20 \<le> unat (ip_length s)" "unat (ip_length s) \<le> 408"
  shows "uip_tcpchksum s = Inr (fold_sum (chksum (chksum (ip_length s - 20 + 6) (take 8 (drop 26 (uip_buf s))))
    (take (unat (ip_length s) - 20) (drop 34 (uip_buf s)))))"
proof -
  have "unat (ip_length s - 20) = unat (ip_length s) - 20"
    using assms(2) by (subst unat_sub) (simp_all add: word_le_nat_alt)
  with assms(1,3) show ?thesis
    by (simp add: uip_tcpchksum_def upper_layer_chksum_def buf_bytes_def fold_sum_def uip_consts Let_def)
qed

lemma ip_chksum_seal:
  assumes len: "length (uip_buf s) = 422" and s1: "s1 = put16 IPCHKSUM 0 s" and acc: "uip_ipchksum s1 = Inr acc"
  shows "uip_ipchksum (put16 IPCHKSUM (NOT acc) s1) = Inr 0xffff"
proof -
  let ?bs = "take 20 (drop 14 (uip_buf s1))"
  have b: "length (uip_buf s1) = 422" using len by (simp add: s1)
  have acc': "acc = fold_sum (chksum 0 ?bs)" using acc fold_sum_ipchksum [OF b] by simp
  have z: "?bs ! (2 * 5) = 0" "?bs ! (2 * 5 + 1) = 0"
    using len by (simp_all add: s1 put16_def put8_def uip_consts lo8_def hi8_def)
  have "take 20 (drop 14 (uip_buf (put16 IPCHKSUM (NOT acc) s1))) = ?bs[2 * 5 := lo8 (NOT acc), 2 * 5 + 1 := hi8 (NOT acc)]"
    by (simp add: put16_def put8_def uip_consts drop_update_swap take_update_swap)
  then show ?thesis
    using chksum_seal [where bs = ?bs and k = 5 and a = 0 and v = "NOT acc"] z acc' b fold_sum_ipchksum [of "put16 IPCHKSUM (NOT acc) s1"]
    by simp
qed

lemma tcp_chksum_seal:
  assumes len: "length (uip_buf s) = 422" "40 \<le> unat (ip_length s)" "unat (ip_length s) \<le> 408"
    and s1: "s1 = put16 TCPCHKSUM 0 s" and acc: "uip_tcpchksum s1 = Inr acc"
  shows "uip_tcpchksum (put16 TCPCHKSUM (NOT acc) s1) = Inr 0xffff"
proof -
  let ?n = "unat (ip_length s) - 20"
  let ?bs = "take ?n (drop 34 (uip_buf s1))" and ?a = "chksum (ip_length s - 20 + 6) (take 8 (drop 26 (uip_buf s)))"
  let ?s2 = "put16 TCPCHKSUM (NOT acc) s1"
  have b: "length (uip_buf s1) = 422" using len by (simp add: s1)
  have il: "ip_length s1 = ip_length s" "ip_length ?s2 = ip_length s"
    by (simp_all add: s1 ip_length_def put16_def uip_consts)
  have ad: "take 8 (drop 26 (uip_buf s1)) = take 8 (drop 26 (uip_buf s))"
    "take 8 (drop 26 (uip_buf ?s2)) = take 8 (drop 26 (uip_buf s))"
    by (simp_all add: s1 put16_def put8_def uip_consts drop_update_swap)
  have acc': "acc = fold_sum (chksum ?a ?bs)" using acc fold_sum_tcpchksum [OF b] len il(1) ad(1) by simp
  have k: "2 * 8 + 1 < length ?bs" using len b by simp
  have z: "?bs ! (2 * 8) = 0" "?bs ! (2 * 8 + 1) = 0"
    using len by (simp_all add: s1 put16_def put8_def uip_consts lo8_def hi8_def)
  have "take ?n (drop 34 (uip_buf ?s2)) = ?bs[2 * 8 := lo8 (NOT acc), 2 * 8 + 1 := hi8 (NOT acc)]"
    by (simp add: put16_def put8_def uip_consts drop_update_swap take_update_swap)
  then show ?thesis
    using chksum_seal [OF k z, of "NOT acc" ?a] acc' fold_sum_tcpchksum [of ?s2] b len il(2) ad(2) by simp
qed

section \<open>Packets that are sent\<close>

text \<open>
  A packet its receiver accepts: the header is one of IPv4 without options or fragments, the
  length field is the length of the packet, which fits into the buffer, and the checksums are
  right.
\<close>

definition valid_packet :: "'a uip \<Rightarrow> bool" where
  "valid_packet s \<longleftrightarrow> get8 VHL s = 0x45 \<and> get8 IPOFFSET s AND 0x3f = 0 \<and> get8 (IPOFFSET + 1) s = 0 \<and>
     ip_length s = uip_len s \<and> unat (uip_len s) \<le> 408 \<and> uip_ipchksum s = Inr 0xffff \<and>
     (get8 PROTO s = UIP_PROTO_TCP \<longrightarrow> uip_tcpchksum s = Inr 0xffff)"

text \<open>Two states that differ in the packet and in what the stack notes about it only.\<close>

definition same_conns :: "'a uip \<Rightarrow> 'a uip \<Rightarrow> bool" where
  "same_conns s s' \<longleftrightarrow> uip_conns s' = uip_conns s \<and> uip_listenports s' = uip_listenports s \<and>
     uip_hostaddr s' = uip_hostaddr s \<and> cur_conn s' = cur_conn s \<and> length (uip_buf s') = length (uip_buf s)"

lemma same_conns_refl [simp]: "same_conns s s"
  by (simp add: same_conns_def)

lemma same_conns_trans [trans]: "same_conns s s' \<Longrightarrow> same_conns s' s'' \<Longrightarrow> same_conns s s''"
  by (simp add: same_conns_def)

lemma ip_send_nolen_ok:
  assumes len: "length (uip_buf s) = 422" and tcp: "uip_tcpchksum s = Inr 0xffff" and il: "ip_length s = uip_len s" "unat (uip_len s) \<le> 408"
  shows "\<exists>s'. ip_send_nolen s = Inr s' \<and> valid_packet s' \<and> same_conns s s' \<and> uip_len s' = uip_len s \<and> uip_flags s' = 0 \<and>
    uip_tcpchksum s' = Inr 0xffff \<and> (\<forall>p. p = 9 \<or> 12 \<le> p \<longrightarrow> get8 p s' = get8 p s)"
proof -
  define a where "a = put8 IPOFFSET 0 (put8 (IPOFFSET + 1) 0 (put8 TOS 0 (put8 VHL 0x45 s)))"
  define b where "b = a\<lparr>ipid := ipid a + 1\<rparr>"
  define c where "c = put8 (IPID + 1) (lo8 (ipid b)) (put8 IPID (hi8 (ipid b)) b)"
  define d where "d = put16 IPCHKSUM 0 c"
  have lc: "length (uip_buf c) = 422" using len by (simp add: a_def b_def c_def)
  then obtain acc where acc: "uip_ipchksum d = Inr acc" using fold_sum_ipchksum [of d] by (simp add: d_def)
  define s' where "s' = send (UIP_STAT tcp_sent_update (put16 IPCHKSUM (NOT acc) d))"
  have r: "ip_send_nolen s = Inr s'"
    using acc by (simp add: ip_send_nolen_def Let_def s'_def a_def b_def c_def d_def)
  have ip: "uip_ipchksum s' = Inr 0xffff" using ip_chksum_seal [OF lc d_def acc] by (simp add: s'_def)
  have t: "uip_tcpchksum s' = Inr 0xffff"
    using tcp by (simp add: s'_def d_def c_def b_def a_def put16_def uip_consts)
  have g: "get8 p s' = get8 p s" if "p = 2 \<or> p = 3 \<or> p = 8 \<or> p = 9 \<or> 12 \<le> p" for p
    using that by (auto simp: s'_def d_def c_def b_def a_def put16_def send_def uip_consts)
  have l: "uip_len s' = uip_len s" "uip_flags s' = 0" and sc: "same_conns s s'"
    by (simp_all add: s'_def d_def c_def b_def a_def send_def same_conns_def)
  have "ip_length s' = ip_length s" using g [of 2] g [of 3] by (simp add: ip_length_def uip_consts)
  moreover have "get8 VHL s' = 0x45" "get8 IPOFFSET s' = 0" "get8 (IPOFFSET + 1) s' = 0"
    using len by (simp_all add: s'_def d_def c_def b_def a_def put16_def send_def uip_consts)
  ultimately have "valid_packet s'" using ip t il l by (simp add: valid_packet_def)
  with r sc l t g show ?thesis by auto
qed

lemma tcp_send_noconn_ok:
  assumes len: "length (uip_buf s) = 422" "40 \<le> unat (uip_len s)" "unat (uip_len s) \<le> 408"
  shows "\<exists>s'. tcp_send_noconn s = Inr s' \<and> valid_packet s' \<and> same_conns s s' \<and> uip_len s' = uip_len s \<and> uip_flags s' = 0 \<and>
    uip_tcpchksum s' = Inr 0xffff \<and> (\<forall>p. p = 9 \<or> 12 \<le> p \<and> p < 36 \<or> 40 \<le> p \<longrightarrow> get8 p s' = get8 p s)"
proof -
  define a where "a = put8 (LEN + 1) (lo8 (uip_len s)) (put8 LEN (hi8 (uip_len s)) (put8 TTL UIP_TTL s))"
  define b where "b = put8 URGP 0 (put8 (URGP + 1) 0 a)"
  define c where "c = put16 TCPCHKSUM 0 b"
  have lb: "length (uip_buf b) = 422" using len by (simp add: a_def b_def)
  have il: "ip_length b = uip_len s"
    using len by (simp add: b_def a_def ip_length_def uip_consts be16_bytes)
  have "length (uip_buf c) = 422" "ip_length c = uip_len s"
    using lb il by (simp_all add: c_def ip_length_def put16_def uip_consts)
  then obtain acc where acc: "uip_tcpchksum c = Inr acc" using fold_sum_tcpchksum [of c] len by simp
  let ?d = "put16 TCPCHKSUM (NOT acc) c"
  have "uip_tcpchksum ?d = Inr 0xffff"
    by (rule tcp_chksum_seal [OF lb _ _ c_def acc]) (use len il in simp_all)
  moreover have "length (uip_buf ?d) = 422" "ip_length ?d = uip_len ?d" "unat (uip_len ?d) \<le> 408"
    using lb il len by (simp_all add: c_def b_def a_def ip_length_def put16_def uip_consts)
  ultimately obtain s' where s': "ip_send_nolen ?d = Inr s'" "valid_packet s'" "same_conns ?d s'" "uip_len s' = uip_len ?d"
    "uip_flags s' = 0" "uip_tcpchksum s' = Inr 0xffff" "\<forall>p. p = 9 \<or> 12 \<le> p \<longrightarrow> get8 p s' = get8 p ?d"
    using ip_send_nolen_ok [of ?d] by blast
  have "tcp_send_noconn s = Inr s'"
    using acc s'(1) by (simp add: tcp_send_noconn_def Let_def c_def b_def a_def)
  moreover have "same_conns s s'" "uip_len s' = uip_len s"
    using s'(3,4) by (simp_all add: same_conns_def c_def b_def a_def)
  moreover have "get8 p s' = get8 p s" if "p = 9 \<or> 12 \<le> p \<and> p < 36 \<or> 40 \<le> p" for p
    using that s'(7) [rule_format, of p] by (auto simp: c_def b_def a_def put16_def uip_consts)
  ultimately show ?thesis using s' by blast
qed

lemma le16_bytes: "le16 (lo8 w) (hi8 w) = w"
proof -
  have "le16 (lo8 w) (hi8 w) = push_bit 8 (ucast (hi8 w)) OR ucast (lo8 w)" by (simp add: le16_def or.commute)
  also have "\<dots> = be16 (hi8 w) (lo8 w)"
    unfolding be16_def by (rule disjunctive_add [symmetric]) (auto simp: bit_simps byte_bit_beyond)
  finally show ?thesis by (simp add: be16_bytes)
qed

text \<open>The header of a segment that belongs to the connection \<open>c\<close>.\<close>

definition segment_of :: "'a uip_conn \<Rightarrow> uip_ipaddr_t \<Rightarrow> m_uint8 \<Rightarrow> 'a uip \<Rightarrow> bool" where
  "segment_of c host fl s \<longleftrightarrow> get8 PROTO s = UIP_PROTO_TCP \<and> get8 FLAGS s = fl \<and>
     get_seq SEQNO s = snd_nxt c \<and> get_seq ACKNO s = rcv_nxt c \<and>
     get16 SRCPORT s = lport c \<and> get16 DESTPORT s = rport c \<and>
     get_addr SRCIPADDR s = host \<and> get_addr DESTIPADDR s = ripaddr c"

lemma segment_of_bytes:
  assumes "\<forall>p. p = 9 \<or> 12 \<le> p \<and> p < 36 \<longrightarrow> get8 p s' = get8 p s"
  shows "segment_of c host fl s' = segment_of c host fl s"
proof -
  have "get8 p s' = get8 p s" if "p = 9 \<or> 12 \<le> p \<and> p < 36" for p using assms that by blast
  then show ?thesis by (simp add: segment_of_def get_seq_def get16_def get_addr_def uip_consts)
qed

definition sent :: "'a uip \<Rightarrow> 'a uip \<Rightarrow> bool" where
  "sent s s' \<longleftrightarrow> valid_packet s' \<and> same_conns s s' \<and> uip_len s' = uip_len s \<and> uip_flags s' = 0"

lemma tcp_send_ok:
  assumes len: "length (uip_buf s) = 422" "40 \<le> unat (uip_len s)" "unat (uip_len s) \<le> 408"
  shows "\<exists>s'. tcp_send i s = Inr s' \<and> sent s s' \<and> segment_of (conn_at i s) (uip_hostaddr s) (get8 FLAGS s) s' \<and>
    (\<forall>p \<ge> 40. get8 p s' = get8 p s) \<and> get8 TCPOFFSET s' = get8 TCPOFFSET s"
proof -
  let ?c = "conn_at i s"
  define a where "a = put_seq SEQNO (snd_nxt ?c) (put_seq ACKNO (rcv_nxt ?c) s)"
  define b where "b = put16 DESTPORT (rport ?c) (put16 SRCPORT (lport ?c) (put8 PROTO UIP_PROTO_TCP a))"
  define c where "c = put_addr DESTIPADDR (ripaddr ?c) (put_addr SRCIPADDR (uip_hostaddr s) b)"
  define d where "d = (if tcpstateflags ?c AND UIP_STOPPED \<noteq> 0 then put8 WND 0 (put8 (WND + 1) 0 c)
    else put8 (WND + 1) (lo8 UIP_RECEIVE_WINDOW) (put8 WND (hi8 UIP_RECEIVE_WINDOW) c))"
  have "tcp_send i s = tcp_send_noconn d"
    by (simp add: tcp_send_def Let_def d_def c_def b_def a_def)
  moreover have "length (uip_buf d) = 422" "uip_len d = uip_len s" "same_conns s d"
    using len by (simp_all add: d_def c_def b_def a_def same_conns_def)
  moreover note tcp_send_noconn_ok [of d]
  ultimately obtain s' where s': "tcp_send i s = Inr s'" "sent s s'"
    "\<forall>p. p = 9 \<or> 12 \<le> p \<and> p < 36 \<or> 40 \<le> p \<longrightarrow> get8 p s' = get8 p d"
    using len same_conns_trans by (auto simp: sent_def)
  have "segment_of ?c (uip_hostaddr s) (get8 FLAGS s) d"
    using len by (cases "snd_nxt ?c"; cases "rcv_nxt ?c"; cases "ripaddr ?c"; cases "uip_hostaddr s")
      (simp add: segment_of_def d_def c_def b_def a_def get_seq_def put_seq_def get16_def put16_def get_addr_def put_addr_def
        uip_consts le16_bytes)
  then have "segment_of ?c (uip_hostaddr s) (get8 FLAGS s) s'"
    using segment_of_bytes [of s' d] s'(3) by blast
  moreover have "get8 p d = get8 p s" if "40 \<le> p \<or> p = 32" for p
    using that by (auto simp: d_def c_def b_def a_def put_seq_def put16_def put_addr_def uip_consts split: prod.split)
  ultimately show ?thesis using s' by (simp add: TCPOFFSET_def)
qed

end
