(* ===== verification/Uip_Safety.thy ===== *)
theory Uip_Safety
  imports Uip_Send
begin

text \<open>
  The contract between uip_process and an application, as a locale, and what uip_process
  guarantees to every application that keeps it: the invariant of the connection table, moves of
  one connection along the edges of the TCP state diagram, and valid packets. httpd is an
  instance.
\<close>

section \<open>The state diagram\<close>

text \<open>
  The progress of an open connection; besides, a connection may be closed at any time, and a new
  one may take the place of a closed one or of one in TIME_WAIT.
\<close>

inductive tcp_progress :: "m_uint8 \<Rightarrow> m_uint8 \<Rightarrow> bool" where
  syn_acked: "tcp_progress UIP_SYN_RCVD UIP_ESTABLISHED"
| syn_ack_received: "tcp_progress UIP_SYN_SENT UIP_ESTABLISHED"
| close: "tcp_progress UIP_ESTABLISHED UIP_FIN_WAIT_1"
| fin_received: "tcp_progress UIP_ESTABLISHED UIP_LAST_ACK"
| fin_acked: "tcp_progress UIP_FIN_WAIT_1 UIP_FIN_WAIT_2"
| both_closing: "tcp_progress UIP_FIN_WAIT_1 UIP_CLOSING"
| fin_and_ack: "tcp_progress UIP_FIN_WAIT_1 UIP_TIME_WAIT"
| last_fin: "tcp_progress UIP_FIN_WAIT_2 UIP_TIME_WAIT"
| closing_acked: "tcp_progress UIP_CLOSING UIP_TIME_WAIT"

inductive_cases tcp_progress_closedE: "tcp_progress UIP_CLOSED st"

definition tcp_moves :: "m_uint8 \<Rightarrow> m_uint8 \<Rightarrow> bool" where
  "tcp_moves st st' \<longleftrightarrow> tcp_progress\<^sup>*\<^sup>* st st' \<or> st' = UIP_CLOSED"

lemma closed_stays: "tcp_progress\<^sup>*\<^sup>* UIP_CLOSED st \<Longrightarrow> st = UIP_CLOSED"
  by (erule converse_rtranclpE, simp, erule tcp_progress_closedE, simp_all add: uip_consts)

lemma tcp_moves_trans: "tcp_moves a b \<Longrightarrow> tcp_moves b c \<Longrightarrow> tcp_moves a c"
  unfolding tcp_moves_def using closed_stays rtranclp_trans by metis

lemma tcp_moves_refl [simp]: "tcp_moves st st"
  by (simp add: tcp_moves_def)

lemma tcp_moves_closed [simp]: "tcp_moves st UIP_CLOSED"
  by (simp add: tcp_moves_def)

lemma tcp_moves_edge: "tcp_progress st st' \<Longrightarrow> tcp_moves st st'"
  by (auto simp: tcp_moves_def)

lemmas tcp_edges [simp] = tcp_progress.intros [THEN tcp_moves_edge]

section \<open>The invariant\<close>

definition conn_ok :: "'a uip_conn \<Rightarrow> bool" where
  "conn_ok c \<longleftrightarrow> unat (mss c) \<le> 366 \<and> unat (initialmss c) \<le> 366 \<and> unat (c_len c) \<le> 366 \<and> unat (tcpstateflags c) \<le> 8"

definition uip_inv :: "('a \<Rightarrow> bool) \<Rightarrow> 'a uip \<Rightarrow> bool" where
  "uip_inv ainv s \<longleftrightarrow> length (uip_buf s) = 422 \<and> length (uip_conns s) = 40 \<and> length (uip_listenports s) = 40 \<and>
     (\<forall>i < 40. conn_ok (conn_at i s) \<and> ainv (appstate (conn_at i s)))"

lemma uip_invD:
  assumes "uip_inv ainv s"
  shows "length (uip_buf s) = 422" "length (uip_conns s) = 40" "length (uip_listenports s) = 40"
    "\<And>i. i < 40 \<Longrightarrow> conn_ok (conn_at i s)" "\<And>i. i < 40 \<Longrightarrow> ainv (appstate (conn_at i s))"
  using assms by (auto simp: uip_inv_def)

lemma uip_inv_simps [simp]:
  "uip_inv ainv (put8 p v s) = uip_inv ainv s" "uip_inv ainv (put16 p w s) = uip_inv ainv s"
  "uip_inv ainv (put_seq p q s) = uip_inv ainv s" "uip_inv ainv (put_addr p a s) = uip_inv ainv s"
  "uip_inv ainv (set_len n s) = uip_inv ainv s" "uip_inv ainv (set_slen n s) = uip_inv ainv s"
  "uip_inv ainv (set_flags f s) = uip_inv ainv s" "uip_inv ainv (UIP_STAT k s) = uip_inv ainv s"
  "uip_inv ainv (s\<lparr>cur_conn := ci\<rparr>) = uip_inv ainv s" "uip_inv ainv (s\<lparr>iss := iq\<rparr>) = uip_inv ainv s"
  "uip_inv ainv (s\<lparr>uip_appdata := k1\<rparr>) = uip_inv ainv s" "uip_inv ainv (s\<lparr>uip_sappdata := k1\<rparr>) = uip_inv ainv s"
  "uip_inv ainv (s\<lparr>uip_len := w\<rparr>) = uip_inv ainv s"
  by (simp_all add: uip_inv_def conn_at_def)

lemma uip_inv_upd_conn:
  assumes "uip_inv ainv s" "i < 40" "conn_ok (f (conn_at i s))" "appstate (f (conn_at i s)) = appstate (conn_at i s)"
  shows "uip_inv ainv (upd_conn i f s)"
  using assms unfolding uip_inv_def by (auto simp: conn_at_def upd_conn_def nth_list_update)

lemma conn_ok_upd [simp]:
  "conn_ok (c\<lparr>snd_nxt := q\<rparr>) = conn_ok c" "conn_ok (c\<lparr>rcv_nxt := q\<rparr>) = conn_ok c" "conn_ok (c\<lparr>timer := t\<rparr>) = conn_ok c"
  "conn_ok (c\<lparr>nrtx := t\<rparr>) = conn_ok c" "conn_ok (c\<lparr>sa := t\<rparr>) = conn_ok c" "conn_ok (c\<lparr>sv := t\<rparr>) = conn_ok c"
  "conn_ok (c\<lparr>rto := t\<rparr>) = conn_ok c" "conn_ok (c\<lparr>lport := w\<rparr>) = conn_ok c" "conn_ok (c\<lparr>rport := w\<rparr>) = conn_ok c"
  "conn_ok (c\<lparr>ripaddr := a\<rparr>) = conn_ok c"
  by (simp_all add: conn_ok_def)

section \<open>Results of the labels\<close>

definition moves :: "nat \<Rightarrow> 'a uip \<Rightarrow> 'a uip \<Rightarrow> bool" where
  "moves i s s' \<longleftrightarrow> uip_listenports s' = uip_listenports s \<and> uip_hostaddr s' = uip_hostaddr s \<and>
     (\<forall>j. j \<noteq> i \<longrightarrow> conn_at j s' = conn_at j s) \<and>
     tcp_moves (tcpstateflags (conn_at i s)) (tcpstateflags (conn_at i s'))"

definition result_ok :: "('a \<Rightarrow> bool) \<Rightarrow> nat \<Rightarrow> 'a uip \<Rightarrow> 'a uip res \<Rightarrow> bool" where
  "result_ok ainv i s r \<longleftrightarrow> (\<exists>s'. r = Inr s' \<and> uip_inv ainv s' \<and> (uip_len s' = 0 \<or> valid_packet s') \<and> moves i s s')"

lemma moves_refl [simp]: "moves i s s"
  by (simp add: moves_def)

lemma moves_trans: "moves i s s' \<Longrightarrow> moves i s' s'' \<Longrightarrow> moves i s s''"
  by (auto simp: moves_def intro: tcp_moves_trans)

lemma moves_simps [simp]:
  "moves i s (put8 p v s') = moves i s s'" "moves i s (put16 p w s') = moves i s s'"
  "moves i s (put_seq p q s') = moves i s s'" "moves i s (put_addr p a s') = moves i s s'"
  "moves i s (set_len n s') = moves i s s'" "moves i s (set_slen n s') = moves i s s'"
  "moves i s (set_flags f s') = moves i s s'" "moves i s (UIP_STAT k s') = moves i s s'"
  "moves i s (s'\<lparr>cur_conn := ci\<rparr>) = moves i s s'" "moves i s (s'\<lparr>iss := iq\<rparr>) = moves i s s'"
  "moves i s (s'\<lparr>uip_appdata := k1\<rparr>) = moves i s s'" "moves i s (s'\<lparr>uip_sappdata := k1\<rparr>) = moves i s s'"
  "moves i s (s'\<lparr>uip_len := w\<rparr>) = moves i s s'"
  by (simp_all add: moves_def conn_at_def)

lemma moves_upd_conn:
  assumes "i < 40" "length (uip_conns s) = 40"
    "tcp_moves (tcpstateflags (conn_at i s)) (tcpstateflags (f (conn_at i s)))"
  shows "moves i s (upd_conn i f s)"
  using assms by (simp add: moves_def)

lemma moves_same_conns: "same_conns s s' \<Longrightarrow> moves i s s'"
  by (simp add: moves_def same_conns_def conn_at_def)

lemma uip_inv_same_conns: "same_conns s s' \<Longrightarrow> uip_inv ainv s' = uip_inv ainv s"
  by (simp add: uip_inv_def same_conns_def conn_at_def)

lemma result_trans: "moves i s s1 \<Longrightarrow> result_ok ainv i s1 r \<Longrightarrow> result_ok ainv i s r"
  unfolding result_ok_def using moves_trans by blast

lemma result_drop: "uip_inv ainv s \<Longrightarrow> result_ok ainv i s (Inr (uip_drop s))"
  by (simp add: result_ok_def uip_drop_def)

lemma result_sent:
  assumes "uip_inv ainv s" "r = Inr s'" "sent s s'"
  shows "result_ok ainv i s r"
  using assms moves_same_conns [of s s'] uip_inv_same_conns [of s s' ainv] by (auto simp: result_ok_def sent_def)

lemma result_tcp_send:
  assumes "uip_inv ainv s" "40 \<le> unat (uip_len s)" "unat (uip_len s) \<le> 408"
  shows "result_ok ainv i s (tcp_send i s)"
  using tcp_send_ok [OF uip_invD(1) [OF assms(1)] assms(2,3), of i] result_sent [OF assms(1)] by blast

lemma result_tcp_send_noconn:
  assumes "uip_inv ainv s" "40 \<le> unat (uip_len s)" "unat (uip_len s) \<le> 408"
  shows "result_ok ainv i s (tcp_send_noconn s)"
  using tcp_send_noconn_ok [OF uip_invD(1) [OF assms(1)] assms(2,3)] result_sent [OF assms(1)]
  by (auto simp: sent_def)

lemma result_noopts:
  assumes "uip_inv ainv s" "40 \<le> unat (uip_len s)" "unat (uip_len s) \<le> 408"
  shows "result_ok ainv i s (tcp_send_noopts i s)"
  unfolding tcp_send_noopts_def by (rule result_trans [OF _ result_tcp_send]) (use assms in simp_all)

lemma result_nodata: "uip_inv ainv s \<Longrightarrow> result_ok ainv i s (tcp_send_nodata i s)"
  unfolding tcp_send_nodata_def by (rule result_trans [OF _ result_noopts]) (simp_all add: uip_consts)

lemma result_ack: "uip_inv ainv s \<Longrightarrow> result_ok ainv i s (tcp_send_ack i s)"
  unfolding tcp_send_ack_def by (rule result_trans [OF _ result_nodata]) simp_all

lemma result_finack: "uip_inv ainv s \<Longrightarrow> result_ok ainv i s (tcp_send_finack i s)"
  unfolding tcp_send_finack_def by (rule result_trans [OF _ result_nodata]) simp_all

lemma result_syn: "uip_inv ainv s \<Longrightarrow> result_ok ainv i s (tcp_send_syn i s)"
  unfolding tcp_send_syn_def Let_def by (rule result_trans [OF _ result_tcp_send]) (simp_all add: uip_consts)

lemma result_synack: "uip_inv ainv s \<Longrightarrow> result_ok ainv i s (tcp_send_synack i s)"
  unfolding tcp_send_synack_def by (rule result_trans [OF _ result_syn]) simp_all

lemma result_reset: "uip_inv ainv s \<Longrightarrow> result_ok ainv i s (reset s)"
  unfolding reset_def Let_def
  by (auto intro!: result_drop result_trans [OF _ result_tcp_send_noconn] simp: uip_consts)

lemma moves_state:
  "moves i s (upd_conn i f s') \<longleftrightarrow> uip_listenports s' = uip_listenports s \<and> uip_hostaddr s' = uip_hostaddr s \<and>
     (\<forall>j. j \<noteq> i \<longrightarrow> conn_at j s' = conn_at j s) \<and> tcp_moves (tcpstateflags (conn_at i s)) (tcpstateflags (f (conn_at i s')))"
  if "i < length (uip_conns s')"
  using that by (simp add: moves_def)

section \<open>The contract of an application\<close>

text \<open>
  What an application may change: the bytes of the buffer behind the headers, the length of what
  it sends, the flags, and its own state of the current connection.
\<close>

definition app_frame :: "nat \<Rightarrow> 'a uip \<Rightarrow> 'a uip \<Rightarrow> bool" where
  "app_frame i s s' \<longleftrightarrow> (\<exists>buf sl fl a. length buf = length (uip_buf s) \<and> take 54 buf = take 54 (uip_buf s) \<and>
     s' = (upd_conn i (\<lambda>c. c\<lparr>appstate := a\<rparr>) s)\<lparr>uip_buf := buf, uip_slen := sl, uip_flags := fl\<rparr>)"

definition ready :: "('a \<Rightarrow> bool) \<Rightarrow> nat \<Rightarrow> 'a uip \<Rightarrow> bool" where
  "ready ainv i s \<longleftrightarrow> uip_inv ainv s \<and> i < 40 \<and> cur_conn s = Some i \<and> uip_sappdata s = 54"

lemma ready_simps [simp]:
  "ready ainv i (put8 p v s) = ready ainv i s" "ready ainv i (set_len n s) = ready ainv i s"
  "ready ainv i (set_slen n s) = ready ainv i s" "ready ainv i (set_flags f s) = ready ainv i s"
  "ready ainv i (UIP_STAT k s) = ready ainv i s" "ready ainv i (s\<lparr>uip_appdata := k1\<rparr>) = ready ainv i s"
  "ready ainv i (s\<lparr>uip_len := w\<rparr>) = ready ainv i s" "ready ainv i (s\<lparr>iss := q\<rparr>) = ready ainv i s"
  by (simp_all add: ready_def)

lemma ready_upd_conn:
  assumes "ready ainv i s" "conn_ok (f (conn_at i s))" "appstate (f (conn_at i s)) = appstate (conn_at i s)"
  shows "ready ainv i (upd_conn i f s)"
  using assms uip_inv_upd_conn [of ainv s i f] by (simp add: ready_def)

lemma readyD:
  assumes "ready ainv i s"
  shows "uip_inv ainv s" "i < 40" "i < length (uip_conns s)" "conn_ok (conn_at i s)" "cur_conn s = Some i" "uip_sappdata s = 54"
  using assms uip_invD(2,4) [of ainv s] by (auto simp: ready_def)

lemma ready_add_rcv_nxt [simp]:
  "ready ainv i s \<Longrightarrow> ready ainv i (uip_add_rcv_nxt i n s)"
  unfolding uip_add_rcv_nxt_def using readyD(4) [of ainv i s] by (intro ready_upd_conn) simp_all

lemma moves_add_rcv_nxt [simp]:
  "ready ainv i s' \<Longrightarrow> moves i s (uip_add_rcv_nxt i n s') = moves i s s'"
  using readyD(3) [of ainv i s'] by (simp add: uip_add_rcv_nxt_def moves_state) (simp add: moves_def)

locale uip_application =
  fixes app :: "'a uip \<Rightarrow> 'a uip res" and ainv :: "'a \<Rightarrow> bool"
  assumes app_ok: "ready ainv i s \<Longrightarrow> \<exists>s'. app s = Inr s' \<and> app_frame i s s' \<and> ainv (appstate (conn_at i s'))"
begin

lemma app_step:
  assumes "ready ainv i s"
  obtains s' where "app s = Inr s'" "ready ainv i s'" "moves i s s'" "app_frame i s s'"
    "tcpstateflags (conn_at i s') = tcpstateflags (conn_at i s)"
proof -
  obtain s' where s': "app s = Inr s'" "app_frame i s s'" "ainv (appstate (conn_at i s'))" using app_ok [OF assms] by blast
  then obtain buf sl fl a where f: "length buf = length (uip_buf s)"
    "s' = (upd_conn i (\<lambda>c. c\<lparr>appstate := a\<rparr>) s)\<lparr>uip_buf := buf, uip_slen := sl, uip_flags := fl\<rparr>"
    by (auto simp: app_frame_def)
  note r = readyD [OF assms]
  have c: "conn_at j s' = (if j = i then (conn_at i s)\<lparr>appstate := a\<rparr> else conn_at j s)" for j
    using r(3) by (simp add: f(2) conn_at_def upd_conn_def)
  then have "uip_inv ainv s'"
    using r(1,4) s'(3) f(1) unfolding uip_inv_def by (auto simp: f(2) conn_ok_def)
  then have "ready ainv i s'" using assms by (simp add: ready_def f(2))
  moreover have "moves i s s'" by (simp add: moves_def c) (simp add: f(2))
  ultimately show ?thesis using that [OF s'(1) _ _ s'(2)] c by simp
qed

lemma app_then:
  assumes "ready ainv i s" "moves i s0 s"
    and "\<And>s'. ready ainv i s' \<Longrightarrow> moves i s0 s' \<Longrightarrow> tcpstateflags (conn_at i s') = tcpstateflags (conn_at i s) \<Longrightarrow>
      result_ok ainv i s0 (k s')"
  shows "result_ok ainv i s0 (rbind (app s) k)"
proof -
  obtain s' where s': "app s = Inr s'" "ready ainv i s'" "moves i s s'" "tcpstateflags (conn_at i s') = tcpstateflags (conn_at i s)"
    by (rule app_step [OF assms(1)])
  show ?thesis using assms(3) [OF s'(2) moves_trans [OF assms(2) s'(3)] s'(4)] s'(1) by simp
qed

end

section \<open>The labels\<close>

lemma state_mask:
  assumes "conn_ok c"
  shows "tcpstateflags c AND UIP_TS_MASK = tcpstateflags c"
proof -
  have "tcpstateflags c AND UIP_TS_MASK = take_bit 4 (tcpstateflags c)"
    by (simp add: take_bit_eq_mask mask_eq_exp_minus_1 uip_consts)
  moreover have "unat (take_bit 4 (tcpstateflags c)) = unat (tcpstateflags c)"
    using assms unfolding unsigned_take_bit_eq by (simp add: take_bit_eq_mod conn_ok_def)
  ultimately show ?thesis by (simp add: word_unat_eq_iff)
qed

lemma result_apprexmit:
  assumes "ready ainv i s"
  shows "result_ok ainv i s (apprexmit i s)"
proof -
  note r = readyD [OF assms]
  let ?n = "c_len (conn_at i s)"
  have n: "unat ?n \<le> 366" using r(4) by (simp add: conn_ok_def)
  then have "unat (?n + of_nat UIP_IPTCPH_LEN) = unat ?n + 40" by (simp add: uip_consts unat_word_ariths)
  moreover have "conn_at i (s\<lparr>uip_appdata := k\<rparr>) = conn_at i s" for k by (simp add: conn_at_def)
  ultimately show ?thesis
    unfolding apprexmit_def Let_def using r(1) n
    by (auto intro!: result_trans [OF _ result_drop] result_trans [OF _ result_noopts] simp: uip_consts)
qed

lemma conn_ok_len: "conn_ok c \<Longrightarrow> unat n \<le> 366 \<Longrightarrow> conn_ok (c\<lparr>c_len := n\<rparr>)"
  by (simp add: conn_ok_def)

lemma conn_ok_flags: "conn_ok c \<Longrightarrow> unat st \<le> 8 \<Longrightarrow> conn_ok (c\<lparr>tcpstateflags := st\<rparr>)"
  by (simp add: conn_ok_def)

lemma clip_send_ok:
  assumes "ready ainv i s"
  shows "ready ainv i (clip_send i s) \<and> moves i s (clip_send i s) \<and>
    tcpstateflags (conn_at i (clip_send i s)) = tcpstateflags (conn_at i s)"
proof -
  define s1 where "s1 = (if uip_flags s AND UIP_ACKDATA \<noteq> 0 then upd_conn i (\<lambda>c. c\<lparr>c_len := 0\<rparr>) s else s)"
  note r = readyD [OF assms]
  have s1: "ready ainv i s1" "moves i s s1" "tcpstateflags (conn_at i s1) = tcpstateflags (conn_at i s)" "uip_slen s1 = uip_slen s"
    using assms r(3,4) by (auto simp: s1_def moves_state conn_ok_len intro!: ready_upd_conn)
  note r1 = readyD [OF s1(1)]
  define s2 where "s2 = (if uip_slen s1 > mss (conn_at i s1) then set_slen (mss (conn_at i s1)) s1 else s1)"
  have s2: "ready ainv i s2" "moves i s s2" "conn_at i s2 = conn_at i s1" using s1 by (simp_all add: s2_def)
  have "unat (uip_slen s2) \<le> unat (mss (conn_at i s1))" by (auto simp: s2_def word_less_nat_alt)
  then have le: "unat (uip_slen s2) \<le> 366" using r1(4) by (simp add: conn_ok_def)
  note r2 = readyD [OF s2(1)]
  have "ready ainv i (upd_conn i (\<lambda>c. c\<lparr>c_len := uip_slen s2\<rparr>) s2)"
    using r2(4) le by (intro ready_upd_conn [OF s2(1)]) (simp_all add: conn_ok_len)
  moreover have "moves i s (upd_conn i (\<lambda>c. c\<lparr>c_len := uip_slen s2\<rparr>) s2)"
    using s2(2,3) s1(3) r2(3) by (simp add: moves_state) (simp add: moves_def)
  moreover have "clip_send i s = (if uip_slen s > 0 then if c_len (conn_at i s1) = 0
      then upd_conn i (\<lambda>c. c\<lparr>c_len := uip_slen s2\<rparr>) s2 else set_slen (c_len (conn_at i s1)) s1 else s)"
    by (simp add: clip_send_def Let_def s1_def s2_def)
  ultimately show ?thesis using assms s1 s2(3) r2(3) by simp
qed

lemma result_appsend:
  assumes "ready ainv i s" "tcpstateflags (conn_at i s) = UIP_ESTABLISHED"
  shows "result_ok ainv i s (appsend i s)"
proof -
  note r = readyD [OF assms(1)]
  have c: "ready ainv i (upd_conn i (\<lambda>c. c\<lparr>nrtx := 0\<rparr>) (clip_send i s))"
    "moves i s (upd_conn i (\<lambda>c. c\<lparr>nrtx := 0\<rparr>) (clip_send i s))"
  proof -
    note k = clip_send_ok [OF assms(1)]
    note rk = readyD [OF conjunct1 [OF k]]
    show "ready ainv i (upd_conn i (\<lambda>c. c\<lparr>nrtx := 0\<rparr>) (clip_send i s))"
      using k rk(4) by (intro ready_upd_conn) simp_all
    show "moves i s (upd_conn i (\<lambda>c. c\<lparr>nrtx := 0\<rparr>) (clip_send i s))"
      using k rk(3) by (simp add: moves_state) (simp add: moves_def)
  qed
  have a: "uip_inv ainv (upd_conn i (\<lambda>c. c\<lparr>tcpstateflags := UIP_CLOSED\<rparr>) (set_slen 0 s))"
    using r by (intro uip_inv_upd_conn) (simp_all add: conn_ok_flags uip_consts)
  have b: "uip_inv ainv (upd_conn i (\<lambda>c. c\<lparr>c_len := 1, tcpstateflags := UIP_FIN_WAIT_1, nrtx := 0\<rparr>) (set_slen 0 s))"
    using r by (intro uip_inv_upd_conn) (simp_all add: conn_ok_def uip_consts)
  show ?thesis
    unfolding appsend_def using a b c r(3) assms(2)
    by (auto intro!: result_trans [OF _ result_nodata] result_trans [OF _ result_apprexmit] simp: moves_state)
qed

lemma acknowledge_ok:
  assumes "ready ainv i s"
  shows "ready ainv i (acknowledge i s) \<and> moves i s (acknowledge i s) \<and> uip_buf (acknowledge i s) = uip_buf s \<and>
    tcpstateflags (conn_at i (acknowledge i s)) = tcpstateflags (conn_at i s)"
proof -
  define q where "q = uip_add32 (snd_nxt (conn_at i s)) (c_len (conn_at i s))"
  define s1 where "s1 = upd_conn i (\<lambda>c. c\<lparr>snd_nxt := q\<rparr>) s"
  define s2 where "s2 = (if nrtx (conn_at i s1) = 0 then upd_conn i rtt_estimate s1 else s1)"
  define s3 where "s3 = upd_conn i (\<lambda>c. c\<lparr>timer := rto c, c_len := 0\<rparr>) (set_flags UIP_ACKDATA s2)"
  note r = readyD [OF assms]
  have r1: "ready ainv i s1" unfolding s1_def using r(4) by (intro ready_upd_conn [OF assms]) simp_all
  have m1: "conn_at i s1 = (conn_at i s)\<lparr>snd_nxt := q\<rparr>" using r(3) by (simp add: s1_def)
  have rtt: "tcpstateflags (rtt_estimate c) = tcpstateflags c" "appstate (rtt_estimate c) = appstate c"
    "conn_ok (rtt_estimate c) = conn_ok c" for c :: "'a uip_conn" by (simp_all add: rtt_estimate_def Let_def)
  have r2: "ready ainv i s2" unfolding s2_def using r1 readyD(4) [OF r1] by (auto intro!: ready_upd_conn simp: rtt)
  have f2: "tcpstateflags (conn_at i s2) = tcpstateflags (conn_at i s)"
    using m1 readyD(3) [OF r1] by (simp add: s2_def rtt)
  have r3: "ready ainv i s3" unfolding s3_def using r2 readyD(4) [OF r2]
    by (intro ready_upd_conn) (simp_all add: conn_ok_def)
  have "conn_at j s3 = conn_at j s" if "j \<noteq> i" for j using that by (simp add: s3_def s2_def s1_def)
  moreover have "tcpstateflags (conn_at i s3) = tcpstateflags (conn_at i s)" using f2 readyD(3) [OF r2] by (simp add: s3_def)
  moreover have "uip_buf s3 = uip_buf s" "uip_listenports s3 = uip_listenports s" "uip_hostaddr s3 = uip_hostaddr s"
    by (simp_all add: s3_def s2_def s1_def)
  moreover have "acknowledge i s = (if get8 FLAGS s AND TCP_ACK \<noteq> 0 \<and> uip_outstanding (conn_at i s) \<and> get_seq ACKNO s = q
      then s3 else s)"
    by (simp add: acknowledge_def Let_def s3_def s2_def s1_def q_def)
  ultimately show ?thesis using assms r3 by (simp add: moves_def)
qed

text \<open>The options of a segment end, unless the byte counter of the loop wraps for ever.\<close>

definition options_end :: "'a uip \<Rightarrow> bool" where
  "options_end s \<longleftrightarrow> mss_loop (uip_buf s) ((unat (drop_bit 4 (get8 TCPOFFSET s)) - 5) * 4) 0 \<noteq> None"

lemma options_end_buf: "uip_buf s = uip_buf s' \<Longrightarrow> options_end s = options_end s'"
  by (simp add: options_end_def get8_def)

lemma parse_mss_ok:
  assumes "ready ainv i s" "options_end s"
  shows "\<exists>s'. parse_mss i s = Inr s' \<and> ready ainv i s' \<and> uip_buf s' = uip_buf s \<and> uip_len s' = uip_len s \<and>
    uip_flags s' = uip_flags s \<and> moves i s s' \<and> (\<exists>m m'. conn_at i s' = (conn_at i s)\<lparr>mss := m, initialmss := m'\<rparr>)"
proof -
  note r = readyD [OF assms(1)]
  have id: "\<exists>m m'. conn_at i s = (conn_at i s)\<lparr>mss := m, initialmss := m'\<rparr>"
    by (rule exI [of _ "mss (conn_at i s)"], rule exI [of _ "initialmss (conn_at i s)"]) simp
  { fix v :: m_uint16
    let ?m = "if v > UIP_TCP_MSS then UIP_TCP_MSS else v"
    have "unat ?m \<le> 366" by (auto simp: uip_consts word_less_nat_alt not_less)
    then have "ready ainv i (upd_conn i (\<lambda>c. c\<lparr>initialmss := ?m, mss := ?m\<rparr>) s)"
      using r(4) by (intro ready_upd_conn [OF assms(1)]) (simp_all add: conn_ok_def)
    moreover have "moves i s (upd_conn i (\<lambda>c. c\<lparr>initialmss := ?m, mss := ?m\<rparr>) s)" using r(3) by (simp add: moves_state)
    moreover have "\<exists>m m'. (conn_at i s)\<lparr>initialmss := ?m, mss := ?m\<rparr> = (conn_at i s)\<lparr>mss := m, initialmss := m'\<rparr>"
      by (rule exI [of _ ?m], rule exI [of _ ?m]) simp
    ultimately have "ready ainv i (upd_conn i (\<lambda>c. c\<lparr>initialmss := ?m, mss := ?m\<rparr>) s) \<and>
      moves i s (upd_conn i (\<lambda>c. c\<lparr>initialmss := ?m, mss := ?m\<rparr>) s) \<and>
      (\<exists>m m'. conn_at i (upd_conn i (\<lambda>c. c\<lparr>initialmss := ?m, mss := ?m\<rparr>) s) = (conn_at i s)\<lparr>mss := m, initialmss := m'\<rparr>)"
      using r(3) by simp }
  note * = this
  show ?thesis
    using assms id * unfolding parse_mss_def options_end_def Let_def
    by (auto split: option.split simp del: conn_at_upd_conn)
qed

lemma result_dropped [simp]: "uip_inv ainv s \<Longrightarrow> moves i s0 s \<Longrightarrow> result_ok ainv i s0 (Inr (uip_drop s))"
  by (rule result_trans [OF _ result_drop])

lemma add_rcv_nxt_simps [simp]:
  "uip_flags (uip_add_rcv_nxt i n s) = uip_flags s" "uip_len (uip_add_rcv_nxt i n s) = uip_len s"
  "uip_buf (uip_add_rcv_nxt i n s) = uip_buf s" "get8 p (uip_add_rcv_nxt i n s) = get8 p s"
  "uip_slen (uip_add_rcv_nxt i n s) = uip_slen s"
  by (simp_all add: uip_add_rcv_nxt_def)

lemma add_rcv_nxt_state:
  "ready ainv i s \<Longrightarrow> tcpstateflags (conn_at i (uip_add_rcv_nxt i n s)) = tcpstateflags (conn_at i s)"
  using readyD(3) [of ainv i s] by (simp add: uip_add_rcv_nxt_def)

lemma moves_upd:
  assumes "ready ainv i s'" "moves i s s'" "tcp_moves (tcpstateflags (conn_at i s')) (tcpstateflags (f (conn_at i s')))"
  shows "moves i s (upd_conn i f s')"
  using assms(2,3) readyD(3) [OF assms(1)] by (auto simp: moves_state) (auto simp: moves_def intro: tcp_moves_trans)

text \<open>A stage on the way through uip_process: the connection has moved from \<open>s0\<close> to the state \<open>st\<close>.\<close>

definition stage :: "('a \<Rightarrow> bool) \<Rightarrow> nat \<Rightarrow> 'a uip \<Rightarrow> m_uint8 \<Rightarrow> 'a uip \<Rightarrow> bool" where
  "stage ainv i s0 st s \<longleftrightarrow> ready ainv i s \<and> moves i s0 s \<and> tcpstateflags (conn_at i s) = st"

lemma stageD:
  "stage ainv i s0 st s \<Longrightarrow> ready ainv i s" "stage ainv i s0 st s \<Longrightarrow> moves i s0 s" "stage ainv i s0 st s \<Longrightarrow> uip_inv ainv s"
  "stage ainv i s0 st s \<Longrightarrow> tcpstateflags (conn_at i s) = st"
  using readyD(1) [of ainv i s] by (auto simp: stage_def)

lemma stage_simps [simp]:
  "stage ainv i s0 st (put8 p v s) = stage ainv i s0 st s" "stage ainv i s0 st (set_len n s) = stage ainv i s0 st s"
  "stage ainv i s0 st (set_slen n s) = stage ainv i s0 st s" "stage ainv i s0 st (set_flags f s) = stage ainv i s0 st s"
  "stage ainv i s0 st (UIP_STAT k s) = stage ainv i s0 st s"
  "stage ainv i s0 st (s\<lparr>uip_appdata := k1, uip_len := w\<rparr>) = stage ainv i s0 st s"
  by (simp_all add: stage_def conn_at_def)

lemma stage_upd:
  assumes "stage ainv i s0 st s" "\<And>c. conn_ok c \<Longrightarrow> conn_ok (f c)" "\<And>c. appstate (f c) = appstate c"
    "\<And>c. tcpstateflags c = st \<Longrightarrow> tcpstateflags (f c) = st'" "tcp_moves st st'"
  shows "stage ainv i s0 st' (upd_conn i f s)"
  using assms readyD(3,4) [OF stageD(1) [OF assms(1)]]
  by (auto simp: stage_def intro!: ready_upd_conn moves_upd)

lemma stage_rcv_nxt [simp]: "stage ainv i s0 st s \<Longrightarrow> stage ainv i s0 st (uip_add_rcv_nxt i n s)"
  unfolding uip_add_rcv_nxt_def by (erule stage_upd) simp_all

lemma states_le [simp]:
  "unat UIP_CLOSED \<le> 8" "unat UIP_SYN_RCVD \<le> 8" "unat UIP_SYN_SENT \<le> 8" "unat UIP_ESTABLISHED \<le> 8" "unat UIP_FIN_WAIT_1 \<le> 8"
  "unat UIP_FIN_WAIT_2 \<le> 8" "unat UIP_CLOSING \<le> 8" "unat UIP_TIME_WAIT \<le> 8" "unat UIP_LAST_ACK \<le> 8"
  by (simp_all add: uip_consts)

lemma stage_start: "ready ainv i s \<Longrightarrow> stage ainv i s (tcpstateflags (conn_at i s)) s"
  by (simp add: stage_def)

lemma stage_drop: "stage ainv i s0 st s \<Longrightarrow> result_ok ainv i s0 (Inr (uip_drop s))"
  using stageD(2,3) [of ainv i s0 st s] by simp

lemma stage_then:
  assumes "stage ainv i s0 st s" "result_ok ainv i s (f s)"
  shows "result_ok ainv i s0 (f s)"
  using assms result_trans [OF stageD(2)] by blast

lemma stage_ack: "stage ainv i s0 st s \<Longrightarrow> result_ok ainv i s0 (tcp_send_ack i s)"
  using stage_then [of ainv i s0 st s "tcp_send_ack i"] result_ack [OF stageD(3)] by blast

lemma stage_finack: "stage ainv i s0 st s \<Longrightarrow> result_ok ainv i s0 (tcp_send_finack i s)"
  using stage_then [of ainv i s0 st s "tcp_send_finack i"] result_finack [OF stageD(3)] by blast

lemma stage_nodata: "stage ainv i s0 st s \<Longrightarrow> result_ok ainv i s0 (tcp_send_nodata i s)"
  using stage_then [of ainv i s0 st s "tcp_send_nodata i"] result_nodata [OF stageD(3)] by blast

lemma stage_reset: "stage ainv i s0 st s \<Longrightarrow> result_ok ainv i s0 (reset s)"
  using stage_then [of ainv i s0 st s reset] result_reset [OF stageD(3)] by blast

context uip_application
begin

lemma stage_app:
  assumes "stage ainv i s0 st s" "\<And>s'. stage ainv i s0 st s' \<Longrightarrow> result_ok ainv i s0 (k s')"
  shows "result_ok ainv i s0 (rbind (app s) k)"
  by (rule app_then [OF stageD(1,2) [OF assms(1)]]) (use assms stageD(4) [OF assms(1)] in \<open>simp add: stage_def\<close>)

lemma stage_appsend:
  "stage ainv i s0 UIP_ESTABLISHED s \<Longrightarrow> result_ok ainv i s0 (rbind (app s) (appsend i))"
  by (rule stage_app) (auto intro!: result_trans [OF stageD(2) result_appsend] dest: stageD(1,4))

lemma stage_app_ack: "stage ainv i s0 st s \<Longrightarrow> result_ok ainv i s0 (rbind (app s) (tcp_send_ack i))"
  by (erule stage_app) (rule stage_ack)

lemma stage_app_drop: "stage ainv i s0 st s \<Longrightarrow> result_ok ainv i s0 (rbind (app s) (\<lambda>s. Inr (uip_drop s)))"
  by (erule stage_app) (rule stage_drop)

lemma result_syn_rcvd:
  assumes "stage ainv i s0 UIP_SYN_RCVD s"
  shows "result_ok ainv i s0 (in_syn_rcvd app i s)"
proof -
  let ?b = "upd_conn i (\<lambda>c. c\<lparr>c_len := 0\<rparr>) (set_flags UIP_CONNECTED (upd_conn i (\<lambda>c. c\<lparr>tcpstateflags := UIP_ESTABLISHED\<rparr>) s))"
  have "stage ainv i s0 UIP_ESTABLISHED (upd_conn i (\<lambda>c. c\<lparr>tcpstateflags := UIP_ESTABLISHED\<rparr>) s)"
    by (rule stage_upd [OF assms]) (simp_all add: conn_ok_flags)
  then have "stage ainv i s0 UIP_ESTABLISHED ?b"
    by (intro stage_upd [where st = UIP_ESTABLISHED]) (simp_all add: conn_ok_len)
  then show ?thesis
    unfolding in_syn_rcvd_def Let_def using assms by (auto intro!: stage_appsend stage_drop)
qed

lemma result_syn_sent:
  assumes "stage ainv i s0 UIP_SYN_SENT s" "options_end s"
  shows "result_ok ainv i s0 (in_syn_sent app i s)"
proof -
  obtain s1 m m' where s1: "parse_mss i s = Inr s1" "ready ainv i s1" "moves i s s1"
    "conn_at i s1 = (conn_at i s)\<lparr>mss := m, initialmss := m'\<rparr>"
    using parse_mss_ok [OF stageD(1) [OF assms(1)] assms(2)] by blast
  have st1: "stage ainv i s0 UIP_SYN_SENT s1"
    using assms(1) s1 moves_trans by (auto simp: stage_def)
  let ?a = "set_flags (UIP_CONNECTED OR UIP_NEWDATA)
    (uip_add_rcv_nxt i 1 (upd_conn i (\<lambda>c. c\<lparr>tcpstateflags := UIP_ESTABLISHED, rcv_nxt := get_seq SEQNO s1\<rparr>) s1))"
  have "stage ainv i s0 UIP_ESTABLISHED (upd_conn i (\<lambda>c. c\<lparr>tcpstateflags := UIP_ESTABLISHED, rcv_nxt := get_seq SEQNO s1\<rparr>) s1)"
    by (rule stage_upd [OF st1]) (simp_all add: conn_ok_flags)
  then have "stage ainv i s0 UIP_ESTABLISHED (upd_conn i (\<lambda>c. c\<lparr>c_len := 0\<rparr>) ?a)"
    by (intro stage_upd [of _ _ _ UIP_ESTABLISHED]) (simp_all add: conn_ok_len)
  then have "result_ok ainv i s0 (rbind (app (set_slen 0 (set_len 0 (upd_conn i (\<lambda>c. c\<lparr>c_len := 0\<rparr>) ?a)))) (appsend i))"
    by (intro stage_appsend) simp
  moreover have "result_ok ainv i s0 (reset (upd_conn i (\<lambda>c. c\<lparr>tcpstateflags := UIP_CLOSED\<rparr>) s'))"
    if "stage ainv i s0 UIP_SYN_SENT s'" for s'
  proof -
    have "stage ainv i s0 UIP_CLOSED (upd_conn i (\<lambda>c. c\<lparr>tcpstateflags := UIP_CLOSED\<rparr>) s')"
      by (rule stage_upd [OF that]) (simp_all add: conn_ok_flags)
    then show ?thesis by (rule stage_reset)
  qed
  ultimately show ?thesis
    unfolding in_syn_sent_def Let_def using assms(1) s1(1) by (auto intro!: stage_app [of i s0 UIP_SYN_SENT])
qed

lemma result_established:
  assumes "stage ainv i s0 UIP_ESTABLISHED s"
  shows "result_ok ainv i s0 (in_established app i s)"
proof -
  have w: "stage ainv i s0 UIP_ESTABLISHED (window_mss i s')" if "stage ainv i s0 UIP_ESTABLISHED s'" for s'
  proof -
    let ?w = "be16 (get8 WND s') (get8 (WND + 1) s')"
    let ?m = "if ?w > initialmss (conn_at i s') \<or> ?w = 0 then initialmss (conn_at i s') else ?w"
    have "unat (initialmss (conn_at i s')) \<le> 366"
      using readyD(4) [OF stageD(1) [OF that]] by (simp add: conn_ok_def)
    then have "unat ?m \<le> 366" by (auto simp: word_less_nat_alt not_less)
    then show ?thesis
      unfolding window_mss_def Let_def by (intro stage_upd [OF that]) (auto simp: conn_ok_def)
  qed
  have fin: "result_ok ainv i s0 (tcp_send_finack i (upd_conn i (\<lambda>c. c\<lparr>c_len := 1, tcpstateflags := UIP_LAST_ACK, nrtx := 0\<rparr>) s'))"
    if "stage ainv i s0 UIP_ESTABLISHED s'" for s'
    by (rule stage_finack [where st = UIP_LAST_ACK], rule stage_upd [OF that]) (simp_all add: conn_ok_def)
  have u: "stage ainv i s0 UIP_ESTABLISHED (urgent s)" using assms by (simp add: urgent_def Let_def)
  show ?thesis
    unfolding in_established_def Let_def using assms u
    by (auto intro!: stage_drop w stage_appsend stage_app [of i s0 UIP_ESTABLISHED] fin)
qed

lemma result_last_ack:
  assumes "stage ainv i s0 UIP_LAST_ACK s"
  shows "result_ok ainv i s0 (in_last_ack app i s)"
proof -
  have "stage ainv i s0 UIP_CLOSED (upd_conn i (\<lambda>c. c\<lparr>tcpstateflags := UIP_CLOSED\<rparr>) s)"
    by (rule stage_upd [OF assms]) (simp_all add: conn_ok_flags)
  then show ?thesis unfolding in_last_ack_def using assms by (auto intro!: stage_drop stage_app_drop)
qed

lemma result_fin_wait_1:
  assumes "stage ainv i s0 UIP_FIN_WAIT_1 s"
  shows "result_ok ainv i s0 (in_fin_wait_1 app i s)"
proof -
  define s1 where "s1 = (if uip_len s > 0 then uip_add_rcv_nxt i (uip_len s) s else s)"
  have s1: "stage ainv i s0 UIP_FIN_WAIT_1 s1" using assms by (simp add: s1_def)
  have "stage ainv i s0 UIP_TIME_WAIT (upd_conn i (\<lambda>c. c\<lparr>tcpstateflags := UIP_TIME_WAIT, timer := 0, c_len := 0\<rparr>) s1)"
    "stage ainv i s0 UIP_CLOSING (upd_conn i (\<lambda>c. c\<lparr>tcpstateflags := UIP_CLOSING\<rparr>) s1)"
    "stage ainv i s0 UIP_FIN_WAIT_2 (upd_conn i (\<lambda>c. c\<lparr>tcpstateflags := UIP_FIN_WAIT_2, c_len := 0\<rparr>) s1)"
    by (rule stage_upd [OF s1]; simp add: conn_ok_def)+
  then show ?thesis
    unfolding in_fin_wait_1_def Let_def s1_def [symmetric] using s1 by (auto intro!: stage_drop stage_ack stage_app_ack stage_rcv_nxt)
qed

lemma result_fin_wait_2:
  assumes "stage ainv i s0 UIP_FIN_WAIT_2 s"
  shows "result_ok ainv i s0 (in_fin_wait_2 app i s)"
proof -
  define s1 where "s1 = (if uip_len s > 0 then uip_add_rcv_nxt i (uip_len s) s else s)"
  have s1: "stage ainv i s0 UIP_FIN_WAIT_2 s1" using assms by (simp add: s1_def)
  have "stage ainv i s0 UIP_TIME_WAIT (upd_conn i (\<lambda>c. c\<lparr>tcpstateflags := UIP_TIME_WAIT, timer := 0\<rparr>) s1)"
    by (rule stage_upd [OF s1]; simp add: conn_ok_def)+
  then show ?thesis
    unfolding in_fin_wait_2_def Let_def s1_def [symmetric] using s1 by (auto intro!: stage_drop stage_ack stage_app_ack stage_rcv_nxt)
qed

lemma result_closing:
  assumes "stage ainv i s0 UIP_CLOSING s"
  shows "result_ok ainv i s0 (in_closing i s)"
proof -
  have "stage ainv i s0 UIP_TIME_WAIT (upd_conn i (\<lambda>c. c\<lparr>tcpstateflags := UIP_TIME_WAIT, timer := 0\<rparr>) s)"
    by (rule stage_upd [OF assms]; simp add: conn_ok_def)+
  then show ?thesis unfolding in_closing_def using assms by (auto intro!: stage_drop)
qed

lemma result_switch:
  assumes "stage ainv i s0 st s" "options_end s"
  shows "result_ok ainv i s0 (state_switch app i s)"
proof -
  have "tcpstateflags (conn_at i s) AND UIP_TS_MASK = st"
    using state_mask [OF readyD(4) [OF stageD(1) [OF assms(1)]]] stageD(4) [OF assms(1)] by simp
  then show ?thesis
    unfolding state_switch_def Let_def using assms
    by (auto intro: result_syn_rcvd result_syn_sent result_established result_last_ack result_fin_wait_1
        result_fin_wait_2 result_closing stage_ack stage_drop)
qed

lemma result_found:
  assumes inv: "uip_inv ainv s" "i < 40" "uip_sappdata s = 54" and opt: "options_end s"
  shows "result_ok ainv i s (found app i s)"
proof -
  let ?st = "tcpstateflags (conn_at i s)"
  define s1 where "s1 = set_flags 0 (s\<lparr>cur_conn := Some i\<rparr>)"
  have s1: "stage ainv i s ?st s1" using inv by (simp add: s1_def stage_def ready_def conn_at_def)
  have b: "uip_buf s1 = uip_buf s" by (simp add: s1_def)
  define s2 where "s2 = set_len (uip_len s1 - ucast (push_bit 2 (drop_bit 4 (get8 TCPOFFSET s1))) - of_nat UIP_IPH_LEN) s1"
  have s2: "stage ainv i s ?st s2" using s1 by (simp add: s2_def)
  have "stage ainv i s ?st (acknowledge i s2)"
    using acknowledge_ok [OF stageD(1) [OF s2]] stageD(2,4) [OF s2] moves_trans by (auto simp: stage_def)
  moreover have "options_end (acknowledge i s2)"
  proof -
    have "uip_buf (acknowledge i s2) = uip_buf s"
      using acknowledge_ok [OF stageD(1) [OF s2]] b by (simp add: s2_def)
    from options_end_buf [OF this] opt show ?thesis by simp
  qed
  ultimately have a: "result_ok ainv i s (state_switch app i (acknowledge i s2))" by (rule result_switch)
  have "stage ainv i s UIP_CLOSED (upd_conn i (\<lambda>c. c\<lparr>tcpstateflags := UIP_CLOSED\<rparr>) s1)"
    by (rule stage_upd [OF s1]) (simp_all add: conn_ok_flags)
  then have r: "result_ok ainv i s (rbind (app (set_flags UIP_ABORT (upd_conn i (\<lambda>c. c\<lparr>tcpstateflags := UIP_CLOSED\<rparr>) s1)))
      (\<lambda>s. Inr (uip_drop s)))"
    by (intro stage_app_drop [of i s UIP_CLOSED]) simp
  have k: "result_ok ainv i s (tcp_send_ack i s2)" by (rule stage_ack [OF s2])
  show ?thesis
    unfolding found_def Let_def s1_def [symmetric] s2_def [symmetric] using a r k by simp
qed

end

section \<open>New connections\<close>

lemma find_unused_Some:
  assumes "find_unused conns cs f = Some i" "case f of None \<Rightarrow> True | Some j \<Rightarrow> P j \<and> tcpstateflags (conns ! j) = UIP_TIME_WAIT"
    "\<forall>c \<in> set cs. P c"
  shows "P i \<and> (tcpstateflags (conns ! i) = UIP_CLOSED \<or> tcpstateflags (conns ! i) = UIP_TIME_WAIT)"
  using assms
proof (induction conns cs f rule: find_unused.induct)
  case (2 conns c cs f)
  show ?case
  proof (cases "tcpstateflags (conns ! c) = UIP_CLOSED")
    case False
    show ?thesis by (rule "2.IH" [OF False]) (use 2 False in \<open>auto split: option.splits\<close>)
  qed (use 2 in auto)
qed auto

lemma find_unused_None:
  "find_unused conns cs f = None \<longleftrightarrow> f = None \<and> (\<forall>c \<in> set cs. tcpstateflags (conns ! c) \<noteq> UIP_CLOSED \<and> tcpstateflags (conns ! c) \<noteq> UIP_TIME_WAIT)"
  by (induction conns cs f rule: find_unused.induct) (auto split: option.splits)

lemma synack_ok:
  assumes "length (uip_buf s) = 422"
  shows "\<exists>s'. tcp_send_synack i s = Inr s' \<and> valid_packet s' \<and> same_conns s s' \<and> uip_len s' = 44 \<and>
    segment_of (conn_at i s) (uip_hostaddr s) (TCP_SYN OR TCP_ACK) s'"
proof -
  define s1 where "s1 = put8 FLAGS (TCP_ACK OR TCP_SYN) (put8 FLAGS TCP_ACK s)"
  define s2 where "s2 = put8 (OPTDATA + 3) (ucast (UIP_TCP_MSS AND 255)) (put8 (OPTDATA + 2) (ucast (UIP_TCP_MSS div 256))
    (put8 (OPTDATA + 1) TCP_OPT_MSS_LEN (put8 OPTDATA TCP_OPT_MSS s1)))"
  define s3 where "s3 = put8 TCPOFFSET (push_bit 4 ((of_nat UIP_TCPH_LEN + TCP_OPT_MSS_LEN) div 4))
    (set_len (of_nat UIP_IPTCPH_LEN + ucast TCP_OPT_MSS_LEN) s2)"
  have fl: "get8 FLAGS (put8 FLAGS TCP_ACK s) = TCP_ACK" using assms by (simp add: uip_consts)
  have e: "tcp_send_synack i s = tcp_send i s3"
    by (simp add: tcp_send_synack_def tcp_send_syn_def Let_def fl s3_def s2_def s1_def)
  have l: "uip_len s3 = 44" "length (uip_buf s3) = 422" using assms by (simp_all add: s3_def s2_def s1_def uip_consts)
  have sc: "same_conns s s3" "conn_at i s3 = conn_at i s" "uip_hostaddr s3 = uip_hostaddr s"
    by (simp_all add: s3_def s2_def s1_def same_conns_def)
  have "get8 FLAGS s3 = TCP_SYN OR TCP_ACK" using assms by (simp add: s3_def s2_def s1_def uip_consts)
  then show ?thesis
    using tcp_send_ok [of s3 i] l sc e same_conns_trans [OF sc(1)] by (auto simp: sent_def)
qed

text \<open>The effect of one call on the table of connections.\<close>

definition call_ok :: "('a \<Rightarrow> bool) \<Rightarrow> 'a uip \<Rightarrow> 'a uip res \<Rightarrow> bool" where
  "call_ok ainv s r \<longleftrightarrow> (\<exists>s' i. r = Inr s' \<and> uip_inv ainv s' \<and> (uip_len s' = 0 \<or> valid_packet s') \<and>
     uip_listenports s' = uip_listenports s \<and> uip_hostaddr s' = uip_hostaddr s \<and>
     (\<forall>j. j \<noteq> i \<longrightarrow> conn_at j s' = conn_at j s) \<and>
     (tcp_moves (tcpstateflags (conn_at i s)) (tcpstateflags (conn_at i s')) \<or>
      (tcpstateflags (conn_at i s) = UIP_CLOSED \<or> tcpstateflags (conn_at i s) = UIP_TIME_WAIT) \<and>
      tcpstateflags (conn_at i s') = UIP_SYN_RCVD))"

lemma call_okI: "result_ok ainv i s r \<Longrightarrow> call_ok ainv s r"
  unfolding result_ok_def call_ok_def moves_def by blast

lemma call_ok_same:
  assumes "call_ok ainv s' r" "uip_conns s' = uip_conns s" "uip_listenports s' = uip_listenports s" "uip_hostaddr s' = uip_hostaddr s"
  shows "call_ok ainv s r"
  using assms unfolding call_ok_def by (simp add: conn_at_def)

text \<open>The new connection of a SYN.\<close>

definition syn_conn :: "nat \<Rightarrow> 'a uip \<Rightarrow> 'a uip_conn" where
  "syn_conn i s = (conn_at i s)\<lparr>rto := UIP_RTO, timer := UIP_RTO, sa := 0, sv := 4, nrtx := 0,
     lport := get16 DESTPORT s, rport := get16 SRCPORT s, ripaddr := get_addr SRCIPADDR s,
     tcpstateflags := UIP_SYN_RCVD, snd_nxt := iss s, c_len := 1, rcv_nxt := uip_add32 (get_seq SEQNO s) 1\<rparr>"

lemma found_listen_ok:
  assumes inv: "uip_inv ainv s" "uip_sappdata s = 54" "options_end s"
    and fu: "find_unused (uip_conns s) [0..<UIP_CONNS] None = Some i"
  shows "\<exists>s' m m'. found_listen s = Inr s' \<and> uip_inv ainv s' \<and> valid_packet s' \<and> uip_len s' = 44 \<and>
    uip_listenports s' = uip_listenports s \<and> uip_hostaddr s' = uip_hostaddr s \<and> (\<forall>j. j \<noteq> i \<longrightarrow> conn_at j s' = conn_at j s) \<and>
    conn_at i s' = (syn_conn i s)\<lparr>mss := m, initialmss := m'\<rparr> \<and>
    segment_of (syn_conn i s) (uip_hostaddr s) (TCP_SYN OR TCP_ACK) s'"
proof -
  have i: "i < 40" using find_unused_Some [OF fu, of "\<lambda>i. i < 40"] by (simp add: uip_consts)
  define f where "f = (\<lambda>c :: 'a uip_conn. c\<lparr>rto := UIP_RTO, timer := UIP_RTO, sa := 0, sv := 4, nrtx := 0,
     lport := get16 DESTPORT s, rport := get16 SRCPORT s, ripaddr := get_addr SRCIPADDR s,
     tcpstateflags := UIP_SYN_RCVD, snd_nxt := iss s, c_len := 1, rcv_nxt := get_seq SEQNO s\<rparr>)"
  define s1 where "s1 = s\<lparr>cur_conn := Some i\<rparr>"
  define s2 where "s2 = uip_add_rcv_nxt i 1 (upd_conn i f s1)"
  have r1: "ready ainv i s1" using inv i by (simp add: ready_def s1_def)
  have c1: "conn_at j s1 = conn_at j s" for j by (simp add: s1_def conn_at_def)
  have "ready ainv i (upd_conn i f s1)"
    using readyD(4) [OF r1] by (intro ready_upd_conn [OF r1]) (simp_all add: f_def conn_ok_def)
  then have r2: "ready ainv i s2" by (simp add: s2_def)
  have c2: "conn_at i s2 = syn_conn i s" "\<And>j. j \<noteq> i \<Longrightarrow> conn_at j s2 = conn_at j s"
    using readyD(3) [OF r1] c1 by (simp_all add: s2_def uip_add_rcv_nxt_def f_def syn_conn_def)
  have b2: "uip_buf s2 = uip_buf s" "uip_listenports s2 = uip_listenports s" "uip_hostaddr s2 = uip_hostaddr s"
    by (simp_all add: s2_def uip_add_rcv_nxt_def s1_def)
  have "options_end s2" using inv(3) options_end_buf [OF b2(1)] by simp
  from parse_mss_ok [OF r2 this] obtain s3 m m' where s3: "parse_mss i s2 = Inr s3" "ready ainv i s3" "moves i s2 s3"
    "conn_at i s3 = (syn_conn i s)\<lparr>mss := m, initialmss := m'\<rparr>" by (auto simp: c2)
  obtain s' where s': "tcp_send_synack i s3 = Inr s'" "valid_packet s'" "same_conns s3 s'" "uip_len s' = 44"
    "segment_of (conn_at i s3) (uip_hostaddr s3) (TCP_SYN OR TCP_ACK) s'"
    using synack_ok [of s3 i] uip_invD(1) [OF readyD(1) [OF s3(2)]] by blast
  have g: "get8 p s1 = get8 p s" for p by (simp add: s1_def)
  have "(\<lambda>c :: 'a uip_conn. c\<lparr>rto := UIP_RTO, timer := UIP_RTO, sa := 0, sv := 4, nrtx := 0,
     lport := get16 DESTPORT s1, rport := get16 SRCPORT s1, ripaddr := get_addr SRCIPADDR s1,
     tcpstateflags := UIP_SYN_RCVD, snd_nxt := iss s1, c_len := 1, rcv_nxt := get_seq SEQNO s1\<rparr>) = f"
    by (simp add: f_def get16_def get_addr_def get_seq_def g) (simp add: s1_def)
  then have "found_listen s = Inr s'"
    using fu s3(1) s'(1) by (simp add: found_listen_def Let_def s1_def [symmetric] s2_def)
  moreover have "uip_inv ainv s'" using uip_inv_same_conns [OF s'(3)] readyD(1) [OF s3(2)] by blast
  moreover have "\<forall>j. j \<noteq> i \<longrightarrow> conn_at j s' = conn_at j s" "conn_at i s' = conn_at i s3"
    "uip_listenports s' = uip_listenports s" "uip_hostaddr s3 = uip_hostaddr s" "uip_hostaddr s' = uip_hostaddr s"
    using s'(3) s3(3) c2(2) b2 by (auto simp: same_conns_def moves_def conn_at_def)
  ultimately show ?thesis using s'(2,4,5) s3(4) by (auto simp: segment_of_def)
qed

lemma call_found_listen:
  assumes "uip_inv ainv s" "uip_sappdata s = 54" "options_end s"
  shows "call_ok ainv s (found_listen s)"
proof (cases "find_unused (uip_conns s) [0..<UIP_CONNS] None")
  case None
  then have "found_listen s = Inr (uip_drop (UIP_STAT tcp_syndrop_update s))" by (simp add: found_listen_def)
  moreover have "result_ok ainv 0 s (Inr (uip_drop (UIP_STAT tcp_syndrop_update s)))" using assms(1) by simp
  ultimately show ?thesis using call_okI by metis
next
  case (Some i)
  have "tcpstateflags (conn_at i s) = UIP_CLOSED \<or> tcpstateflags (conn_at i s) = UIP_TIME_WAIT"
    using find_unused_Some [OF Some, of "\<lambda>_. True"] by (simp add: conn_at_def)
  moreover obtain s' m m' where "found_listen s = Inr s'" "uip_inv ainv s'" "valid_packet s'"
    "uip_listenports s' = uip_listenports s" "uip_hostaddr s' = uip_hostaddr s" "\<forall>j. j \<noteq> i \<longrightarrow> conn_at j s' = conn_at j s"
    "conn_at i s' = (syn_conn i s)\<lparr>mss := m, initialmss := m'\<rparr>"
    using found_listen_ok [OF assms Some] by blast
  ultimately show ?thesis unfolding call_ok_def by (intro exI [of _ s'] exI [of _ i]) (simp add: syn_conn_def)
qed

section \<open>Input\<close>

lemma hdr_bytes:
  assumes "length (uip_buf s) = 422"
  shows "take 20 (drop 14 (uip_buf s)) = map (\<lambda>p. get8 p s) [0..<20]"
  by (rule nth_equalityI) (use assms in \<open>simp_all add: get8_def UIP_LLH_LEN_def\<close>)

lemma upt20: "[0..<20] = [0, 1, 2, 3, 4, 5, 6, 7, 8, 9, 10, 11, 12, 13, 14, 15, 16, 17, 18, 19 :: nat]"
  by (simp add: upt_rec)

lemma ipchksum_swap:
  assumes "length (uip_buf s) = 422" "length (uip_buf s') = 422"
    and "\<forall>p < 12. get8 p s' = get8 p s"
    and "\<forall>k < 4. get8 (12 + k) s' = get8 (16 + k) s \<and> get8 (16 + k) s' = get8 (12 + k) s"
  shows "uip_ipchksum s' = uip_ipchksum s"
proof -
  have h: "get8 0 s' = get8 0 s" "get8 1 s' = get8 1 s" "get8 2 s' = get8 2 s" "get8 3 s' = get8 3 s" "get8 4 s' = get8 4 s"
    "get8 5 s' = get8 5 s" "get8 6 s' = get8 6 s" "get8 7 s' = get8 7 s" "get8 8 s' = get8 8 s" "get8 9 s' = get8 9 s"
    "get8 10 s' = get8 10 s" "get8 11 s' = get8 11 s" using assms(3) by simp_all
  have g: "get8 12 s' = get8 16 s" "get8 13 s' = get8 17 s" "get8 14 s' = get8 18 s" "get8 15 s' = get8 19 s"
    "get8 16 s' = get8 12 s" "get8 17 s' = get8 13 s" "get8 18 s' = get8 14 s" "get8 19 s' = get8 15 s"
    using assms(4) [rule_format, of 0] assms(4) [rule_format, of 1] assms(4) [rule_format, of 2] assms(4) [rule_format, of 3]
    by simp_all
  have "chksum 0 (map (\<lambda>p. get8 p s') [0..<20]) = chksum 0 (map (\<lambda>p. get8 p s) [0..<20])"
    unfolding upt20 list.map h g chksum.simps by (simp add: add_carry_ac)
  then show ?thesis using fold_sum_ipchksum [OF assms(1)] fold_sum_ipchksum [OF assms(2)] hdr_bytes [OF assms(1)] hdr_bytes [OF assms(2)]
    by simp
qed

lemma bytes_le16: "lo8 (le16 a b) = a" "hi8 (le16 a b) = b"
proof -
  have "le16 a b = be16 b a"
  proof -
    have "be16 b a = push_bit 8 (ucast b) OR ucast a"
      unfolding be16_def by (rule disjunctive_add) (auto simp: bit_simps byte_bit_beyond)
    then show ?thesis by (simp add: le16_def or.commute)
  qed
  then show "lo8 (le16 a b) = a" "hi8 (le16 a b) = b" by (simp_all add: bytes_be16)
qed

lemma icmp_reply_valid:
  assumes len: "length (uip_buf s) = 422" and v: "get8 VHL s = 0x45" "get8 IPOFFSET s AND 0x3f = 0" "get8 (IPOFFSET + 1) s = 0"
    "ip_length s = uip_len s" "unat (uip_len s) \<le> 408" "uip_ipchksum s = Inr 0xffff" "get8 PROTO s = UIP_PROTO_ICMP"
    "get_addr DESTIPADDR s = uip_hostaddr s" and s': "s' = icmp_input s"
  shows "(uip_len s' = 0 \<or> valid_packet s') \<and> same_conns s s'"
proof (cases "get8 ICMP_TYPE s = ICMP_ECHO")
  case False
  then show ?thesis by (simp add: s' icmp_input_def uip_drop_def same_conns_def)
next
  case True
  define a where "a = put8 ICMP_TYPE ICMP_ECHO_REPLY (UIP_STAT icmp_recv_update s)"
  obtain w where b: "s' = send (UIP_STAT icmp_sent_update (put_addr SRCIPADDR (uip_hostaddr s)
      (put_addr DESTIPADDR (get_addr SRCIPADDR (put16 ICMPCHKSUM w a)) (put16 ICMPCHKSUM w a))))"
    using True by (simp add: s' icmp_input_def Let_def a_def)
  have g: "get8 p s' = get8 p s" if "p < 12" for p
    using that len by (simp add: b a_def send_def put_addr_def put16_def uip_consts)
  have h: "(lo8 (fst (uip_hostaddr s)), hi8 (fst (uip_hostaddr s)), lo8 (snd (uip_hostaddr s)), hi8 (snd (uip_hostaddr s))) =
      (get8 16 s, get8 17 s, get8 18 s, get8 19 s)"
    using v(8) [symmetric] by (simp add: get_addr_def get16_def uip_consts bytes_le16)
  have sw: "get8 (12 + k) s' = get8 (16 + k) s \<and> get8 (16 + k) s' = get8 (12 + k) s" if "k < 4" for k
  proof -
    have "k = 0 \<or> k = 1 \<or> k = 2 \<or> k = 3" using that by auto
    then show ?thesis
      using len h by (auto simp: b a_def send_def put_addr_def put16_def get_addr_def get16_def uip_consts bytes_le16)
  qed
  have l: "length (uip_buf s') = 422" using len by (simp add: b a_def send_def)
  have "\<forall>p < 12. get8 p s' = get8 p s" "\<forall>k < 4. get8 (12 + k) s' = get8 (16 + k) s \<and> get8 (16 + k) s' = get8 (12 + k) s"
    using g sw by blast+
  from ipchksum_swap [OF len l this] v(6) have "uip_ipchksum s' = Inr 0xffff" by simp
  moreover have "ip_length s' = uip_len s'" "uip_len s' = uip_len s"
    using v(4) g [of 2] g [of 3] by (simp_all add: ip_length_def uip_consts) (simp_all add: b a_def send_def)
  moreover have "get8 VHL s' = 0x45" "get8 IPOFFSET s' AND 0x3f = 0" "get8 (IPOFFSET + 1) s' = 0" "get8 PROTO s' = UIP_PROTO_ICMP"
    using v g by (simp_all add: uip_consts)
  moreover have "same_conns s s'" by (simp add: b a_def send_def same_conns_def)
  ultimately show ?thesis using v(5) by (simp add: valid_packet_def uip_consts)
qed

lemma call_dropped: "uip_inv ainv s \<Longrightarrow> call_ok ainv s (Inr (uip_drop s))"
  by (rule call_okI [OF result_drop])

lemma call_ok_stat [simp]:
  "call_ok ainv (UIP_STAT k s) r = call_ok ainv s r" "call_ok ainv (set_len n s) r = call_ok ainv s r"
  "call_ok ainv (set_slen n s) r = call_ok ainv s r"
  by (simp_all add: call_ok_def)

lemma call_drop_stat: "uip_inv ainv s \<Longrightarrow> call_ok ainv s (Inr (uip_drop (UIP_STAT k (UIP_STAT k' s))))"
  using call_dropped [of ainv "UIP_STAT k (UIP_STAT k' s)"] by simp

context uip_application
begin

lemma call_tcp_input:
  assumes inv: "uip_inv ainv s" "uip_sappdata s = 54" "options_end s" "20 \<le> unat (ip_length s)" "unat (ip_length s) \<le> 408"
  shows "call_ok ainv s (tcp_input app s)"
proof -
  define s1 where "s1 = UIP_STAT tcp_recv_update s"
  have b: "uip_buf s1 = uip_buf s" by (simp add: s1_def)
  have s1: "uip_inv ainv s1" "uip_sappdata s1 = 54" "options_end s1"
    using inv options_end_buf [OF b] by (simp_all add: s1_def)
  have "ip_length s1 = ip_length s" by (rule chksum_buf(3) [OF b])
  then obtain acc where acc: "uip_tcpchksum s1 = Inr acc"
    using fold_sum_tcpchksum [of s1] uip_invD(1) [OF s1(1)] inv(4,5) by simp
  let ?P = "\<lambda>i. tcpstateflags (conn_at i s1) \<noteq> UIP_CLOSED \<and> get16 DESTPORT s1 = lport (conn_at i s1) \<and>
    get16 SRCPORT s1 = rport (conn_at i s1) \<and> get_addr SRCIPADDR s1 = ripaddr (conn_at i s1)"
  have "call_ok ainv s1 (found app i s1)" if "scan_from ?P 0 UIP_CONNS = Some i" for i
    using that s1 by (intro call_okI [OF result_found]) (simp_all add: scan_from_Some_iff uip_consts)
  moreover have "call_ok ainv s1 (reset s1)" "call_ok ainv s1 (reset (UIP_STAT tcp_synrst_update s1))"
    using call_okI [OF result_reset [OF s1(1), of 0]] call_okI [OF result_reset [of ainv "UIP_STAT tcp_synrst_update s1" 0]] s1(1)
    by simp_all
  moreover note call_found_listen [OF s1] call_drop_stat [OF s1(1)]
  ultimately have "call_ok ainv s1 (tcp_input app s)"
    unfolding tcp_input_def Let_def s1_def [symmetric] using acc by (simp split: option.split)
  then show ?thesis by (simp add: s1_def)
qed

lemma call_ip_input:
  assumes inv: "uip_inv ainv s" "uip_sappdata s = 54" "options_end s" and host: "uip_hostaddr s \<noteq> (0, 0)"
    and len: "20 \<le> unat (ip_length s)" "unat (uip_len s) \<le> 408"
  shows "call_ok ainv s (ip_input app s)"
proof -
  define s1 where "s1 = UIP_STAT ip_recv_update s"
  define s2 where "s2 = set_len (ip_length s1) s1"
  have b: "uip_buf s1 = uip_buf s" "uip_buf s2 = uip_buf s" by (simp_all add: s1_def s2_def)
  have il: "ip_length s1 = ip_length s" "ip_length s2 = ip_length s" using chksum_buf(3) [OF b(1)] chksum_buf(3) [OF b(2)] by simp_all
  have s1: "uip_inv ainv s1" "uip_inv ainv s2" "uip_sappdata s2 = 54" "options_end s2" "uip_hostaddr s2 \<noteq> (0, 0)"
    using inv host options_end_buf [OF b(2)] by (simp_all add: s1_def s2_def)
  obtain acc where acc: "uip_ipchksum s2 = Inr acc" using fold_sum_ipchksum [of s2] uip_invD(1) [OF s1(2)] by simp
  have "call_ok ainv s2 (tcp_input app s2)" if "ip_length s1 \<le> uip_len s1"
    using that il len s1 by (intro call_tcp_input) (simp_all add: s1_def word_le_nat_alt)
  moreover have "call_ok ainv s2 (Inr (icmp_input s2))"
    if p: "ip_length s1 \<le> uip_len s1" "get8 VHL s1 = 0x45" "get8 IPOFFSET s2 AND 0x3f = 0" "get8 (IPOFFSET + 1) s2 = 0"
      "get_addr DESTIPADDR s2 = uip_hostaddr s2" "uip_ipchksum s2 = Inr 0xffff" "get8 PROTO s2 = UIP_PROTO_ICMP"
  proof -
    have v: "get8 VHL s2 = 0x45" "ip_length s2 = uip_len s2" "unat (uip_len s2) \<le> 408"
      using p il len by (simp_all add: s2_def s1_def word_le_nat_alt)
    note icmp_reply_valid [OF uip_invD(1) [OF s1(2)] v(1) p(3,4) v(2,3) p(6,7,5) refl]
    then have "result_ok ainv 0 s2 (Inr (icmp_input s2))"
      using uip_inv_same_conns [of s2 "icmp_input s2"] moves_same_conns [of s2 "icmp_input s2" 0] s1(2) by (simp add: result_ok_def)
    then show ?thesis by (rule call_okI)
  qed
  moreover have "call_ok ainv s2 (Inr (uip_drop (UIP_STAT ip_drop_update s2)))"
    using call_dropped [of ainv "UIP_STAT ip_drop_update s2"] s1(2) by simp
  moreover note call_drop_stat [OF s1(1)] call_drop_stat [OF s1(2)] call_dropped [OF s1(1)]
  ultimately have "call_ok ainv s1 (ip_input app s)"
    unfolding ip_input_def Let_def s1_def [symmetric] s2_def [symmetric] using acc s1(5)
    by (simp add: s2_def)
  then show ?thesis by (simp add: s1_def)
qed

lemma result_rexmit:
  assumes "stage ainv i s0 st s"
  shows "result_ok ainv i s0 (rexmit app i s)"
proof -
  define s1 where "s1 = UIP_STAT tcp_rexmit_update (upd_conn i (\<lambda>c. c\<lparr>timer := push_bit (if nrtx c > 4 then 4 else unat (nrtx c)) UIP_RTO,
    nrtx := nrtx c + 1\<rparr>) s)"
  have s1: "stage ainv i s0 st s1"
    unfolding s1_def stage_simps by (rule stage_upd [OF assms]) simp_all
  note inv = stageD(3) [OF s1] and mv = stageD(2) [OF s1]
  have rx: "result_ok ainv i s0 (rbind (app (set_flags UIP_REXMIT s1)) (apprexmit i))"
    using s1 by (intro stage_app [of i s0 st]) (auto intro!: result_trans [OF stageD(2) result_apprexmit] dest: stageD(1))
  have "result_ok ainv i s0 (tcp_send_synack i s1)" "result_ok ainv i s0 (tcp_send_syn i (put8 FLAGS 0 s1))"
    "result_ok ainv i s0 (tcp_send_finack i s1)" "result_ok ainv i s0 (Inr (uip_drop s1))"
    using inv mv by (auto intro!: result_trans [OF mv result_synack] result_trans [OF _ result_syn] result_trans [OF mv result_finack])
  with rx show ?thesis unfolding rexmit_def Let_def s1_def [symmetric] by simp
qed

lemma result_timer_input:
  assumes "ready ainv i s"
  shows "result_ok ainv i s (timer_input app i s)"
proof -
  let ?st = "tcpstateflags (conn_at i s)"
  define s1 where "s1 = set_slen 0 (set_len 0 (s\<lparr>iss := seq_inc (iss s)\<rparr>))"
  have c: "conn_at j s1 = conn_at j s" for j by (simp add: s1_def conn_at_def)
  have s1: "stage ainv i s ?st s1" using assms by (simp add: s1_def stage_def conn_at_def)
  define s2 where "s2 = upd_conn i (\<lambda>c. c\<lparr>timer := timer c - 1\<rparr>) s1"
  have s2: "stage ainv i s ?st s2" unfolding s2_def by (rule stage_upd [OF s1]) simp_all
  let ?f = "\<lambda>c :: 'a uip_conn. c\<lparr>timer := timer c + 1,
    tcpstateflags := if timer c + 1 = UIP_TIME_WAIT_TIMEOUT then UIP_CLOSED else tcpstateflags c\<rparr>"
  have "ready ainv i (upd_conn i ?f s1)" "moves i s (upd_conn i ?f s1)"
    using stageD(1,2) [OF s1] readyD(4) [OF stageD(1) [OF s1]]
    by (auto intro!: ready_upd_conn moves_upd simp: conn_ok_def)
  then have w: "result_ok ainv i s (Inr (uip_drop (upd_conn i ?f s1)))" by (auto dest: readyD(1))
  have "stage ainv i s UIP_CLOSED (upd_conn i (\<lambda>c. c\<lparr>tcpstateflags := UIP_CLOSED\<rparr>) s2)"
    by (rule stage_upd [OF s2]) (simp_all add: conn_ok_flags)
  then have t: "result_ok ainv i s (rbind (app (set_flags UIP_TIMEDOUT (upd_conn i (\<lambda>c. c\<lparr>tcpstateflags := UIP_CLOSED\<rparr>) s2)))
      (\<lambda>s. tcp_send_nodata i (put8 FLAGS (TCP_RST OR TCP_ACK) s)))"
    by (intro stage_app [of i s UIP_CLOSED]) (auto intro!: stage_nodata)
  have p: "result_ok ainv i s (rbind (app (set_flags UIP_POLL s1)) (appsend i))" if "?st AND UIP_TS_MASK = UIP_ESTABLISHED"
    using that s1 state_mask [OF readyD(4) [OF assms]] by (intro stage_appsend) simp
  show ?thesis
    unfolding timer_input_def Let_def s1_def [symmetric] s2_def [symmetric] c
    using w t p result_rexmit [OF s2] stage_drop [OF s1] stage_drop [OF s2] by simp
qed

lemma result_poll_request:
  assumes "ready ainv i s"
  shows "result_ok ainv i s (poll_request app i s)"
proof -
  have "result_ok ainv i s (rbind (app (set_flags UIP_POLL s)) (appsend i))" if "tcpstateflags (conn_at i s) AND UIP_TS_MASK = UIP_ESTABLISHED"
    using that stage_start [OF assms] state_mask [OF readyD(4) [OF assms]] by (intro stage_appsend) simp
  then show ?thesis unfolding poll_request_def using readyD(1) [OF assms] by simp
qed

text \<open>
  What a call of uip_process for a packet or a timer has to find: for a packet, an IP length of at
  least a header and options that end.
\<close>

lemma uip_process_ok:
  assumes inv: "uip_inv ainv s" "uip_hostaddr s \<noteq> (0, 0)"
    and pre: "if flag = UIP_TIMER \<or> flag = UIP_POLL_REQUEST then \<exists>i < 40. cur_conn s = Some i
      else 20 \<le> unat (ip_length s) \<and> unat (uip_len s) \<le> 408 \<and> options_end s"
  shows "call_ok ainv s (uip_process app flag s)"
proof -
  define s1 where "s1 = s\<lparr>uip_sappdata := UIP_IPTCPH_LEN + UIP_LLH_LEN, uip_appdata := UIP_IPTCPH_LEN + UIP_LLH_LEN\<rparr>"
  have b: "uip_buf s1 = uip_buf s" by (simp add: s1_def)
  have s1: "uip_inv ainv s1" "uip_hostaddr s1 \<noteq> (0, 0)" "uip_sappdata s1 = 54" "cur_conn s1 = cur_conn s" "uip_len s1 = uip_len s"
    using inv by (simp_all add: s1_def uip_inv_def conn_at_def) (simp add: uip_consts)
  have "call_ok ainv s1 (uip_process app flag s)"
  proof (cases "flag = UIP_TIMER \<or> flag = UIP_POLL_REQUEST")
    case True
    then obtain i where i: "i < 40" "cur_conn s = Some i" using pre by auto
    then have "ready ainv i s1" using s1 by (simp add: ready_def)
    then show ?thesis
      unfolding uip_process_def Let_def s1_def [symmetric] using True i s1(4)
      by (auto intro!: call_okI [of _ i] result_timer_input result_poll_request)
  next
    case False
    then show ?thesis
      unfolding uip_process_def Let_def s1_def [symmetric]
      using pre s1 options_end_buf [OF b] chksum_buf(3) [OF b] by (auto intro!: call_ip_input)
  qed
  then show ?thesis by (rule call_ok_same) (simp_all add: s1_def)
qed

end

end
