(* ===== verification/Uip_Arp.thy ===== *)
theory Uip_Arp
  imports Uip_Safety
begin

text \<open>
  The address resolution of the network stack (library/uip/uip_arp.c): the table that maps IP
  addresses to Ethernet addresses, its ageing, the answers to requests, and the Ethernet header of
  outgoing packets. The temporaries of the file (i, c, tmpage, ipaddr) are local here.
\<close>

section \<open>The table\<close>

definition UIP_ARPTAB_SIZE :: nat where "UIP_ARPTAB_SIZE = 8"
definition UIP_ARP_MAXAGE :: int where "UIP_ARP_MAXAGE = 120"

definition UIP_ETHTYPE_ARP :: m_uint16 where "UIP_ETHTYPE_ARP = 0x0806"
definition UIP_ETHTYPE_IP :: m_uint16 where "UIP_ETHTYPE_IP = 0x0800"
definition ARP_REQUEST :: m_uint16 where "ARP_REQUEST = 1"
definition ARP_REPLY :: m_uint16 where "ARP_REPLY = 2"
definition ARP_HWTYPE_ETH :: m_uint16 where "ARP_HWTYPE_ETH = 1"

record arp_entry =
  ipaddr :: uip_ipaddr_t
  ethaddr :: "m_uint8 list"
  time :: m_uint8

record arp =
  arp_table :: "arp_entry list"
  arptime :: m_uint8
  uip_ethaddr :: "m_uint8 list"
  uip_draddr :: uip_ipaddr_t
  uip_netmask :: uip_ipaddr_t

text \<open>The first entry for which the body of a search loop breaks, or the size of the table.\<close>

definition arp_index :: "(arp_entry \<Rightarrow> bool) \<Rightarrow> arp_entry list \<Rightarrow> nat" where
  "arp_index P t = (case find (\<lambda>i. P (t ! i)) [0..<UIP_ARPTAB_SIZE] of Some i \<Rightarrow> i | None \<Rightarrow> UIP_ARPTAB_SIZE)"

definition uip_arp_init :: "arp \<Rightarrow> arp" where
  "uip_arp_init a = a\<lparr>arp_table := map (\<lambda>e. e\<lparr>ipaddr := (0, 0)\<rparr>) (arp_table a)\<rparr>"

text \<open>The difference of two bytes is an int in C: it is negative when arptime has wrapped.\<close>

definition age :: "m_uint8 \<Rightarrow> arp_entry \<Rightarrow> int" where
  "age now e = uint now - uint (time e)"

definition uip_arp_timer :: "arp \<Rightarrow> arp" where
  "uip_arp_timer a = (let now = arptime a + 1 in a\<lparr>arptime := now, arp_table := map (\<lambda>e.
     if fst (ipaddr e) OR snd (ipaddr e) \<noteq> 0 \<and> age now e \<ge> UIP_ARP_MAXAGE
     then e\<lparr>ipaddr := (0, 0)\<rparr> else e) (arp_table a)\<rparr>)"

fun oldest :: "m_uint8 \<Rightarrow> arp_entry list \<Rightarrow> nat list \<Rightarrow> m_uint8 \<Rightarrow> nat \<Rightarrow> nat" where
  "oldest now t [] tmpage c = c" |
  "oldest now t (i # is) tmpage c =
     (if age now (t ! i) > uint tmpage then oldest now t is (now - time (t ! i)) i else oldest now t is tmpage c)"

definition uip_arp_update :: "uip_ipaddr_t \<Rightarrow> m_uint8 list \<Rightarrow> arp \<Rightarrow> arp" where
  "uip_arp_update ip eth a =
     (let t = arp_table a;
          i = arp_index (\<lambda>e. fst (ipaddr e) \<noteq> 0 \<and> snd (ipaddr e) \<noteq> 0 \<and> ip = ipaddr e) t
      in if i < UIP_ARPTAB_SIZE then a\<lparr>arp_table := t[i := (t ! i)\<lparr>ethaddr := eth, time := arptime a\<rparr>]\<rparr>
         else let i = arp_index (\<lambda>e. fst (ipaddr e) = 0 \<and> snd (ipaddr e) = 0) t;
                  i = (if i = UIP_ARPTAB_SIZE then oldest (arptime a) t [0..<UIP_ARPTAB_SIZE] 0 0 else i)
              in a\<lparr>arp_table := t[i := \<lparr>ipaddr = ip, ethaddr = eth, time = arptime a\<rparr>]\<rparr>)"

section \<open>Packets\<close>

definition get_bytes :: "nat \<Rightarrow> nat \<Rightarrow> 'a uip \<Rightarrow> m_uint8 list" where
  "get_bytes p n s = take n (drop p (uip_buf s))"

definition put_bytes :: "nat \<Rightarrow> m_uint8 list \<Rightarrow> 'a uip \<Rightarrow> 'a uip" where
  "put_bytes p bs s = s\<lparr>uip_buf := take p (uip_buf s) @ bs @ drop (p + length bs) (uip_buf s)\<rparr>"

definition u16_bytes :: "m_uint16 \<Rightarrow> m_uint8 list" where "u16_bytes v = [lo8 v, hi8 v]"
definition addr_bytes :: "uip_ipaddr_t \<Rightarrow> m_uint8 list" where "addr_bytes p = u16_bytes (fst p) @ u16_bytes (snd p)"

definition read_u16 :: "nat \<Rightarrow> 'a uip \<Rightarrow> m_uint16" where
  "read_u16 p s = le16 (uip_buf s ! p) (uip_buf s ! (p + 1))"

definition read_addr :: "nat \<Rightarrow> 'a uip \<Rightarrow> uip_ipaddr_t" where
  "read_addr p s = (read_u16 p s, read_u16 (p + 2) s)"

text \<open>The offsets of the fields of uip_eth_hdr and arp_hdr, and of the destination of an IP packet in ethip_hdr.\<close>

definition ETH_DEST :: nat where "ETH_DEST = 0"
definition ETH_SRC :: nat where "ETH_SRC = 6"
definition ETH_TYPE :: nat where "ETH_TYPE = 12"
definition HWTYPE :: nat where "HWTYPE = 14"
definition PROTOCOL :: nat where "PROTOCOL = 16"
definition HWLEN :: nat where "HWLEN = 18"
definition PROTOLEN :: nat where "PROTOLEN = 19"
definition OPCODE :: nat where "OPCODE = 20"
definition SHWADDR :: nat where "SHWADDR = 22"
definition SIPADDR :: nat where "SIPADDR = 28"
definition DHWADDR :: nat where "DHWADDR = 32"
definition DIPADDR :: nat where "DIPADDR = 38"
definition ARP_HDR_SIZE :: nat where "ARP_HDR_SIZE = 42"
definition ETH_HDR_SIZE :: nat where "ETH_HDR_SIZE = 14"
definition IP_DEST :: nat where "IP_DEST = 30"

lemmas arp_offsets = ETH_DEST_def ETH_SRC_def ETH_TYPE_def HWTYPE_def PROTOCOL_def HWLEN_def PROTOLEN_def OPCODE_def
  SHWADDR_def SIPADDR_def DHWADDR_def DIPADDR_def ARP_HDR_SIZE_def ETH_HDR_SIZE_def IP_DEST_def

definition uip_arp_arpin :: "'a uip \<times> arp \<Rightarrow> 'a uip \<times> arp" where
  "uip_arp_arpin = (\<lambda>(s, a).
     if unat (uip_len s) < ARP_HDR_SIZE then (set_len 0 s, a)
     else
       let s = set_len 0 s
       in if read_u16 OPCODE s = htons ARP_REQUEST
          then if read_addr DIPADDR s = uip_hostaddr s
               then let a = uip_arp_update (read_addr SIPADDR s) (get_bytes SHWADDR 6 s) a;
                        s = put_bytes OPCODE (u16_bytes (htons 2)) s;
                        s = put_bytes DHWADDR (get_bytes SHWADDR 6 s) s;
                        s = put_bytes SHWADDR (uip_ethaddr a) s;
                        s = put_bytes ETH_SRC (uip_ethaddr a) s;
                        s = put_bytes ETH_DEST (get_bytes DHWADDR 6 s) s;
                        s = put_bytes DIPADDR (addr_bytes (read_addr SIPADDR s)) s;
                        s = put_bytes SIPADDR (addr_bytes (uip_hostaddr s)) s;
                        s = put_bytes ETH_TYPE (u16_bytes (htons UIP_ETHTYPE_ARP)) s
                    in (set_len (of_nat ARP_HDR_SIZE) s, a)
               else (s, a)
          else if read_u16 OPCODE s = htons ARP_REPLY
          then if read_addr DIPADDR s = uip_hostaddr s
               then (s, uip_arp_update (read_addr SIPADDR s) (get_bytes SHWADDR 6 s) a)
               else (s, a)
          else (s, a))"

definition uip_ipaddr_maskcmp :: "uip_ipaddr_t \<Rightarrow> uip_ipaddr_t \<Rightarrow> uip_ipaddr_t \<Rightarrow> bool" where
  "uip_ipaddr_maskcmp p q m \<longleftrightarrow> fst p AND fst m = fst q AND fst m \<and> snd p AND snd m = snd q AND snd m"

text \<open>The address whose Ethernet address is needed: the destination, or the router.\<close>

definition next_hop :: "uip_ipaddr_t \<Rightarrow> uip_ipaddr_t \<Rightarrow> arp \<Rightarrow> uip_ipaddr_t" where
  "next_hop dest host a = (if \<not> uip_ipaddr_maskcmp dest host (uip_netmask a) then uip_draddr a else dest)"

definition arp_request :: "uip_ipaddr_t \<Rightarrow> arp \<Rightarrow> 'a uip \<Rightarrow> 'a uip" where
  "arp_request ip a s =
     (let s = put_bytes ETH_DEST (replicate 6 0xff) s;
          s = put_bytes DHWADDR (replicate 6 0) s;
          s = put_bytes ETH_SRC (uip_ethaddr a) s;
          s = put_bytes SHWADDR (uip_ethaddr a) s;
          s = put_bytes DIPADDR (addr_bytes ip) s;
          s = put_bytes SIPADDR (addr_bytes (uip_hostaddr s)) s;
          s = put_bytes OPCODE (u16_bytes (htons ARP_REQUEST)) s;
          s = put_bytes HWTYPE (u16_bytes (htons ARP_HWTYPE_ETH)) s;
          s = put_bytes PROTOCOL (u16_bytes (htons UIP_ETHTYPE_IP)) s;
          s = put_bytes HWLEN [6] s;
          s = put_bytes PROTOLEN [4] s;
          s = put_bytes ETH_TYPE (u16_bytes (htons UIP_ETHTYPE_ARP)) s
      in set_len (of_nat ARP_HDR_SIZE) (s\<lparr>uip_appdata := UIP_IPTCPH_LEN + UIP_LLH_LEN\<rparr>))"

definition eth_header :: "m_uint8 list \<Rightarrow> arp \<Rightarrow> 'a uip \<Rightarrow> 'a uip" where
  "eth_header dest a s =
     (let s = put_bytes ETH_DEST dest s;
          s = put_bytes ETH_SRC (uip_ethaddr a) s;
          s = put_bytes ETH_TYPE (u16_bytes (htons UIP_ETHTYPE_IP)) s
      in set_len (uip_len s + of_nat ETH_HDR_SIZE) s)"

definition uip_arp_out :: "arp \<Rightarrow> 'a uip \<Rightarrow> 'a uip" where
  "uip_arp_out a s =
     (if read_addr IP_DEST s = (0xffff, 0xffff) then eth_header (replicate 6 0xff) a s
      else let ip = next_hop (read_addr IP_DEST s) (uip_hostaddr s) a;
               i = arp_index (\<lambda>e. ip = ipaddr e) (arp_table a)
           in if i = UIP_ARPTAB_SIZE then arp_request ip a s
              else eth_header (ethaddr (arp_table a ! i)) a s)"

section \<open>The table is a partial map\<close>

definition routable :: "uip_ipaddr_t \<Rightarrow> bool" where
  "routable ip \<longleftrightarrow> fst ip \<noteq> 0 \<and> snd ip \<noteq> 0"

definition arp_ok :: "arp \<Rightarrow> bool" where
  "arp_ok a \<longleftrightarrow> length (arp_table a) = UIP_ARPTAB_SIZE \<and> length (uip_ethaddr a) = 6 \<and>
     (\<forall>i < UIP_ARPTAB_SIZE. length (ethaddr (arp_table a ! i)) = 6) \<and>
     (\<forall>i < UIP_ARPTAB_SIZE. \<forall>j < UIP_ARPTAB_SIZE. routable (ipaddr (arp_table a ! i)) \<longrightarrow>
        ipaddr (arp_table a ! i) = ipaddr (arp_table a ! j) \<longrightarrow> i = j)"

definition arp_lookup :: "uip_ipaddr_t \<Rightarrow> arp \<Rightarrow> m_uint8 list option" where
  "arp_lookup ip a = (let i = arp_index (\<lambda>e. ip = ipaddr e) (arp_table a)
     in if i = UIP_ARPTAB_SIZE then None else Some (ethaddr (arp_table a ! i)))"

lemma arp_index_cases:
  obtains (none) "arp_index P t = UIP_ARPTAB_SIZE" "\<forall>i < UIP_ARPTAB_SIZE. \<not> P (t ! i)"
  | (found) "arp_index P t < UIP_ARPTAB_SIZE" "P (t ! arp_index P t)"
proof (cases "find (\<lambda>i. P (t ! i)) [0..<UIP_ARPTAB_SIZE]")
  case None
  then have "\<forall>i < UIP_ARPTAB_SIZE. \<not> P (t ! i)" by (simp add: find_None_iff)
  with None show ?thesis by (intro none) (simp_all add: arp_index_def)
next
  case (Some i)
  then have "i < UIP_ARPTAB_SIZE" "P (t ! i)" by (auto simp: find_Some_iff)
  with Some show ?thesis by (intro found) (simp_all add: arp_index_def)
qed

lemma arp_index_le: "arp_index P t \<le> UIP_ARPTAB_SIZE"
  by (cases P t rule: arp_index_cases) auto

lemma arp_ok_unique:
  assumes "arp_ok a" "i < UIP_ARPTAB_SIZE" "j < UIP_ARPTAB_SIZE" "ipaddr (arp_table a ! i) = ip" "ipaddr (arp_table a ! j) = ip" "routable ip"
  shows "i = j"
  using assms unfolding arp_ok_def by simp

lemma arp_lookup_iff:
  assumes "arp_ok a" "routable ip"
  shows "arp_lookup ip a = Some e \<longleftrightarrow> (\<exists>i < UIP_ARPTAB_SIZE. ipaddr (arp_table a ! i) = ip \<and> ethaddr (arp_table a ! i) = e)"
proof (cases "\<lambda>e :: arp_entry. ip = ipaddr e" "arp_table a" rule: arp_index_cases)
  case none
  then show ?thesis by (auto simp: arp_lookup_def)
next
  case found
  then obtain i where i: "arp_index (\<lambda>e. ip = ipaddr e) (arp_table a) = i" "i < UIP_ARPTAB_SIZE" "ipaddr (arp_table a ! i) = ip"
    by simp
  have "j = i" if "j < UIP_ARPTAB_SIZE" "ipaddr (arp_table a ! j) = ip" for j
    using arp_ok_unique [OF assms(1) that(1) i(2) that(2) i(3) assms(2)] .
  then have "(\<exists>j < UIP_ARPTAB_SIZE. ipaddr (arp_table a ! j) = ip \<and> ethaddr (arp_table a ! j) = e) \<longleftrightarrow> ethaddr (arp_table a ! i) = e"
    using i(2,3) by blast
  then show ?thesis using i(1,2) by (simp add: arp_lookup_def Let_def)
qed

lemma arp_lookup_None:
  "arp_lookup ip a = None \<longleftrightarrow> (\<forall>i < UIP_ARPTAB_SIZE. ipaddr (arp_table a ! i) \<noteq> ip)"
  by (cases "\<lambda>e :: arp_entry. ip = ipaddr e" "arp_table a" rule: arp_index_cases) (auto simp: arp_lookup_def Let_def)

lemma oldest_bound: "c < n \<Longrightarrow> \<forall>i \<in> set is. i < n \<Longrightarrow> oldest now t is tmpage c < n"
  by (induction now t "is" tmpage c rule: oldest.induct) auto

text \<open>Writing an entry for an address keeps the table a map, when no other entry has that address.\<close>

lemma table_write:
  assumes "arp_ok a" "k < UIP_ARPTAB_SIZE" "length eth = 6" "ipaddr e = ip" "ethaddr e = eth"
    and free: "\<forall>i < UIP_ARPTAB_SIZE. i \<noteq> k \<longrightarrow> routable ip \<longrightarrow> ipaddr (arp_table a ! i) \<noteq> ip"
    and a': "a' = a\<lparr>arp_table := (arp_table a)[k := e]\<rparr>"
  shows "arp_ok a'" "routable ip \<Longrightarrow> arp_lookup ip a' = Some eth"
    "routable q \<Longrightarrow> q \<noteq> ip \<Longrightarrow> arp_lookup q a' = (if ipaddr (arp_table a ! k) = q then None else arp_lookup q a)"
proof -
  have l: "length (arp_table a) = UIP_ARPTAB_SIZE" using assms(1) by (simp add: arp_ok_def)
  have nth: "arp_table a' ! i = (if i = k then e else arp_table a ! i)" if "i < UIP_ARPTAB_SIZE" for i
    using that l by (simp add: a')
  show ok: "arp_ok a'" unfolding arp_ok_def
  proof (intro conjI allI impI)
    show "length (arp_table a') = UIP_ARPTAB_SIZE" "length (uip_ethaddr a') = 6" using assms(1) by (simp_all add: arp_ok_def a')
    fix i assume i: "i < UIP_ARPTAB_SIZE"
    show "length (ethaddr (arp_table a' ! i)) = 6" using i assms(1,3,5) by (auto simp: nth arp_ok_def)
    fix j assume j: "j < UIP_ARPTAB_SIZE" "routable (ipaddr (arp_table a' ! i))"
      "ipaddr (arp_table a' ! i) = ipaddr (arp_table a' ! j)"
    show "i = j"
      using i j assms(1,4) free by (cases "i = k"; cases "j = k") (auto simp: nth arp_ok_def)
  qed
  show "arp_lookup ip a' = Some eth" if r: "routable ip"
    unfolding arp_lookup_iff [OF ok r] using assms(2,4,5) by (intro exI [of _ k]) (simp add: nth)
  assume q: "routable q" "q \<noteq> ip"
  show "arp_lookup q a' = (if ipaddr (arp_table a ! k) = q then None else arp_lookup q a)"
  proof (cases "ipaddr (arp_table a ! k) = q")
    case True
    then have "\<forall>i < UIP_ARPTAB_SIZE. ipaddr (arp_table a' ! i) \<noteq> q"
      using assms(1,2,4) q unfolding arp_ok_def by (metis nth)
    with True show ?thesis by (simp add: arp_lookup_None)
  next
    case False
    have "arp_lookup q a' = Some v \<longleftrightarrow> arp_lookup q a = Some v" for v
      unfolding arp_lookup_iff [OF ok q(1)] arp_lookup_iff [OF assms(1) q(1)] using False q(2) assms(4) by (metis nth)
    with False show ?thesis by (metis option.exhaust)
  qed
qed

text \<open>An update writes one entry: the one with the address, an unused one, or the oldest one.\<close>

lemma uip_arp_update_cases:
  assumes "arp_ok a" "routable ip"
  obtains k e where "k < UIP_ARPTAB_SIZE" "uip_arp_update ip eth a = a\<lparr>arp_table := (arp_table a)[k := e]\<rparr>"
    "ipaddr e = ip" "ethaddr e = eth" "\<forall>i < UIP_ARPTAB_SIZE. i \<noteq> k \<longrightarrow> ipaddr (arp_table a ! i) \<noteq> ip"
    "ipaddr (arp_table a ! k) = ip \<or> ipaddr (arp_table a ! k) = (0, 0) \<or>
      (\<forall>i < UIP_ARPTAB_SIZE. ipaddr (arp_table a ! i) \<noteq> ip \<and> ipaddr (arp_table a ! i) \<noteq> (0, 0))"
proof (cases "\<lambda>e :: arp_entry. fst (ipaddr e) \<noteq> 0 \<and> snd (ipaddr e) \<noteq> 0 \<and> ip = ipaddr e" "arp_table a" rule: arp_index_cases)
  case found
  let ?k = "arp_index (\<lambda>e. fst (ipaddr e) \<noteq> 0 \<and> snd (ipaddr e) \<noteq> 0 \<and> ip = ipaddr e) (arp_table a)"
  have "\<forall>i < UIP_ARPTAB_SIZE. i \<noteq> ?k \<longrightarrow> ipaddr (arp_table a ! i) \<noteq> ip"
    using arp_ok_unique [OF assms(1) _ found(1) _ _ assms(2)] found(2) by auto
  then show ?thesis
    using found that [of ?k "(arp_table a ! ?k)\<lparr>ethaddr := eth, time := arptime a\<rparr>"]
    by (simp add: uip_arp_update_def Let_def)
next
  case none
  then have n: "\<forall>i < UIP_ARPTAB_SIZE. ipaddr (arp_table a ! i) \<noteq> ip" using assms(2) by (auto simp: routable_def)
  let ?f = "arp_index (\<lambda>e. fst (ipaddr e) = 0 \<and> snd (ipaddr e) = 0) (arp_table a)"
  let ?k = "if ?f = UIP_ARPTAB_SIZE then oldest (arptime a) (arp_table a) [0..<UIP_ARPTAB_SIZE] 0 0 else ?f"
  have k: "?k < UIP_ARPTAB_SIZE"
    using arp_index_le [of _ "arp_table a"] by (auto intro!: oldest_bound simp: le_less) (simp add: UIP_ARPTAB_SIZE_def)
  have z: "ipaddr (arp_table a ! ?k) = (0, 0) \<or> (\<forall>i < UIP_ARPTAB_SIZE. ipaddr (arp_table a ! i) \<noteq> (0, 0))"
    by (cases "\<lambda>e :: arp_entry. fst (ipaddr e) = 0 \<and> snd (ipaddr e) = 0" "arp_table a" rule: arp_index_cases) (auto simp: prod_eq_iff)
  show ?thesis
    using that [OF k, of "\<lparr>ipaddr = ip, ethaddr = eth, time = arptime a\<rparr>"] none(1) n z
    by (simp add: uip_arp_update_def Let_def)
qed

lemma arp_update_spec:
  assumes "arp_ok a" "routable ip" "length eth = 6"
  shows "arp_ok (uip_arp_update ip eth a) \<and> arp_lookup ip (uip_arp_update ip eth a) = Some eth \<and>
    (\<forall>q. routable q \<and> q \<noteq> ip \<longrightarrow> arp_lookup q (uip_arp_update ip eth a) = arp_lookup q a \<or>
       arp_lookup q (uip_arp_update ip eth a) = None \<and> arp_lookup ip a = None \<and> arp_lookup (0, 0) a = None)"
proof -
  obtain k e where k: "k < UIP_ARPTAB_SIZE" "uip_arp_update ip eth a = a\<lparr>arp_table := (arp_table a)[k := e]\<rparr>"
    "ipaddr e = ip" "ethaddr e = eth" "\<forall>i < UIP_ARPTAB_SIZE. i \<noteq> k \<longrightarrow> ipaddr (arp_table a ! i) \<noteq> ip"
    "ipaddr (arp_table a ! k) = ip \<or> ipaddr (arp_table a ! k) = (0, 0) \<or>
      (\<forall>i < UIP_ARPTAB_SIZE. ipaddr (arp_table a ! i) \<noteq> ip \<and> ipaddr (arp_table a ! i) \<noteq> (0, 0))"
    using uip_arp_update_cases [OF assms(1,2), of eth] by blast
  have free: "\<forall>i < UIP_ARPTAB_SIZE. i \<noteq> k \<longrightarrow> routable ip \<longrightarrow> ipaddr (arp_table a ! i) \<noteq> ip" using k(5) by blast
  note w = table_write [OF assms(1) k(1) assms(3) k(3,4) free k(2)]
  show ?thesis
  proof (intro conjI allI impI)
    show "arp_ok (uip_arp_update ip eth a)" "arp_lookup ip (uip_arp_update ip eth a) = Some eth" using w(1,2) assms(2) by auto
    fix q assume q: "routable q \<and> q \<noteq> ip"
    have "arp_lookup q a = None \<or> (arp_lookup ip a = None \<and> arp_lookup (0, 0) a = None)" if "ipaddr (arp_table a ! k) = q"
      using k(6) that q by (auto simp: arp_lookup_None routable_def)
    then show "arp_lookup q (uip_arp_update ip eth a) = arp_lookup q a \<or>
       arp_lookup q (uip_arp_update ip eth a) = None \<and> arp_lookup ip a = None \<and> arp_lookup (0, 0) a = None"
      using w(3) [of q] q by auto
  qed
qed

lemma arp_update_ok:
  assumes "arp_ok a" "routable ip" "length eth = 6"
  shows "arp_ok (uip_arp_update ip eth a)" "arp_lookup ip (uip_arp_update ip eth a) = Some eth"
  using arp_update_spec [OF assms] by simp_all

text \<open>
  C31. Learning the Ethernet address of a host: afterwards the table gives that address for it, no
  other host gets another address, and a host is forgotten only if there was neither an entry for
  the address nor an unused one; the table stays a map.
\<close>

theorem arp_update_correct:
  assumes "arp_ok a" "routable ip" "length eth = 6"
  shows "arp_ok (uip_arp_update ip eth a) \<and> arp_lookup ip (uip_arp_update ip eth a) = Some eth \<and>
    (\<forall>q. routable q \<and> q \<noteq> ip \<longrightarrow> arp_lookup q (uip_arp_update ip eth a) = arp_lookup q a \<or>
       arp_lookup q (uip_arp_update ip eth a) = None \<and> arp_lookup ip a = None \<and> arp_lookup (0, 0) a = None)"
  using assms by (rule arp_update_spec)

text \<open>A table with one unused entry and seven others.\<close>

definition some_arp :: arp where
  "some_arp = \<lparr>arp_table = \<lparr>ipaddr = (0xa8c0, 0x0900), ethaddr = replicate 6 9, time = 0\<rparr> #
       replicate 7 \<lparr>ipaddr = (0, 0), ethaddr = replicate 6 0, time = 0\<rparr>, arptime = 1,
     uip_ethaddr = [0x52, 0x54, 0, 0, 0, 1], uip_draddr = (0xa8c0, 0x0100), uip_netmask = (0xffff, 0x00ff)\<rparr>"

lemma some_arp_ok: "arp_ok some_arp"
  by (auto simp: arp_ok_def some_arp_def UIP_ARPTAB_SIZE_def routable_def nth_Cons split: nat.splits)

lemma some_arp_lookup: "arp_lookup (0xa8c0, 0x0900) some_arp = Some (replicate 6 9)"
  by (simp add: arp_lookup_def arp_index_def some_arp_def UIP_ARPTAB_SIZE_def upt_rec)

theorem arp_update_correct_witness:
  "arp_lookup (0xa8c0, 0x0100) (uip_arp_update (0xa8c0, 0x0100) [1, 2, 3, 4, 5, 6] some_arp) = Some [1, 2, 3, 4, 5, 6] \<and>
   arp_ok (uip_arp_update (0xa8c0, 0x0100) [1, 2, 3, 4, 5, 6] some_arp)"
  using arp_update_correct [OF some_arp_ok, of "(0xa8c0, 0x0100)" "[1, 2, 3, 4, 5, 6]"] by (simp add: routable_def)

section \<open>The packets sent\<close>

lemma length_put_bytes [simp]:
  "q + length bs \<le> length (uip_buf s) \<Longrightarrow> length (uip_buf (put_bytes q bs s)) = length (uip_buf s)"
  by (simp add: put_bytes_def)

lemma put_bytes_frame [simp]:
  "uip_hostaddr (put_bytes q bs s) = uip_hostaddr s" "uip_conns (put_bytes q bs s) = uip_conns s" "uip_len (put_bytes q bs s) = uip_len s"
  "uip_listenports (put_bytes q bs s) = uip_listenports s" "conn_at i (put_bytes q bs s) = conn_at i s"
  by (simp_all add: put_bytes_def conn_at_def)

lemma get_put_same: "q + length bs \<le> length (uip_buf s) \<Longrightarrow> n = length bs \<Longrightarrow> get_bytes q n (put_bytes q bs s) = bs"
  by (simp add: get_bytes_def put_bytes_def)

lemma get_put_other:
  assumes "q + length bs \<le> length (uip_buf s)" "p + n \<le> q \<or> q + length bs \<le> p"
  shows "get_bytes p n (put_bytes q bs s) = get_bytes p n s"
proof (cases "p + n \<le> q")
  case True
  then have "take n (drop p (take q (uip_buf s) @ r)) = take n (drop p (uip_buf s))" for r
    using assms(1) by (simp add: drop_take min_def) linarith
  then show ?thesis by (simp add: get_bytes_def put_bytes_def del: take_append drop_append)
next
  case False
  then have p: "q + length bs \<le> p" using assms(2) by simp
  then show ?thesis using assms(1) by (simp add: get_bytes_def put_bytes_def)
qed

lemma get_bytes_simps [simp]:
  "get_bytes p n (set_len v s) = get_bytes p n s" "get_bytes p n (s\<lparr>uip_appdata := v'\<rparr>) = get_bytes p n s"
  "p + n \<le> length (uip_buf s) \<Longrightarrow> length (get_bytes p n s) = n"
  by (simp_all add: get_bytes_def)

lemma u16_bytes_read: "p + 2 \<le> length (uip_buf s) \<Longrightarrow> u16_bytes (read_u16 p s) = get_bytes p 2 s"
  by (simp add: u16_bytes_def read_u16_def get_bytes_def numeral_2_eq_2 take_Suc_conv_app_nth bytes_le16)

lemma addr_bytes_read:
  assumes "p + 4 \<le> length (uip_buf s)"
  shows "addr_bytes (read_addr p s) = get_bytes p 4 s"
proof -
  have "get_bytes p 4 s = get_bytes p 2 s @ get_bytes (p + 2) 2 s"
    using take_add [of 2 2 "drop p (uip_buf s)"] by (simp add: get_bytes_def add.commute)
  then show ?thesis using assms by (simp add: addr_bytes_def read_addr_def u16_bytes_read)
qed

lemma length_field_bytes [simp]: "length (u16_bytes v) = 2" "length (addr_bytes ip) = 4"
  by (simp_all add: u16_bytes_def addr_bytes_def)

text \<open>The state after a request for the address of the host.\<close>

definition learned :: "'a uip \<Rightarrow> arp \<Rightarrow> arp" where
  "learned s a = uip_arp_update (read_addr SIPADDR s) (get_bytes SHWADDR 6 s) a"

lemma uip_ethaddr_update [simp]: "uip_ethaddr (uip_arp_update ip eth a) = uip_ethaddr a" "uip_netmask (uip_arp_update ip eth a) = uip_netmask a"
    "uip_draddr (uip_arp_update ip eth a) = uip_draddr a"
  by (simp_all add: uip_arp_update_def Let_def)

text \<open>
  C32. A host that asks for the address of this machine is answered by a frame for it: an ARP reply
  with the addresses of both, exchanged; and its Ethernet address is learned. No connection changes.
\<close>

theorem arp_request_answered:
  assumes a: "arp_ok a" and s: "length (uip_buf s) = 422" "42 \<le> unat (uip_len s)"
    and req: "read_u16 OPCODE s = htons ARP_REQUEST" "read_addr DIPADDR s = uip_hostaddr s" "routable (read_addr SIPADDR s)"
  shows "\<exists>s' a'. uip_arp_arpin (s, a) = (s', a') \<and> uip_len s' = 42 \<and> length (uip_buf s') = 422 \<and>
    get_bytes ETH_DEST 6 s' = get_bytes SHWADDR 6 s \<and> get_bytes ETH_SRC 6 s' = uip_ethaddr a \<and> get_bytes ETH_TYPE 2 s' = [0x08, 0x06] \<and>
    get_bytes OPCODE 2 s' = [0, 2] \<and>
    get_bytes SHWADDR 6 s' = uip_ethaddr a \<and> get_bytes SIPADDR 4 s' = addr_bytes (uip_hostaddr s) \<and>
    get_bytes DHWADDR 6 s' = get_bytes SHWADDR 6 s \<and> get_bytes DIPADDR 4 s' = get_bytes SIPADDR 4 s \<and>
    arp_ok a' \<and> arp_lookup (read_addr SIPADDR s) a' = Some (get_bytes SHWADDR 6 s) \<and> uip_conns s' = uip_conns s"
proof -
  define s0 where "s0 = set_len 0 s"
  define s1 where "s1 = put_bytes OPCODE (u16_bytes (htons 2)) s0"
  define s2 where "s2 = put_bytes DHWADDR (get_bytes SHWADDR 6 s1) s1"
  define s3 where "s3 = put_bytes SHWADDR (uip_ethaddr a) s2"
  define s4 where "s4 = put_bytes ETH_SRC (uip_ethaddr a) s3"
  define s5 where "s5 = put_bytes ETH_DEST (get_bytes DHWADDR 6 s4) s4"
  define s6 where "s6 = put_bytes DIPADDR (addr_bytes (read_addr SIPADDR s5)) s5"
  define s7 where "s7 = put_bytes SIPADDR (addr_bytes (uip_hostaddr s6)) s6"
  define s8 where "s8 = put_bytes ETH_TYPE (u16_bytes (htons UIP_ETHTYPE_ARP)) s7"
  have e: "length (uip_ethaddr a) = 6" using a by (simp add: arp_ok_def)
  have r: "read_u16 p s0 = read_u16 p s" "read_addr p s0 = read_addr p s" "uip_hostaddr s0 = uip_hostaddr s" for p
    by (simp_all add: s0_def read_u16_def read_addr_def)
  have run: "uip_arp_arpin (s, a) = (set_len 42 s8, learned s a)"
    unfolding uip_arp_arpin_def Let_def prod.case s0_def [symmetric] using s(2) req r
    by (simp add: s8_def s7_def s6_def s5_def s4_def s3_def s2_def s1_def learned_def arp_offsets [of] s0_def)
  have l: "length (uip_buf s0) = 422" "length (uip_buf s1) = 422" "length (uip_buf s2) = 422" "length (uip_buf s3) = 422"
      "length (uip_buf s4) = 422" "length (uip_buf s5) = 422" "length (uip_buf s6) = 422" "length (uip_buf s7) = 422" "length (uip_buf s8) = 422"
    using s(1) e by (simp_all add: s8_def s7_def s6_def s5_def s4_def s3_def s2_def s1_def s0_def arp_offsets)
  note g = get_put_same get_put_other arp_offsets l e
  have b4: "get_bytes 32 6 s4 = get_bytes 22 6 s" "get_bytes 28 4 s5 = get_bytes 28 4 s"
    by (simp_all add: s5_def s4_def s3_def s2_def s1_def g) (simp_all add: s0_def)
  have ad: "addr_bytes (read_addr 28 s5) = get_bytes 28 4 s" using addr_bytes_read [of 28 s5] b4(2) l by simp
  have h: "uip_hostaddr s6 = uip_hostaddr s" "uip_conns s8 = uip_conns s" "length (get_bytes 22 6 s) = 6"
    using s(1) by (simp_all add: s8_def s7_def s6_def s5_def s4_def s3_def s2_def s1_def s0_def)
  have f5: "get_bytes 0 6 s5 = get_bytes 22 6 s" "get_bytes 6 6 s5 = uip_ethaddr a" "get_bytes 20 2 s5 = u16_bytes (htons 2)"
    "get_bytes 22 6 s5 = uip_ethaddr a" "get_bytes 32 6 s5 = get_bytes 22 6 s"
    using b4(1) h(3) by (simp_all add: s5_def s4_def s3_def s2_def s1_def g)
  have f8: "get_bytes 0 6 s8 = get_bytes 22 6 s" "get_bytes 6 6 s8 = uip_ethaddr a" "get_bytes 12 2 s8 = u16_bytes (htons UIP_ETHTYPE_ARP)"
    "get_bytes 20 2 s8 = u16_bytes (htons 2)" "get_bytes 22 6 s8 = uip_ethaddr a" "get_bytes 28 4 s8 = addr_bytes (uip_hostaddr s)"
    "get_bytes 32 6 s8 = get_bytes 22 6 s" "get_bytes 38 4 s8 = get_bytes 28 4 s"
    using f5 ad h s(1) by (simp_all add: s8_def s7_def s6_def g)
  have t: "u16_bytes (htons UIP_ETHTYPE_ARP) = [8, 6]" "u16_bytes (htons 2) = [0, 2]"
    by (simp_all add: u16_bytes_def htons_def hi8_def lo8_def UIP_ETHTYPE_ARP_def)
  have "length (get_bytes SHWADDR 6 s) = 6" using h(3) by (simp add: SHWADDR_def)
  note up = arp_update_ok [OF a req(3) this]
  show ?thesis using f8 h(2) l(9) up
    by (intro exI [of _ "set_len 42 s8"] exI [of _ "learned s a"]) (simp add: run t arp_offsets learned_def)
qed

text \<open>A buffer with an ARP request of 192.168.0.1 for 192.168.0.2.\<close>

definition arp_packet :: "m_uint8 list" where
  "arp_packet = [255, 255, 255, 255, 255, 255, 1, 2, 3, 4, 5, 6, 8, 6, 0, 1, 8, 0, 6, 4, 0, 1,
     1, 2, 3, 4, 5, 6, 192, 168, 0, 1, 0, 0, 0, 0, 0, 0, 192, 168, 0, 2]"

definition arp_host :: "nat uip" where
  "arp_host = \<lparr>uip_hostaddr = (0xa8c0, 0x0200), uip_buf = arp_packet @ replicate 380 0,
     uip_appdata = 0, uip_sappdata = 54, uip_len = 42, uip_slen = 0, uip_flags = 0, cur_conn = None,
     uip_conns = [], uip_listenports = [], ipid = 0, iss = (0, 0, 0, 0), lastport = 1024,
     uip_stat = \<lparr>ip_drop = 0, ip_recv = 0, ip_sent = 0, ip_vhlerr = 0, ip_hblenerr = 0, ip_lblenerr = 0, ip_fragerr = 0,
       ip_chkerr = 0, ip_protoerr = 0, icmp_drop = 0, icmp_recv = 0, icmp_sent = 0, icmp_typeerr = 0, tcp_drop = 0, tcp_recv = 0,
       tcp_sent = 0, tcp_chkerr = 0, tcp_ackerr = 0, tcp_rst = 0, tcp_rexmit = 0, tcp_syndrop = 0, tcp_synrst = 0\<rparr>\<rparr>"

lemma length_arp_packet: "length arp_packet = 42"
  by (simp add: arp_packet_def)

lemma arp_host_buf: "i < 42 \<Longrightarrow> uip_buf arp_host ! i = arp_packet ! i" "length (uip_buf arp_host) = 422" "uip_len arp_host = 42"
  "uip_hostaddr arp_host = (0xa8c0, 0x0200)"
  by (simp_all add: arp_host_def nth_append length_arp_packet)

lemma arp_host_fields: "read_u16 OPCODE arp_host = htons ARP_REQUEST" "read_addr DIPADDR arp_host = uip_hostaddr arp_host"
  "read_addr SIPADDR arp_host = (0xa8c0, 0x0100)"
  by (simp_all add: read_addr_def read_u16_def arp_host_buf arp_offsets) (simp_all add: arp_packet_def le16_def htons_def ARP_REQUEST_def)

theorem arp_request_answered_witness:
  "\<exists>s' a'. uip_arp_arpin (arp_host, some_arp) = (s', a') \<and> uip_len s' = 42 \<and> get_bytes OPCODE 2 s' = [0, 2] \<and>
     get_bytes ETH_DEST 6 s' = [1, 2, 3, 4, 5, 6] \<and> arp_lookup (0xa8c0, 0x0100) a' = Some [1, 2, 3, 4, 5, 6]"
proof -
  have "routable (read_addr SIPADDR arp_host)" by (simp add: arp_host_fields routable_def)
  from arp_request_answered [OF some_arp_ok arp_host_buf(2) _ arp_host_fields(1,2) this]
  obtain s' a' where "uip_arp_arpin (arp_host, some_arp) = (s', a')" "uip_len s' = 42" "get_bytes OPCODE 2 s' = [0, 2]"
    "get_bytes ETH_DEST 6 s' = get_bytes SHWADDR 6 arp_host" "arp_lookup (read_addr SIPADDR arp_host) a' = Some (get_bytes SHWADDR 6 arp_host)"
    using arp_host_buf(3) by auto
  moreover have "get_bytes SHWADDR 6 arp_host = [1, 2, 3, 4, 5, 6]" by (simp add: get_bytes_def arp_host_def arp_packet_def SHWADDR_def)
  ultimately show ?thesis by (simp add: arp_host_fields(3))
qed

lemma eth_header_fields:
  assumes "length (uip_buf s) = 422" "length d = 6" "length (uip_ethaddr a) = 6"
  shows "length (uip_buf (eth_header d a s)) = 422" "uip_len (eth_header d a s) = uip_len s + 14"
    "uip_buf (eth_header d a s) = d @ uip_ethaddr a @ [8, 0] @ drop 14 (uip_buf s)" "uip_conns (eth_header d a s) = uip_conns s"
proof -
  have t: "u16_bytes (htons UIP_ETHTYPE_IP) = [8, 0]" by (simp add: u16_bytes_def htons_def hi8_def lo8_def UIP_ETHTYPE_IP_def)
  show b: "uip_buf (eth_header d a s) = d @ uip_ethaddr a @ [8, 0] @ drop 14 (uip_buf s)"
    using assms by (simp add: eth_header_def Let_def put_bytes_def arp_offsets t)
  show "length (uip_buf (eth_header d a s)) = 422" using assms by (simp add: b)
  show "uip_len (eth_header d a s) = uip_len s + 14" "uip_conns (eth_header d a s) = uip_conns s"
    by (simp_all add: eth_header_def Let_def arp_offsets)
qed

text \<open>A frame that asks for the Ethernet address of an IP address.\<close>

definition is_arp_request :: "uip_ipaddr_t \<Rightarrow> arp \<Rightarrow> 'a uip \<Rightarrow> bool" where
  "is_arp_request ip a s \<longleftrightarrow> uip_len s = 42 \<and>
     get_bytes ETH_DEST 6 s = replicate 6 0xff \<and> get_bytes ETH_SRC 6 s = uip_ethaddr a \<and> get_bytes ETH_TYPE 2 s = [8, 6] \<and>
     get_bytes HWTYPE 2 s = [0, 1] \<and> get_bytes PROTOCOL 2 s = [8, 0] \<and> get_bytes HWLEN 1 s = [6] \<and> get_bytes PROTOLEN 1 s = [4] \<and>
     get_bytes OPCODE 2 s = [0, 1] \<and> get_bytes SHWADDR 6 s = uip_ethaddr a \<and> get_bytes SIPADDR 4 s = addr_bytes (uip_hostaddr s) \<and>
     get_bytes DHWADDR 6 s = replicate 6 0 \<and> get_bytes DIPADDR 4 s = addr_bytes ip"

lemma arp_request_sent:
  assumes "length (uip_buf s) = 422" "length (uip_ethaddr a) = 6"
  shows "is_arp_request ip a (arp_request ip a s)" "uip_conns (arp_request ip a s) = uip_conns s"
proof -
  have t: "u16_bytes (htons UIP_ETHTYPE_IP) = [8, 0]" "u16_bytes (htons UIP_ETHTYPE_ARP) = [8, 6]" "u16_bytes (htons ARP_REQUEST) = [0, 1]"
      "u16_bytes (htons ARP_HWTYPE_ETH) = [0, 1]"
    by (simp_all add: u16_bytes_def htons_def hi8_def lo8_def UIP_ETHTYPE_IP_def UIP_ETHTYPE_ARP_def ARP_REQUEST_def ARP_HWTYPE_ETH_def)
  show "is_arp_request ip a (arp_request ip a s)"
    using assms by (simp add: is_arp_request_def arp_request_def Let_def arp_offsets t get_put_same get_put_other)
  show "uip_conns (arp_request ip a s) = uip_conns s"
    by (simp add: arp_request_def Let_def)
qed

text \<open>
  A packet goes out in a frame for the Ethernet address of its next hop (the destination, or
  the router for a destination outside the network; everybody for the broadcast address), the
  packet itself unchanged; if that address is not known, a broadcast request for it goes out.
\<close>

theorem arp_out_correct:
  assumes "arp_ok a" "length (uip_buf s) = 422"
  shows "uip_conns (uip_arp_out a s) = uip_conns s \<and>
    (let dest = read_addr IP_DEST s; hop = next_hop dest (uip_hostaddr s) a;
         target = (if dest = (0xffff, 0xffff) then Some (replicate 6 0xff) else arp_lookup hop a)
     in case target of
          Some eth \<Rightarrow> uip_buf (uip_arp_out a s) = eth @ uip_ethaddr a @ [8, 0] @ drop 14 (uip_buf s) \<and>
            uip_len (uip_arp_out a s) = uip_len s + 14
        | None \<Rightarrow> is_arp_request hop a (uip_arp_out a s))"
proof -
  have e: "length (uip_ethaddr a) = 6" and t: "i < UIP_ARPTAB_SIZE \<Longrightarrow> length (ethaddr (arp_table a ! i)) = 6" for i
    using assms(1) by (simp_all add: arp_ok_def)
  have r: "length (replicate 6 0xff :: m_uint8 list) = 6" by simp
  define hop where "hop = next_hop (read_addr IP_DEST s) (uip_hostaddr s) a"
  define i where "i = arp_index (\<lambda>e. hop = ipaddr e) (arp_table a)"
  have i: "i \<noteq> UIP_ARPTAB_SIZE \<Longrightarrow> length (ethaddr (arp_table a ! i)) = 6" using arp_index_le t unfolding i_def by (metis le_less)
  show ?thesis
    using eth_header_fields [OF assms(2) r e] eth_header_fields [OF assms(2) i e] arp_request_sent [OF assms(2) e, of hop]
    by (simp add: uip_arp_out_def Let_def arp_lookup_def hop_def [symmetric] i_def [symmetric])
qed

theorem arp_out_correct_witness:
  "arp_ok some_arp \<and> uip_len (uip_arp_out some_arp arp_host) = 42 \<and> uip_conns (uip_arp_out some_arp arp_host) = uip_conns arp_host"
proof -
  have d: "read_addr IP_DEST arp_host = (256, 0)" by (simp add: read_addr_def read_u16_def arp_host_buf IP_DEST_def) (simp add: arp_packet_def le16_def)
  have "next_hop (256, 0) (uip_hostaddr arp_host) some_arp = (0xa8c0, 0x0100)"
    by (simp add: next_hop_def uip_ipaddr_maskcmp_def some_arp_def arp_host_buf)
  moreover have "arp_lookup (0xa8c0, 0x0100) some_arp = None"
    by (simp add: arp_lookup_def arp_index_def some_arp_def UIP_ARPTAB_SIZE_def upt_rec)
  ultimately show ?thesis
    using arp_out_correct [OF some_arp_ok arp_host_buf(2)] some_arp_ok by (simp add: d Let_def is_arp_request_def)
qed

text \<open>
  Ages are differences of bytes in an int, and arptime wraps at 256: an entry last refreshed at a
  time of 136 or more never reaches the age of 120, so it is never removed.
\<close>

theorem arp_entry_never_expires:
  assumes "e \<in> set (arp_table a)" "time e \<ge> 136"
  shows "e \<in> set (arp_table ((uip_arp_timer ^^ n) a))"
proof (induction n)
  case (Suc n)
  have young: "\<not> age now e \<ge> UIP_ARP_MAXAGE" for now
    using assms(2) uint_lt2p [of now] by (simp add: age_def UIP_ARP_MAXAGE_def word_le_def)
  have "e \<in> set (arp_table b) \<Longrightarrow> e \<in> set (arp_table (uip_arp_timer b))" for b
    using young by (force simp: uip_arp_timer_def Let_def image_iff)
  with Suc show ?case by simp
qed (use assms in simp)

end
