(* ===== verification/Httpd.thy ===== *)
theory Httpd
  imports Uip_Safety
begin

text \<open>
  library/uip/httpd.c and httpd.h: the web server that the stack calls for every event of a
  connection. It keeps the contract of theory \<open>Uip_Safety\<close>. The pointer \<^verbatim>\<open>data_ptr\<close> is the
  data it points to, or nothing.
\<close>

section \<open>The server\<close>

record http_state =
  http_st :: m_uint8
  data_ptr :: "m_uint8 list option"
  total_len :: m_uint16
  pos :: m_uint16
  last_sent_len :: m_uint16

definition HTTP_STATE_WAITING :: m_uint8 where "HTTP_STATE_WAITING = 0"
definition HTTP_STATE_SENDING :: m_uint8 where "HTTP_STATE_SENDING = 1"
definition HTTP_STATE_CLOSING :: m_uint8 where "HTTP_STATE_CLOSING = 2"
definition MAX_DRIVER_SEND_BYTES :: m_uint16 where "MAX_DRIVER_SEND_BYTES = 512 - 100"

definition hello_text :: string where
  "hello_text = (let nl = [CHR 0x0A]; crlf = [CHR 0x0D, CHR 0x0A] in concat
    [''HTTP/1.0 200 OK'', crlf,
     ''Content-Type: text/html'', crlf,
     ''Connection: close'', crlf,
     crlf, ''<!DOCTYPE html>'',
     nl, ''<html>'',
     nl, ''<head>'',
     nl, ''<style>'',
     nl, ''  body {'',
     nl, ''    background-color: black;'',
     nl, ''    color: #00FF00;'',
     nl, ''    font-family: monospace;'',
     nl, ''    font-size: 20px;'',
     nl, ''    padding: 2em;'',
     nl, ''  }'',
     nl, ''  h1, h2, h3, p, pre {'',
     nl, ''    margin: 0.5em 0;'',
     nl, ''  }'',
     nl, ''  pre {'',
     nl, ''    color: #0f0;'',
     nl, ''    text-shadow: 0 0 5px #0f0;'',
     nl, ''  }'',
     nl, ''  .glow {'',
     nl, ''    text-shadow: 0 0 10px #0f0;'',
     nl, ''  }'',
     nl, ''</style>'',
     nl, ''</head>'',
     nl, ''<body>'',
     nl, ''<center>'',
     ''<pre class=\"glow\">'', nl,
     ''<code>'', nl,
     ''                                             '', nl,
     ''    _/_/_/_/    _/_/_/    _/_/      _/_/_/   '', nl,
     ''   _/        _/        _/    _/  _/          '', nl,
     ''  _/_/_/    _/  _/_/  _/    _/    _/_/       '', nl,
     '' _/        _/    _/  _/    _/        _/      '', nl,
     ''_/_/_/_/    _/_/_/    _/_/    _/_/_/         '', nl,
     ''</code>'', nl,
     ''</pre>'', nl,
     ''<h1 class=\"glow\">EGOS is ALIVE! First contact established!</h1>'', nl,
     ''<h2>EGOS is a custom OS - running via QEMU on SiFive FU540-C000</h2>'', nl,
     ''<h3>This is the final project for CS 6640 class with Prof. Cheng Tan</h3>'', nl,
     ''<p>This is a simple HTTP server running on EGOS. </p>'', nl,
     ''<p>Authors: Pranchal Shah and Vasu Kalariya</p>'', nl,
     ''</center>'', ''</body>'',
     nl, ''</html>'',
     nl])"

definition hello_response :: "m_uint8 list" where
  "hello_response = map (\<lambda>c. of_nat (of_char c)) hello_text"

definition set_app :: "nat \<Rightarrow> http_state \<Rightarrow> http_state uip \<Rightarrow> http_state uip" where
  "set_app i h = upd_conn i (\<lambda>c. c\<lparr>appstate := h\<rparr>)"

definition http_acked :: "m_uint8 \<Rightarrow> http_state \<Rightarrow> http_state" where
  "http_acked flags h =
     (if flags AND UIP_ACKDATA \<noteq> 0 \<and> last_sent_len h > 0
      then h\<lparr>pos := pos h + last_sent_len h, last_sent_len := 0\<rparr> else h)"

definition http_request :: "m_uint8 \<Rightarrow> http_state \<Rightarrow> http_state" where
  "http_request flags h =
     (if flags AND UIP_NEWDATA \<noteq> 0 \<and> http_st h = HTTP_STATE_WAITING
      then h\<lparr>http_st := HTTP_STATE_SENDING, data_ptr := Some hello_response,
             total_len := of_nat (length hello_response), pos := 0, last_sent_len := 0\<rparr>
      else h)"

definition chunk_len :: "m_uint16 \<Rightarrow> http_state \<Rightarrow> m_uint16" where
  "chunk_len m h =
     (let remaining_len = total_len h - pos h;
          max_allowed_send = (if m > MAX_DRIVER_SEND_BYTES then MAX_DRIVER_SEND_BYTES else m)
      in if remaining_len > max_allowed_send then max_allowed_send else remaining_len)"

definition httpd_appcall :: "http_state uip \<Rightarrow> http_state uip res" where
  "httpd_appcall s = (case cur_conn s of None \<Rightarrow> Inl Out_of_bounds
   | Some i \<Rightarrow>
       let flags = uip_flags s; h = appstate (conn_at i s)
       in if flags AND UIP_CONNECTED \<noteq> 0
          then Inr (set_app i (h\<lparr>http_st := HTTP_STATE_WAITING, pos := 0, last_sent_len := 0, data_ptr := None, total_len := 0\<rparr>) s)
          else if flags AND UIP_CLOSE \<noteq> 0 \<or> flags AND UIP_ABORT \<noteq> 0 \<or> flags AND UIP_TIMEDOUT \<noteq> 0
          then Inr (set_app i (h\<lparr>http_st := HTTP_STATE_CLOSING\<rparr>) s)
          else let h = http_request flags (http_acked flags h)
               in if http_st h = HTTP_STATE_SENDING \<and>
                     (flags AND UIP_NEWDATA \<noteq> 0 \<or> flags AND UIP_ACKDATA \<noteq> 0 \<or> flags AND UIP_POLL \<noteq> 0 \<or> flags AND UIP_REXMIT \<noteq> 0)
                  then if pos h < total_len h
                       then let chunk = chunk_len (mss (conn_at i s)) h
                            in if chunk > 0
                               then case data_ptr h of None \<Rightarrow> Inl Out_of_bounds
                                    | Some data \<Rightarrow>
                                        rbind (uip_send (drop (unat (pos h)) data) (int (unat chunk)) s) (\<lambda>s.
                                        Inr (set_app i (h\<lparr>last_sent_len := chunk\<rparr>) s))
                               else Inr (set_app i h s)
                       else if last_sent_len h = 0
                            then Inr (set_flags UIP_CLOSE (set_app i (h\<lparr>http_st := HTTP_STATE_CLOSING\<rparr>) s))
                            else Inr (set_app i h s)
                  else Inr (set_app i h s))"

definition httpd_init :: "'a uip \<Rightarrow> 'a uip" where
  "httpd_init s = uip_listen (htons 80) s"

section \<open>The server keeps the contract\<close>

definition http_inv :: "http_state \<Rightarrow> bool" where
  "http_inv h \<longleftrightarrow> (http_st h = HTTP_STATE_SENDING \<longrightarrow> data_ptr h = Some hello_response \<and> total_len h = of_nat (length hello_response))"

lemma length_hello: "length hello_response < 65536"
  by (simp add: hello_response_def hello_text_def)

lemma app_frame_set_app:
  "app_frame i s (set_app i h s)" "app_frame i s (set_flags f (set_app i h s))"
proof -
  have "app_frame i s ((upd_conn i (\<lambda>c. c\<lparr>appstate := h\<rparr>) s)\<lparr>uip_buf := uip_buf s, uip_slen := uip_slen s, uip_flags := fl\<rparr>)" for fl
    unfolding app_frame_def by blast
  from this [of "uip_flags s"] this [of f] show "app_frame i s (set_app i h s)" "app_frame i s (set_flags f (set_app i h s))"
    by (simp_all add: set_app_def set_flags_def upd_conn_def)
qed

lemma chunk_le: "unat (chunk_len m h) \<le> unat m" "unat (chunk_len m h) \<le> unat (total_len h - pos h)"
  by (auto simp: chunk_len_def Let_def word_less_nat_alt not_less)

lemma uip_send_frame:
  assumes "ready ainv i s" "n \<le> length data" "n \<le> 366"
  shows "\<exists>s'. uip_send data (int n) s = Inr s' \<and> app_frame i s (set_app i h s') \<and> appstate (conn_at i (set_app i h s')) = h"
proof (cases "n = 0")
  case True
  then show ?thesis
    using readyD(3) [OF assms(1)] app_frame_set_app(1) [of i s h] by (simp add: uip_send_def set_app_def)
next
  case False
  note r = readyD [OF assms(1)]
  have n: "unat (word_of_int (int n) :: m_uint16) = n" using assms(3) by (simp add: unsigned_of_nat take_bit_eq_mod)
  let ?buf = "take 54 (uip_buf s) @ take n data @ drop (54 + n) (uip_buf s)"
  let ?s = "s\<lparr>uip_slen := word_of_int (int n), uip_buf := ?buf\<rparr>"
  have b: "length (uip_buf s) = 422" using uip_invD(1) [OF r(1)] .
  have "uip_send data (int n) s = Inr ?s"
    using False n assms(2,3) r(6) b by (simp add: uip_send_def Let_def)
  moreover have "app_frame i s (set_app i h ?s)"
    unfolding app_frame_def set_app_def
    by (rule exI [of _ ?buf], rule exI [of _ "word_of_int (int n)"], rule exI [of _ "uip_flags s"], rule exI [of _ h])
      (use b assms(2,3) in \<open>simp add: upd_conn_def\<close>)
  moreover have "appstate (conn_at i (set_app i h ?s)) = h" using r(3) by (simp add: set_app_def)
  ultimately show ?thesis by blast
qed

lemma httpd_contract:
  assumes "ready http_inv i s"
  shows "\<exists>s'. httpd_appcall s = Inr s' \<and> app_frame i s s' \<and> http_inv (appstate (conn_at i s'))"
proof -
  note r = readyD [OF assms]
  define h0 where "h0 = appstate (conn_at i s)"
  define h where "h = http_request (uip_flags s) (http_acked (uip_flags s) h0)"
  have h0: "http_inv h0" using uip_invD(5) [OF r(1,2)] by (simp add: h0_def)
  then have h: "http_inv h"
    by (auto simp: h_def http_inv_def http_request_def http_acked_def HTTP_STATE_SENDING_def HTTP_STATE_WAITING_def)
  have st: "HTTP_STATE_CLOSING \<noteq> HTTP_STATE_SENDING" "HTTP_STATE_WAITING \<noteq> HTTP_STATE_SENDING"
    by (simp_all add: HTTP_STATE_SENDING_def HTTP_STATE_WAITING_def HTTP_STATE_CLOSING_def)
  have at: "appstate (conn_at i (set_app i a s)) = a" "appstate (conn_at i (set_flags f (set_app i a s))) = a" for a f
    using r(3) by (simp_all add: set_app_def)
  let ?k = "chunk_len (mss (conn_at i s)) h"
  have send: "\<exists>s'. rbind (uip_send (drop (unat (pos h)) hello_response) (int (unat ?k)) s)
      (\<lambda>s. Inr (set_app i (h\<lparr>last_sent_len := ?k\<rparr>) s)) = Inr s' \<and> app_frame i s s' \<and> http_inv (appstate (conn_at i s'))"
    if "http_st h = HTTP_STATE_SENDING" "pos h < total_len h"
  proof -
    have t: "unat (total_len h) = length hello_response"
      using h that(1) length_hello by (simp add: http_inv_def unsigned_of_nat take_bit_eq_mod)
    have "unat (total_len h - pos h) = unat (total_len h) - unat (pos h)"
      using that(2) by (intro unat_sub) simp
    then have "unat ?k \<le> length (drop (unat (pos h)) hello_response)" using chunk_le(2) [of "mss (conn_at i s)" h] t by simp
    moreover have "unat ?k \<le> 366" using chunk_le(1) [of "mss (conn_at i s)" h] r(4) by (simp add: conn_ok_def)
    ultimately show ?thesis
      using uip_send_frame [OF assms, of "unat ?k" "drop (unat (pos h)) hello_response" "h\<lparr>last_sent_len := ?k\<rparr>"] h
      by (auto simp: http_inv_def)
  qed
  have "http_inv (h0\<lparr>http_st := HTTP_STATE_WAITING, pos := 0, last_sent_len := 0, data_ptr := None, total_len := 0\<rparr>)"
    "http_inv (h0\<lparr>http_st := HTTP_STATE_CLOSING\<rparr>)" "http_inv (h\<lparr>http_st := HTTP_STATE_CLOSING\<rparr>)"
    using st by (simp_all add: http_inv_def)
  then show ?thesis
    unfolding httpd_appcall_def r(5) option.case Let_def h0_def [symmetric] h_def [symmetric]
    using h send app_frame_set_app at by (auto simp: http_inv_def [of h])
qed

interpretation httpd: uip_application httpd_appcall http_inv
  by unfold_locales (rule httpd_contract)

end
