(* ===== verification/Uip_Properties.thy ===== *)
theory Uip_Properties
  imports Httpd
begin

text \<open>
  The properties of the TCP/IP stack, with witnesses on concrete packets.
\<close>

section \<open>Concrete states\<close>

definition idle_conn :: "http_state uip_conn" where
  "idle_conn = \<lparr>ripaddr = (0, 0), lport = 0, rport = 0, rcv_nxt = (0, 0, 0, 0), snd_nxt = (0, 0, 0, 0), c_len = 0, mss = 0,
     initialmss = 0, sa = 0, sv = 0, rto = 0, tcpstateflags = UIP_CLOSED, timer = 0, nrtx = 0,
     appstate = \<lparr>http_st = 0, data_ptr = None, total_len = 0, pos = 0, last_sent_len = 0\<rparr>\<rparr>"

text \<open>The host 192.168.0.2 with a packet in the buffer, listening on port 80.\<close>

definition host_with :: "m_uint8 list \<Rightarrow> http_state uip" where
  "host_with packet = \<lparr>uip_hostaddr = (0xa8c0, 0x0200), uip_buf = replicate 14 0 @ packet @ replicate (408 - length packet) 0,
     uip_appdata = 0, uip_sappdata = 54, uip_len = of_nat (length packet), uip_slen = 0, uip_flags = 0, cur_conn = None,
     uip_conns = replicate 40 idle_conn, uip_listenports = 0x5000 # replicate 39 0, ipid = 0, iss = (0, 0, 0, 7), lastport = 1024,
     uip_stat = \<lparr>ip_drop = 0, ip_recv = 0, ip_sent = 0, ip_vhlerr = 0, ip_hblenerr = 0, ip_lblenerr = 0, ip_fragerr = 0,
       ip_chkerr = 0, ip_protoerr = 0, icmp_drop = 0, icmp_recv = 0, icmp_sent = 0, icmp_typeerr = 0, tcp_drop = 0, tcp_recv = 0,
       tcp_sent = 0, tcp_chkerr = 0, tcp_ackerr = 0, tcp_rst = 0, tcp_rexmit = 0, tcp_syndrop = 0, tcp_synrst = 0\<rparr>\<rparr>"

lemma host_with_simps [simp]:
  "uip_hostaddr (host_with p) = (0xa8c0, 0x0200)" "uip_sappdata (host_with p) = 54" "uip_len (host_with p) = of_nat (length p)"
  "uip_conns (host_with p) = replicate 40 idle_conn" "uip_listenports (host_with p) = 0x5000 # replicate 39 0"
  "iss (host_with p) = (0, 0, 0, 7)" "length p \<le> 408 \<Longrightarrow> length (uip_buf (host_with p)) = 422"
  by (simp_all add: host_with_def)

lemma conn_at_host [simp]: "i < 40 \<Longrightarrow> conn_at i (host_with p) = idle_conn"
  by (simp add: conn_at_def)

lemma get8_host: "q < length p \<Longrightarrow> get8 q (host_with p) = p ! q"
  by (simp add: get8_def host_with_def uip_consts nth_append)

lemma host_inv: "length p \<le> 408 \<Longrightarrow> uip_inv http_inv (host_with p)"
  by (simp add: uip_inv_def idle_conn_def conn_ok_def http_inv_def HTTP_STATE_SENDING_def UIP_CLOSED_def)

text \<open>A SYN from port 1024 of 192.168.0.1 to port 80, with the sequence number 1 and no options.\<close>

definition syn_packet :: "m_uint8 list" where
  "syn_packet = [0x45, 0, 0, 40, 0, 1, 0, 0, 64, 6, 0xf9, 0x7b, 192, 168, 0, 1, 192, 168, 0, 2,
     4, 0, 0, 80, 0, 0, 0, 1, 0, 0, 0, 0, 0x50, 2, 2, 0, 0x28, 0x3e, 0, 0]"

section \<open>Numbers and checksums\<close>

text \<open>
  uip_add32, which adds a 16-bit number to a big-endian number of four bytes with explicit
  carries, is addition modulo 2 to the 32.
\<close>

theorem add32_correct: "seq_val (uip_add32 q n) = seq_val q + ucast n"
  by (rule uip_add32_val)

text \<open>
  C38. chksum computes the Internet checksum: the sum of the 16-bit words of the data (an odd byte
  padded with zero) in ones' complement arithmetic, in which the sum of words that are not all
  zero is never zero.
\<close>

theorem chksum_correct: "unat (chksum 0 bs) = ones_sum (sum_list (map unat (words16 bs)))"
  by (rule chksum_spec)

section \<open>Every call\<close>

text \<open>
  C5. One call of uip_process, for a packet, a timer tick or a poll, with any application that
  keeps its contract. If a packet is not longer than the buffer, has an IP length of at least 20
  and options whose parsing ends, the call returns without an access outside the buffer, keeps
  the invariant of the connection table, leaves an empty or a valid packet, changes at most one
  connection, and moves that one along the TCP state diagram or opens it.
\<close>

theorem uip_process_safe:
  assumes "uip_application app ainv" and "uip_inv ainv s" "uip_hostaddr s \<noteq> (0, 0)"
    and "if flag = UIP_TIMER \<or> flag = UIP_POLL_REQUEST then \<exists>i < 40. cur_conn s = Some i
      else 20 \<le> unat (ip_length s) \<and> unat (uip_len s) \<le> 408 \<and> options_end s"
  shows "\<exists>s' i. uip_process app flag s = Inr s' \<and> uip_inv ainv s' \<and> (uip_len s' = 0 \<or> valid_packet s') \<and>
    (\<forall>j. j \<noteq> i \<longrightarrow> conn_at j s' = conn_at j s) \<and>
    (tcp_moves (tcpstateflags (conn_at i s)) (tcpstateflags (conn_at i s')) \<or>
     (tcpstateflags (conn_at i s) = UIP_CLOSED \<or> tcpstateflags (conn_at i s) = UIP_TIME_WAIT) \<and>
     tcpstateflags (conn_at i s') = UIP_SYN_RCVD)"
  using uip_application.uip_process_ok [OF assms] unfolding call_ok_def by blast

lemma syn_options: "options_end (host_with syn_packet)"
proof -
  have "get8 TCPOFFSET (host_with syn_packet) = 0x50" by (simp add: get8_host TCPOFFSET_def syn_packet_def)
  then show ?thesis by (simp add: options_end_def) (subst mss_loop.simps, simp)
qed

lemma syn_length: "ip_length (host_with syn_packet) = 40"
  by (simp add: ip_length_def get8_host LEN_def syn_packet_def be16_def)

theorem uip_process_safe_witness:
  "\<exists>s'. uip_process httpd_appcall UIP_DATA (host_with syn_packet) = Inr s' \<and> uip_inv http_inv s' \<and> (uip_len s' = 0 \<or> valid_packet s')"
proof -
  have "length syn_packet = 40" by (simp add: syn_packet_def)
  then show ?thesis
    using uip_process_safe [OF httpd.uip_application_axioms host_inv, of syn_packet UIP_DATA] syn_options syn_length
    by (simp add: UIP_DATA_def UIP_TIMER_def UIP_POLL_REQUEST_def) blast
qed

section \<open>Packets that are accepted and dropped\<close>

definition acceptable :: "'a uip \<Rightarrow> bool" where
  "acceptable s \<longleftrightarrow> get8 VHL s = 0x45 \<and> ip_length s \<le> uip_len s \<and> get8 IPOFFSET s AND 0x3f = 0 \<and> get8 (IPOFFSET + 1) s = 0 \<and>
     (uip_hostaddr s \<noteq> (0, 0) \<longrightarrow> get_addr DESTIPADDR s = uip_hostaddr s) \<and> uip_ipchksum s = Inr 0xffff"

text \<open>The state in which an acceptable packet reaches the code for its protocol.\<close>

definition at_ip :: "'a uip \<Rightarrow> 'a uip" where
  "at_ip s = set_len (ip_length s) (UIP_STAT ip_recv_update
     (s\<lparr>uip_sappdata := UIP_IPTCPH_LEN + UIP_LLH_LEN, uip_appdata := UIP_IPTCPH_LEN + UIP_LLH_LEN\<rparr>))"

lemma at_ip_simps [simp]:
  "uip_buf (at_ip s) = uip_buf s" "uip_len (at_ip s) = ip_length s" "uip_conns (at_ip s) = uip_conns s"
  "uip_listenports (at_ip s) = uip_listenports s" "uip_hostaddr (at_ip s) = uip_hostaddr s" "uip_sappdata (at_ip s) = 54"
  "iss (at_ip s) = iss s" "conn_at i (at_ip s) = conn_at i s" "get8 p (at_ip s) = get8 p s" "uip_inv ainv (at_ip s) = uip_inv ainv s"
  by (simp_all add: at_ip_def conn_at_def get8_def uip_inv_def) (simp add: uip_consts)

lemma at_ip_chksum [simp]:
  "uip_ipchksum (at_ip s) = uip_ipchksum s" "uip_tcpchksum (at_ip s) = uip_tcpchksum s" "ip_length (at_ip s) = ip_length s"
  "options_end (at_ip s) = options_end s" "get16 p (at_ip s) = get16 p s" "get_addr p (at_ip s) = get_addr p s" "get_seq p (at_ip s) = get_seq p s"
  using chksum_buf [of "at_ip s" s] options_end_buf [of "at_ip s" s] by (simp_all add: get16_def get_addr_def get_seq_def)

lemma ip_input_acceptable:
  assumes "acceptable s"
  shows "uip_process app UIP_DATA s =
    (if get8 PROTO s = UIP_PROTO_TCP then tcp_input app (at_ip s)
     else if get8 PROTO s \<noteq> UIP_PROTO_ICMP
     then Inr (uip_drop (UIP_STAT ip_protoerr_update (UIP_STAT ip_drop_update (at_ip s))))
     else Inr (icmp_input (at_ip s)))"
proof -
  define s1 where "s1 = UIP_STAT ip_recv_update
     (s\<lparr>uip_sappdata := UIP_IPTCPH_LEN + UIP_LLH_LEN, uip_appdata := UIP_IPTCPH_LEN + UIP_LLH_LEN\<rparr>)"
  have b: "uip_buf s1 = uip_buf s" "uip_hostaddr s1 = uip_hostaddr s" "uip_len s1 = uip_len s" by (simp_all add: s1_def)
  have g: "get8 p s1 = get8 p s" for p using b(1) by (rule get8_buf)
  have e: "set_len (ip_length s1) s1 = at_ip s" using chksum_buf(3) [OF b(1)] by (simp add: at_ip_def s1_def)
  have f: "UIP_DATA \<noteq> UIP_POLL_REQUEST" "UIP_DATA \<noteq> UIP_TIMER" by (simp_all add: uip_consts)
  show ?thesis
    unfolding uip_process_def if_not_P [OF f(1)] if_not_P [OF f(2)] ip_input_def Let_def s1_def [symmetric] e
    using assms b g chksum_buf(3) [OF b(1)] by (auto simp: acceptable_def)
qed

lemma ip_input_unacceptable:
  assumes "\<not> acceptable s" "length (uip_buf s) = 422"
  shows "\<exists>s'. uip_process app UIP_DATA s = Inr (uip_drop s') \<and> uip_conns s' = uip_conns s \<and> uip_listenports s' = uip_listenports s"
proof -
  define s1 where "s1 = UIP_STAT ip_recv_update
     (s\<lparr>uip_sappdata := UIP_IPTCPH_LEN + UIP_LLH_LEN, uip_appdata := UIP_IPTCPH_LEN + UIP_LLH_LEN\<rparr>)"
  have b: "uip_buf s1 = uip_buf s" "uip_hostaddr s1 = uip_hostaddr s" "uip_len s1 = uip_len s" "uip_conns s1 = uip_conns s"
    "uip_listenports s1 = uip_listenports s" by (simp_all add: s1_def)
  have g: "get8 p s1 = get8 p s" for p using b(1) by (rule get8_buf)
  have e: "set_len (ip_length s1) s1 = at_ip s" using chksum_buf(3) [OF b(1)] by (simp add: at_ip_def s1_def)
  have f: "UIP_DATA \<noteq> UIP_POLL_REQUEST" "UIP_DATA \<noteq> UIP_TIMER" by (simp_all add: uip_consts)
  obtain acc where acc: "uip_ipchksum s = Inr acc" using fold_sum_ipchksum [OF assms(2)] by blast
  define r where "r = uip_process app UIP_DATA s"
  have r: "r = (if get8 VHL s \<noteq> 0x45 then Inr (uip_drop (UIP_STAT ip_vhlerr_update (UIP_STAT ip_drop_update s1)))
     else if \<not> ip_length s \<le> uip_len s then Inr (uip_drop s1)
     else if get8 IPOFFSET s AND 0x3f \<noteq> 0 \<or> get8 (IPOFFSET + 1) s \<noteq> 0
     then Inr (uip_drop (UIP_STAT ip_fragerr_update (UIP_STAT ip_drop_update (at_ip s))))
     else if uip_hostaddr s \<noteq> (0, 0) \<and> get_addr DESTIPADDR s \<noteq> uip_hostaddr s
     then Inr (uip_drop (UIP_STAT ip_drop_update (at_ip s)))
     else Inr (uip_drop (UIP_STAT ip_chkerr_update (UIP_STAT ip_drop_update (at_ip s)))))"
    unfolding r_def uip_process_def if_not_P [OF f(1)] if_not_P [OF f(2)] ip_input_def Let_def s1_def [symmetric] e
    using assms b g chksum_buf(3) [OF b(1)] acc by (auto simp: acceptable_def)
  have "\<exists>s'. r = Inr (uip_drop s') \<and> uip_conns s' = uip_conns s \<and> uip_listenports s' = uip_listenports s"
    unfolding r by (auto intro: exI [of _ "UIP_STAT ip_vhlerr_update (UIP_STAT ip_drop_update s1)"] exI [of _ s1]
        exI [of _ "UIP_STAT ip_fragerr_update (UIP_STAT ip_drop_update (at_ip s))"] exI [of _ "UIP_STAT ip_drop_update (at_ip s)"]
        exI [of _ "UIP_STAT ip_chkerr_update (UIP_STAT ip_drop_update (at_ip s))"] simp: b)
  then show ?thesis by (simp add: r_def)
qed

text \<open>
  C29. A packet with a wrong version, header length, length, destination, IP or TCP checksum, a
  fragment and a packet of an unknown protocol are dropped: nothing is sent, no connection
  changes and the application is not called (the statement holds for every application).
\<close>

theorem bad_packet_dropped:
  assumes "length (uip_buf s) = 422"
    and "\<not> acceptable s \<or> get8 PROTO s \<noteq> UIP_PROTO_TCP \<and> get8 PROTO s \<noteq> UIP_PROTO_ICMP \<or>
      get8 PROTO s = UIP_PROTO_TCP \<and> (\<exists>acc. uip_tcpchksum s = Inr acc \<and> acc \<noteq> 0xffff)"
  shows "\<exists>s'. uip_process app UIP_DATA s = Inr s' \<and> uip_len s' = 0 \<and> uip_conns s' = uip_conns s \<and> uip_listenports s' = uip_listenports s"
proof (cases "acceptable s")
  case False
  from ip_input_unacceptable [OF this assms(1), of app] show ?thesis by (auto simp: uip_drop_def)
next
  case True
  then show ?thesis
    using ip_input_acceptable [OF True, of app] assms(2) by (auto simp: tcp_input_def Let_def uip_drop_def)
qed

theorem bad_packet_dropped_witness:
  "\<exists>s'. uip_process httpd_appcall UIP_DATA (host_with (syn_packet[11 := 0])) = Inr s' \<and> uip_len s' = 0 \<and>
     uip_conns s' = replicate 40 idle_conn"
proof -
  let ?p = "syn_packet[11 := 0]"
  have l: "length (uip_buf (host_with ?p)) = 422" by (simp add: syn_packet_def)
  have "uip_ipchksum (host_with ?p) \<noteq> Inr 0xffff"
    unfolding fold_sum_ipchksum [OF l] by (simp add: host_with_def syn_packet_def be16_def add_carry_def fold_sum_def htons_def)
  then have "\<not> acceptable (host_with ?p)" by (simp add: acceptable_def)
  then show ?thesis using bad_packet_dropped [OF l, of httpd_appcall] by auto
qed

section \<open>Opening a connection\<close>

lemma found_listen_stat:
  "syn_conn i (UIP_STAT k s) = syn_conn i s"
  by (simp add: syn_conn_def get16_def get_addr_def get_seq_def)

lemma syn_conn_at_ip: "syn_conn i (at_ip s) = syn_conn i s"
  by (simp add: syn_conn_def)

text \<open>
  C28. A SYN with valid checksums for a port the host listens on, which matches no open connection,
  is answered if there is an unused connection: the connection is opened in SYN_RCVD, expects the
  number after that of the SYN, and the buffer holds a valid segment with SYN and ACK set, the
  initial sequence number of the host, and the acknowledgement of the SYN. All other connections
  are as before.
\<close>

theorem syn_answered:
  assumes inv: "uip_inv ainv s" "options_end s" and acc: "acceptable s" "get8 PROTO s = UIP_PROTO_TCP" "uip_tcpchksum s = Inr 0xffff"
    and new: "\<forall>i < 40. \<not> (tcpstateflags (conn_at i s) \<noteq> UIP_CLOSED \<and> get16 DESTPORT s = lport (conn_at i s) \<and>
      get16 SRCPORT s = rport (conn_at i s) \<and> get_addr SRCIPADDR s = ripaddr (conn_at i s))"
    and syn: "get8 FLAGS s AND TCP_CTL = TCP_SYN" "\<exists>c < 40. get16 DESTPORT s = uip_listenports s ! c"
    and unused: "find_unused (uip_conns s) [0..<UIP_CONNS] None = Some i"
  shows "\<exists>s'. uip_process app UIP_DATA s = Inr s' \<and> uip_inv ainv s' \<and> (\<forall>j. j \<noteq> i \<longrightarrow> conn_at j s' = conn_at j s) \<and>
    tcpstateflags (conn_at i s') = UIP_SYN_RCVD \<and> snd_nxt (conn_at i s') = iss s \<and>
    seq_val (rcv_nxt (conn_at i s')) = seq_val (get_seq SEQNO s) + 1 \<and>
    valid_packet s' \<and> uip_len s' = 44 \<and> get8 FLAGS s' = TCP_SYN OR TCP_ACK \<and>
    get_seq SEQNO s' = iss s \<and> seq_val (get_seq ACKNO s') = seq_val (get_seq SEQNO s) + 1 \<and>
    get16 SRCPORT s' = get16 DESTPORT s \<and> get16 DESTPORT s' = get16 SRCPORT s \<and>
    get_addr SRCIPADDR s' = uip_hostaddr s \<and> get_addr DESTIPADDR s' = get_addr SRCIPADDR s"
proof -
  define s1 where "s1 = UIP_STAT tcp_recv_update (at_ip s)"
  have b: "uip_buf s1 = uip_buf s" "uip_conns s1 = uip_conns s" "uip_listenports s1 = uip_listenports s" "uip_hostaddr s1 = uip_hostaddr s"
    by (simp_all add: s1_def)
  have g: "get8 p s1 = get8 p s" "get16 p s1 = get16 p s" "get_addr p s1 = get_addr p s" "conn_at j s1 = conn_at j s" for p j
    by (simp_all add: s1_def get16_def get_addr_def)
  have s1: "uip_inv ainv s1" "uip_sappdata s1 = 54" "options_end s1" using inv options_end_buf [OF b(1)] by (simp_all add: s1_def)
  have n: "scan_from (\<lambda>i. tcpstateflags (conn_at i s1) \<noteq> UIP_CLOSED \<and> get16 DESTPORT s1 = lport (conn_at i s1) \<and>
      get16 SRCPORT s1 = rport (conn_at i s1) \<and> get_addr SRCIPADDR s1 = ripaddr (conn_at i s1)) 0 UIP_CONNS = None"
    using new by (simp add: scan_from_None_iff g uip_consts)
  obtain k where k: "k < UIP_LISTENPORTS" "get16 DESTPORT s1 = uip_listenports s1 ! k" using syn(2) by (auto simp: g b uip_consts)
  obtain c where c: "scan_from (\<lambda>c. get16 DESTPORT s1 = uip_listenports s1 ! c) 0 UIP_LISTENPORTS = Some c"
    using scan_from_ex [of 0 k UIP_LISTENPORTS "\<lambda>c. get16 DESTPORT s1 = uip_listenports s1 ! c", OF le0 k] by blast
  have p: "uip_process app UIP_DATA s = found_listen s1"
    using ip_input_acceptable [OF acc(1), of app] acc(2,3) syn(1) n c
    by (simp add: tcp_input_def Let_def s1_def [symmetric]) (simp add: s1_def)
  have u: "find_unused (uip_conns s1) [0..<UIP_CONNS] None = Some i" using unused b by simp
  have sc: "syn_conn i s1 = syn_conn i s" by (simp add: s1_def found_listen_stat syn_conn_at_ip)
  obtain s' m m' where s': "found_listen s1 = Inr s'" "uip_inv ainv s'" "valid_packet s'" "uip_len s' = 44"
    "\<forall>j. j \<noteq> i \<longrightarrow> conn_at j s' = conn_at j s1" "conn_at i s' = (syn_conn i s)\<lparr>mss := m, initialmss := m'\<rparr>"
    "segment_of (syn_conn i s) (uip_hostaddr s1) (TCP_SYN OR TCP_ACK) s'"
    using found_listen_ok [OF s1 u] sc by auto
  then show ?thesis
    using p g b by (auto simp: segment_of_def syn_conn_def uip_add32_val)
qed

lemma syn_acceptable: "acceptable (host_with syn_packet)" "uip_tcpchksum (host_with syn_packet) = Inr 0xffff"
proof -
  have l: "length (uip_buf (host_with syn_packet)) = 422" by (simp add: syn_packet_def)
  have "uip_ipchksum (host_with syn_packet) = Inr 0xffff"
    unfolding fold_sum_ipchksum [OF l] by (simp add: host_with_def syn_packet_def be16_def add_carry_def fold_sum_def htons_def)
  then show "acceptable (host_with syn_packet)"
    using syn_length by (simp add: acceptable_def get_addr_def get16_def get8_host uip_consts syn_packet_def le16_def)
  show "uip_tcpchksum (host_with syn_packet) = Inr 0xffff"
    by (subst fold_sum_tcpchksum [OF l])
      (simp_all add: syn_length, simp add: host_with_def syn_packet_def be16_def add_carry_def fold_sum_def htons_def)
qed

theorem syn_answered_witness:
  "\<exists>s'. uip_process httpd_appcall UIP_DATA (host_with syn_packet) = Inr s' \<and> tcpstateflags (conn_at 0 s') = UIP_SYN_RCVD \<and>
     valid_packet s' \<and> get8 FLAGS s' = TCP_SYN OR TCP_ACK \<and> get_seq SEQNO s' = (0, 0, 0, 7) \<and> seq_val (get_seq ACKNO s') = 2"
proof -
  have l: "length syn_packet \<le> 408" by (simp add: syn_packet_def)
  have u: "find_unused (uip_conns (host_with syn_packet)) [0..<UIP_CONNS] None = Some 0"
    by (simp add: uip_consts upt_rec idle_conn_def)
  have f: "get8 PROTO (host_with syn_packet) = UIP_PROTO_TCP" "get8 FLAGS (host_with syn_packet) AND TCP_CTL = TCP_SYN"
    "get16 DESTPORT (host_with syn_packet) = uip_listenports (host_with syn_packet) ! 0" "get_seq SEQNO (host_with syn_packet) = (0, 0, 0, 1)"
    by (simp_all add: get8_host get16_def get_seq_def le16_def syn_packet_def uip_consts)
  have n: "\<forall>i < 40. \<not> (tcpstateflags (conn_at i (host_with syn_packet)) \<noteq> UIP_CLOSED \<and>
      get16 DESTPORT (host_with syn_packet) = lport (conn_at i (host_with syn_packet)) \<and>
      get16 SRCPORT (host_with syn_packet) = rport (conn_at i (host_with syn_packet)) \<and>
      get_addr SRCIPADDR (host_with syn_packet) = ripaddr (conn_at i (host_with syn_packet)))"
    by (simp add: idle_conn_def)
  have p: "\<exists>c < 40. get16 DESTPORT (host_with syn_packet) = uip_listenports (host_with syn_packet) ! c"
    using f(3) by (intro exI [of _ 0]) simp
  have "seq_val (0, 0, 0, 1) = 1" by (simp add: seq_val_def)
  then show ?thesis
    using syn_answered [OF host_inv [OF l] syn_options syn_acceptable(1) f(1) syn_acceptable(2) n f(2) p u, of httpd_appcall] f(4)
    by auto
qed

section \<open>Local ports\<close>

lemma unat_next_port:
  "unat (next_port p) = (if unat p = 65535 then 0 else if 31999 \<le> unat p then 4096 else unat p + 1)"
proof (cases "unat p = 65535")
  case True
  then have "p = 65535" by (simp add: word_unat_eq_iff)
  then show ?thesis by (simp add: next_port_def)
next
  case False
  then have "unat (p + 1) = unat p + 1" using unat16 [of p] by (simp add: unat_word_ariths)
  then show ?thesis using False by (simp add: next_port_def word_le_nat_alt)
qed

lemma next_port_pow:
  assumes "unat q < 32000" "j \<le> 41"
  shows "unat ((next_port ^^ j) q) = (if unat q + j < 32000 then unat q + j else unat q + j - 27904)"
  using assms(2)
proof (induction j)
  case (Suc j)
  then show ?case using assms(1) by (auto simp: unat_next_port)
qed (use assms(1) in simp)

lemma next_port_pow_inj:
  assumes "unat q < 32000"
  shows "inj_on (\<lambda>j. (next_port ^^ j) q) {..40}"
proof (rule inj_onI)
  fix i j assume ij: "i \<in> {..40 :: nat}" "j \<in> {..40}" "(next_port ^^ i) q = (next_port ^^ j) q"
  then have e: "unat ((next_port ^^ i) q) = unat ((next_port ^^ j) q)" by simp
  have a: "unat ((next_port ^^ i) q) = (if unat q + i < 32000 then unat q + i else unat q + i - 27904)"
    "unat ((next_port ^^ j) q) = (if unat q + j < 32000 then unat q + j else unat q + j - 27904)"
    using ij(1,2) next_port_pow [OF assms, of i] next_port_pow [OF assms, of j] by simp_all
  have "(if unat q + i < 32000 then unat q + i else unat q + i - 27904) = (if unat q + j < 32000 then unat q + j else unat q + j - 27904)"
    using e a by simp
  then show "i = j" using ij(1,2) by (auto split: if_splits)
qed

lemma htons_htons: "htons (htons p) = p"
  by (metis be16_bytes htons_be16)

lemma free_port_exists:
  assumes "length conns = 40" "unat q < 32000"
  obtains j where "j \<le> 40" "\<not> port_in_use conns ((next_port ^^ j) q)"
proof -
  have "\<exists>j \<le> 40. \<not> port_in_use conns ((next_port ^^ j) q)"
  proof (rule ccontr)
    assume "\<not> ?thesis"
    then have "\<forall>j \<le> 40. port_in_use conns ((next_port ^^ j) q)" by blast
    then have "(\<lambda>j. (next_port ^^ j) q) ` {..40} \<subseteq> (\<lambda>c. htons (lport c)) ` set conns"
      by (auto simp: port_in_use_def list_ex_iff image_iff) (metis htons_htons)
    then have "card ((\<lambda>j. (next_port ^^ j) q) ` {..40}) \<le> card ((\<lambda>c. htons (lport c)) ` set conns)"
      by (intro card_mono) auto
    also have "\<dots> \<le> length conns" using card_image_le [of "set conns"] card_length [of conns] le_trans by blast
    finally have "card {..40 :: nat} \<le> 40" using card_image [OF next_port_pow_inj [OF assms(2)]] assms(1) by simp
    then show False by simp
  qed
  then show ?thesis using that by blast
qed

lemma unused_port_ends:
  assumes "\<not> port_in_use conns ((next_port ^^ j) (next_port p))"
  shows "\<exists>q. unused_port conns p = Some q \<and> \<not> port_in_use conns q \<and> unat q < 32000"
  using assms
proof (induction j arbitrary: p)
  case 0
  then show ?case by (subst unused_port.simps) (simp add: Let_def unat_next_port)
next
  case (Suc j)
  show ?case
  proof (cases "port_in_use conns (next_port p)")
    case True
    have "\<not> port_in_use conns ((next_port ^^ j) (next_port (next_port p)))" using Suc.prems by (simp add: funpow_swap1)
    from Suc.IH [OF this] True show ?thesis by (subst unused_port.simps) (simp add: Let_def)
  qed (subst unused_port.simps, simp add: Let_def unat_next_port)
qed

lemma port_not_used:
  assumes "\<not> port_in_use conns p" "j < length conns" "tcpstateflags (conns ! j) \<noteq> UIP_CLOSED"
  shows "lport (conns ! j) \<noteq> be16 (lo8 p) (hi8 p)"
  using assms htons_be16 [of "hi8 p" "lo8 p"] by (auto simp: port_in_use_def list_ex_length be16_bytes)

text \<open>
  C37. uip_connect always returns: among 41 ports one is not in use by the 40 connections. The
  port is below 32000, its bytes in network order are the local port of no connection that is
  not closed, and unless all connections are open and none is in TIME_WAIT, a connection in SYN_SENT
  to the given address and port is set up on it; no other connection changes.
\<close>

theorem uip_connect_returns:
  assumes "length (uip_conns s) = 40"
  shows "\<exists>r s'. uip_connect addr port s = Inr (r, s') \<and> unat (lastport s') < 32000 \<and>
    (\<forall>j < 40. tcpstateflags (conn_at j s) \<noteq> UIP_CLOSED \<longrightarrow> lport (conn_at j s) \<noteq> be16 (lo8 (lastport s')) (hi8 (lastport s'))) \<and>
    (case r of
       None \<Rightarrow> \<forall>i < 40. tcpstateflags (conn_at i s) \<noteq> UIP_CLOSED \<and> tcpstateflags (conn_at i s) \<noteq> UIP_TIME_WAIT
     | Some i \<Rightarrow> i < 40 \<and> (tcpstateflags (conn_at i s) = UIP_CLOSED \<or> tcpstateflags (conn_at i s) = UIP_TIME_WAIT) \<and>
         tcpstateflags (conn_at i s') = UIP_SYN_SENT \<and> lport (conn_at i s') = be16 (lo8 (lastport s')) (hi8 (lastport s')) \<and>
         rport (conn_at i s') = port \<and> ripaddr (conn_at i s') = addr \<and> (\<forall>j. j \<noteq> i \<longrightarrow> conn_at j s' = conn_at j s))"
proof -
  have "unat (next_port (lastport s)) < 32000" by (simp add: unat_next_port)
  then obtain j where "\<not> port_in_use (uip_conns s) ((next_port ^^ j) (next_port (lastport s)))"
    using free_port_exists [OF assms] by blast
  then obtain p where p: "unused_port (uip_conns s) (lastport s) = Some p" "\<not> port_in_use (uip_conns s) p" "unat p < 32000"
    using unused_port_ends by blast
  have hp: "htons p = be16 (lo8 p) (hi8 p)" using htons_be16 [of "hi8 p" "lo8 p"] by (simp add: be16_bytes)
  have free: "\<forall>j < 40. tcpstateflags (conn_at j s) \<noteq> UIP_CLOSED \<longrightarrow> lport (conn_at j s) \<noteq> be16 (lo8 p) (hi8 p)"
    using port_not_used [OF p(2)] assms by (simp add: conn_at_def)
  show ?thesis
  proof (cases "find_unused (uip_conns s) [0..<UIP_CONNS] None")
    case None
    then have "\<forall>i < 40. tcpstateflags (conn_at i s) \<noteq> UIP_CLOSED \<and> tcpstateflags (conn_at i s) \<noteq> UIP_TIME_WAIT"
      unfolding find_unused_None by (simp add: conn_at_def uip_consts)
    with None p free show ?thesis by (simp add: uip_connect_def)
  next
    case (Some i)
    have i: "i < 40 \<and> (tcpstateflags (conn_at i s) = UIP_CLOSED \<or> tcpstateflags (conn_at i s) = UIP_TIME_WAIT)"
      using find_unused_Some [OF Some, of "\<lambda>i. i < 40"] by (simp add: conn_at_def uip_consts)
    have c: "conn_at j (s\<lparr>lastport := p\<rparr>) = conn_at j s" for j by (simp add: conn_at_def)
    show ?thesis using i p(1,3) free Some assms c hp by (simp add: uip_connect_def Let_def) (simp add: upd_conn_def)
  qed
qed

theorem uip_connect_returns_witness:
  "\<exists>s'. uip_connect (0xa8c0, 0x0100) 0x5000 (host_with []) = Inr (Some 0, s') \<and> tcpstateflags (conn_at 0 s') = UIP_SYN_SENT"
proof -
  have u: "find_unused (uip_conns (host_with [])) [0..<UIP_CONNS] None = Some 0"
    by (simp add: uip_consts upt_rec idle_conn_def)
  have "length (uip_conns (host_with [])) = 40" by simp
  from uip_connect_returns [OF this, where addr = "(0xa8c0, 0x0100)" and port = "0x5000"]
  obtain r s' where r: "uip_connect (0xa8c0, 0x0100) 0x5000 (host_with []) = Inr (r, s')"
    "r = Some 0 \<longrightarrow> tcpstateflags (conn_at 0 s') = UIP_SYN_SENT" by (auto split: option.splits)
  moreover have "r = Some 0" using r(1) u by (auto simp: uip_connect_def Let_def split: option.splits)
  ultimately show ?thesis by blast
qed

section \<open>Data in sequence\<close>

text \<open>The part of a connection that sending a segment does not change.\<close>

lemma sending_conns:
  "ip_send_nolen s = Inr s' \<Longrightarrow> uip_conns s' = uip_conns s"
  "tcp_send_noconn s = Inr s' \<Longrightarrow> uip_conns s' = uip_conns s"
  "tcp_send i s = Inr s' \<Longrightarrow> uip_conns s' = uip_conns s"
proof -
  show *: "ip_send_nolen s = Inr s' \<Longrightarrow> uip_conns s' = uip_conns s" for s s' :: "'a uip"
    by (auto simp: ip_send_nolen_def Let_def rbind_Inr_iff send_def)
  show **: "tcp_send_noconn s = Inr s' \<Longrightarrow> uip_conns s' = uip_conns s" for s s' :: "'a uip"
    by (auto simp: tcp_send_noconn_def Let_def rbind_Inr_iff dest!: *)
  show "tcp_send i s = Inr s' \<Longrightarrow> uip_conns s' = uip_conns s"
    by (drule ** [of _ s', OF trans [OF tcp_send_def [unfolded Let_def, symmetric]]]) simp
qed

lemma sending_labels:
  "tcp_send_noopts i s = Inr s' \<Longrightarrow> uip_conns s' = uip_conns s" "tcp_send_nodata i s = Inr s' \<Longrightarrow> uip_conns s' = uip_conns s"
  by (auto simp: tcp_send_noopts_def tcp_send_nodata_def dest!: sending_conns(3))

lemma appsend_rcv_nxt:
  assumes "appsend i s = Inr s'" "i < length (uip_conns s)"
  shows "rcv_nxt (conn_at i s') = rcv_nxt (conn_at i s)"
proof -
  have c: "rcv_nxt (conn_at i (clip_send i s)) = rcv_nxt (conn_at i s)" "length (uip_conns (clip_send i s)) = length (uip_conns s)"
    using assms(2) by (simp_all add: clip_send_def Let_def)
  have r: "uip_conns s2 = uip_conns s1" if "apprexmit i s1 = Inr s2" for s1 s2
    using that by (auto simp: apprexmit_def Let_def uip_drop_def split: if_splits dest!: sending_labels(1))
  show ?thesis
    using assms c by (auto simp: appsend_def conn_at_def split: if_splits dest!: sending_labels(2) r)
qed

text \<open>The number of bytes of data in a segment.\<close>

definition payload :: "'a uip \<Rightarrow> m_uint16" where
  "payload s = uip_len s - ucast (push_bit 2 (drop_bit 4 (get8 TCPOFFSET s))) - of_nat UIP_IPH_LEN"

definition plain_data :: "nat \<Rightarrow> 'a uip \<Rightarrow> bool" where
  "plain_data i s \<longleftrightarrow> tcpstateflags (conn_at i s) = UIP_ESTABLISHED \<and> payload s > 0 \<and> get8 FLAGS s AND TCP_RST = 0 \<and>
     get8 FLAGS s AND TCP_FIN = 0 \<and> get8 FLAGS s AND TCP_URG = 0"

lemma acknowledge_rcv_nxt:
  assumes "i < length (uip_conns s)"
  shows "rcv_nxt (conn_at i (acknowledge i s)) = rcv_nxt (conn_at i s)" "uip_len (acknowledge i s) = uip_len s"
    "tcpstateflags (conn_at i (acknowledge i s)) = tcpstateflags (conn_at i s)"
  using assms by (auto simp: acknowledge_def Let_def rtt_estimate_def)

lemma flag_set: "(f OR m) AND m = (m :: m_uint8)" "(f OR m) AND (m OR k) = 0 \<Longrightarrow> m = 0" for f :: m_uint8
proof -
  show a: "(f OR m) AND m = m" by (rule bit_word_eqI) (auto simp: bit_simps)
  assume z: "(f OR m) AND (m OR k) = 0"
  have "m = ((f OR m) AND (m OR k)) AND m" by (rule bit_word_eqI) (auto simp: bit_simps)
  with z show "m = 0" by simp
qed

text \<open>The state in which the application is called for new data in sequence.\<close>

definition deliver :: "nat \<Rightarrow> 'a uip \<Rightarrow> 'a uip" where
  "deliver i s = (let a = acknowledge i (set_len (payload s) (set_flags 0 (s\<lparr>cur_conn := Some i\<rparr>)))
     in set_slen 0 (window_mss i (uip_add_rcv_nxt i (uip_len a) (set_flags (uip_flags a OR UIP_NEWDATA) a))))"

lemma found_in_sequence:
  assumes "conn_ok (conn_at i s)" "i < length (uip_conns s)" "plain_data i s" "get_seq SEQNO s = rcv_nxt (conn_at i s)"
  shows "found app i s = rbind (app (deliver i s)) (appsend i)"
proof -
  define s1 where "s1 = set_flags 0 (s\<lparr>cur_conn := Some i\<rparr>)"
  define s2 where "s2 = set_len (payload s) s1"
  define a where "a = acknowledge i s2"
  have g: "get8 p s1 = get8 p s" "get8 p s2 = get8 p s" "conn_at j s1 = conn_at j s" "conn_at j s2 = conn_at j s" for p j
    by (simp_all add: s1_def s2_def conn_at_def)
  have ab: "get8 p a = get8 p s" for p
    unfolding a_def acknowledge_def Let_def by (simp add: g)
  have st: "tcpstateflags (conn_at i a) = UIP_ESTABLISHED"
    using acknowledge_rcv_nxt(3) [of i s2] assms(2,3) by (simp add: a_def g plain_data_def) (simp add: s2_def s1_def)
  have len: "uip_len a = payload s" "uip_len s1 = uip_len s" using acknowledge_rcv_nxt(2) [of i s2] assms(2)
    by (simp_all add: a_def s2_def s1_def)
  have e: "set_len (uip_len s1 - ucast (push_bit 2 (drop_bit 4 (get8 TCPOFFSET s1))) - of_nat UIP_IPH_LEN) s1 = s2"
    by (simp add: s2_def payload_def g len)
  have p: "payload s > 0" "get8 FLAGS s AND TCP_RST = 0" "get8 FLAGS s AND TCP_FIN = 0" "get8 FLAGS s AND TCP_URG = 0"
    using assms(3) by (simp_all add: plain_data_def)
  have seq: "get_seq SEQNO s2 = rcv_nxt (conn_at i s2)" using assms(4) by (simp add: g get_seq_def)
  have f: "found app i s = state_switch app i a"
    unfolding found_def Let_def s1_def [symmetric] e using p(2) seq by (simp add: g a_def)
  have m: "UIP_ESTABLISHED AND UIP_TS_MASK = UIP_ESTABLISHED" "UIP_ESTABLISHED AND UIP_STOPPED = 0" by (simp_all add: uip_consts)
  have ne: "UIP_ESTABLISHED \<noteq> UIP_SYN_RCVD" "UIP_ESTABLISHED \<noteq> UIP_SYN_SENT" by (simp_all add: uip_consts)
  have sw: "state_switch app i a = in_established app i a" using ne by (simp add: state_switch_def st m)
  have u: "urgent a = a" using p(4) by (simp add: urgent_def ab)
  let ?w = "window_mss i (uip_add_rcv_nxt i (uip_len a) (set_flags (uip_flags a OR UIP_NEWDATA) a))"
  have "uip_flags ?w = uip_flags a OR UIP_NEWDATA" by (simp add: window_mss_def Let_def)
  then have fl: "uip_flags ?w AND (UIP_NEWDATA OR UIP_ACKDATA) \<noteq> 0"
    using flag_set(2) [of "uip_flags a" UIP_NEWDATA UIP_ACKDATA] by (auto simp: UIP_NEWDATA_def)
  have d: "deliver i s = set_slen 0 ?w" by (simp add: deliver_def Let_def a_def s2_def s1_def)
  have "in_established app i a = rbind (app (set_slen 0 ?w)) (appsend i)"
    unfolding in_established_def Let_def u using p(1,3) fl by (simp add: ab st m len)
  with f sw d show ?thesis by simp
qed

lemma upd_conn_appdata: "uip_appdata (upd_conn i f s) = uip_appdata s" "uip_appdata (set_flags w s) = uip_appdata s"
  "uip_appdata (set_len v s) = uip_appdata s" "uip_appdata (set_slen v s) = uip_appdata s"
  by (simp_all add: upd_conn_def set_flags_def set_len_def set_slen_def)

lemma deliver_facts:
  assumes "i < length (uip_conns s)"
  shows "rcv_nxt (conn_at i (deliver i s)) = uip_add32 (rcv_nxt (conn_at i s)) (payload s)" "uip_len (deliver i s) = payload s"
    "uip_buf (deliver i s) = uip_buf s" "uip_flags (deliver i s) AND UIP_NEWDATA \<noteq> 0"
    "uip_appdata (deliver i s) = uip_appdata s" "cur_conn (deliver i s) = Some i" "j \<noteq> i \<Longrightarrow> conn_at j (deliver i s) = conn_at j s"
proof -
  define s1 where "s1 = set_len (payload s) (set_flags 0 (s\<lparr>cur_conn := Some i\<rparr>))"
  have l: "i < length (uip_conns s1)" "conn_at i s1 = conn_at i s" "uip_len s1 = payload s" "uip_buf s1 = uip_buf s"
    using assms by (simp_all add: s1_def conn_at_def)
  have la: "length (uip_conns (acknowledge i s1)) = length (uip_conns s1)" "uip_buf (acknowledge i s1) = uip_buf s1"
    by (simp_all add: acknowledge_def Let_def)
  note ak = acknowledge_rcv_nxt [OF l(1)]
  have d: "deliver i s = set_slen 0 (window_mss i (uip_add_rcv_nxt i (payload s) (set_flags (uip_flags (acknowledge i s1) OR UIP_NEWDATA) (acknowledge i s1))))"
    using ak(2) l(3) by (simp add: deliver_def Let_def s1_def [symmetric])
  show "rcv_nxt (conn_at i (deliver i s)) = uip_add32 (rcv_nxt (conn_at i s)) (payload s)" "uip_len (deliver i s) = payload s"
    "uip_buf (deliver i s) = uip_buf s"
    using l la ak by (simp_all add: d window_mss_def Let_def uip_add_rcv_nxt_def)
  show "uip_flags (deliver i s) AND UIP_NEWDATA \<noteq> 0"
    by (simp add: d window_mss_def Let_def flag_set(1)) (simp add: UIP_NEWDATA_def)
  have fr: "uip_appdata (acknowledge i s1) = uip_appdata s1" "cur_conn (acknowledge i s1) = cur_conn s1"
    "j \<noteq> i \<Longrightarrow> conn_at j (acknowledge i s1) = conn_at j s1" by (simp_all add: acknowledge_def Let_def upd_conn_appdata)
  then show "uip_appdata (deliver i s) = uip_appdata s" "cur_conn (deliver i s) = Some i"
    by (simp_all add: d window_mss_def Let_def uip_add_rcv_nxt_def s1_def upd_conn_appdata)
  show "conn_at j (deliver i s) = conn_at j s" if "j \<noteq> i"
    using fr(3) [OF that] that by (simp add: d window_mss_def Let_def uip_add_rcv_nxt_def s1_def) (simp add: conn_at_def)
qed

lemma app_frame_rcv_nxt: "app_frame i s s' \<Longrightarrow> i < length (uip_conns s) \<Longrightarrow> rcv_nxt (conn_at i s') = rcv_nxt (conn_at i s)"
  by (auto simp: app_frame_def conn_at_def upd_conn_def)

lemma ack_ok:
  assumes "length (uip_buf s) = 422"
  shows "\<exists>s'. tcp_send_ack i s = Inr s' \<and> valid_packet s' \<and> uip_conns s' = uip_conns s \<and> segment_of (conn_at i s) (uip_hostaddr s) TCP_ACK s'"
proof -
  define a where "a = put8 TCPOFFSET (push_bit 4 (of_nat (UIP_TCPH_LEN div 4))) (set_len (of_nat UIP_IPTCPH_LEN) (put8 FLAGS TCP_ACK s))"
  have "tcp_send_ack i s = tcp_send i a" by (simp add: tcp_send_ack_def tcp_send_nodata_def tcp_send_noopts_def a_def)
  moreover have "length (uip_buf a) = 422" "uip_len a = 40" "get8 FLAGS a = TCP_ACK" "conn_at i a = conn_at i s" "uip_hostaddr a = uip_hostaddr s"
    "uip_conns a = uip_conns s"
    using assms by (simp_all add: a_def uip_consts)
  ultimately show ?thesis using tcp_send_ok [of a i] by (auto simp: sent_def same_conns_def)
qed

text \<open>
  The data of a segment as the formats of IP and TCP define it: it begins behind the IP header and a
  TCP header of the length in its offset field, and ends with the packet.
\<close>

definition segment_data :: "'a uip \<Rightarrow> m_uint8 list" where
  "segment_data s = drop (34 + 4 * unat (drop_bit 4 (get8 TCPOFFSET s))) (take (14 + unat (uip_len s)) (uip_buf s))"

text \<open>What the application reads: \<^verbatim>\<open>uip_datalen()\<close> bytes from \<^verbatim>\<open>uip_appdata\<close> on.\<close>

definition app_data :: "'a uip \<Rightarrow> m_uint8 list" where
  "app_data s = take (unat (uip_len s)) (drop (uip_appdata s) (uip_buf s))"

lemma app_data_deliver:
  assumes "i < length (uip_conns s)" "uip_appdata s = 54" "drop_bit 4 (get8 TCPOFFSET s) = 5" "40 \<le> unat (uip_len s)"
  shows "app_data (deliver i s) = segment_data s"
proof -
  have "payload s = uip_len s - 40" unfolding payload_def assms(3) by (simp add: UIP_IPH_LEN_def)
  then have "unat (payload s) = unat (uip_len s) - 40" using assms(4) by (simp add: unat_sub word_le_nat_alt)
  then show ?thesis using deliver_facts [OF assms(1)] assms(2-4) by (simp add: app_data_def segment_data_def drop_take)
qed

text \<open>
  C27. A segment with data for an established connection, in the state that uip_process passes on
  (the data pointer behind a TCP header of 20 bytes). If its sequence number is the expected one, the
  application is called once, for this connection, with the packet in the buffer, \<^verbatim>\<open>uip_appdata\<close> at
  the byte behind a header without options and the data flagged as new; the expected number has
  advanced by the length and no other connection has changed. If the segment has no TCP options, what
  the application reads there is exactly the data of the segment. Otherwise the application is not
  called, no connection changes, and a valid acknowledgement of the expected number is sent.
\<close>

theorem data_in_sequence:
  assumes app: "uip_application app ainv" and inv: "uip_inv ainv s" "i < 40" "uip_sappdata s = 54" "uip_appdata s = 54"
    and d: "plain_data i s"
  shows "if get_seq SEQNO s = rcv_nxt (conn_at i s)
    then \<exists>t s'. found app i s = rbind (app t) (appsend i) \<and> found app i s = Inr s' \<and>
      cur_conn t = Some i \<and> uip_buf t = uip_buf s \<and> uip_appdata t = 54 \<and> uip_len t = payload s \<and>
      (drop_bit 4 (get8 TCPOFFSET s) = 5 \<and> 40 \<le> unat (uip_len s) \<longrightarrow> app_data t = segment_data s) \<and>
      uip_flags t AND UIP_NEWDATA \<noteq> 0 \<and> (\<forall>j. j \<noteq> i \<longrightarrow> conn_at j t = conn_at j s) \<and>
      seq_val (rcv_nxt (conn_at i t)) = seq_val (rcv_nxt (conn_at i s)) + ucast (payload s) \<and>
      seq_val (rcv_nxt (conn_at i s')) = seq_val (rcv_nxt (conn_at i s)) + ucast (payload s)
    else \<exists>s'. (\<forall>app'. found app' i s = Inr s') \<and> uip_conns s' = uip_conns s \<and> valid_packet s' \<and>
      segment_of (conn_at i s) (uip_hostaddr s) TCP_ACK s'"
proof -
  have i: "i < length (uip_conns s)" "conn_ok (conn_at i s)" using uip_invD [OF inv(1)] inv(2) by auto
  show ?thesis
  proof (cases "get_seq SEQNO s = rcv_nxt (conn_at i s)")
    case True
    note f = found_in_sequence [OF i(2,1) d True, of app] and df = deliver_facts [OF i(1)]
    have st: "tcpstateflags (conn_at i s) = UIP_ESTABLISHED" using d by (simp add: plain_data_def)
    have r: "ready ainv i (set_len (payload s) (set_flags 0 (s\<lparr>cur_conn := Some i\<rparr>)))" using inv by (simp add: ready_def)
    note a = acknowledge_ok [OF r]
    let ?a = "acknowledge i (set_len (payload s) (set_flags 0 (s\<lparr>cur_conn := Some i\<rparr>)))"
    let ?b = "uip_add_rcv_nxt i (uip_len ?a) (set_flags (uip_flags ?a OR UIP_NEWDATA) ?a)"
    have rb: "ready ainv i ?b" using a by simp
    let ?w = "be16 (get8 WND ?b) (get8 (WND + 1) ?b)"
    let ?m = "if ?w > initialmss (conn_at i ?b) \<or> ?w = 0 then initialmss (conn_at i ?b) else ?w"
    have "unat ?m \<le> 366" using readyD(4) [OF rb] by (auto simp: conn_ok_def word_less_nat_alt not_less)
    then have "ready ainv i (window_mss i ?b)"
      unfolding window_mss_def Let_def using readyD(4) [OF rb] by (intro ready_upd_conn [OF rb]) (auto simp: conn_ok_def)
    then have rd: "ready ainv i (deliver i s)" by (simp add: deliver_def Let_def)
    have sd: "tcpstateflags (conn_at i (deliver i s)) = UIP_ESTABLISHED"
    proof -
      have "tcpstateflags (conn_at i ?b) = UIP_ESTABLISHED"
        using a st readyD(3) [OF conjunct1 [OF a]] by (simp add: uip_add_rcv_nxt_def) (simp add: conn_at_def)
      then show ?thesis using readyD(3) [OF rb] by (simp add: deliver_def Let_def window_mss_def)
    qed
    obtain sa where sa: "app (deliver i s) = Inr sa" "ready ainv i sa" "app_frame i (deliver i s) sa"
      "tcpstateflags (conn_at i sa) = UIP_ESTABLISHED"
      using uip_application.app_step [OF app rd] sd by metis
    obtain s' where s': "appsend i sa = Inr s'" using result_appsend [OF sa(2,4)] by (auto simp: result_ok_def)
    have "rcv_nxt (conn_at i s') = uip_add32 (rcv_nxt (conn_at i s)) (payload s)"
      using appsend_rcv_nxt [OF s' readyD(3) [OF sa(2)]] app_frame_rcv_nxt [OF sa(3) readyD(3) [OF rd]] df(1) by simp
    then have seq: "seq_val (rcv_nxt (conn_at i s')) = seq_val (rcv_nxt (conn_at i s)) + ucast (payload s)"
      "seq_val (rcv_nxt (conn_at i (deliver i s))) = seq_val (rcv_nxt (conn_at i s)) + ucast (payload s)"
      using df(1) by (simp_all add: uip_add32_val)
    have r': "found app i s = Inr s'" using f sa(1) s' by simp
    have ad: "uip_appdata (deliver i s) = 54" using df(5) inv(4) by simp
    have data: "drop_bit 4 (get8 TCPOFFSET s) = 5 \<and> 40 \<le> unat (uip_len s) \<longrightarrow> app_data (deliver i s) = segment_data s"
      using app_data_deliver [OF i(1) inv(4)] by blast
    have fr: "\<forall>j. j \<noteq> i \<longrightarrow> conn_at j (deliver i s) = conn_at j s" using df(7) by blast
    from True show ?thesis
      unfolding if_P [OF True]
      by (intro exI [of _ "deliver i s"] exI [of _ s'] conjI f r' df(2,3,4,6) ad data fr seq)
  next
    case False
    let ?s = "set_len (payload s) (set_flags 0 (s\<lparr>cur_conn := Some i\<rparr>))"
    have c: "conn_at i (s\<lparr>cur_conn := Some i\<rparr>) = conn_at i s" by (simp add: conn_at_def)
    have g: "get_seq SEQNO ?s = get_seq SEQNO s" by (simp add: get_seq_def)
    have m: "UIP_ESTABLISHED AND UIP_TS_MASK \<noteq> UIP_SYN_SENT" by (simp add: uip_consts)
    have "found app' i s = tcp_send_ack i ?s" for app'
      using d False m by (simp add: found_def Let_def plain_data_def payload_def c) (simp add: get_seq_def)
    moreover obtain s' where "tcp_send_ack i ?s = Inr s'" "valid_packet s'" "uip_conns s' = uip_conns s"
      "segment_of (conn_at i s) (uip_hostaddr s) TCP_ACK s'"
      using ack_ok [of ?s i] uip_invD(1) [OF inv(1)] by (auto simp: c)
    ultimately show ?thesis using False by auto
  qed
qed

text \<open>An established connection that expects byte 2, and a segment with the one byte 0x47 at that number.\<close>

definition open_conn :: "http_state uip_conn" where
  "open_conn = idle_conn\<lparr>ripaddr := (0xa8c0, 0x0100), lport := 0x5000, rport := 4, rcv_nxt := (0, 0, 0, 2), mss := 100,
     initialmss := 100, tcpstateflags := UIP_ESTABLISHED\<rparr>"

definition data_packet :: "m_uint8 list" where
  "data_packet = [0x45, 0, 0, 41, 0, 1, 0, 0, 64, 6, 0, 0, 192, 168, 0, 1, 192, 168, 0, 2,
     4, 0, 0, 80, 0, 0, 0, 2, 0, 0, 0, 0, 0x50, 0x10, 2, 0, 0, 0, 0, 0, 0x47]"

definition busy_host :: "http_state uip" where
  "busy_host = (host_with data_packet)\<lparr>uip_conns := open_conn # replicate 39 idle_conn, uip_appdata := 54\<rparr>"

lemma busy_host_simps [simp]:
  "conn_at 0 busy_host = open_conn" "q < 41 \<Longrightarrow> get8 q busy_host = data_packet ! q" "uip_len busy_host = 41"
  "uip_sappdata busy_host = 54" "uip_appdata busy_host = 54"
proof -
  have l: "length data_packet = 41" by (simp add: data_packet_def)
  then show "uip_len busy_host = 41" "uip_sappdata busy_host = 54" "uip_appdata busy_host = 54" by (simp_all add: busy_host_def)
  show "conn_at 0 busy_host = open_conn" by (simp add: conn_at_def busy_host_def)
  show "get8 q busy_host = data_packet ! q" if "q < 41"
    using that get8_host [of q data_packet] l by (simp add: busy_host_def get8_def)
qed

lemma busy_host_facts: "uip_inv http_inv busy_host" "plain_data 0 busy_host" "get_seq SEQNO busy_host = rcv_nxt (conn_at 0 busy_host)"
proof -
  have l: "length data_packet \<le> 408" by (simp add: data_packet_def)
  have c: "conn_at i busy_host = open_conn \<or> conn_at i busy_host = idle_conn" if "i < 40" for i
    using that by (cases i) (simp_all add: conn_at_def busy_host_def)
  have ok: "conn_ok open_conn" "conn_ok idle_conn" "http_st (appstate open_conn) = 0" "http_st (appstate idle_conn) = 0"
    by (simp_all add: open_conn_def idle_conn_def conn_ok_def uip_consts)
  have n: "length (uip_buf busy_host) = 422" "length (uip_conns busy_host) = 40" "length (uip_listenports busy_host) = 40"
    using l by (simp_all add: busy_host_def)
  have "conn_ok (conn_at i busy_host)" "http_st (appstate (conn_at i busy_host)) = 0" if "i < 40" for i
    using c [OF that] ok by auto
  then show "uip_inv http_inv busy_host"
    using n by (auto simp: uip_inv_def http_inv_def HTTP_STATE_SENDING_def)
  show "plain_data 0 busy_host"
    by (simp add: plain_data_def payload_def uip_consts) (simp add: data_packet_def open_conn_def uip_consts)
  show "get_seq SEQNO busy_host = rcv_nxt (conn_at 0 busy_host)"
    by (simp add: get_seq_def SEQNO_def) (simp add: data_packet_def open_conn_def)
qed

theorem data_in_sequence_witness:
  "\<exists>t s'. found httpd_appcall 0 busy_host = rbind (httpd_appcall t) (appsend 0) \<and> app_data t = [0x47] \<and>
     found httpd_appcall 0 busy_host = Inr s' \<and>
     seq_val (rcv_nxt (conn_at 0 s')) = seq_val (rcv_nxt (conn_at 0 busy_host)) + ucast (payload busy_host)"
proof -
  have l: "length data_packet = 41" "data_packet ! 40 = 0x47" by (simp_all add: data_packet_def)
  have o5: "drop_bit 4 (get8 TCPOFFSET busy_host) = 5" by (simp add: uip_consts) (simp add: data_packet_def)
  have "uip_buf busy_host = replicate 14 0 @ data_packet @ replicate 367 0"
    using l(1) by (simp add: busy_host_def host_with_def)
  then have "segment_data busy_host = drop 40 data_packet" unfolding segment_data_def o5 using l(1) by simp
  also have "\<dots> = [0x47]" by (simp add: data_packet_def)
  finally have sd: "segment_data busy_host = [0x47]" .
  from data_in_sequence [OF httpd.uip_application_axioms busy_host_facts(1) _ _ _ busy_host_facts(2)] busy_host_facts(3) o5 sd
  show ?thesis by auto
qed

section \<open>Packets the hypotheses above exclude\<close>

text \<open>The option loop counts in a byte: an option length that reaches past 255 sends it back.\<close>

lemma mss_loop_cycle:
  assumes "mss_loop buf limit c = Some y"
  shows "\<not> ((\<forall>k < 39. buf ! (54 + k) = TCP_OPT_NOOP) \<and> buf ! 93 = 3 \<and> buf ! 94 = 255 \<and> limit = 40 \<and> unat c < 40)"
proof (rule mss_loop.raw_induct [where P = "\<lambda>buf limit c y. \<not> ((\<forall>k < 39. buf ! (54 + k) = TCP_OPT_NOOP) \<and>
    buf ! 93 = 3 \<and> buf ! 94 = 255 \<and> limit = 40 \<and> unat c < 40)", OF _ assms], goal_cases)
  case (1 ml buf limit c y)
  note ih = 1(1) and run = 1(2)
  show ?case
  proof
    assume cyc: "(\<forall>k < 39. buf ! (54 + k) = TCP_OPT_NOOP) \<and> buf ! 93 = 3 \<and> buf ! 94 = 255 \<and> limit = 40 \<and> unat c < 40"
    then have "unat c = 39 \<or> unat c < 39" by linarith
    then show False
    proof
      assume c: "unat c = 39"
      have "unat (c + 255) = 38" using c by (simp add: unat_word_ariths)
      moreover have "ml buf limit (c + 255) = Some y" using run cyc c by (simp add: Let_def uip_consts)
      ultimately show False using ih cyc by force
    next
      assume c: "unat c < 39"
      have "unat (c + 1) < 40" using c by (simp add: unat_word_ariths)
      moreover have "ml buf limit (c + 1) = Some y" using run cyc c by (simp add: Let_def uip_consts)
      ultimately show False using ih cyc by blast
    qed
  qed
qed

theorem option_loop_diverges:
  assumes "get8 TCPOFFSET s = 0xf0" "\<forall>k < 39. get8 (40 + k) s = TCP_OPT_NOOP" "get8 79 s = 3" "get8 80 s = 255"
  shows "parse_mss i s = Inl Diverges"
proof -
  have "mss_loop (uip_buf s) 40 0 = None"
  proof (cases "mss_loop (uip_buf s) 40 0")
    case (Some y)
    then show ?thesis using assms mss_loop_cycle [OF Some] by (simp add: get8_def UIP_LLH_LEN_def)
  qed simp
  then show ?thesis using assms(1) by (simp add: parse_mss_def)
qed

text \<open>The checksum of a segment reads as far as the IP length says, less 20, modulo 65536.\<close>

theorem short_ip_length_reads_out_of_bounds:
  assumes "length (uip_buf s) = 422" "unat (ip_length s) < 20"
  shows "uip_tcpchksum s = Inl Out_of_bounds"
proof -
  have "unat (ip_length s - 20) = 65536 + unat (ip_length s) - 20" using assms(2) by (simp add: unat_sub_if_size word_size)
  then show ?thesis using assms by (simp add: uip_tcpchksum_def upper_layer_chksum_def Let_def buf_bytes_def uip_consts)
qed

end
