(* ===== verification/Macb.thy ===== *)
theory Macb
  imports Egos_Prelude
begin

text \<open>
  The driver of the Ethernet controller (earth/macb.c). The controller writes received frames into
  a ring of 32 buffers of 128 bytes and marks their descriptors as used; the driver copies a frame
  out and gives its descriptors back. What the controller does is an input here: the values of
  the registers that are read, the descriptor that is polled while a frame is sent, and the
  change of the rings between two looks for a frame. Indices of the rings are natural numbers,
  as they stay below 32. Writes to registers are kept in the order in which they happen.
\<close>

section \<open>Constants\<close>

definition MACB_RX_BUFFER_SIZE :: nat where "MACB_RX_BUFFER_SIZE = 128"
definition MACB_RX_RING_SIZE :: nat where "MACB_RX_RING_SIZE = 32"
definition MACB_TX_RING_SIZE :: nat where "MACB_TX_RING_SIZE = 16"
definition MACB_TX_TIMEOUT :: nat where "MACB_TX_TIMEOUT = 1000"
definition ARCH_DMA_MINALIGN :: m_uint32 where "ARCH_DMA_MINALIGN = 32"
definition DMA_DESC_SIZE :: nat where "DMA_DESC_SIZE = 8"
definition MACB_TX_DMA_DESC_SIZE :: nat where "MACB_TX_DMA_DESC_SIZE = MACB_TX_RING_SIZE * DMA_DESC_SIZE"
definition MACB_RX_DMA_DESC_SIZE :: nat where "MACB_RX_DMA_DESC_SIZE = MACB_RX_RING_SIZE * DMA_DESC_SIZE"
definition RXBUF_FRMLEN_MASK :: m_uint32 where "RXBUF_FRMLEN_MASK = 0xfff"
definition TXBUF_FRMLEN_MASK :: m_uint32 where "TXBUF_FRMLEN_MASK = 0x7ff"
definition MAX_RX_TRIES :: nat where "MAX_RX_TRIES = 10"

definition MACB_BIT :: "nat \<Rightarrow> m_uint32" where "MACB_BIT offset = push_bit offset 1"

definition MACB_BF :: "nat \<Rightarrow> nat \<Rightarrow> m_uint32 \<Rightarrow> m_uint32" where
  "MACB_BF offset width v = push_bit offset (v AND (push_bit width 1 - 1))"

definition MACB_BFEXT :: "nat \<Rightarrow> nat \<Rightarrow> m_uint32 \<Rightarrow> m_uint32" where
  "MACB_BFEXT offset width v = drop_bit offset v AND (push_bit width 1 - 1)"

text \<open>The offsets of registers, and the offsets of bits in registers and descriptors.\<close>

definition MACB_NCR :: nat where "MACB_NCR = 0x0000"
definition MACB_NCFGR :: nat where "MACB_NCFGR = 0x0004"
definition MACB_NSR :: nat where "MACB_NSR = 0x0008"
definition MACB_RBQP :: nat where "MACB_RBQP = 0x0018"
definition MACB_TBQP :: nat where "MACB_TBQP = 0x001c"
definition MACB_MAN :: nat where "MACB_MAN = 0x0034"
definition MACB_SA1B :: nat where "MACB_SA1B = 0x0098"
definition MACB_SA1T :: nat where "MACB_SA1T = 0x009c"
definition MACB_USRIO :: nat where "MACB_USRIO = 0x00c0"

definition RE :: m_uint32 where "RE = MACB_BIT 2"
definition TE :: m_uint32 where "TE = MACB_BIT 3"
definition MPE :: m_uint32 where "MPE = MACB_BIT 4"
definition TSTART :: m_uint32 where "TSTART = MACB_BIT 9"
definition SPD :: m_uint32 where "SPD = MACB_BIT 0"
definition FD :: m_uint32 where "FD = MACB_BIT 1"
definition IDLE :: m_uint32 where "IDLE = MACB_BIT 2"
definition MII :: m_uint32 where "MII = MACB_BIT 0"
definition RX_USED :: m_uint32 where "RX_USED = MACB_BIT 0"
definition RX_WRAP :: m_uint32 where "RX_WRAP = MACB_BIT 1"
definition RX_SOF :: m_uint32 where "RX_SOF = MACB_BIT 14"
definition RX_EOF :: m_uint32 where "RX_EOF = MACB_BIT 15"
definition TX_LAST :: m_uint32 where "TX_LAST = MACB_BIT 15"
definition TX_BUF_EXHAUSTED :: m_uint32 where "TX_BUF_EXHAUSTED = MACB_BIT 27"
definition TX_UNDERRUN :: m_uint32 where "TX_UNDERRUN = MACB_BIT 28"
definition TX_WRAP :: m_uint32 where "TX_WRAP = MACB_BIT 30"
definition TX_USED :: m_uint32 where "TX_USED = MACB_BIT 31"

definition MII_BMSR :: m_uint32 where "MII_BMSR = 1"
definition MII_PHYSID1 :: m_uint32 where "MII_PHYSID1 = 2"
definition MII_ADVERTISE :: m_uint32 where "MII_ADVERTISE = 4"
definition MII_LPA :: m_uint32 where "MII_LPA = 5"
definition BMSR_LSTATUS :: m_uint32 where "BMSR_LSTATUS = 4"
definition ADVERTISE_CSMA :: m_uint32 where "ADVERTISE_CSMA = 0x0001"
definition ADVERTISE_100FULL :: m_uint32 where "ADVERTISE_100FULL = 0x0100"
definition ADVERTISE_100HALF :: m_uint32 where "ADVERTISE_100HALF = 0x0080"
definition ADVERTISE_10FULL :: m_uint32 where "ADVERTISE_10FULL = 0x0040"
definition ADVERTISE_FULL :: m_uint32 where "ADVERTISE_FULL = ADVERTISE_100FULL OR ADVERTISE_10FULL OR ADVERTISE_CSMA"
definition LPA_10HALF :: m_uint32 where "LPA_10HALF = 0x0020"
definition LPA_10FULL :: m_uint32 where "LPA_10FULL = 0x0040"
definition LPA_100HALF :: m_uint32 where "LPA_100HALF = 0x0080"
definition LPA_100FULL :: m_uint32 where "LPA_100FULL = 0x0100"
definition LPA_100BASE4 :: m_uint32 where "LPA_100BASE4 = 0x0200"

section \<open>State\<close>

record macb_dma_desc =
  d_addr :: m_uint32
  d_ctrl :: m_uint32

text \<open>
  \<open>input reg n\<close> is what the \<open>n\<close>-th read of a register gives, \<open>n_reads\<close> counts the reads so far and
  \<open>writes\<close> holds the writes so far.
\<close>

record macb_device =
  rx_tail :: nat
  tx_head :: nat
  next_rx_tail :: nat
  wrapped :: bool
  rx_buffer :: "m_uint8 list"
  rx_ring :: "macb_dma_desc list"
  tx_ring :: "macb_dma_desc list"
  rx_buffer_dma :: "m_uint32 \<times> m_uint32"
  rx_ring_dma :: "m_uint32 \<times> m_uint32"
  tx_ring_dma :: "m_uint32 \<times> m_uint32"
  pclk_rate :: m_uint32
  phy_addr :: m_uint32
  input :: "nat \<Rightarrow> nat \<Rightarrow> m_uint32"
  n_reads :: nat
  writes :: "(nat \<times> m_uint32) list"

definition macb_readl :: "nat \<Rightarrow> macb_device \<Rightarrow> m_uint32 \<times> macb_device" where
  "macb_readl reg m = (input m reg (n_reads m), m\<lparr>n_reads := n_reads m + 1\<rparr>)"

definition macb_writel :: "nat \<Rightarrow> m_uint32 \<Rightarrow> macb_device \<Rightarrow> macb_device" where
  "macb_writel reg v m = m\<lparr>writes := writes m @ [(reg, v)]\<rparr>"

section \<open>Setting up\<close>

definition macb_mdc_clk_div :: "m_uint32 \<Rightarrow> m_uint32" where
  "macb_mdc_clk_div macb_hz =
     (if macb_hz < 20000000 then MACB_BF 10 2 0
      else if macb_hz < 40000000 then MACB_BF 10 2 1
      else if macb_hz < 80000000 then MACB_BF 10 2 2
      else MACB_BF 10 2 3)"

text \<open>The allocator of the C library is not part of the sources: \<open>malloc\<close> gives the address of a block, or 0.\<close>

definition alloc_aligned :: "(m_uint32 \<Rightarrow> m_uint32) \<Rightarrow> m_uint32 \<Rightarrow> (m_uint32 \<times> m_uint32) res" where
  "alloc_aligned malloc sz =
     (let offset = ARCH_DMA_MINALIGN - 1; alloc_start = malloc (sz + offset)
      in if alloc_start = 0 then Inl (Fatal ''Not enough memory'')
         else Inr (alloc_start + offset AND NOT (ARCH_DMA_MINALIGN - 1), alloc_start))"

definition macb_probe :: "(m_uint32 \<Rightarrow> m_uint32) \<Rightarrow> (m_uint32 \<Rightarrow> m_uint32) \<Rightarrow> (m_uint32 \<Rightarrow> m_uint32) \<Rightarrow> macb_device \<Rightarrow> macb_device res" where
  "macb_probe malloc1 malloc2 malloc3 m =
     rbind (alloc_aligned malloc1 (of_nat (MACB_RX_BUFFER_SIZE * MACB_RX_RING_SIZE))) (\<lambda>b.
     rbind (alloc_aligned malloc2 (of_nat MACB_RX_DMA_DESC_SIZE)) (\<lambda>r.
     rbind (alloc_aligned malloc3 (of_nat MACB_TX_DMA_DESC_SIZE)) (\<lambda>t.
     Inr (macb_writel MACB_NCFGR (macb_mdc_clk_div QUANTUM)
       (m\<lparr>pclk_rate := QUANTUM, rx_buffer_dma := b, rx_ring_dma := r, tx_ring_dma := t\<rparr>)))))"

partial_function (option) mdio_wait :: "macb_device \<Rightarrow> macb_device option" where
  "mdio_wait m = (let (netstat, m) = macb_readl MACB_NSR m in if netstat AND IDLE = 0 then mdio_wait m else Some m)"

definition macb_mdio_read :: "m_uint32 \<Rightarrow> m_uint32 \<Rightarrow> macb_device \<Rightarrow> (m_uint16 \<times> macb_device) res" where
  "macb_mdio_read phy_adr reg m =
     (let (netctl, m) = macb_readl MACB_NCR m;
          m = macb_writel MACB_NCR (netctl OR MPE) m;
          frame = MACB_BF 30 2 1 OR MACB_BF 28 2 2 OR MACB_BF 23 5 phy_adr OR MACB_BF 18 5 reg OR MACB_BF 16 2 2;
          m = macb_writel MACB_MAN frame m
      in case mdio_wait m of
           None \<Rightarrow> Inl Diverges
         | Some m \<Rightarrow>
             let (frame, m) = macb_readl MACB_MAN m;
                 (netctl, m) = macb_readl MACB_NCR m;
                 m = macb_writel MACB_NCR (netctl AND NOT MPE) m
             in Inr (ucast (MACB_BFEXT 0 16 frame), m))"

definition mii_nway_result :: "m_uint32 \<Rightarrow> m_uint32" where
  "mii_nway_result negotiated =
     (if negotiated AND LPA_100FULL \<noteq> 0 then LPA_100FULL
      else if negotiated AND LPA_100BASE4 \<noteq> 0 then LPA_100BASE4
      else if negotiated AND LPA_100HALF \<noteq> 0 then LPA_100HALF
      else if negotiated AND LPA_10FULL \<noteq> 0 then LPA_10FULL
      else LPA_10HALF)"

definition macb_phy_init :: "macb_device \<Rightarrow> macb_device res" where
  "macb_phy_init m =
     (let m = m\<lparr>phy_addr := 0\<rparr>
      in rbind (macb_mdio_read (phy_addr m) MII_PHYSID1 m) (\<lambda>(phy_id, m).
         if phy_id = 0xffff then Inl (Fatal ''No PHY present'')
         else rbind (macb_mdio_read (phy_addr m) MII_BMSR m) (\<lambda>(status, m).
         if ucast status AND BMSR_LSTATUS = 0 then Inl (Fatal ''Link down'')
         else rbind (macb_mdio_read (phy_addr m) MII_ADVERTISE m) (\<lambda>(adv, m).
              rbind (macb_mdio_read (phy_addr m) MII_LPA m) (\<lambda>(lpa, m).
              let media = mii_nway_result (ucast (lpa AND adv));
                  speed = media AND (ADVERTISE_100FULL OR ADVERTISE_100HALF) \<noteq> 0;
                  duplex = media AND ADVERTISE_FULL \<noteq> 0;
                  (ncfgr, m) = macb_readl MACB_NCFGR m;
                  ncfgr = ncfgr AND NOT (SPD OR FD);
                  ncfgr = (if speed then ncfgr OR SPD else ncfgr);
                  ncfgr = (if duplex then ncfgr OR FD else ncfgr)
              in Inr (macb_writel MACB_NCFGR ncfgr m))))))"

fun start_rx :: "nat list \<Rightarrow> m_uint32 \<Rightarrow> macb_dma_desc list \<Rightarrow> macb_dma_desc list" where
  "start_rx [] paddr ring = ring" |
  "start_rx (i # is) paddr ring =
     (let paddr = (if i = MACB_RX_RING_SIZE - 1 then paddr OR RX_WRAP else paddr)
      in start_rx is (paddr + of_nat MACB_RX_BUFFER_SIZE) (ring[i := \<lparr>d_addr = paddr, d_ctrl = 0\<rparr>]))"

fun start_tx :: "nat list \<Rightarrow> macb_dma_desc list \<Rightarrow> macb_dma_desc list" where
  "start_tx [] ring = ring" |
  "start_tx (i # is) ring =
     start_tx is (ring[i := \<lparr>d_addr = 0, d_ctrl = (if i = MACB_TX_RING_SIZE - 1 then TX_USED OR TX_WRAP else TX_USED)\<rparr>])"

definition macb_start :: "macb_device \<Rightarrow> macb_device res" where
  "macb_start m =
     (let m = m\<lparr>rx_ring := start_rx [0..<MACB_RX_RING_SIZE] (fst (rx_buffer_dma m)) (rx_ring m),
                tx_ring := start_tx [0..<MACB_TX_RING_SIZE] (tx_ring m), rx_tail := 0, tx_head := 0, next_rx_tail := 0\<rparr>;
          m = macb_writel MACB_RBQP (fst (rx_ring_dma m)) m;
          m = macb_writel MACB_TBQP (fst (tx_ring_dma m)) m;
          m = macb_writel MACB_USRIO MII m
      in rbind (macb_phy_init m) (\<lambda>m. Inr (macb_writel MACB_NCR (TE OR RE) m)))"

definition macb_write_hwaddr :: "macb_device \<Rightarrow> macb_device" where
  "macb_write_hwaddr m = macb_writel MACB_SA1T 0x0100 (macb_writel MACB_SA1B 0x00005452 m)"

definition macb_init :: "bool \<Rightarrow> (m_uint32 \<Rightarrow> m_uint32) \<Rightarrow> (m_uint32 \<Rightarrow> m_uint32) \<Rightarrow> (m_uint32 \<Rightarrow> m_uint32) \<Rightarrow> macb_device \<Rightarrow> macb_device res" where
  "macb_init neton malloc1 malloc2 malloc3 m =
     (if neton then rbind (macb_probe malloc1 malloc2 malloc3 m) (\<lambda>m. macb_start (macb_write_hwaddr m)) else Inr m)"

section \<open>Sending\<close>

text \<open>\<open>poll i\<close> is the control word of the descriptor when the loop looks at it for the \<open>i\<close>-th time.\<close>

function send_wait :: "(nat \<Rightarrow> m_uint32) \<Rightarrow> nat \<Rightarrow> m_uint32 \<Rightarrow> nat \<times> m_uint32" where
  "send_wait poll i ctrl =
     (if i \<le> MACB_TX_TIMEOUT
      then if poll i AND TX_USED \<noteq> 0 then (i, poll i) else send_wait poll (i + 1) (poll i)
      else (i, ctrl))"
  by auto
termination by (relation "measure (\<lambda>(poll, i, ctrl). MACB_TX_TIMEOUT + 1 - i)") auto

definition macb_send :: "(nat \<Rightarrow> m_uint32) \<Rightarrow> m_uint32 \<Rightarrow> m_uint32 \<Rightarrow> macb_device \<Rightarrow> string list \<times> macb_device" where
  "macb_send poll len packet m =
     (let head = tx_head m;
          ctrl = len AND TXBUF_FRMLEN_MASK OR TX_LAST;
          (ctrl, m) = (if head = MACB_TX_RING_SIZE - 1 then (ctrl OR TX_WRAP, m\<lparr>tx_head := 0\<rparr>)
                       else (ctrl, m\<lparr>tx_head := head + 1\<rparr>));
          m = m\<lparr>tx_ring := (tx_ring m)[head := \<lparr>d_addr = packet, d_ctrl = ctrl\<rparr>]\<rparr>;
          m = macb_writel MACB_NCR (TE OR RE OR TSTART) m;
          (i, ctrl) = send_wait poll 0 ctrl;
          m = m\<lparr>tx_ring := (tx_ring m)[head := (tx_ring m ! head)\<lparr>d_ctrl := ctrl\<rparr>]\<rparr>
      in (if i \<le> MACB_TX_TIMEOUT
          then (if ctrl AND TX_UNDERRUN \<noteq> 0 then [''TX underrun''] else []) @
               (if ctrl AND TX_BUF_EXHAUSTED \<noteq> 0 then [''TX buffers exhausted in mid frame''] else [])
          else [''TX timeout''], m))"

section \<open>Receiving\<close>

definition reclaim_rx_buffer :: "nat \<Rightarrow> macb_dma_desc list \<Rightarrow> macb_dma_desc list" where
  "reclaim_rx_buffer idx ring = ring[idx := (ring ! idx)\<lparr>d_addr := d_addr (ring ! idx) AND NOT RX_USED\<rparr>]"

function reclaim_to_end :: "nat \<Rightarrow> nat \<Rightarrow> macb_dma_desc list \<Rightarrow> nat \<times> macb_dma_desc list" where
  "reclaim_to_end i new_tail ring =
     (if i > new_tail
      then reclaim_to_end (if i + 1 \<ge> MACB_RX_RING_SIZE then 0 else i + 1) new_tail (reclaim_rx_buffer i ring)
      else (i, ring))"
  by auto
termination
  by (relation "measure (\<lambda>(i, new_tail, ring). if i > new_tail then MACB_RX_RING_SIZE + 1 - i + (if i \<ge> MACB_RX_RING_SIZE then 1 else 0) else 0)")
    (auto simp: MACB_RX_RING_SIZE_def)

function reclaim_up :: "nat \<Rightarrow> nat \<Rightarrow> macb_dma_desc list \<Rightarrow> macb_dma_desc list" where
  "reclaim_up i new_tail ring = (if i < new_tail then reclaim_up (i + 1) new_tail (reclaim_rx_buffer i ring) else ring)"
  by auto
termination by (relation "measure (\<lambda>(i, new_tail, ring). new_tail - i)") auto

declare send_wait.simps [simp del] reclaim_to_end.simps [simp del] reclaim_up.simps [simp del]

definition reclaim_rx_buffers :: "nat \<Rightarrow> macb_device \<Rightarrow> macb_device" where
  "reclaim_rx_buffers new_tail m =
     (let (i, ring) = reclaim_to_end (rx_tail m) new_tail (rx_ring m)
      in m\<lparr>rx_ring := reclaim_up i new_tail ring, rx_tail := new_tail\<rparr>)"

text \<open>The bytes of a frame of the given length that starts in the buffer at the tail.\<close>

definition copy_frame :: "nat \<Rightarrow> macb_device \<Rightarrow> m_uint8 list res" where
  "copy_frame len m =
     (let start = MACB_RX_BUFFER_SIZE * rx_tail m
      in if wrapped m
         then let headlen = MACB_RX_BUFFER_SIZE * (MACB_RX_RING_SIZE - rx_tail m)
              in if len < headlen then Inl Out_of_bounds
                 else Inr (take headlen (drop start (rx_buffer m)) @ take (len - headlen) (rx_buffer m))
         else if start + len > MACB_RX_BUFFER_SIZE * MACB_RX_RING_SIZE then Inl Out_of_bounds
         else Inr (take len (drop start (rx_buffer m))))"

text \<open>The frame is None when the function returns -1.\<close>

partial_function (option) recv_loop :: "nat \<Rightarrow> macb_device \<Rightarrow> (m_uint8 list option \<times> macb_device) res option" where
  "recv_loop next_tail m =
     (if d_addr (rx_ring m ! next_tail) AND RX_USED = 0 then Some (Inr (None, m))
      else let status = d_ctrl (rx_ring m ! next_tail);
               m = (if status AND RX_SOF \<noteq> 0
                    then (if next_tail \<noteq> rx_tail m then reclaim_rx_buffers next_tail m else m)\<lparr>wrapped := False\<rparr>
                    else m)
           in if status AND RX_EOF \<noteq> 0
              then let len = unat (status AND RXBUF_FRMLEN_MASK)
                   in if len > 512 then Some (Inl (Fatal ''Cannot handle packets more than 512 bytes right now!''))
                      else Some (rbind (copy_frame len m) (\<lambda>frame.
                        Inr (Some frame, m\<lparr>next_rx_tail := (if next_tail + 1 \<ge> MACB_RX_RING_SIZE then 0 else next_tail + 1)\<rparr>)))
              else if next_tail + 1 \<ge> MACB_RX_RING_SIZE then recv_loop 0 (m\<lparr>wrapped := True\<rparr>)
              else recv_loop (next_tail + 1) m)"

definition macb_recv_once :: "macb_device \<Rightarrow> (m_uint8 list option \<times> macb_device) res" where
  "macb_recv_once m =
     (case recv_loop (rx_tail m) (m\<lparr>next_rx_tail := rx_tail m, wrapped := False\<rparr>) of None \<Rightarrow> Inl Diverges | Some r \<Rightarrow> r)"

text \<open>\<open>device i\<close> is the change the controller makes during the \<open>i\<close>-th delay.\<close>

fun recv_tries :: "nat list \<Rightarrow> (nat \<Rightarrow> macb_device \<Rightarrow> macb_device) \<Rightarrow> macb_device \<Rightarrow> (m_uint8 list option \<times> macb_device) res" where
  "recv_tries [] device m = Inr (None, m)" |
  "recv_tries (i # is) device m = rbind (macb_recv_once m) (\<lambda>(num, m).
     case num of
       Some (b # bs) \<Rightarrow> Inr (num, reclaim_rx_buffers (next_rx_tail m) m)
     | _ \<Rightarrow> recv_tries is device (device i m))"

definition macb_recv :: "(nat \<Rightarrow> macb_device \<Rightarrow> macb_device) \<Rightarrow> macb_device \<Rightarrow> (m_uint8 list option \<times> macb_device) res" where
  "macb_recv device m = recv_tries [0..<MAX_RX_TRIES] device m"

section \<open>Giving buffers back\<close>

definition release :: "macb_dma_desc \<Rightarrow> macb_dma_desc" where
  "release d = d\<lparr>d_addr := d_addr d AND NOT RX_USED\<rparr>"

text \<open>Position \<open>x\<close> of the ring is one of the \<open>k\<close> positions from \<open>t\<close> on.\<close>

definition in_frame :: "nat \<Rightarrow> nat \<Rightarrow> nat \<Rightarrow> bool" where
  "in_frame t k x \<longleftrightarrow> (x + MACB_RX_RING_SIZE - t) mod MACB_RX_RING_SIZE < k"

lemma nth_reclaim: "x < length ring \<Longrightarrow> reclaim_rx_buffer i ring ! x = (if x = i then release (ring ! x) else ring ! x)"
  by (simp add: reclaim_rx_buffer_def release_def)

lemma length_reclaim [simp]: "length (reclaim_rx_buffer i ring) = length ring"
  by (simp add: reclaim_rx_buffer_def)

lemma reclaim_up_nth:
  "length (reclaim_up i n ring) = length ring \<and>
   (\<forall>x < length ring. reclaim_up i n ring ! x = (if i \<le> x \<and> x < n then release (ring ! x) else ring ! x))"
proof (induction i n ring rule: reclaim_up.induct)
  case (1 i n ring)
  show ?case
  proof (cases "i < n")
    case True
    with 1 show ?thesis by (subst (1 2) reclaim_up.simps) (auto simp: nth_reclaim)
  qed (subst (1 2) reclaim_up.simps, auto)
qed

lemma reclaim_to_end_nth:
  assumes "length ring = MACB_RX_RING_SIZE" "i < MACB_RX_RING_SIZE"
  shows "\<exists>ring'. reclaim_to_end i n ring = (if n < i then 0 else i, ring') \<and> length ring' = length ring \<and>
    (\<forall>x < length ring. ring' ! x = (if n < i \<and> i \<le> x then release (ring ! x) else ring ! x))"
  using assms
proof (induction i n ring rule: reclaim_to_end.induct)
  case (1 i n ring)
  show ?case
  proof (cases "n < i")
    case True
    let ?i = "if i + 1 \<ge> MACB_RX_RING_SIZE then 0 else i + 1"
    have "?i < MACB_RX_RING_SIZE" by (simp add: MACB_RX_RING_SIZE_def)
    with 1 True obtain ring' where r: "reclaim_to_end ?i n (reclaim_rx_buffer i ring) = (if n < ?i then 0 else ?i, ring')" "length ring' = length ring"
      "\<forall>x < length ring. ring' ! x = (if n < ?i \<and> ?i \<le> x then release (reclaim_rx_buffer i ring ! x) else reclaim_rx_buffer i ring ! x)"
      by auto
    have "(if n < ?i then 0 else ?i) = 0" using True by simp
    with r(1) True have "reclaim_to_end i n ring = (0, ring')" by (subst reclaim_to_end.simps) simp
    moreover have "ring' ! x = (if i \<le> x then release (ring ! x) else ring ! x)" if "x < length ring" for x
      using r(3) that True 1(2,3) by (auto simp: nth_reclaim)
    ultimately show ?thesis using True r(2) by auto
  qed (subst reclaim_to_end.simps, auto)
qed

lemma in_frame_cases:
  assumes "t < 32" "x < 32" "0 < k" "k < 32"
  shows "in_frame t k x \<longleftrightarrow> (if (t + k) mod 32 < t then t \<le> x \<or> x < (t + k) mod 32 else t \<le> x \<and> x < (t + k) mod 32)"
proof (cases "t \<le> x")
  case True
  then have "(x + 32 - t) mod 32 = x - t" using assms(2) by (simp add: mod_if)
  then show ?thesis using True assms by (auto simp: in_frame_def MACB_RX_RING_SIZE_def mod_if)
next
  case False
  then have "(x + 32 - t) mod 32 = x + 32 - t" using assms(1) by simp
  then show ?thesis using False assms by (auto simp: in_frame_def MACB_RX_RING_SIZE_def mod_if)
qed

lemma reclaim_rx_buffers_nth:
  assumes "length (rx_ring m) = MACB_RX_RING_SIZE" "rx_tail m < MACB_RX_RING_SIZE" "0 < k" "k < MACB_RX_RING_SIZE"
    and "n = (rx_tail m + k) mod MACB_RX_RING_SIZE"
  shows "\<exists>ring. reclaim_rx_buffers n m = m\<lparr>rx_ring := ring, rx_tail := n\<rparr> \<and> length ring = MACB_RX_RING_SIZE \<and>
    (\<forall>x < MACB_RX_RING_SIZE. ring ! x = (if in_frame (rx_tail m) k x then release (rx_ring m ! x) else rx_ring m ! x))"
proof -
  obtain r where r: "reclaim_to_end (rx_tail m) n (rx_ring m) = (if n < rx_tail m then 0 else rx_tail m, r)" "length r = length (rx_ring m)"
    "\<forall>x < length (rx_ring m). r ! x = (if n < rx_tail m \<and> rx_tail m \<le> x then release (rx_ring m ! x) else rx_ring m ! x)"
    using reclaim_to_end_nth [OF assms(1,2)] by blast
  note u = reclaim_up_nth [of "if n < rx_tail m then 0 else rx_tail m" n r]
  have "reclaim_up (if n < rx_tail m then 0 else rx_tail m) n r ! x = (if in_frame (rx_tail m) k x then release (rx_ring m ! x) else rx_ring m ! x)"
    if "x < MACB_RX_RING_SIZE" for x
  proof -
    have "in_frame (rx_tail m) k x \<longleftrightarrow> (if n < rx_tail m then rx_tail m \<le> x \<or> x < n else rx_tail m \<le> x \<and> x < n)"
      using in_frame_cases [of "rx_tail m" x k] assms that by (simp add: MACB_RX_RING_SIZE_def)
    with u r(2,3) assms(1) that show ?thesis by auto
  qed
  then show ?thesis using u r assms(1) by (intro exI [of _ "reclaim_up (if n < rx_tail m then 0 else rx_tail m) n r"]) (simp add: reclaim_rx_buffers_def)
qed

section \<open>Receiving a frame\<close>

definition rx_ok :: "macb_device \<Rightarrow> bool" where
  "rx_ok m \<longleftrightarrow> length (rx_ring m) = MACB_RX_RING_SIZE \<and> rx_tail m < MACB_RX_RING_SIZE \<and>
     length (rx_buffer m) = MACB_RX_BUFFER_SIZE * MACB_RX_RING_SIZE"

definition rx_desc :: "macb_device \<Rightarrow> nat \<Rightarrow> macb_dma_desc" where
  "rx_desc m j = rx_ring m ! ((rx_tail m + j) mod MACB_RX_RING_SIZE)"

text \<open>A frame of \<open>len\<close> bytes in the \<open>k\<close> buffers from the tail on, as the controller leaves it.\<close>

definition rx_frame :: "macb_device \<Rightarrow> nat \<Rightarrow> nat \<Rightarrow> bool" where
  "rx_frame m k len \<longleftrightarrow> 0 < k \<and>
     (\<forall>j < k. d_addr (rx_desc m j) AND RX_USED \<noteq> 0 \<and> (0 < j \<longrightarrow> d_ctrl (rx_desc m j) AND RX_SOF = 0) \<and>
        (d_ctrl (rx_desc m j) AND RX_EOF \<noteq> 0 \<longleftrightarrow> j = k - 1)) \<and>
     unat (d_ctrl (rx_desc m (k - 1)) AND RXBUF_FRMLEN_MASK) = len \<and>
     MACB_RX_BUFFER_SIZE * (k - 1) < len \<and> len \<le> MACB_RX_BUFFER_SIZE * k \<and> len \<le> 512"

text \<open>The bytes from the start of the tail buffer on, around the end of the ring.\<close>

definition rx_bytes :: "macb_device \<Rightarrow> nat \<Rightarrow> m_uint8 list" where
  "rx_bytes m len = take len (drop (MACB_RX_BUFFER_SIZE * rx_tail m) (rx_buffer m @ rx_buffer m))"

lemma rx_frame_few: "rx_frame m k len \<Longrightarrow> 0 < k \<and> k \<le> 4"
  by (auto simp: rx_frame_def MACB_RX_BUFFER_SIZE_def)

lemma copy_frame_ok:
  assumes "rx_ok m" "rx_frame m k len"
  shows "copy_frame len (m\<lparr>wrapped := rx_tail m + (k - 1) \<ge> MACB_RX_RING_SIZE\<rparr>) = Inr (rx_bytes m len)"
proof -
  have f: "128 * (k - 1) < len" "len \<le> 128 * k" "rx_tail m < 32" "length (rx_buffer m) = 4096" "0 < k" "len \<le> 512"
    using assms by (simp_all add: rx_ok_def rx_frame_def MACB_RX_BUFFER_SIZE_def MACB_RX_RING_SIZE_def)
  have c: "MACB_RX_BUFFER_SIZE = 128" "MACB_RX_RING_SIZE = 32" by (simp_all add: MACB_RX_BUFFER_SIZE_def MACB_RX_RING_SIZE_def)
  show ?thesis
  proof (cases "rx_tail m + (k - 1) \<ge> 32")
    case True
    then have "128 * (32 - rx_tail m) \<le> 128 * (k - 1)" by simp
    then have h: "128 * (32 - rx_tail m) < len" using f(1) by linarith
    have "length (drop (128 * rx_tail m) (rx_buffer m)) = 128 * (32 - rx_tail m)" using f(4) by simp
    moreover have "32 \<le> rx_tail m + k - Suc 0" "4096 < 128 * rx_tail m + len" using True f(3,5) h by simp_all
    ultimately show ?thesis using True h f(3,4) by (simp add: copy_frame_def rx_bytes_def c Let_def)
  next
    case False
    then have "128 * rx_tail m + len \<le> 4096" using f(2,5) by linarith
    then show ?thesis using False f(4) by (simp add: copy_frame_def rx_bytes_def c Let_def)
  qed
qed

text \<open>One turn of the loop at a used descriptor that does not start a frame behind the tail.\<close>

lemma recv_loop_step:
  assumes "d_addr (rx_ring m ! n) AND RX_USED \<noteq> 0" "d_ctrl (rx_ring m ! n) AND RX_SOF \<noteq> 0 \<Longrightarrow> n = rx_tail m \<and> \<not> wrapped m"
  shows "recv_loop n m =
    (if d_ctrl (rx_ring m ! n) AND RX_EOF \<noteq> 0
     then let len = unat (d_ctrl (rx_ring m ! n) AND RXBUF_FRMLEN_MASK)
          in if len > 512 then Some (Inl (Fatal ''Cannot handle packets more than 512 bytes right now!''))
             else Some (rbind (copy_frame len m) (\<lambda>frame.
               Inr (Some frame, m\<lparr>next_rx_tail := (if n + 1 \<ge> MACB_RX_RING_SIZE then 0 else n + 1)\<rparr>)))
     else if n + 1 \<ge> MACB_RX_RING_SIZE then recv_loop 0 (m\<lparr>wrapped := True\<rparr>) else recv_loop (n + 1) m)"
proof (cases "d_ctrl (rx_ring m ! n) AND RX_SOF = 0")
  case True
  then show ?thesis using assms(1) by (subst recv_loop.simps) (simp only: Let_def simp_thms if_False)
next
  case False
  with assms(2) have "n = rx_tail m" "m\<lparr>wrapped := False\<rparr> = m" by auto
  then show ?thesis using assms(1) False by (subst recv_loop.simps) (simp only: Let_def simp_thms if_True if_False)
qed

lemma next_mod: "(if a mod MACB_RX_RING_SIZE + 1 \<ge> MACB_RX_RING_SIZE then 0 else a mod MACB_RX_RING_SIZE + 1) = (a + 1) mod MACB_RX_RING_SIZE"
  using mod_less_divisor [of 32 a] mod_Suc [of a 32] by (auto simp: MACB_RX_RING_SIZE_def)

lemma recv_loop_frame:
  assumes ok: "rx_ok m" and fr: "rx_frame m k len" and j: "j < k"
  shows "recv_loop ((rx_tail m + j) mod MACB_RX_RING_SIZE) (m\<lparr>wrapped := rx_tail m + j \<ge> MACB_RX_RING_SIZE\<rparr>) =
    Some (Inr (Some (rx_bytes m len), m\<lparr>wrapped := rx_tail m + (k - 1) \<ge> MACB_RX_RING_SIZE,
      next_rx_tail := (rx_tail m + k) mod MACB_RX_RING_SIZE\<rparr>))"
  using j
proof (induction "k - 1 - j" arbitrary: j)
  case 0
  let ?n = "(rx_tail m + j) mod MACB_RX_RING_SIZE" and ?m = "m\<lparr>wrapped := rx_tail m + j \<ge> MACB_RX_RING_SIZE\<rparr>"
  have j: "j = k - 1" "j + 1 = k" using 0 by simp_all
  have d: "rx_ring ?m ! ?n = rx_desc m j" by (simp add: rx_desc_def)
  have f: "d_addr (rx_desc m j) AND RX_USED \<noteq> 0" "0 < j \<Longrightarrow> d_ctrl (rx_desc m j) AND RX_SOF = 0"
     "d_ctrl (rx_desc m j) AND RX_EOF \<noteq> 0" "unat (d_ctrl (rx_desc m j) AND RXBUF_FRMLEN_MASK) = len" "\<not> len > 512"
    using fr 0 j(1) by (auto simp: rx_frame_def)
  have t: "rx_tail m < MACB_RX_RING_SIZE" using ok by (simp add: rx_ok_def)
  have c: "copy_frame len ?m = Inr (rx_bytes m len)" using copy_frame_ok [OF ok fr] j(1) by simp
  have n: "(rx_tail m + j) + 1 = rx_tail m + k" using j(2) by simp
  have "recv_loop ?n ?m = Some (Inr (Some (rx_bytes m len), ?m\<lparr>next_rx_tail := (rx_tail m + k) mod MACB_RX_RING_SIZE\<rparr>))"
  proof (subst recv_loop_step)
    show "d_addr (rx_ring ?m ! ?n) AND RX_USED \<noteq> 0" unfolding d by (rule f(1))
    show "?n = rx_tail ?m \<and> \<not> wrapped ?m" if "d_ctrl (rx_ring ?m ! ?n) AND RX_SOF \<noteq> 0"
      using that f(2) t unfolding d by (cases "j = 0") simp_all
    show "(if d_ctrl (rx_ring ?m ! ?n) AND RX_EOF \<noteq> 0
     then let len = unat (d_ctrl (rx_ring ?m ! ?n) AND RXBUF_FRMLEN_MASK)
          in if len > 512 then Some (Inl (Fatal ''Cannot handle packets more than 512 bytes right now!''))
             else Some (rbind (copy_frame len ?m) (\<lambda>frame.
               Inr (Some frame, ?m\<lparr>next_rx_tail := (if ?n + 1 \<ge> MACB_RX_RING_SIZE then 0 else ?n + 1)\<rparr>)))
     else if ?n + 1 \<ge> MACB_RX_RING_SIZE then recv_loop 0 (?m\<lparr>wrapped := True\<rparr>) else recv_loop (?n + 1) ?m) =
     Some (Inr (Some (rx_bytes m len), ?m\<lparr>next_rx_tail := (rx_tail m + k) mod MACB_RX_RING_SIZE\<rparr>))"
      unfolding d next_mod n using f(3,4,5) c by (simp add: Let_def)
  qed
  then show ?case by (simp add: j(1))
next
  case (Suc x)
  let ?n = "(rx_tail m + j) mod MACB_RX_RING_SIZE" and ?m = "m\<lparr>wrapped := rx_tail m + j \<ge> MACB_RX_RING_SIZE\<rparr>"
  have d: "rx_ring ?m ! ?n = rx_desc m j" by (simp add: rx_desc_def)
  have f: "d_addr (rx_desc m j) AND RX_USED \<noteq> 0" "0 < j \<Longrightarrow> d_ctrl (rx_desc m j) AND RX_SOF = 0" "d_ctrl (rx_desc m j) AND RX_EOF = 0"
    using fr Suc(2,3) by (auto simp: rx_frame_def)
  have t: "rx_tail m < 32" "k \<le> 4" using ok rx_frame_few [OF fr] by (simp_all add: rx_ok_def MACB_RX_RING_SIZE_def)
  have sof: "?n = rx_tail ?m \<and> \<not> wrapped ?m" if "d_ctrl (rx_ring ?m ! ?n) AND RX_SOF \<noteq> 0"
    using that f(2) t unfolding d by (cases "j = 0") (simp_all add: MACB_RX_RING_SIZE_def)
  have step: "recv_loop ?n ?m = (if ?n + 1 \<ge> MACB_RX_RING_SIZE then recv_loop 0 (?m\<lparr>wrapped := True\<rparr>) else recv_loop (?n + 1) ?m)"
    using recv_loop_step [OF _ sof] f(1,3) unfolding d by simp
  have "\<dots> = recv_loop ((rx_tail m + (j + 1)) mod MACB_RX_RING_SIZE) (m\<lparr>wrapped := rx_tail m + (j + 1) \<ge> MACB_RX_RING_SIZE\<rparr>)"
    using t Suc(2) by (auto simp: MACB_RX_RING_SIZE_def mod_Suc mod_if Suc_diff_le [symmetric] not_less)
  with step Suc(1) [of "j + 1"] Suc(2) show ?case by simp
qed

lemma macb_recv_frame:
  assumes "rx_ok m" "rx_frame m k len"
  shows "\<exists>m'. macb_recv device m = Inr (Some (rx_bytes m len), m') \<and> rx_ok m' \<and>
    rx_tail m' = (rx_tail m + k) mod MACB_RX_RING_SIZE \<and> rx_buffer m' = rx_buffer m \<and> tx_ring m' = tx_ring m \<and> tx_head m' = tx_head m \<and>
    (\<forall>x < MACB_RX_RING_SIZE. rx_ring m' ! x = (if in_frame (rx_tail m) k x then release (rx_ring m ! x) else rx_ring m ! x))"
proof -
  define m0 where "m0 = m\<lparr>next_rx_tail := rx_tail m\<rparr>"
  have "rx_desc m0 = rx_desc m" by (simp add: fun_eq_iff m0_def rx_desc_def)
  then have same: "rx_ok m0" "rx_frame m0 k len" "rx_tail m0 = rx_tail m" "rx_ring m0 = rx_ring m" "rx_bytes m0 len = rx_bytes m len"
    using assms by (simp_all add: m0_def rx_ok_def rx_frame_def rx_bytes_def)
  have k: "0 < k" "k < MACB_RX_RING_SIZE" using rx_frame_few [OF assms(2)] by (simp_all add: MACB_RX_RING_SIZE_def)
  have t: "rx_tail m < MACB_RX_RING_SIZE" "length (rx_ring m) = MACB_RX_RING_SIZE" using assms(1) by (simp_all add: rx_ok_def)
  define m1 where "m1 = m0\<lparr>wrapped := rx_tail m + (k - 1) \<ge> MACB_RX_RING_SIZE, next_rx_tail := (rx_tail m + k) mod MACB_RX_RING_SIZE\<rparr>"
  have "recv_loop (rx_tail m) (m\<lparr>next_rx_tail := rx_tail m, wrapped := False\<rparr>) = Some (Inr (Some (rx_bytes m len), m1))"
    using recv_loop_frame [OF same(1,2) k(1)] t(1) same(3,5) by (simp add: m0_def m1_def)
  then have once: "macb_recv_once m = Inr (Some (rx_bytes m len), m1)" by (simp add: macb_recv_once_def)
  have "0 < len" "len \<le> 512" using assms(2) by (simp_all add: rx_frame_def)
  then have ne: "rx_bytes m len \<noteq> []" using assms(1) by (simp add: rx_bytes_def rx_ok_def MACB_RX_BUFFER_SIZE_def MACB_RX_RING_SIZE_def)
  have "[0..<MAX_RX_TRIES] = 0 # [1..<MAX_RX_TRIES]" by (simp add: MAX_RX_TRIES_def upt_rec)
  with once ne have r: "macb_recv device m = Inr (Some (rx_bytes m len), reclaim_rx_buffers (next_rx_tail m1) m1)"
    by (cases "rx_bytes m len") (simp_all add: macb_recv_def)
  have m1: "rx_tail m1 = rx_tail m" "rx_ring m1 = rx_ring m" "rx_buffer m1 = rx_buffer m" "tx_ring m1 = tx_ring m" "tx_head m1 = tx_head m" by (simp_all add: m1_def m0_def)
  obtain ring where "reclaim_rx_buffers (next_rx_tail m1) m1 = m1\<lparr>rx_ring := ring, rx_tail := (rx_tail m + k) mod MACB_RX_RING_SIZE\<rparr>"
    "length ring = MACB_RX_RING_SIZE"
    "\<forall>x < MACB_RX_RING_SIZE. ring ! x = (if in_frame (rx_tail m) k x then release (rx_ring m ! x) else rx_ring m ! x)"
    using reclaim_rx_buffers_nth [of m1 k "next_rx_tail m1"] k t m1 by (auto simp: m1_def)
  then show ?thesis using r m1 assms(1) by (auto simp: rx_ok_def MACB_RX_RING_SIZE_def)
qed

text \<open>
  C30. When the controller has put a frame into the buffers from the tail on, also around the end
  of the ring, macb_recv returns exactly the bytes of the frame, gives back exactly the
  descriptors of the frame, and moves the tail behind it. The descriptors of the other buffers,
  where the controller may already write the next frame, are untouched.
\<close>

theorem macb_recv_correct:
  assumes "rx_ok m" "rx_frame m k len"
  shows "\<exists>m'. macb_recv device m = Inr (Some (rx_bytes m len), m') \<and> rx_ok m' \<and>
    rx_tail m' = (rx_tail m + k) mod MACB_RX_RING_SIZE \<and> rx_buffer m' = rx_buffer m \<and> tx_ring m' = tx_ring m \<and> tx_head m' = tx_head m \<and>
    (\<forall>x < MACB_RX_RING_SIZE. rx_ring m' ! x = (if in_frame (rx_tail m) k x then release (rx_ring m ! x) else rx_ring m ! x))"
  using assms by (rule macb_recv_frame)

text \<open>A frame of 200 bytes in the buffers 31 and 0.\<close>

definition demo_macb :: macb_device where
  "demo_macb = \<lparr>rx_tail = 31, tx_head = 0, next_rx_tail = 0, wrapped = False, rx_buffer = replicate 4096 7,
     rx_ring = \<lparr>d_addr = 1, d_ctrl = 0x80c8\<rparr> # replicate 30 \<lparr>d_addr = 0, d_ctrl = 0\<rparr> @ [\<lparr>d_addr = 3, d_ctrl = 0x4000\<rparr>],
     tx_ring = replicate 16 \<lparr>d_addr = 0, d_ctrl = TX_USED\<rparr>, rx_buffer_dma = (0, 0), rx_ring_dma = (0, 0), tx_ring_dma = (0, 0),
     pclk_rate = QUANTUM, phy_addr = 0, input = (\<lambda>_ _. 0), n_reads = 0, writes = []\<rparr>"

theorem macb_recv_correct_witness:
  "\<exists>m'. macb_recv (\<lambda>_ m. m) demo_macb = Inr (Some (rx_bytes demo_macb 200), m') \<and> rx_tail m' = 1"
proof -
  have "rx_ok demo_macb" by (simp add: rx_ok_def demo_macb_def MACB_RX_BUFFER_SIZE_def MACB_RX_RING_SIZE_def)
  moreover have "rx_desc demo_macb 0 = \<lparr>d_addr = 3, d_ctrl = 0x4000\<rparr>" "rx_desc demo_macb (Suc 0) = \<lparr>d_addr = 1, d_ctrl = 0x80c8\<rparr>"
    by (simp_all add: rx_desc_def demo_macb_def MACB_RX_RING_SIZE_def nth_append)
  then have "rx_frame demo_macb 2 200"
    by (auto simp: rx_frame_def less_2_cases_iff RX_USED_def RX_SOF_def RX_EOF_def MACB_BIT_def RXBUF_FRMLEN_MASK_def MACB_RX_BUFFER_SIZE_def)
  moreover have "rx_tail demo_macb = 31" by (simp add: demo_macb_def)
  ultimately show ?thesis using macb_recv_correct [of demo_macb 2 200 "\<lambda>_ m. m"] by (auto simp: MACB_RX_RING_SIZE_def)
qed

section \<open>No frame\<close>

lemma recv_none:
  assumes "d_addr (rx_ring m ! rx_tail m) AND RX_USED = 0"
  shows "macb_recv_once m = Inr (None, m\<lparr>next_rx_tail := rx_tail m, wrapped := False\<rparr>)"
  using assms by (simp add: macb_recv_once_def) (subst recv_loop.simps, simp)

text \<open>With an empty ring that stays empty, macb_recv gives up after its ten tries.\<close>

lemma macb_recv_empty:
  assumes "d_addr (rx_ring m ! rx_tail m) AND RX_USED = 0"
  shows "\<exists>m'. macb_recv (\<lambda>_ m. m) m = Inr (None, m') \<and> rx_ring m' = rx_ring m \<and> rx_tail m' = rx_tail m"
proof -
  have "\<exists>m'. recv_tries is (\<lambda>_ m. m) m = Inr (None, m') \<and> rx_ring m' = rx_ring m \<and> rx_tail m' = rx_tail m" for "is"
    using assms
  proof (induction "is" arbitrary: m)
    case (Cons i "is")
    from Cons.IH [of "m\<lparr>next_rx_tail := rx_tail m, wrapped := False\<rparr>"] Cons.prems show ?case by (simp add: recv_none)
  qed simp
  then show ?thesis by (simp add: macb_recv_def)
qed

text \<open>
  If the controller fills the whole ring with parts of one frame, as it does with a frame of more
  than 4096 bytes, no descriptor ends a frame and the loop goes round forever.
\<close>

lemma recv_loop_hangs:
  assumes "recv_loop n m = Some r"
  shows "\<not> (n < MACB_RX_RING_SIZE \<and> (\<forall>i < MACB_RX_RING_SIZE. d_addr (rx_ring m ! i) AND RX_USED \<noteq> 0 \<and>
    d_ctrl (rx_ring m ! i) AND RX_SOF = 0 \<and> d_ctrl (rx_ring m ! i) AND RX_EOF = 0))"
proof (rule recv_loop.raw_induct [where P = "\<lambda>n m r. \<not> (n < MACB_RX_RING_SIZE \<and> (\<forall>i < MACB_RX_RING_SIZE. d_addr (rx_ring m ! i) AND RX_USED \<noteq> 0 \<and>
    d_ctrl (rx_ring m ! i) AND RX_SOF = 0 \<and> d_ctrl (rx_ring m ! i) AND RX_EOF = 0))", OF _ assms], goal_cases)
  case (1 loop n m r)
  note ih = 1(1) and run = 1(2)
  show ?case
  proof
    assume c: "n < MACB_RX_RING_SIZE \<and> (\<forall>i < MACB_RX_RING_SIZE. d_addr (rx_ring m ! i) AND RX_USED \<noteq> 0 \<and>
      d_ctrl (rx_ring m ! i) AND RX_SOF = 0 \<and> d_ctrl (rx_ring m ! i) AND RX_EOF = 0)"
    then have d: "d_addr (rx_ring m ! n) AND RX_USED \<noteq> 0" "d_ctrl (rx_ring m ! n) AND RX_SOF = 0" "d_ctrl (rx_ring m ! n) AND RX_EOF = 0"
      by blast+
    have z: "0 < MACB_RX_RING_SIZE" by (simp add: MACB_RX_RING_SIZE_def)
    show False
    proof (cases "n + 1 \<ge> MACB_RX_RING_SIZE")
      case True
      then have "loop 0 (m\<lparr>wrapped := True\<rparr>) = Some r" using run d by (simp add: Let_def)
      from ih [OF this] c z show False by simp
    next
      case False
      then have "loop (n + 1) m = Some r" using run d by (simp add: Let_def)
      from ih [OF this] c False show False by auto
    qed
  qed
qed

theorem macb_recv_hangs:
  assumes "rx_tail m < MACB_RX_RING_SIZE" "\<forall>i < MACB_RX_RING_SIZE. d_addr (rx_ring m ! i) AND RX_USED \<noteq> 0 \<and>
    d_ctrl (rx_ring m ! i) AND RX_SOF = 0 \<and> d_ctrl (rx_ring m ! i) AND RX_EOF = 0"
  shows "macb_recv device m = Inl Diverges"
proof -
  have "recv_loop (rx_tail m) (m\<lparr>next_rx_tail := rx_tail m, wrapped := False\<rparr>) = None"
  proof (cases "recv_loop (rx_tail m) (m\<lparr>next_rx_tail := rx_tail m, wrapped := False\<rparr>)")
    case (Some r)
    from recv_loop_hangs [OF Some] assms show ?thesis by simp
  qed
  then have "macb_recv_once m = Inl Diverges" by (simp add: macb_recv_once_def)
  then show ?thesis by (simp add: macb_recv_def MAX_RX_TRIES_def upt_rec)
qed

section \<open>Sending\<close>

lemma send_wait_bound: "i \<le> MACB_TX_TIMEOUT + 1 \<Longrightarrow> fst (send_wait poll i c) \<le> MACB_TX_TIMEOUT + 1"
proof (induction poll i c rule: send_wait.induct)
  case (1 poll i c)
  then show ?case by (subst send_wait.simps) simp
qed

definition tx_ok :: "macb_device \<Rightarrow> bool" where
  "tx_ok m \<longleftrightarrow> length (tx_ring m) = MACB_TX_RING_SIZE \<and> tx_head m < MACB_TX_RING_SIZE"

lemma macb_send_ok:
  assumes "tx_ok m" "macb_send poll len packet m = (log, m')"
  shows "tx_ok m'" "tx_head m' = (tx_head m + 1) mod MACB_TX_RING_SIZE" "writes m' = writes m @ [(MACB_NCR, TE OR RE OR TSTART)]"
    "rx_ring m' = rx_ring m" "rx_tail m' = rx_tail m" "rx_buffer m' = rx_buffer m" "d_addr (tx_ring m' ! tx_head m) = packet" "\<forall>i. i \<noteq> tx_head m \<longrightarrow> tx_ring m' ! i = tx_ring m ! i"
  using assms by (auto simp: macb_send_def tx_ok_def Let_def macb_writel_def MACB_TX_RING_SIZE_def mod_if split: if_splits prod.splits)

text \<open>The allocated block contains the aligned one.\<close>

lemma alloc_aligned_ok:
  assumes "alloc_aligned malloc sz = Inr (p, q)" "unat q + unat sz + 31 < 2 ^ 32"
  shows "unat p mod 32 = 0 \<and> unat q \<le> unat p \<and> unat p + unat sz \<le> unat q + (unat sz + 31)"
proof -
  have "(31 :: m_uint32) = mask 5" by (simp add: mask_eq_exp_minus_1)
  moreover have "p = q + 31 AND NOT 31" using assms(1) by (auto simp: alloc_aligned_def Let_def ARCH_DMA_MINALIGN_def split: if_splits)
  ultimately have p: "p = q + 31 AND NOT (mask 5)" by metis
  have "p = push_bit 5 (drop_bit 5 (q + 31))"
    unfolding p by (rule bit_word_eqI) (auto simp: bit_simps)
  moreover have "unat (q + 31) = unat q + 31" using assms(2) by (simp add: unat_word_ariths)
  ultimately have "unat p = (unat q + 31) div 32 * 32"
    using assms(2) div_times_less_eq_dividend [of "unat q + 31" 32]
    by (simp add: drop_bit_eq_div push_bit_eq_mult unat_word_ariths(2) unat_div)
  then show ?thesis by simp
qed

end
