(* ===== verification/Http_Main.thy ===== *)
theory Http_Main
  imports Uip_Arp Uip_Properties Macb
begin

text \<open>
  The network path of the web server: the loop of apps/user/http.c, the client functions net_send
  and net_recv of library/servers/servers.c, and the network server apps/system/sys_net.c, on top
  of the driver. A request and its reply are one call here: the client blocks in sys_recv until
  the reply of the server arrives.
\<close>

section \<open>The network server\<close>

definition NET_SEND :: m_uint32 where "NET_SEND = 0"
definition NET_RECV :: m_uint32 where "NET_RECV = 1"
definition NET_OK :: m_uint32 where "NET_OK = 0"

text \<open>net_request and net_reply have the same layout and share the buffer of the server.\<close>

record net_msg =
  net_type :: m_uint32
  net_length :: m_uint32
  net_buf :: "m_uint8 list"

text \<open>
  What the controller does while the server works: the polled descriptor, the changes of the rings
  during delays, and the address of the message buffer, which the controller is given.
\<close>

record controller =
  tx_poll :: "nat \<Rightarrow> m_uint32"
  rx_delay :: "nat \<Rightarrow> macb_device \<Rightarrow> macb_device"
  buf_addr :: m_uint32

text \<open>One turn of the server: the reply, the frame handed to the controller if any, and the driver.\<close>

definition sys_net_step :: "controller \<Rightarrow> net_msg \<Rightarrow> macb_device \<Rightarrow> (net_msg \<times> m_uint8 list option \<times> macb_device) res" where
  "sys_net_step env req m =
     (if net_type req = NET_SEND
      then let m = snd (macb_send (tx_poll env) (net_length req) (buf_addr env) m)
           in Inr (req\<lparr>net_type := NET_OK\<rparr>, Some (take (unat (net_length req AND TXBUF_FRMLEN_MASK)) (net_buf req)), m)
      else if net_type req = NET_RECV
      then rbind (macb_recv (rx_delay env) m) (\<lambda>(frame, m). case frame of
             Some f \<Rightarrow> Inr (req\<lparr>net_type := NET_OK, net_length := of_nat (length f), net_buf := f @ drop (length f) (net_buf req)\<rparr>, None, m)
           | None \<Rightarrow> Inr (req\<lparr>net_type := NET_OK, net_length := -1\<rparr>, None, m))
      else Inl (Fatal ''sys_net request not implemented''))"

section \<open>The client functions\<close>

text \<open>The parts of a request that the client does not set are on its stack: \<open>stack\<close>.\<close>

definition net_send :: "controller \<Rightarrow> net_msg \<Rightarrow> m_uint32 \<Rightarrow> m_uint8 list \<Rightarrow> macb_device \<Rightarrow> (int \<times> m_uint8 list option \<times> macb_device) res" where
  "net_send env stack len packet m =
     (let req = stack\<lparr>net_type := NET_SEND, net_length := len\<rparr>
      in if \<not> sint len \<le> 512 then Inl (Fatal ''Cannot send packet more than 512'')
         else if unat len > length packet then Inl Out_of_bounds
         else let req = req\<lparr>net_buf := take (unat len) packet @ drop (unat len) (net_buf req)\<rparr>
              in rbind (sys_net_step env req m) (\<lambda>(reply, out, m). Inr (if net_type reply = NET_OK then 0 else -1, out, m)))"

definition net_recv :: "controller \<Rightarrow> net_msg \<Rightarrow> m_uint8 list \<Rightarrow> macb_device \<Rightarrow> (int \<times> m_uint8 list \<times> macb_device) res" where
  "net_recv env stack packet m =
     rbind (sys_net_step env (stack\<lparr>net_type := NET_RECV\<rparr>) m) (\<lambda>(reply, out, m).
       if sint (net_length reply) > 0 \<and> net_type reply = NET_OK
       then let n = unat (net_length reply)
            in if n > length packet then Inl Out_of_bounds
               else Inr (sint (net_length reply), take n (net_buf reply) @ drop n packet, m)
       else Inr (if net_type reply = NET_OK then 0 else -1, packet, m))"

section \<open>The web server\<close>

definition uip_ipaddr :: "m_uint16 \<Rightarrow> m_uint16 \<Rightarrow> m_uint16 \<Rightarrow> m_uint16 \<Rightarrow> uip_ipaddr_t" where
  "uip_ipaddr a0 a1 a2 a3 = (htons (push_bit 8 a0 OR a1), htons (push_bit 8 a2 OR a3))"

definition http_start :: "http_state uip \<times> arp \<Rightarrow> http_state uip \<times> arp" where
  "http_start = (\<lambda>(s, a).
     (httpd_init ((uip_init s)\<lparr>uip_hostaddr := uip_ipaddr 192 168 0 2\<rparr>),
      a\<lparr>uip_draddr := uip_ipaddr 192 168 0 1, uip_netmask := uip_ipaddr 255 255 255 0\<rparr>))"

text \<open>What the loop does with the frame in the buffer; the result says whether the buffer is to be sent.\<close>

definition http_handle :: "http_state uip \<times> arp \<Rightarrow> (bool \<times> http_state uip \<times> arp) res" where
  "http_handle = (\<lambda>(s, a).
     if uip_len s > 0
     then if read_u16 ETH_TYPE s = htons UIP_ETHTYPE_IP
          then rbind (uip_input httpd_appcall s) (\<lambda>s.
            if uip_len s > 0 then Inr (True, uip_arp_out a s, a) else Inr (False, s, a))
          else if read_u16 ETH_TYPE s = htons UIP_ETHTYPE_ARP
          then let (s, a) = uip_arp_arpin (s, a) in Inr (uip_len s > 0, s, a)
          else Inr (False, s, a)
     else Inr (False, s, a))"

text \<open>One turn of the loop, with the frame that it hands to the controller.\<close>

definition http_turn :: "controller \<Rightarrow> net_msg \<Rightarrow> http_state uip \<times> arp \<times> macb_device \<Rightarrow>
    (m_uint8 list option \<times> http_state uip \<times> arp \<times> macb_device) res" where
  "http_turn env stack = (\<lambda>(s, a, m).
     rbind (net_recv env stack (uip_buf s) m) (\<lambda>(n, buf, m).
     rbind (http_handle (s\<lparr>uip_buf := buf, uip_len := of_int n\<rparr>, a)) (\<lambda>(sends, s, a).
     if sends then rbind (net_send env stack (ucast (uip_len s)) (uip_buf s) m) (\<lambda>(r, out, m). Inr (out, s, a, m))
     else Inr (None, s, a, m))))"

section \<open>Safety of a turn\<close>

lemma arp_ok_update:
  assumes "arp_ok a" "length eth = 6"
  shows "arp_ok (uip_arp_update ip eth a)"
proof (cases "routable ip")
  case True
  then show ?thesis using assms by (intro arp_update_ok)
next
  case False
  let ?f = "arp_index (\<lambda>e. fst (ipaddr e) = 0 \<and> snd (ipaddr e) = 0) (arp_table a)"
  let ?k = "if ?f = UIP_ARPTAB_SIZE then oldest (arptime a) (arp_table a) [0..<UIP_ARPTAB_SIZE] 0 0 else ?f"
  have k: "?k < UIP_ARPTAB_SIZE"
    using arp_index_le [of _ "arp_table a"] by (auto intro!: oldest_bound simp: le_less) (simp add: UIP_ARPTAB_SIZE_def)
  have n: "arp_index (\<lambda>e. fst (ipaddr e) \<noteq> 0 \<and> snd (ipaddr e) \<noteq> 0 \<and> ip = ipaddr e) (arp_table a) = UIP_ARPTAB_SIZE"
  proof (cases "\<lambda>e :: arp_entry. fst (ipaddr e) \<noteq> 0 \<and> snd (ipaddr e) \<noteq> 0 \<and> ip = ipaddr e" "arp_table a" rule: arp_index_cases)
    case found
    from found(2) obtain e :: arp_entry where "fst (ipaddr e) \<noteq> 0 \<and> snd (ipaddr e) \<noteq> 0 \<and> ip = ipaddr e" by (rule that)
    with False show ?thesis by (auto simp: routable_def)
  qed
  have e: "uip_arp_update ip eth a = a\<lparr>arp_table := (arp_table a)[?k := \<lparr>ipaddr = ip, ethaddr = eth, time = arptime a\<rparr>]\<rparr>"
    using n by (simp add: uip_arp_update_def Let_def)
  show ?thesis
    by (rule table_write(1) [OF assms(1) k assms(2) _ _ _ e, of ip]) (use False in auto)
qed

lemma uip_inv_buf:
  "uip_inv ainv s \<Longrightarrow> length b = 422 \<Longrightarrow> uip_inv ainv (s\<lparr>uip_buf := b, uip_len := n\<rparr>)"
  by (simp add: uip_inv_def conn_at_def)

lemma uip_inv_conns:
  "uip_inv ainv s \<Longrightarrow> uip_conns s' = uip_conns s \<Longrightarrow> uip_listenports s' = uip_listenports s \<Longrightarrow> length (uip_buf s') = 422 \<Longrightarrow> uip_inv ainv s'"
  by (simp add: uip_inv_def conn_at_def)

lemma eth_header_more: "uip_listenports (eth_header d a s) = uip_listenports s" "uip_hostaddr (eth_header d a s) = uip_hostaddr s"
  "uip_listenports (arp_request ip a s) = uip_listenports s" "uip_hostaddr (arp_request ip a s) = uip_hostaddr s"
  by (simp_all add: eth_header_def arp_request_def Let_def)

lemma length_arp_request: "length (uip_buf s) = 422 \<Longrightarrow> length (uip_ethaddr a) = 6 \<Longrightarrow> length (uip_buf (arp_request ip a s)) = 422"
  by (simp add: arp_request_def Let_def arp_offsets)

lemma arp_out_ok:
  assumes "arp_ok a" "uip_inv ainv s" "unat (uip_len s) \<le> 408"
  shows "uip_inv ainv (uip_arp_out a s)" "unat (uip_len (uip_arp_out a s)) \<le> 422" "uip_hostaddr (uip_arp_out a s) = uip_hostaddr s"
proof -
  have l: "length (uip_buf s) = 422" using assms(2) by (rule uip_invD)
  have e: "length (uip_ethaddr a) = 6" "i < UIP_ARPTAB_SIZE \<Longrightarrow> length (ethaddr (arp_table a ! i)) = 6" for i
    using assms(1) by (simp_all add: arp_ok_def)
  have n: "unat (uip_len s + 14) \<le> 422" using assms(3) by (simp add: unat_word_ariths)
  have i: "arp_index P (arp_table a) \<noteq> UIP_ARPTAB_SIZE \<Longrightarrow> length (ethaddr (arp_table a ! arp_index P (arp_table a))) = 6" for P
    using arp_index_le [of P "arp_table a"] e(2) by simp
  consider d where "uip_arp_out a s = eth_header d a s" "length d = 6" | ip where "uip_arp_out a s = arp_request ip a s"
    unfolding uip_arp_out_def Let_def using i by (metis length_replicate)
  then have "uip_inv ainv (uip_arp_out a s) \<and> unat (uip_len (uip_arp_out a s)) \<le> 422 \<and> uip_hostaddr (uip_arp_out a s) = uip_hostaddr s"
  proof cases
    case 1
    note h = eth_header_fields [OF l 1(2) e(1)]
    show ?thesis unfolding 1(1) using uip_inv_conns [OF assms(2) h(4) eth_header_more(1) h(1)] h(2) n by (simp add: eth_header_more)
  next
    case 2
    note r = arp_request_sent [OF l e(1), of ip] and b = length_arp_request [OF l e(1), of ip]
    show ?thesis unfolding 2 using uip_inv_conns [OF assms(2) r(2) eth_header_more(3) b] r(1) by (simp add: eth_header_more is_arp_request_def)
  qed
  then show "uip_inv ainv (uip_arp_out a s)" "unat (uip_len (uip_arp_out a s)) \<le> 422" "uip_hostaddr (uip_arp_out a s) = uip_hostaddr s" by auto
qed

lemma arp_arpin_ok:
  assumes "arp_ok a" "uip_inv ainv s" "uip_arp_arpin (s, a) = (s', a')"
  shows "arp_ok a'" "uip_inv ainv s'" "unat (uip_len s') \<le> 422" "uip_hostaddr s' = uip_hostaddr s"
proof -
  have l: "length (uip_buf s) = 422" "length (uip_buf (set_len 0 s)) = 422" "uip_inv ainv (set_len 0 s)"
    using uip_invD(1) [OF assms(2)] uip_inv_conns [OF assms(2), of "set_len 0 s"] by simp_all
  have e: "length (uip_ethaddr a) = 6" using assms(1) by (simp add: arp_ok_def)
  have u: "arp_ok (uip_arp_update (read_addr SIPADDR s) (get_bytes SHWADDR 6 s) a)"
    using l by (intro arp_ok_update [OF assms(1)]) (simp add: SHWADDR_def)
  have r: "read_u16 p (set_len 0 s) = read_u16 p s" "read_addr p (set_len 0 s) = read_addr p s" for p
    by (simp_all add: read_u16_def read_addr_def)
  define s8 where "s8 = (let s = set_len 0 s; s = put_bytes OPCODE (u16_bytes (htons 2)) s;
                        s = put_bytes DHWADDR (get_bytes SHWADDR 6 s) s;
                        s = put_bytes SHWADDR (uip_ethaddr a) s;
                        s = put_bytes ETH_SRC (uip_ethaddr a) s;
                        s = put_bytes ETH_DEST (get_bytes DHWADDR 6 s) s;
                        s = put_bytes DIPADDR (addr_bytes (read_addr SIPADDR s)) s;
                        s = put_bytes SIPADDR (addr_bytes (uip_hostaddr s)) s
                    in put_bytes ETH_TYPE (u16_bytes (htons UIP_ETHTYPE_ARP)) s)"
  have "length (uip_buf s8) = 422" "uip_conns s8 = uip_conns s" "uip_listenports s8 = uip_listenports s" "uip_hostaddr s8 = uip_hostaddr s"
    using l e by (simp_all add: s8_def Let_def arp_offsets)
  then have s8: "uip_inv ainv (set_len 42 s8)" "uip_hostaddr (set_len 42 s8) = uip_hostaddr s"
    by (auto intro: uip_inv_conns [OF assms(2)])
  have "(s', a') \<in> {(set_len 0 s, a), (set_len 42 s8, uip_arp_update (read_addr SIPADDR s) (get_bytes SHWADDR 6 s) a),
      (set_len 0 s, uip_arp_update (read_addr SIPADDR s) (get_bytes SHWADDR 6 s) a)}"
    using assms(3) [symmetric] by (simp add: uip_arp_arpin_def Let_def r s8_def ARP_HDR_SIZE_def split: if_splits)
  then consider "s' = set_len 0 s" "a' = a" | "s' = set_len 42 s8" "a' = uip_arp_update (read_addr SIPADDR s) (get_bytes SHWADDR 6 s) a"
    | "s' = set_len 0 s" "a' = uip_arp_update (read_addr SIPADDR s) (get_bytes SHWADDR 6 s) a" by auto
  then have "arp_ok a' \<and> uip_inv ainv s' \<and> unat (uip_len s') \<le> 422 \<and> uip_hostaddr s' = uip_hostaddr s"
    by cases (use assms(1) l u s8 in simp_all)
  then show "arp_ok a'" "uip_inv ainv s'" "unat (uip_len s') \<le> 422" "uip_hostaddr s' = uip_hostaddr s" by auto
qed

definition http_ok :: "http_state uip \<Rightarrow> arp \<Rightarrow> bool" where
  "http_ok s a \<longleftrightarrow> uip_inv http_inv s \<and> arp_ok a \<and> uip_hostaddr s \<noteq> (0, 0)"

text \<open>The frames for which the stack is safe: short enough, with an IP length of 20 and options that end.\<close>

definition sane_frame :: "m_uint8 list \<Rightarrow> http_state uip \<Rightarrow> bool" where
  "sane_frame f s \<longleftrightarrow> length f \<le> 408 \<and> (let s = s\<lparr>uip_buf := f @ drop (length f) (uip_buf s)\<rparr>
     in read_u16 ETH_TYPE s = htons UIP_ETHTYPE_IP \<longrightarrow> 20 \<le> unat (ip_length s) \<and> options_end s)"

lemma http_handle_ok:
  assumes ok: "http_ok s a" and len: "unat (uip_len s) \<le> 408"
    and ip: "read_u16 ETH_TYPE s = htons UIP_ETHTYPE_IP \<Longrightarrow> uip_len s > 0 \<Longrightarrow> 20 \<le> unat (ip_length s) \<and> options_end s"
  shows "\<exists>sends s' a'. http_handle (s, a) = Inr (sends, s', a') \<and> http_ok s' a' \<and> (sends \<longrightarrow> unat (uip_len s') \<le> 422)"
proof -
  have inv: "uip_inv http_inv s" "arp_ok a" "uip_hostaddr s \<noteq> (0, 0)" using ok by (simp_all add: http_ok_def)
  consider "uip_len s = 0" | "uip_len s > 0" "read_u16 ETH_TYPE s = htons UIP_ETHTYPE_IP"
    | "uip_len s > 0" "read_u16 ETH_TYPE s \<noteq> htons UIP_ETHTYPE_IP" by (metis word_neq_0_conv)
  then show ?thesis
  proof cases
    case 2
    have "call_ok http_inv s (uip_process httpd_appcall UIP_DATA s)"
      using httpd.uip_process_ok [OF inv(1,3), of UIP_DATA] ip [OF 2(2,1)] len by (simp add: uip_consts)
    then obtain s' where s': "uip_input httpd_appcall s = Inr s'" "uip_inv http_inv s'" "uip_len s' = 0 \<or> valid_packet s'" "uip_hostaddr s' = uip_hostaddr s"
      by (auto simp: call_ok_def uip_input_def)
    show ?thesis
    proof (cases "uip_len s' > 0")
      case True
      with s'(3) have "unat (uip_len s') \<le> 408" by (auto simp: valid_packet_def)
      from arp_out_ok [OF inv(2) s'(2) this] s' True 2 inv show ?thesis by (auto simp: http_handle_def http_ok_def)
    next
      case False
      with s' 2 inv show ?thesis by (auto simp: http_handle_def http_ok_def)
    qed
  next
    case 3
    obtain s' a' where r: "uip_arp_arpin (s, a) = (s', a')" by fastforce
    from arp_arpin_ok [OF inv(2,1) r] 3 r ok inv(3) show ?thesis by (auto simp: http_handle_def http_ok_def)
  qed (use ok in \<open>auto simp: http_handle_def\<close>)
qed

lemma small_sint:
  assumes "n \<le> 512"
  shows "sint (of_nat n :: m_uint32) = int n" "unat (of_nat n :: m_uint32) = n" "(of_int (sint (of_nat n :: m_uint32)) :: m_uint16) = of_nat n"
proof -
  show "sint (of_nat n :: m_uint32) = int n" using assms by (simp add: signed_of_nat signed_take_bit_int_eq_self)
  then show "(of_int (sint (of_nat n :: m_uint32)) :: m_uint16) = of_nat n" by simp
  show "unat (of_nat n :: m_uint32) = n" using assms by (simp add: unsigned_of_nat take_bit_eq_mod)
qed

lemma length_rx_bytes: "rx_ok m \<Longrightarrow> len \<le> 512 \<Longrightarrow> length (rx_bytes m len) = len"
  by (auto simp: rx_ok_def rx_bytes_def MACB_RX_BUFFER_SIZE_def MACB_RX_RING_SIZE_def min_def)

lemma net_recv_frame:
  assumes "rx_ok m" "rx_frame m k len" "len \<le> length packet" "tx_ok m"
  shows "\<exists>m'. net_recv env stack packet m = Inr (int len, rx_bytes m len @ drop len packet, m') \<and> rx_ok m' \<and> tx_ok m' \<and>
    rx_tail m' = (rx_tail m + k) mod MACB_RX_RING_SIZE"
proof -
  obtain m' where m': "macb_recv (rx_delay env) m = Inr (Some (rx_bytes m len), m')" "rx_ok m'" "tx_ring m' = tx_ring m" "tx_head m' = tx_head m"
    "rx_tail m' = (rx_tail m + k) mod MACB_RX_RING_SIZE"
    using macb_recv_frame [OF assms(1,2)] by blast
  have l: "0 < len" "len \<le> 512" "length (rx_bytes m len) = len"
    using assms(2) length_rx_bytes [OF assms(1)] by (simp_all add: rx_frame_def)
  show ?thesis
    using m' l assms(3,4) small_sint [OF l(2)]
    by (intro exI [of _ m']) (simp add: net_recv_def sys_net_step_def NET_SEND_def NET_RECV_def NET_OK_def tx_ok_def)
qed

lemma net_send_frame:
  assumes "tx_ok m" "rx_ok m" "unat n \<le> 422" "length packet = 422"
  shows "\<exists>m'. net_send env stack (ucast (n :: m_uint16)) packet m = Inr (0, Some (take (unat n) packet), m') \<and> rx_ok m' \<and> tx_ok m' \<and>
    rx_tail m' = rx_tail m"
proof -
  have w: "ucast n = (of_nat (unat n) :: m_uint32)" by simp
  note s = small_sint [of "unat n"]
  have "unat (of_nat (unat n) AND TXBUF_FRMLEN_MASK) = unat n"
  proof -
    have "TXBUF_FRMLEN_MASK = mask 11" by (simp add: TXBUF_FRMLEN_MASK_def mask_eq_exp_minus_1)
    then have "of_nat (unat n) AND TXBUF_FRMLEN_MASK = take_bit 11 (of_nat (unat n) :: m_uint32)" by (simp only: take_bit_eq_mask)
    then have "unat (of_nat (unat n) AND TXBUF_FRMLEN_MASK) = unat (of_nat (unat n) :: m_uint32) mod 2048"
      by (simp only: unsigned_take_bit_eq) (simp add: take_bit_eq_mod)
    then show ?thesis using s(2) assms(3) by (simp only:) simp
  qed
  moreover obtain log m' where r: "macb_send (tx_poll env) (of_nat (unat n)) (buf_addr env) m = (log, m')" by fastforce
  moreover have "rx_ok m'" "tx_ok m'" "rx_tail m' = rx_tail m"
    using macb_send_ok [OF assms(1) r] assms(2) by (simp_all add: rx_ok_def)
  moreover have "uint n \<le> 512" using assms(3) unfolding unat_eq_nat_uint by linarith
  ultimately show ?thesis
    unfolding w using s assms(3,4) by (intro exI [of _ m']) (simp add: net_send_def sys_net_step_def NET_SEND_def NET_OK_def Let_def)
qed

text \<open>
  C9. One turn of the web server, from the ring of the controller to the ring of the controller.
  With a frame in the ring of at most 408 bytes (and, if it is an IP packet, with an IP length
  of at least 20 and options that end), the turn takes exactly that frame from the ring, stays
  inside the packet buffer in every layer, keeps the invariants of all of them, and hands the
  controller no frame or one frame, the contents of the packet buffer, of at most 422 bytes.
\<close>

theorem http_turn_safe:
  assumes "http_ok s a" "rx_ok m" "tx_ok m" "rx_frame m k len" "sane_frame (rx_bytes m len) s"
  shows "\<exists>out s' a' m'. http_turn env stack (s, a, m) = Inr (out, s', a', m') \<and> http_ok s' a' \<and> rx_ok m' \<and> tx_ok m' \<and>
    rx_tail m' = (rx_tail m + k) mod MACB_RX_RING_SIZE \<and>
    (\<forall>f. out = Some f \<longrightarrow> f = take (unat (uip_len s')) (uip_buf s') \<and> length f \<le> 422)"
proof -
  have len: "0 < len" "len \<le> 512" "length (rx_bytes m len) = len"
    using assms(4) length_rx_bytes [OF assms(2)] by (simp_all add: rx_frame_def)
  then have l: "len \<le> 408" using assms(5) by (simp add: sane_frame_def)
  have inv: "uip_inv http_inv s" using assms(1) by (simp add: http_ok_def)
  have b: "length (uip_buf s) = 422" using inv by (rule uip_invD)
  have lb: "len \<le> length (uip_buf s)" using l b by simp
  obtain m1 where m1: "net_recv env stack (uip_buf s) m = Inr (int len, rx_bytes m len @ drop len (uip_buf s), m1)" "rx_ok m1" "tx_ok m1"
    "rx_tail m1 = (rx_tail m + k) mod MACB_RX_RING_SIZE"
    using net_recv_frame [OF assms(2,4) lb assms(3)] by blast
  define s1 where "s1 = s\<lparr>uip_buf := rx_bytes m len @ drop len (uip_buf s), uip_len := of_nat len\<rparr>"
  have ok1: "http_ok s1 a" using assms(1) inv len l b by (auto simp: http_ok_def s1_def intro!: uip_inv_conns [OF inv])
  have n1: "unat (uip_len s1) \<le> 408" using l by (simp add: s1_def unsigned_of_nat take_bit_eq_mod)
  have i1: "20 \<le> unat (ip_length s1) \<and> options_end s1" if "read_u16 ETH_TYPE s1 = htons UIP_ETHTYPE_IP" "uip_len s1 > 0"
  proof -
    let ?t = "s\<lparr>uip_buf := rx_bytes m len @ drop len (uip_buf s)\<rparr>"
    have "uip_buf s1 = uip_buf ?t" by (simp add: s1_def)
    then have "read_u16 ETH_TYPE s1 = read_u16 ETH_TYPE ?t" "ip_length s1 = ip_length ?t" "options_end s1 = options_end ?t"
      using options_end_buf [of s1 ?t] by (simp_all add: read_u16_def ip_length_def get8_def)
    with assms(5) that(1) len(3) show ?thesis by (simp add: sane_frame_def Let_def)
  qed
  obtain sends s' a' where h: "http_handle (s1, a) = Inr (sends, s', a')" "http_ok s' a'" "sends \<longrightarrow> unat (uip_len s') \<le> 422"
    using http_handle_ok [OF ok1 n1 i1] by blast
  have b': "length (uip_buf s') = 422" using h(2) by (auto simp: http_ok_def dest: uip_invD)
  show ?thesis
  proof (cases sends)
    case True
    with h(3) have "unat (uip_len s') \<le> 422" by simp
    from net_send_frame [OF m1(3,2) this b', of env stack] obtain m' where
      "net_send env stack (ucast (uip_len s')) (uip_buf s') m1 = Inr (0, Some (take (unat (uip_len s')) (uip_buf s')), m')"
      "rx_ok m'" "tx_ok m'" "rx_tail m' = rx_tail m1" by blast
    with True m1 h b' show ?thesis by (simp add: http_turn_def s1_def [symmetric])
  next
    case False
    with m1 h show ?thesis by (simp add: http_turn_def s1_def [symmetric])
  qed
qed

text \<open>A ring with an ARP request of 42 bytes in its first buffer.\<close>

definition arp_ring :: macb_device where
  "arp_ring = demo_macb\<lparr>rx_tail := 0, rx_buffer := arp_packet @ replicate 4054 0,
     rx_ring := \<lparr>d_addr = 1, d_ctrl = 0xc02a\<rparr> # replicate 31 \<lparr>d_addr = 0, d_ctrl = 0\<rparr>\<rparr>"

lemma arp_ring_facts: "rx_ok arp_ring" "tx_ok arp_ring" "rx_frame arp_ring 1 42" "rx_bytes arp_ring 42 = arp_packet" "rx_tail arp_ring = 0"
proof -
  show "rx_ok arp_ring" "tx_ok arp_ring" "rx_bytes arp_ring 42 = arp_packet" "rx_tail arp_ring = 0"
    by (simp_all add: rx_ok_def tx_ok_def rx_bytes_def arp_ring_def demo_macb_def MACB_RX_BUFFER_SIZE_def MACB_RX_RING_SIZE_def
      MACB_TX_RING_SIZE_def length_arp_packet)
  have "rx_desc arp_ring 0 = \<lparr>d_addr = 1, d_ctrl = 0xc02a\<rparr>" by (simp add: rx_desc_def arp_ring_def MACB_RX_RING_SIZE_def)
  then show "rx_frame arp_ring 1 42"
    by (simp add: rx_frame_def RX_USED_def RX_SOF_def RX_EOF_def MACB_BIT_def RXBUF_FRMLEN_MASK_def MACB_RX_BUFFER_SIZE_def)
qed

theorem http_turn_safe_witness:
  "\<exists>out s' a' m'. http_turn \<lparr>tx_poll = (\<lambda>_. TX_USED), rx_delay = (\<lambda>_ m. m), buf_addr = 0x2000\<rparr>
     \<lparr>net_type = 0, net_length = 0, net_buf = replicate 512 0\<rparr> (host_with [], some_arp, arp_ring) = Inr (out, s', a', m') \<and>
     http_ok s' a' \<and> rx_tail m' = 1"
proof -
  have "http_ok (host_with []) some_arp" using host_inv [of "[]"] some_arp_ok by (simp add: http_ok_def)
  moreover have "sane_frame (rx_bytes arp_ring 42) (host_with [])"
  proof -
    have "read_u16 ETH_TYPE (host_with []\<lparr>uip_buf := arp_packet @ r\<rparr>) \<noteq> htons UIP_ETHTYPE_IP" for r
      by (simp add: read_u16_def ETH_TYPE_def arp_packet_def le16_def htons_def UIP_ETHTYPE_IP_def)
    then show ?thesis by (simp add: sane_frame_def arp_ring_facts length_arp_packet Let_def)
  qed
  ultimately show ?thesis
    using http_turn_safe [OF _ arp_ring_facts(1,2,3)] arp_ring_facts(5) by (fastforce simp: MACB_RX_RING_SIZE_def)
qed

text \<open>
  net_recv copies as many bytes as the frame has, up to 512, into the packet buffer of 422 bytes: a
  longer frame is written past its end.
\<close>

theorem long_frame_overflows:
  assumes "http_ok s a" "rx_ok m" "rx_frame m k len" "422 < len"
  shows "http_turn env stack (s, a, m) = Inl Out_of_bounds"
proof -
  have len: "len \<le> 512" "length (rx_bytes m len) = len" using assms(3) length_rx_bytes [OF assms(2)] by (simp_all add: rx_frame_def)
  have b: "length (uip_buf s) = 422" using assms(1) by (auto simp: http_ok_def dest: uip_invD)
  obtain m' where "macb_recv (rx_delay env) m = Inr (Some (rx_bytes m len), m')" using macb_recv_frame [OF assms(2,3)] by blast
  then have "net_recv env stack (uip_buf s) m = Inl Out_of_bounds"
    using len b assms(4) small_sint [OF len(1)] by (simp add: net_recv_def sys_net_step_def NET_SEND_def NET_RECV_def NET_OK_def)
  then show ?thesis by (simp add: http_turn_def)
qed

end
