(* ===== verification/Block_Tree.thy ===== *)
theory Block_Tree
  imports Egos_Prelude "HOL-Library.Multiset"
begin

text \<open>
  The block structures a treedisk file system keeps on its disk, as facts about a memory of
  blocks: the radix tree of a file (an array of 128 references per level, 0 for a hole) with
  the blocks it occupies, and the chained free list. They are the abstract side of the proofs
  about library/file/file.c; the program itself is modelled in theory \<open>Treedisk\<close>.
\<close>

type_synonym block_no = m_uint32
type_synonym block = "m_uint32 list"
type_synonym blockmem = "block_no \<Rightarrow> block"

definition REFS_PER_BLOCK :: nat where "REFS_PER_BLOCK = 128"

definition null_block :: block where "null_block = replicate REFS_PER_BLOCK 0"

lemma length_null_block [simp]: "length null_block = 128"
  by (simp add: null_block_def REFS_PER_BLOCK_def)

lemma null_block_nth [simp]: "i < 128 \<Longrightarrow> null_block ! i = 0"
  by (simp add: null_block_def REFS_PER_BLOCK_def)

section \<open>Trees\<close>

definition tindex :: "block_no \<Rightarrow> nat \<Rightarrow> nat" where
  "tindex off l = unat off div 128 ^ l mod 128"

fun tblocks :: "blockmem \<Rightarrow> nat \<Rightarrow> block_no \<Rightarrow> block_no set" where
  "tblocks m 0 b = {b} - {0}"
| "tblocks m (Suc l) b = (if b = 0 then {} else insert b (\<Union>i<128. tblocks m l (m b ! i)))"

fun twf :: "blockmem \<Rightarrow> nat \<Rightarrow> block_no \<Rightarrow> bool" where
  "twf m 0 b \<longleftrightarrow> (b \<noteq> 0 \<longrightarrow> length (m b) = 128)"
| "twf m (Suc l) b \<longleftrightarrow> (b \<noteq> 0 \<longrightarrow> length (m b) = 128 \<and>
     (\<forall>i < 128. twf m l (m b ! i) \<and> b \<notin> tblocks m l (m b ! i)) \<and>
     (\<forall>i < 128. \<forall>j < 128. i \<noteq> j \<longrightarrow> tblocks m l (m b ! i) \<inter> tblocks m l (m b ! j) = {}))"

fun tget :: "blockmem \<Rightarrow> nat \<Rightarrow> block_no \<Rightarrow> block_no \<Rightarrow> block" where
  "tget m 0 b off = (if b = 0 then null_block else m b)"
| "tget m (Suc l) b off = (if b = 0 then null_block else tget m l (m b ! tindex off l) off)"

lemma tblocks_hole [simp]: "tblocks m l 0 = {}"
  by (cases l) simp_all

lemma twf_hole [simp]: "twf m l 0"
  by (cases l) simp_all

lemma tget_hole [simp]: "tget m l 0 off = null_block"
  by (cases l) simp_all

lemma tblocks_nonzero: "0 \<notin> tblocks m l b"
  by (induction l arbitrary: b) auto

lemma tindex_less: "tindex off l < 128"
  by (simp add: tindex_def)

lemma root_in_tblocks: "b \<noteq> 0 \<Longrightarrow> b \<in> tblocks m l b"
  by (cases l) simp_all

text \<open>Trees depend on their own blocks only.\<close>

lemma tree_frame:
  "\<forall>x \<in> tblocks m l b. m' x = m x \<Longrightarrow>
   tblocks m' l b = tblocks m l b \<and> twf m' l b = twf m l b \<and> (\<forall>off. tget m' l b off = tget m l b off)"
proof (induction l arbitrary: b)
  case (Suc l)
  show ?case
  proof (cases "b = 0")
    case False
    then have b: "m' b = m b" using Suc.prems by simp
    have *: "tblocks m' l (m b ! i) = tblocks m l (m b ! i) \<and> twf m' l (m b ! i) = twf m l (m b ! i) \<and>
        (\<forall>off. tget m' l (m b ! i) off = tget m l (m b ! i) off)" if "i < 128" for i
      using Suc.prems False that by (intro Suc.IH) auto
    then have "tget m' l (m b ! tindex off l) off = tget m l (m b ! tindex off l) off" for off
      using tindex_less by blast
    with * b show ?thesis by simp
  qed simp
qed auto

lemma twf_length: "twf m l b \<Longrightarrow> b \<noteq> 0 \<Longrightarrow> length (m b) = 128"
  by (cases l) auto

text \<open>Replacing the child on the way to an offset.\<close>

lemma tree_replace_child:
  assumes wf: "twf m (Suc l) b" and b: "b \<noteq> 0" and k: "k < 128"
    and m'b: "m' b = (m b)[k := c]"
    and frame: "\<forall>i < 128. i \<noteq> k \<longrightarrow> (\<forall>x \<in> tblocks m l (m b ! i). m' x = m x)"
    and child: "twf m' l c" "b \<notin> tblocks m' l c"
      "\<forall>i < 128. i \<noteq> k \<longrightarrow> tblocks m' l c \<inter> tblocks m l (m b ! i) = {}"
  shows "twf m' (Suc l) b"
    "tblocks m' (Suc l) b = insert b (tblocks m' l c \<union> (\<Union>i \<in> {..<128} - {k}. tblocks m l (m b ! i)))"
    "tget m' (Suc l) b off = (if tindex off l = k then tget m' l c off else tget m (Suc l) b off)"
proof -
  have len: "length (m b) = 128" using wf b by simp
  have ch: "m' b ! i = (if i = k then c else m b ! i)" if "i < 128" for i
    using that len k by (simp add: m'b nth_list_update)
  have same: "tblocks m' l (m b ! i) = tblocks m l (m b ! i) \<and> twf m' l (m b ! i) = twf m l (m b ! i) \<and>
      (\<forall>off. tget m' l (m b ! i) off = tget m l (m b ! i) off)" if "i < 128" "i \<noteq> k" for i
    using frame that by (intro tree_frame) auto
  have tb: "tblocks m' l (m' b ! i) = (if i = k then tblocks m' l c else tblocks m l (m b ! i))" if "i < 128" for i
    using same [of i] ch [OF that] that by simp
  have "twf m' l (m' b ! i) \<and> b \<notin> tblocks m' l (m' b ! i)" if "i < 128" for i
    using wf b child(1,2) same [of i] ch [OF that] that by (cases "i = k") auto
  moreover have "tblocks m' l (m' b ! i) \<inter> tblocks m' l (m' b ! j) = {}" if "i < 128" "j < 128" "i \<noteq> j" for i j
    using wf b child(3) that tb by (cases "i = k"; cases "j = k") auto
  ultimately show "twf m' (Suc l) b" using len by (simp add: m'b)
  have "tblocks m' (Suc l) b = insert b (\<Union>i<128. tblocks m' l (m' b ! i))" using b by simp
  also have "(\<Union>i<128. tblocks m' l (m' b ! i)) = tblocks m' l c \<union> (\<Union>i \<in> {..<128} - {k}. tblocks m l (m b ! i))"
    using tb k by (auto split: if_splits)
  finally show "tblocks m' (Suc l) b = insert b (tblocks m' l c \<union> (\<Union>i \<in> {..<128} - {k}. tblocks m l (m b ! i)))" .
  show "tget m' (Suc l) b off = (if tindex off l = k then tget m' l c off else tget m (Suc l) b off)"
    using b ch [OF tindex_less, of off l] same [OF tindex_less, of off l] by simp
qed

text \<open>Two offsets lead to the same leaf of a tree with \<open>l\<close> levels.\<close>

definition same_leaf :: "nat \<Rightarrow> block_no \<Rightarrow> block_no \<Rightarrow> bool" where
  "same_leaf l o1 o2 \<longleftrightarrow> (\<forall>i < l. tindex o1 i = tindex o2 i)"

lemma same_leaf_0 [simp]: "same_leaf 0 o1 o2"
  by (simp add: same_leaf_def)

lemma same_leaf_Suc: "same_leaf (Suc l) o1 o2 \<longleftrightarrow> tindex o1 l = tindex o2 l \<and> same_leaf l o1 o2"
  by (auto simp: same_leaf_def less_Suc_eq)

lemma same_leaf_iff:
  "same_leaf l o1 o2 \<longleftrightarrow> unat o1 mod 128 ^ l = unat o2 mod 128 ^ l"
proof (induction l)
  case (Suc l)
  have split: "x mod 128 ^ Suc l = x mod 128 ^ l + 128 ^ l * (x div 128 ^ l mod 128)" for x :: nat
    using mod_mult2_eq [of x "128 ^ l" 128] by (simp add: mult.commute)
  have "x mod 128 ^ Suc l = y mod 128 ^ Suc l \<longleftrightarrow>
      x div 128 ^ l mod 128 = y div 128 ^ l mod 128 \<and> x mod 128 ^ l = y mod 128 ^ l" for x y :: nat
  proof
    assume eq: "x mod 128 ^ Suc l = y mod 128 ^ Suc l"
    have "x mod 128 ^ Suc l mod 128 ^ l = y mod 128 ^ Suc l mod 128 ^ l" "x mod 128 ^ Suc l div 128 ^ l = y mod 128 ^ Suc l div 128 ^ l"
      using eq by simp_all
    then show "x div 128 ^ l mod 128 = y div 128 ^ l mod 128 \<and> x mod 128 ^ l = y mod 128 ^ l"
      unfolding split by simp
  qed (simp only: split)
  with Suc show ?case by (simp add: same_leaf_Suc tindex_def)
qed simp

lemma same_leaf_small:
  "unat o1 < 128 ^ l \<Longrightarrow> unat o2 < 128 ^ l \<Longrightarrow> same_leaf l o1 o2 \<longleftrightarrow> o1 = o2"
  by (simp add: same_leaf_iff word_unat_eq_iff)

section \<open>The free list\<close>

text \<open>
  The free list starts at \<open>h\<close> and runs through the blocks \<open>cs\<close>: reference 0 of each is the
  next one, the other non-zero references are further free blocks.
\<close>

fun fchain :: "blockmem \<Rightarrow> block_no \<Rightarrow> block_no list \<Rightarrow> bool" where
  "fchain m h [] \<longleftrightarrow> h = 0"
| "fchain m h (c # cs) \<longleftrightarrow> h = c \<and> c \<noteq> 0 \<and> length (m c) = 128 \<and> fchain m (m c ! 0) cs"

definition frefs :: "blockmem \<Rightarrow> block_no list \<Rightarrow> block_no list" where
  "frefs m cs = concat (map (\<lambda>c. c # filter (\<lambda>r. r \<noteq> 0) (tl (m c))) cs)"

lemma frefs_simps [simp]:
  "frefs m [] = []" "frefs m (c # cs) = c # filter (\<lambda>r. r \<noteq> 0) (tl (m c)) @ frefs m cs"
  by (simp_all add: frefs_def)

lemma fchain_frame:
  "\<forall>c \<in> set cs. m' c = m c \<Longrightarrow> fchain m' h cs = fchain m h cs \<and> frefs m' cs = frefs m cs"
  by (induction cs arbitrary: h) auto

lemma set_frefs: "set cs \<subseteq> set (frefs m cs)"
  by (auto simp: frefs_def)

lemma frefs_nonzero: "fchain m h cs \<Longrightarrow> 0 \<notin> set (frefs m cs)"
  by (induction cs arbitrary: h) auto

text \<open>Taking a reference out of the first block.\<close>

lemma filter_update_mset:
  assumes "i < length xs" "xs ! i \<noteq> (0 :: block_no)"
  shows "mset (filter (\<lambda>r. r \<noteq> 0) xs) = add_mset (xs ! i) (mset (filter (\<lambda>r. r \<noteq> 0) (xs[i := 0])))"
proof -
  have "xs = take i xs @ xs ! i # drop (Suc i) xs" using assms(1) by (rule id_take_nth_drop)
  then have 1: "filter (\<lambda>r. r \<noteq> 0) xs
      = filter (\<lambda>r. r \<noteq> 0) (take i xs) @ xs ! i # filter (\<lambda>r. r \<noteq> 0) (drop (Suc i) xs)"
    using assms(2) by (metis (mono_tags, lifting) filter.simps(2) filter_append)
  have "filter (\<lambda>r. r \<noteq> 0) (xs[i := 0])
      = filter (\<lambda>r. r \<noteq> 0) (take i xs) @ filter (\<lambda>r. r \<noteq> 0) (drop (Suc i) xs)"
    using upd_conv_take_nth_drop [OF assms(1), of 0] by simp
  with 1 show ?thesis by simp
qed

lemma fchain_take_ref:
  assumes "fchain m h (c # cs)" "distinct (frefs m (c # cs))" "0 < i" "i < 128" "m c ! i \<noteq> 0"
  defines "m' \<equiv> m(c := (m c)[i := 0])"
  shows "fchain m' h (c # cs)" "mset (frefs m (c # cs)) = add_mset (m c ! i) (mset (frefs m' (c # cs)))"
proof -
  have c: "c \<notin> set cs" "length (m c) = 128"
    using assms(1,2) set_frefs [of cs m] by auto
  have rest: "fchain m' h' cs = fchain m h' cs \<and> frefs m' cs = frefs m cs" for h'
    using c(1) by (intro fchain_frame) (auto simp: m'_def)
  have tl: "tl ((m c)[i := 0]) = (tl (m c))[i - 1 := 0]" "tl (m c) ! (i - 1) = m c ! i" "i - 1 < length (tl (m c))"
    using assms(3,4) c(2) by (cases "m c"; cases i; simp)+
  show "fchain m' h (c # cs)"
    using assms(1,3) c rest by (auto simp: m'_def)
  show "mset (frefs m (c # cs)) = add_mset (m c ! i) (mset (frefs m' (c # cs)))"
    using filter_update_mset [OF tl(3)] assms(5) rest tl(1,2) by (simp add: m'_def)
qed

lemma fchain_pop:
  assumes "fchain m h (c # cs)" "\<forall>i. 0 < i \<and> i < 128 \<longrightarrow> m c ! i = 0"
  shows "fchain m (m c ! 0) cs" "frefs m (c # cs) = c # frefs m cs"
proof -
  have "r = 0" if "r \<in> set (tl (m c))" for r
    using that assms by (auto simp: in_set_conv_nth nth_tl)
  then show "frefs m (c # cs) = c # frefs m cs" by (simp add: filter_empty_conv)
qed (use assms(1) in simp)

section \<open>Writing below a reference\<close>

text \<open>
  What the walk for a write leaves behind: the reference \<open>b\<close> of the old memory has become
  \<open>b'\<close>, the tree below it is well-formed, and filling block \<open>t\<close> changes the content at the
  offset written and at no other.
\<close>

definition walk_post :: "blockmem \<Rightarrow> nat \<Rightarrow> block_no \<Rightarrow> block_no \<Rightarrow> blockmem \<Rightarrow> block_no \<Rightarrow> block_no \<Rightarrow> bool" where
  "walk_post m n b off m' b' t \<longleftrightarrow> b' \<noteq> 0 \<and> t \<in> tblocks m' n b' \<and>
     (\<forall>x. length x = 128 \<longrightarrow> twf (m'(t := x)) n b' \<and> tblocks (m'(t := x)) n b' = tblocks m' n b' \<and>
        (\<forall>o1. tget (m'(t := x)) n b' o1 = (if same_leaf n o1 off then x else tget m n b o1)))"

lemma walk_post_leaf: "b' \<noteq> 0 \<Longrightarrow> walk_post m 0 b off m' b' b'"
  by (simp add: walk_post_def)

lemma walk_post_twf:
  assumes "walk_post m n b off m' b' t" "length (m' t) = 128"
  shows "twf m' n b'"
  using assms fun_upd_triv [of m' t] unfolding walk_post_def by (metis (no_types))

lemma walk_post_Suc:
  assumes wf: "twf m (Suc n) b" and b: "b \<noteq> 0" and k: "k = tindex off n"
    and m'b: "m' b = (m b)[k := c]" and post: "walk_post m n (m b ! k) off m' c t"
    and frame: "\<forall>i < 128. i \<noteq> k \<longrightarrow> (\<forall>x \<in> tblocks m n (m b ! i). m' x = m x)"
    and dis: "b \<notin> tblocks m' n c" "\<forall>i < 128. i \<noteq> k \<longrightarrow> tblocks m' n c \<inter> tblocks m n (m b ! i) = {}"
    and len: "length (m' t) = 128"
  shows "walk_post m (Suc n) b off m' b t"
    "tblocks m' (Suc n) b = insert b (tblocks m' n c \<union> (\<Union>i \<in> {..<128} - {k}. tblocks m n (m b ! i)))"
proof -
  have k128: "k < 128" by (simp add: k tindex_less)
  have t: "t \<in> tblocks m' n c" "t \<noteq> b" using post dis(1) by (auto simp: walk_post_def)
  have child: "twf (m'(t := x)) n c" "tblocks (m'(t := x)) n c = tblocks m' n c"
    "tget (m'(t := x)) n c o1 = (if same_leaf n o1 off then x else tget m n (m b ! k) o1)"
    if "length x = 128" for x o1
    using post that by (simp_all add: walk_post_def)
  have frame': "\<forall>i < 128. i \<noteq> k \<longrightarrow> (\<forall>y \<in> tblocks m n (m b ! i). (m'(t := x)) y = m y)" for x
    using frame dis(2) t(1) by auto
  have mb: "(m'(t := x)) b = (m b)[k := c]" for x using m'b t(2) by simp
  have rep: "twf (m'(t := x)) (Suc n) b"
    "tblocks (m'(t := x)) (Suc n) b = insert b (tblocks m' n c \<union> (\<Union>i \<in> {..<128} - {k}. tblocks m n (m b ! i)))"
    "tget (m'(t := x)) (Suc n) b o1 = (if tindex o1 n = k then tget (m'(t := x)) n c o1 else tget m (Suc n) b o1)"
    if x: "length x = 128" for x o1
  proof -
    let ?m = "m'(t := x)"
    have "b \<notin> tblocks ?m n c" "\<forall>i < 128. i \<noteq> k \<longrightarrow> tblocks ?m n c \<inter> tblocks m n (m b ! i) = {}"
      using dis unfolding child(2) [OF x] by blast+
    note r = tree_replace_child [where m' = ?m, OF wf b k128 mb frame' child(1) [OF x] this]
    from r show "twf ?m (Suc n) b"
      "tblocks ?m (Suc n) b = insert b (tblocks m' n c \<union> (\<Union>i \<in> {..<128} - {k}. tblocks m n (m b ! i)))"
      "tget ?m (Suc n) b o1 = (if tindex o1 n = k then tget ?m n c o1 else tget m (Suc n) b o1)"
      unfolding child(2) [OF x] by blast+
  qed
  show tb: "tblocks m' (Suc n) b = insert b (tblocks m' n c \<union> (\<Union>i \<in> {..<128} - {k}. tblocks m n (m b ! i)))"
    using rep(2) [OF len] by (simp only: fun_upd_triv)
  have "tget (m'(t := x)) (Suc n) b o1 = (if same_leaf (Suc n) o1 off then x else tget m (Suc n) b o1)"
    if x: "length x = 128" for x o1
    using rep(3) [OF x] child(3) [OF x] b k by (simp add: same_leaf_Suc del: fun_upd_apply)
  then show "walk_post m (Suc n) b off m' b t"
    using b t(1) rep(1,2) tb by (simp add: walk_post_def del: tblocks.simps twf.simps tget.simps)
qed

lemma tree_on_top:
  assumes b: "m b = null_block[0 := r]" "b \<noteq> 0" and r: "twf m l r" "b \<notin> tblocks m l r"
  shows "twf m (Suc l) b" "tblocks m (Suc l) b = insert b (tblocks m l r)"
    "tget m (Suc l) b off = (if tindex off l = 0 then tget m l r off else null_block)"
proof -
  have ch: "m b ! i = (if i = 0 then r else 0)" if "i < 128" for i
    using that by (simp add: b(1) nth_list_update)
  then have tb: "tblocks m l (m b ! i) = (if i = 0 then tblocks m l r else {})" if "i < 128" for i using that by simp
  have "length (m b) = 128" by (simp add: b(1))
  with b(2) r ch tb show "twf m (Suc l) b" by auto
  have "(\<Union>i<128. tblocks m l (m b ! i)) = tblocks m l r" using tb by (auto split: if_splits)
  with b(2) show "tblocks m (Suc l) b = insert b (tblocks m l r)" by simp
  show "tget m (Suc l) b off = (if tindex off l = 0 then tget m l r off else null_block)"
    using b(2) ch [OF tindex_less] by simp
qed

lemma tindex_zero_iff:
  assumes "unat off < 128 ^ (l + n)"
  shows "(\<forall>i. l \<le> i \<and> i < l + n \<longrightarrow> tindex off i = 0) \<longleftrightarrow> unat off < 128 ^ l"
proof
  assume "unat off < 128 ^ l"
  then have "unat off < 128 ^ i" if "l \<le> i" for i
    using order_less_le_trans [OF _ power_increasing [OF that, of "128 :: nat"]] by simp
  then show "\<forall>i. l \<le> i \<and> i < l + n \<longrightarrow> tindex off i = 0" by (simp add: tindex_def)
next
  assume z: "\<forall>i. l \<le> i \<and> i < l + n \<longrightarrow> tindex off i = 0"
  have "k \<le> n \<Longrightarrow> unat off < 128 ^ (l + n - k)" for k
  proof (induction k)
    case (Suc k)
    let ?i = "l + n - Suc k"
    have "l + n - k = Suc ?i" using Suc.prems by simp
    then have "unat off div 128 ^ ?i < 128" using Suc by (simp add: less_mult_imp_div_less)
    moreover have "tindex off ?i = 0" using z Suc.prems by auto
    ultimately have "unat off div 128 ^ ?i = 0" by (simp add: tindex_def)
    then show ?case by (simp add: div_eq_0_iff)
  qed (use assms in simp)
  from this [of n] show "unat off < 128 ^ l" by simp
qed

end
