(* ===== verification/Treedisk.thy ===== *)
theory Treedisk
  imports Block_Tree
begin

text \<open>
  library/file/inode.h, file.h and file.c: the interface of an inode store and the treedisk
  file system, which virtualises many inode stores on one inode of a store below.

  A block of 512 bytes is the list of its 128 little-endian words. The struct of function
  pointers \<^verbatim>\<open>inode_store_t\<close> is a record of functions on the state \<open>'d\<close> of the disk below;
  \<open>Inr None\<close> stands for the return value -1 and \<open>Inl\<close> for a panic. The one unchecked read, in
  \<^verbatim>\<open>treedisk_alloc_block\<close>, would go on with an uninitialised buffer, which is the fault
  \<open>Out_of_bounds\<close> here. In \<^verbatim>\<open>treedisk_write\<close> the parent pointers refer to the buffer
  \<^verbatim>\<open>tib\<close> of the previous loop iteration; the model gives that buffer the lifetime the
  code assumes.
\<close>

section \<open>Inode stores\<close>

record 'd inode_store =
  bs_getsize :: "m_uint32 \<Rightarrow> 'd \<Rightarrow> int res"
  bs_setsize :: "m_uint32 \<Rightarrow> block_no \<Rightarrow> 'd \<Rightarrow> (int \<times> 'd) res"
  bs_read :: "m_uint32 \<Rightarrow> block_no \<Rightarrow> 'd \<Rightarrow> block option res"
  bs_write :: "m_uint32 \<Rightarrow> block_no \<Rightarrow> block \<Rightarrow> 'd \<Rightarrow> 'd option res"

definition INODES_PER_BLOCK :: nat where "INODES_PER_BLOCK = 64"

text \<open>Continue when a call of the store below succeeds, or do the alternative.\<close>

definition on_success :: "'a option res \<Rightarrow> 'b res \<Rightarrow> ('a \<Rightarrow> 'b res) \<Rightarrow> 'b res" where
  "on_success m err f = rbind m (\<lambda>r. case r of None \<Rightarrow> err | Some x \<Rightarrow> f x)"

lemma on_success_simps [simp]:
  "on_success (Inl e) err f = Inl e" "on_success (Inr None) err f = err" "on_success (Inr (Some x)) err f = f x"
  by (simp_all add: on_success_def)

section \<open>The tree disk\<close>

function log_rpb_loop :: "nat \<Rightarrow> nat" where
  "log_rpb_loop k = (if drop_bit (Suc k) (REFS_PER_BLOCK - 1) \<noteq> 0 then log_rpb_loop (Suc k) else Suc k)"
  by auto
termination
proof (relation "measure (\<lambda>k. 128 - k)")
  fix k assume "drop_bit (Suc k) (REFS_PER_BLOCK - 1) \<noteq> 0"
  then have "2 ^ Suc k \<le> (127 :: nat)"
    by (auto simp: REFS_PER_BLOCK_def drop_bit_eq_div div_eq_0_iff not_less)
  then have "k < 127" using less_exp [of "Suc k"] by linarith
  then show "(Suc k, k) \<in> measure (\<lambda>k. 128 - k)" by simp
qed simp

definition log_rpb :: nat where "log_rpb = log_rpb_loop 0"

definition log_shift_r :: "block_no \<Rightarrow> nat \<Rightarrow> block_no" where
  "log_shift_r x nbits = (if nbits \<ge> 32 then 0 else drop_bit nbits x)"

lemma log_rpb_eq: "log_rpb = 7"
  by (simp add: log_rpb_def REFS_PER_BLOCK_def drop_bit_eq_div log_rpb_loop.simps)

function nlevels_from :: "block_no \<Rightarrow> nat \<Rightarrow> nat" where
  "nlevels_from x n = (if log_shift_r x (n * log_rpb) \<noteq> 0 then nlevels_from x (Suc n) else n)"
  by auto
termination
  by (relation "measure (\<lambda>(x, n). 32 - n)") (auto simp: log_shift_r_def log_rpb_eq split: if_splits)

declare nlevels_from.simps [simp del] log_rpb_loop.simps [simp del]

definition nlevels :: "block_no \<Rightarrow> nat" where
  "nlevels nblocks = (if nblocks > 0 then nlevels_from (nblocks - 1) 0 else 0)"

definition tree_index :: "block_no \<Rightarrow> nat \<Rightarrow> nat" where
  "tree_index offset n = unat (log_shift_r offset (n * log_rpb)) mod REFS_PER_BLOCK"

text \<open>
  A superblock holds the number of inode blocks and the head of the free list in its first
  two words; inode \<open>i\<close> of an inode block is the root reference in word \<open>2 i\<close> and the number
  of blocks in word \<open>2 i + 1\<close>.
\<close>

definition n_inodeblocks :: "block \<Rightarrow> m_uint32" where "n_inodeblocks sb = sb ! 0"
definition free_list :: "block \<Rightarrow> block_no" where "free_list sb = sb ! 1"
definition root_word :: "m_uint32 \<Rightarrow> nat" where "root_word ino = 2 * (unat ino mod INODES_PER_BLOCK)"
definition nblocks_word :: "m_uint32 \<Rightarrow> nat" where "nblocks_word ino = 2 * (unat ino mod INODES_PER_BLOCK) + 1"

record treedisk_snapshot =
  superblock :: block
  inodeblock :: block
  inode_blockno :: block_no

definition treedisk_get_snapshot ::
  "'d inode_store \<Rightarrow> m_uint32 \<Rightarrow> m_uint32 \<Rightarrow> 'd \<Rightarrow> treedisk_snapshot option res" where
  "treedisk_get_snapshot below below_ino inode_no d =
     on_success (bs_read below below_ino 0 d) (Inr None) (\<lambda>sb.
     if inode_no \<ge> n_inodeblocks sb * of_nat INODES_PER_BLOCK then Inr None
     else let blockno = 1 + inode_no div of_nat INODES_PER_BLOCK
          in on_success (bs_read below below_ino blockno d) (Inr None) (\<lambda>ib.
             Inr (Some \<lparr>superblock = sb, inodeblock = ib, inode_blockno = blockno\<rparr>)))"

text \<open>The scan \<^verbatim>\<open>for (i = REFS_PER_BLOCK; --i > 0;)\<close> for a non-zero reference.\<close>

fun scan_refs :: "block \<Rightarrow> nat \<Rightarrow> nat" where
  "scan_refs refs 0 = 0"
| "scan_refs refs (Suc i) = (if i > 0 \<and> refs ! i = 0 then scan_refs refs i else i)"

definition treedisk_alloc_block ::
  "'d inode_store \<Rightarrow> m_uint32 \<Rightarrow> block \<Rightarrow> 'd \<Rightarrow> (block_no \<times> block \<times> 'd) res" where
  "treedisk_alloc_block below below_ino sb d =
     (let b = free_list sb
      in if b = 0 then Inl (Fatal ''treedisk_alloc_block: inode store is full'')
         else on_success (bs_read below below_ino b d) (Inl Out_of_bounds) (\<lambda>freelistblock.
              let i = scan_refs freelistblock REFS_PER_BLOCK
              in if i = 0
                 then let sb = sb[1 := freelistblock ! 0]
                      in on_success (bs_write below below_ino 0 sb d)
                           (Inl (Fatal ''treedisk_alloc_block: superblock''))
                           (\<lambda>d. Inr (b, sb, d))
                 else on_success (bs_write below below_ino b (freelistblock[i := 0]) d)
                        (Inl (Fatal ''treedisk_alloc_block: freelistblock''))
                        (\<lambda>d. Inr (freelistblock ! i, sb, d))))"

definition treedisk_getsize :: "'d inode_store \<Rightarrow> m_uint32 \<Rightarrow> m_uint32 \<Rightarrow> 'd \<Rightarrow> int res" where
  "treedisk_getsize below below_ino ino d =
     on_success (treedisk_get_snapshot below below_ino ino d) (Inr (- 1)) (\<lambda>sn.
     Inr (sint (inodeblock sn ! nblocks_word ino)))"

definition treedisk_setsize :: "m_uint32 \<Rightarrow> block_no \<Rightarrow> 'd \<Rightarrow> (int \<times> 'd) res" where
  "treedisk_setsize ino nblocks d = Inr (- 1, d)"

text \<open>The loop that walks down from the root block, with \<open>n\<close> levels to go.\<close>

fun read_walk :: "'d inode_store \<Rightarrow> m_uint32 \<Rightarrow> block_no \<Rightarrow> nat \<Rightarrow> block_no \<Rightarrow> 'd \<Rightarrow> block option res" where
  "read_walk below below_ino offset 0 b d =
     (if b = 0 then Inr (Some null_block) else bs_read below below_ino b d)"
| "read_walk below below_ino offset (Suc n) b d =
     (if b = 0 then Inr (Some null_block)
      else on_success (bs_read below below_ino b d) (Inr None) (\<lambda>tib.
           read_walk below below_ino offset n (tib ! tree_index offset n) d))"

definition treedisk_read ::
  "'d inode_store \<Rightarrow> m_uint32 \<Rightarrow> m_uint32 \<Rightarrow> block_no \<Rightarrow> 'd \<Rightarrow> block option res" where
  "treedisk_read below below_ino ino offset d =
     on_success (treedisk_get_snapshot below below_ino ino d) (Inr None) (\<lambda>sn.
     let nblocks = inodeblock sn ! nblocks_word ino
     in if offset \<ge> nblocks then Inr None
        else read_walk below below_ino offset (nlevels nblocks) (inodeblock sn ! root_word ino) d)"

text \<open>
  The loop that puts \<open>n\<close> indirect blocks on top of the root. Its state is the superblock of the
  snapshot, the root and the disk.
\<close>

fun grow_levels ::
  "'d inode_store \<Rightarrow> m_uint32 \<Rightarrow> nat \<Rightarrow> block \<Rightarrow> block_no \<Rightarrow> 'd \<Rightarrow> (block \<times> block_no \<times> 'd) res" where
  "grow_levels below below_ino 0 sb root d = Inr (sb, root, d)"
| "grow_levels below below_ino (Suc n) sb root d =
     rbind (treedisk_alloc_block below below_ino sb d) (\<lambda>(indir, sb, d).
     on_success (bs_write below below_ino indir (null_block[0 := root]) d)
       (Inl (Fatal ''treedisk_write: indirect block''))
       (\<lambda>d. grow_levels below below_ino n sb indir d))"

text \<open>
  The loop that finds or allocates the blocks on the way to the data block. The parent is the
  reference \<open>pidx\<close> of the block \<open>pblk\<close> in memory, which belongs to block \<open>poff\<close> of the disk.
\<close>

definition get_or_alloc ::
  "'d inode_store \<Rightarrow> m_uint32 \<Rightarrow> block \<Rightarrow> nat \<Rightarrow> block_no \<Rightarrow> block \<Rightarrow> 'd \<Rightarrow> (block_no \<times> bool \<times> block \<times> 'd) res" where
  "get_or_alloc below below_ino pblk pidx poff sb d =
     (if pblk ! pidx = 0
      then rbind (treedisk_alloc_block below below_ino sb d) (\<lambda>(b, sb, d).
           on_success (bs_write below below_ino poff (pblk[pidx := b]) d)
             (Inl (Fatal ''treedisk_write: parent''))
             (\<lambda>d. Inr (b, True, sb, d)))
      else Inr (pblk ! pidx, False, sb, d))"

fun write_walk ::
  "'d inode_store \<Rightarrow> m_uint32 \<Rightarrow> block_no \<Rightarrow> nat \<Rightarrow> block \<Rightarrow> nat \<Rightarrow> block_no \<Rightarrow> block \<Rightarrow> 'd \<Rightarrow> (block_no \<times> 'd) res" where
  "write_walk below below_ino offset 0 pblk pidx poff sb d =
     rbind (get_or_alloc below below_ino pblk pidx poff sb d) (\<lambda>(b, fresh, sb, d). Inr (b, d))"
| "write_walk below below_ino offset (Suc n) pblk pidx poff sb d =
     rbind (get_or_alloc below below_ino pblk pidx poff sb d) (\<lambda>(b, fresh, sb, d).
     on_success (if fresh then Inr (Some null_block) else bs_read below below_ino b d)
       (Inl (Fatal ''treedisk_write''))
       (\<lambda>tib. write_walk below below_ino offset n tib (tree_index offset n) b sb d))"

definition treedisk_write ::
  "'d inode_store \<Rightarrow> m_uint32 \<Rightarrow> m_uint32 \<Rightarrow> block_no \<Rightarrow> block \<Rightarrow> 'd \<Rightarrow> 'd option res" where
  "treedisk_write below below_ino ino offset block d =
     on_success (treedisk_get_snapshot below below_ino ino d) (Inr None) (\<lambda>sn.
     let ib = inodeblock sn; blockno = inode_blockno sn;
         nblocks = ib ! nblocks_word ino;
         now = nlevels nblocks;
         extend = (offset \<ge> nblocks);
         ib = (if extend then ib[nblocks_word ino := offset + 1] else ib);
         after = (if extend then nlevels_from offset 0 else now);
         grow = (ib ! nblocks_word ino \<noteq> 0 \<and> after > now);
         levels = (if ib ! nblocks_word ino = 0 \<or> grow then after else now)
     in rbind (if grow then grow_levels below below_ino (after - now) (superblock sn) (ib ! root_word ino) d
               else Inr (superblock sn, ib ! root_word ino, d)) (\<lambda>(sb, root, d).
        let ib = ib[root_word ino := root]
        in rbind (if extend \<or> grow
                  then on_success (bs_write below below_ino blockno ib d)
                         (Inl (Fatal ''treedisk_write: inode block'')) Inr
                  else Inr d) (\<lambda>d.
           rbind (write_walk below below_ino offset levels ib (root_word ino) blockno sb d) (\<lambda>(b, d).
           on_success (bs_write below below_ino b block d)
             (Inl (Fatal ''treedisk_write: data block''))
             (\<lambda>d. Inr (Some d))))))"

definition treedisk_init :: "'d inode_store \<Rightarrow> m_uint32 \<Rightarrow> 'd inode_store" where
  "treedisk_init below below_ino =
     \<lparr>bs_getsize = treedisk_getsize below below_ino, bs_setsize = treedisk_setsize,
      bs_read = treedisk_read below below_ino, bs_write = treedisk_write below below_ino\<rparr>"

section \<open>Creating a file system\<close>

text \<open>
  The two inner loops over one free list block: references to the next blocks while there are
  any, then zeros.
\<close>

fun fill_refs :: "nat \<Rightarrow> block_no \<Rightarrow> block_no \<Rightarrow> block_no list \<times> block_no" where
  "fill_refs 0 next_free nblocks = ([], next_free)"
| "fill_refs (Suc n) next_free nblocks =
     (if next_free < nblocks
      then let (refs, nf) = fill_refs n (next_free + 1) nblocks in (next_free # refs, nf)
      else (replicate (Suc n) 0, next_free))"

lemma word_less_Suc: "n < (k :: m_uint32) \<Longrightarrow> unat (n + 1) = Suc (unat n)"
  using unsigned_less [of k, where ?'a = nat] by (simp add: unat_word_ariths word_less_nat_alt)

lemma fill_refs_bounds:
  "unat (snd (fill_refs n next_free nblocks)) \<ge> unat next_free"
  by (induction n next_free nblocks rule: fill_refs.induct)
     (auto simp: Let_def case_prod_beta word_less_Suc)

function setup_freelist_loop ::
  "'d inode_store \<Rightarrow> m_uint32 \<Rightarrow> block_no \<Rightarrow> block_no \<Rightarrow> block_no \<Rightarrow> 'd \<Rightarrow> (block_no \<times> 'd) res" where
  "setup_freelist_loop below below_ino freelist_block next_free nblocks d =
     (if next_free < nblocks
      then let (refs, nf) = fill_refs (REFS_PER_BLOCK - 1) (next_free + 1) nblocks
           in on_success (bs_write below below_ino next_free (freelist_block # refs) d)
                (Inl (Fatal ''treedisk_setup_freelist''))
                (\<lambda>d. setup_freelist_loop below below_ino next_free nf nblocks d)
      else Inr (freelist_block, d))"
  by pat_completeness auto
termination
proof (relation "measure (\<lambda>(below, below_ino, fb, nf, nb, d). unat nb - unat nf)")
  fix below :: "'d inode_store" and below_ino fb nf nb :: m_uint32 and d d' :: 'd and r refs nf'
  assume "nf < nb" "r = fill_refs (REFS_PER_BLOCK - 1) (nf + 1) nb" "(refs, nf') = r"
  then have "unat nf < unat nb" "unat nf' \<ge> unat (nf + 1)"
    using fill_refs_bounds [of "nf + 1" "REFS_PER_BLOCK - 1" nb] by (metis word_less_nat_alt, metis snd_conv)
  then show "((below, below_ino, nf, nf', nb, d'), below, below_ino, fb, nf, nb, d)
      \<in> measure (\<lambda>(below, below_ino, fb, nf, nb, d). unat nb - unat nf)"
    using word_less_Suc [OF \<open>nf < nb\<close>] by simp
qed simp

declare setup_freelist_loop.simps [simp del]

definition setup_freelist ::
  "'d inode_store \<Rightarrow> m_uint32 \<Rightarrow> block_no \<Rightarrow> block_no \<Rightarrow> 'd \<Rightarrow> (block_no \<times> 'd) res" where
  "setup_freelist below below_ino next_free nblocks d = setup_freelist_loop below below_ino 0 next_free nblocks d"

text \<open>Zeroing the inode blocks \<open>i, i + 1, \<dots>\<close>; a failed write makes the result -1.\<close>

fun clear_inodeblocks :: "'d inode_store \<Rightarrow> m_uint32 \<Rightarrow> nat \<Rightarrow> block_no \<Rightarrow> 'd \<Rightarrow> 'd option res" where
  "clear_inodeblocks below below_ino 0 i d = Inr (Some d)"
| "clear_inodeblocks below below_ino (Suc n) i d =
     on_success (bs_write below below_ino i null_block d) (Inr None)
       (\<lambda>d. clear_inodeblocks below below_ino n (i + 1) d)"

definition treedisk_create :: "'d inode_store \<Rightarrow> m_uint32 \<Rightarrow> m_uint32 \<Rightarrow> 'd \<Rightarrow> 'd option res" where
  "treedisk_create below below_ino ninodes d =
     (let ninodeblocks = (ninodes + of_nat INODES_PER_BLOCK - 1) div of_nat INODES_PER_BLOCK
      in rbind (bs_getsize below below_ino d) (\<lambda>size.
         let nblocks = word_of_int size
         in if nblocks < ninodeblocks + 2 then Inr None
            else on_success (bs_read below below_ino 0 d) (Inr None) (\<lambda>sb.
                 if n_inodeblocks sb = 0
                 then rbind (setup_freelist below below_ino (ninodeblocks + 1) nblocks d) (\<lambda>(fl, d).
                      on_success (bs_write below below_ino 0 (null_block[0 := ninodeblocks, 1 := fl]) d) (Inr None)
                        (\<lambda>d. clear_inodeblocks below below_ino (unat ninodeblocks) 1 d))
                 else Inr (Some d))))"

end
