(* ===== verification/Treedisk_Refinement.thy ===== *)
theory Treedisk_Refinement
  imports Treedisk
begin

text \<open>
  The treedisk file system implements the abstract file system in which every inode is a list
  of blocks. The contract of an inode store is a locale; treedisk is a client of it (the disk
  below) and a provider (its own interpretation, over the ram disk, is at the end).
\<close>

section \<open>The contract of an inode store\<close>

definition write_block :: "block list \<Rightarrow> nat \<Rightarrow> block \<Rightarrow> block list" where
  "write_block xs i x = (if i < length xs then xs[i := x]
     else xs @ replicate (i - length xs) null_block @ [x])"

lemma write_block_nth:
  "j < length (write_block xs i x) \<Longrightarrow>
   write_block xs i x ! j = (if j = i then x else if j < length xs then xs ! j else null_block)"
  by (auto simp: write_block_def nth_append nth_list_update)

lemma length_write_block [simp]: "length (write_block xs i x) = max (length xs) (Suc i)"
  by (auto simp: write_block_def)

locale inode_store_contract =
  fixes bs :: "'d inode_store"
    and inv :: "'d \<Rightarrow> bool"
    and files :: "'d \<Rightarrow> m_uint32 \<Rightarrow> block list option"
    and room :: "'d \<Rightarrow> m_uint32 \<Rightarrow> block_no \<Rightarrow> bool"
  assumes getsize_ok: "inv d \<Longrightarrow> files d ino = Some xs \<Longrightarrow> bs_getsize bs ino d = Inr (int (length xs))"
    and read_ok: "inv d \<Longrightarrow> files d ino = Some xs \<Longrightarrow> unat off < length xs \<Longrightarrow>
      bs_read bs ino off d = Inr (Some (xs ! unat off))"
    and write_ok: "inv d \<Longrightarrow> files d ino = Some xs \<Longrightarrow> room d ino off \<Longrightarrow> length x = 128 \<Longrightarrow>
      \<exists>d'. bs_write bs ino off x d = Inr (Some d') \<and> inv d' \<and>
        files d' = (files d)(ino \<mapsto> write_block xs (unat off) x)"
    and blocks_ok: "inv d \<Longrightarrow> files d ino = Some xs \<Longrightarrow> length xs < 2 ^ 31 \<and> (\<forall>x \<in> set xs. length x = 128)"
begin

text \<open>Reading a block after writing it, and reading another block or file.\<close>

lemma read_after_write:
  assumes "inv d" "files d ino = Some xs" "room d ino off" "length x = 128" "bs_write bs ino off x d = Inr (Some d')"
  shows "bs_read bs ino off d' = Inr (Some x)"
    "files d ino' = Some ys \<Longrightarrow> unat off' < length ys \<Longrightarrow> (ino', off') \<noteq> (ino, off) \<Longrightarrow>
     bs_read bs ino' off' d' = bs_read bs ino' off' d"
proof -
  from write_ok [OF assms(1-4)] assms(5) have d': "inv d'" "files d' = (files d)(ino \<mapsto> write_block xs (unat off) x)"
    by auto
  then show "bs_read bs ino off d' = Inr (Some x)"
    using read_ok [OF d'(1), of ino "write_block xs (unat off) x" off] by (simp add: write_block_nth)
  assume o: "files d ino' = Some ys" "unat off' < length ys" "(ino', off') \<noteq> (ino, off)"
  show "bs_read bs ino' off' d' = bs_read bs ino' off' d"
  proof (cases "ino' = ino")
    case True
    with o assms(2) have "unat off' \<noteq> unat off" "ys = xs" by (auto simp: word_unat_eq_iff)
    with True o d' assms(1,2) read_ok [OF d'(1), of ino "write_block xs (unat off) x" off'] show ?thesis
      by (simp add: read_ok write_block_nth)
  next
    case False
    with o d' assms(1) show ?thesis by (simp add: read_ok)
  qed
qed

end

section \<open>A disk below\<close>

text \<open>
  The inode below has a fixed size of \<open>N\<close> blocks, all of which can be written.
\<close>

definition disk_mem :: "('d \<Rightarrow> m_uint32 \<Rightarrow> block list option) \<Rightarrow> m_uint32 \<Rightarrow> nat \<Rightarrow> 'd \<Rightarrow> blockmem" where
  "disk_mem files bino N d b = (if unat b < N then the (files d bino) ! unat b else [])"

locale disk_below = inode_store_contract below inv files room
  for below :: "'d inode_store" and inv files room +
  fixes bino :: m_uint32 and N :: nat
  assumes size_below: "inv d \<Longrightarrow> \<exists>xs. files d bino = Some xs \<and> length xs = N"
    and room_below: "inv d \<Longrightarrow> unat b < N \<Longrightarrow> room d bino b"
    and N_pos: "0 < N"
begin

abbreviation mem :: "'d \<Rightarrow> blockmem" where
  "mem \<equiv> disk_mem files bino N"

lemma mem_read: "inv d \<Longrightarrow> unat b < N \<Longrightarrow> bs_read below bino b d = Inr (Some (mem d b))"
  using size_below [of d] read_ok by (auto simp: disk_mem_def)

lemma mem_length: "inv d \<Longrightarrow> unat b < N \<Longrightarrow> length (mem d b) = 128"
  using size_below [of d] blocks_ok by (auto simp: disk_mem_def)

lemma mem_write:
  assumes "inv d" "unat b < N" "length x = 128"
  obtains d' where "bs_write below bino b x d = Inr (Some d')" "inv d'" "mem d' = (mem d)(b := x)"
proof -
  obtain xs where xs: "files d bino = Some xs" "length xs = N" using size_below [OF assms(1)] by auto
  obtain d' where d': "bs_write below bino b x d = Inr (Some d')" "inv d'"
    "files d' = (files d)(bino \<mapsto> write_block xs (unat b) x)"
    using write_ok [OF assms(1) xs(1) room_below [OF assms(1,2)] assms(3)] by auto
  have "mem d' y = ((mem d)(b := x)) y" for y
    using xs assms(2) d'(3) by (auto simp: disk_mem_def write_block_def nth_list_update word_unat_eq_iff)
  with d' show ?thesis by (intro that [of d']) auto
qed

lemma N_bound: "inv d \<Longrightarrow> N < 2 ^ 31"
  using size_below blocks_ok by blast

lemma unat_zero_N: "unat (0 :: block_no) < N"
  using N_pos by simp

end

section \<open>Allocation\<close>

text \<open>
  The superblock in memory is the one on the disk, and its free list holds distinct blocks of
  the data area \<open>D\<close>.
\<close>

definition free_state :: "block_no set \<Rightarrow> blockmem \<Rightarrow> block \<Rightarrow> block_no list \<Rightarrow> bool" where
  "free_state D m sb cs \<longleftrightarrow> m 0 = sb \<and> length sb = 128 \<and> fchain m (free_list sb) cs \<and>
     distinct (frefs m cs) \<and> set (frefs m cs) \<subseteq> D \<and> 0 \<notin> D"

lemma free_stateD:
  assumes "free_state D m sb cs"
  shows "m 0 = sb" "length sb = 128" "fchain m (free_list sb) cs" "distinct (frefs m cs)"
    "set (frefs m cs) \<subseteq> D" "0 \<notin> D" "set cs \<subseteq> D" "distinct cs"
proof -
  show *: "m 0 = sb" "length sb = 128" "fchain m (free_list sb) cs" "distinct (frefs m cs)"
    "set (frefs m cs) \<subseteq> D" "0 \<notin> D" using assms by (auto simp: free_state_def)
  then show "set cs \<subseteq> D" using set_frefs [of cs m] by auto
  have "distinct (frefs m cs) \<Longrightarrow> distinct cs" for cs
  proof (induction cs)
    case (Cons c cs)
    then show ?case using set_frefs [of cs m] by auto
  qed simp
  with *(4) show "distinct cs" by simp
qed

lemma free_state_frame:
  assumes "free_state D m sb cs" "m' 0 = sb" "\<forall>c \<in> set cs. m' c = m c"
  shows "free_state D m' sb cs" "frefs m' cs = frefs m cs"
  using assms fchain_frame [OF assms(3)] by (simp_all add: free_state_def)

lemma scan_refs_spec:
  "scan_refs refs n < max 1 n" "scan_refs refs n \<noteq> 0 \<Longrightarrow> refs ! scan_refs refs n \<noteq> 0"
  "scan_refs refs n < i \<Longrightarrow> i < n \<Longrightarrow> refs ! i = 0"
  by (induction n) (auto simp: less_Suc_eq split: if_splits)

context disk_below
begin

lemma alloc_block_ok:
  assumes "inv d" and fs: "free_state D (mem d) sb cs" and D: "\<forall>b \<in> D. unat b < N" and "cs \<noteq> []"
  obtains b sb' d' cs' where "treedisk_alloc_block below bino sb d = Inr (b, sb', d')" "inv d'"
    "free_state D (mem d') sb' cs'" "sb' ! 0 = sb ! 0"
    "mset (frefs (mem d) cs) = add_mset b (mset (frefs (mem d') cs'))"
    "\<forall>x. x \<noteq> 0 \<and> x \<notin> set cs' \<longrightarrow> mem d' x = mem d x" "set cs' \<subseteq> set cs"
proof -
  note f = free_stateD [OF fs]
  obtain c cs1 where cs: "cs = c # cs1" using assms(4) by (cases cs) auto
  have h: "free_list sb = c" "c \<noteq> 0" "length (mem d c) = 128" "unat c < N" using f(3,7) D by (auto simp: cs)
  let ?i = "scan_refs (mem d c) 128"
  have i128: "?i < 128" using scan_refs_spec(1) [of "mem d c" 128] by simp
  have rd: "bs_read below bino c d = Inr (Some (mem d c))" using mem_read [OF assms(1) h(4)] .
  show ?thesis
  proof (cases "?i = 0")
    case True
    have zeros: "\<forall>i. 0 < i \<and> i < 128 \<longrightarrow> mem d c ! i = 0" using scan_refs_spec(3) [of "mem d c" 128] True by simp
    let ?sb = "sb[1 := mem d c ! 0]"
    obtain d' where d': "bs_write below bino 0 ?sb d = Inr (Some d')" "inv d'" "mem d' = (mem d)(0 := ?sb)"
      by (rule mem_write [OF assms(1) unat_zero_N, of ?sb]) (use f(2) in auto)
    have pop: "fchain (mem d) (mem d c ! 0) cs1" "frefs (mem d) cs = c # frefs (mem d) cs1"
      using fchain_pop [of "mem d" "free_list sb" c cs1] f(3) zeros by (auto simp: cs)
    have fr: "fchain (mem d') (mem d c ! 0) cs1 = fchain (mem d) (mem d c ! 0) cs1 \<and> frefs (mem d') cs1 = frefs (mem d) cs1"
      using f(6,7) by (intro fchain_frame) (auto simp: d'(3) cs)
    have "free_state D (mem d') ?sb cs1"
      using f pop fr d'(3) unfolding free_state_def by (simp add: free_list_def)
    moreover have "treedisk_alloc_block below bino sb d = Inr (c, ?sb, d')"
      using h(1,2) rd True d'(1) by (simp add: treedisk_alloc_block_def REFS_PER_BLOCK_def)
    ultimately show ?thesis using d' pop(2) fr by (intro that [of c ?sb d' cs1]) (auto simp: cs)
  next
    case False
    let ?blk = "(mem d c)[?i := 0]"
    obtain d' where d': "bs_write below bino c ?blk d = Inr (Some d')" "inv d'" "mem d' = (mem d)(c := ?blk)"
      by (rule mem_write [OF assms(1) h(4), of ?blk]) (use h(3) in auto)
    have r: "mem d c ! ?i \<noteq> 0" using scan_refs_spec(2) False by blast
    note take = fchain_take_ref [OF f(3,4) [unfolded cs] _ i128 r, folded d'(3) cs]
    have "set (frefs (mem d') cs) \<subseteq> set (frefs (mem d) cs)"
      using take(2) False by (metis add_mset_add_single bot_nat_0.not_eq_extremum set_mset_mset
          set_mset_union sup_ge1)
    moreover have "distinct (frefs (mem d') cs)"
      using take(2) False f(4) by (metis bot_nat_0.not_eq_extremum distinct.simps(2) mset.simps(2) mset_eq_imp_distinct_iff)
    ultimately have "free_state D (mem d') sb cs"
      using f take(1) False h(2) d'(3) by (auto simp: free_state_def)
    moreover have "treedisk_alloc_block below bino sb d = Inr (mem d c ! ?i, sb, d')"
      using h(1,2) rd False d'(1) by (simp add: treedisk_alloc_block_def REFS_PER_BLOCK_def)
    ultimately show ?thesis
      using d' take(2) False by (intro that [of "mem d c ! ?i" sb d' cs]) (auto simp: cs)
  qed
qed

end

section \<open>Levels and indices\<close>

lemma pow128: "(128 :: nat) ^ n = 2 ^ (7 * n)"
  by (simp add: power_mult)

lemma unat_log_shift_r: "unat (log_shift_r x (n * log_rpb)) = unat x div 128 ^ n"
proof (cases "n * 7 \<ge> 32")
  case True
  have "unat x < 2 ^ 32" using unsigned_less [of x, where ?'a = nat] by simp
  also have "(2 :: nat) ^ 32 \<le> 128 ^ n" unfolding pow128 using True by (intro power_increasing) auto
  finally show ?thesis using True by (simp add: log_shift_r_def log_rpb_eq)
next
  case False
  then show ?thesis
    using unat_drop_bit_eq [of "n * 7" x] drop_bit_eq_div [of "n * 7" "unat x"]
    by (simp add: log_shift_r_def log_rpb_eq pow128 mult.commute)
qed

lemma tree_index_eq [simp]: "tree_index off n = tindex off n"
  by (simp add: tree_index_def tindex_def unat_log_shift_r REFS_PER_BLOCK_def)

lemma nlevels_from_spec:
  "unat x < 128 ^ nlevels_from x n" "n \<le> nlevels_from x n" "\<forall>k. n \<le> k \<and> k < nlevels_from x n \<longrightarrow> 128 ^ k \<le> unat x"
proof (induction x n rule: nlevels_from.induct)
  case (1 x n)
  have z: "log_shift_r x (n * log_rpb) \<noteq> 0 \<longleftrightarrow> 128 ^ n \<le> unat x"
    by (simp add: word_unat_eq_iff unat_log_shift_r div_eq_0_iff not_less)
  { case 1 then show ?case using "1.IH"(1) z by (subst nlevels_from.simps) auto }
  { case 2 then show ?case using "1.IH"(2) z by (subst nlevels_from.simps) auto }
  { case 3
    show ?case
    proof (cases "128 ^ n \<le> unat x")
      case True
      then have eq: "nlevels_from x n = nlevels_from x (Suc n)" using z by (subst nlevels_from.simps) simp
      show ?thesis unfolding eq using "1.IH"(3) z True by (metis Suc_leI le_neq_implies_less)
    next
      case False
      then have "nlevels_from x n = n" using z by (subst nlevels_from.simps) simp
      then show ?thesis by simp
    qed }
qed

lemma nlevels_le: "nlevels_from x 0 \<le> 5"
proof (rule ccontr)
  assume "\<not> ?thesis"
  then have "128 ^ 5 \<le> unat x" using nlevels_from_spec(3) [of 0 x, THEN spec, of 5] by linarith
  moreover have "unat x < 2 ^ 32" using unsigned_less [of x, where ?'a = nat] by simp
  ultimately show False by simp
qed

lemma nlevels_capacity: "unat nb \<le> 128 ^ nlevels nb"
proof (cases "nb = 0")
  case False
  then have "unat nb = Suc (unat (nb - 1))" using unat_minus_one [OF False] unat_eq_zero [of nb] by simp
  moreover have "unat (nb - 1) < 128 ^ nlevels nb"
    using False nlevels_from_spec(1) [of "nb - 1" 0] by (simp add: nlevels_def word_neq_0_conv)
  ultimately show ?thesis by simp
qed simp

lemma nlevels_0 [simp]: "nlevels 0 = 0"
  by (simp add: nlevels_def)

context disk_below
begin

lemma get_or_alloc_ok:
  assumes "inv d" and fs: "free_state D (mem d) sb cs" and D: "\<forall>b \<in> D. unat b < N"
    and p: "length pblk = 128" "pidx < 128" "poff \<noteq> 0" "unat poff < N" "poff \<notin> set (frefs (mem d) cs)"
      "pblk ! pidx \<noteq> 0 \<longrightarrow> mem d poff = pblk"
    and room: "1 \<le> length (frefs (mem d) cs)"
  obtains b fresh sb' d' cs' where
    "get_or_alloc below bino pblk pidx poff sb d = Inr (b, fresh, sb', d')" "inv d'"
    "free_state D (mem d') sb' cs'" "sb' ! 0 = sb ! 0" "b \<noteq> 0" "mem d' poff = pblk[pidx := b]"
    "set (frefs (mem d') cs') \<subseteq> set (frefs (mem d) cs)" "length (frefs (mem d) cs) \<le> Suc (length (frefs (mem d') cs'))"
    "fresh \<longleftrightarrow> pblk ! pidx = 0" "\<not> fresh \<Longrightarrow> b = pblk ! pidx \<and> mem d' = mem d \<and> cs' = cs"
    "fresh \<Longrightarrow> b \<in> set (frefs (mem d) cs) - set (frefs (mem d') cs')"
    "\<forall>x. x \<noteq> 0 \<and> x \<noteq> poff \<and> x \<notin> set (frefs (mem d) cs) \<longrightarrow> mem d' x = mem d x"
proof (cases "pblk ! pidx = 0")
  case False
  then show ?thesis
    using assms(1) fs p by (intro that [of "pblk ! pidx" False sb d cs]) (auto simp: get_or_alloc_def)
next
  case True
  have "cs \<noteq> []" using room by auto
  then obtain b sb1 d1 cs1 where a: "treedisk_alloc_block below bino sb d = Inr (b, sb1, d1)" "inv d1"
    "free_state D (mem d1) sb1 cs1" "sb1 ! 0 = sb ! 0"
    "mset (frefs (mem d) cs) = add_mset b (mset (frefs (mem d1) cs1))"
    "\<forall>x. x \<noteq> 0 \<and> x \<notin> set cs1 \<longrightarrow> mem d1 x = mem d x"
    using alloc_block_ok [OF assms(1) fs D] by metis
  have set1: "set (frefs (mem d) cs) = insert b (set (frefs (mem d1) cs1))"
    using arg_cong [OF a(5), of set_mset] by simp
  have b: "b \<notin> set (frefs (mem d1) cs1)"
    using a(5) free_stateD(4) [OF fs] by (metis distinct.simps(2) mset.simps(2) mset_eq_imp_distinct_iff)
  obtain d' where d': "bs_write below bino poff (pblk[pidx := b]) d1 = Inr (Some d')" "inv d'"
    "mem d' = (mem d1)(poff := pblk[pidx := b])"
    by (rule mem_write [OF a(2) p(4), of "pblk[pidx := b]"]) (use p(1) in auto)
  have pf: "poff \<notin> set cs1" using p(5) set1 set_frefs [of cs1 "mem d1"] by auto
  have fr: "free_state D (mem d') sb1 cs1" "frefs (mem d') cs1 = frefs (mem d1) cs1"
    using free_state_frame [OF a(3), of "mem d'"] pf p(3) free_stateD(1) [OF a(3)] by (auto simp: d'(3))
  have b0: "b \<noteq> 0" using set1 free_stateD(5,6) [OF fs] by auto
  have "length (frefs (mem d) cs) = Suc (length (frefs (mem d1) cs1))"
    using arg_cong [OF a(5), of size] by simp
  then show ?thesis
    using True a(1,4) d' fr b b0 set1 a(6) set_frefs [of cs1 "mem d1"]
    by (intro that [of b True sb1 d' cs1]) (auto simp: get_or_alloc_def)
qed

lemma write_walk_ok:
  assumes "inv d" "free_state D (mem d) sb cs" and D: "\<forall>b \<in> D. unat b < N"
    and "length pblk = 128" "pidx < 128" "poff \<noteq> 0" "unat poff < N" "poff \<notin> set (frefs (mem d) cs)"
      "pblk ! pidx \<noteq> 0 \<longrightarrow> mem d poff = pblk"
    and "Suc n \<le> length (frefs (mem d) cs)"
    and "twf (mem d) n (pblk ! pidx)" "tblocks (mem d) n (pblk ! pidx) \<subseteq> D"
      "tblocks (mem d) n (pblk ! pidx) \<inter> set (frefs (mem d) cs) = {}" "poff \<notin> tblocks (mem d) n (pblk ! pidx)"
  shows "\<exists>t d' sb' cs' b'. write_walk below bino off n pblk pidx poff sb d = Inr (t, d') \<and> inv d' \<and>
    free_state D (mem d') sb' cs' \<and> sb' ! 0 = sb ! 0 \<and>
    set (frefs (mem d') cs') \<subseteq> set (frefs (mem d) cs) \<and>
    length (frefs (mem d) cs) \<le> length (frefs (mem d') cs') + Suc n \<and>
    mem d' poff = pblk[pidx := b'] \<and>
    (\<forall>x. x \<noteq> 0 \<and> x \<noteq> poff \<and> x \<notin> tblocks (mem d) n (pblk ! pidx) \<and> x \<notin> set (frefs (mem d) cs) \<longrightarrow>
       mem d' x = mem d x) \<and>
    tblocks (mem d') n b' \<subseteq> tblocks (mem d) n (pblk ! pidx) \<union>
      (set (frefs (mem d) cs) - set (frefs (mem d') cs')) \<and>
    walk_post (mem d) n (pblk ! pidx) off (mem d') b' t"
  using assms(1,2) assms(4-)
proof (induction n arbitrary: d sb cs pblk pidx poff)
  case 0
  obtain b fresh sb' d' cs' where g:
    "get_or_alloc below bino pblk pidx poff sb d = Inr (b, fresh, sb', d')" "inv d'"
    "free_state D (mem d') sb' cs'" "sb' ! 0 = sb ! 0" "b \<noteq> 0" "mem d' poff = pblk[pidx := b]"
    "set (frefs (mem d') cs') \<subseteq> set (frefs (mem d) cs)" "length (frefs (mem d) cs) \<le> Suc (length (frefs (mem d') cs'))"
    "fresh \<longleftrightarrow> pblk ! pidx = 0" "\<not> fresh \<Longrightarrow> b = pblk ! pidx \<and> mem d' = mem d \<and> cs' = cs"
    "fresh \<Longrightarrow> b \<in> set (frefs (mem d) cs) - set (frefs (mem d') cs')"
    "\<forall>x. x \<noteq> 0 \<and> x \<noteq> poff \<and> x \<notin> set (frefs (mem d) cs) \<longrightarrow> mem d' x = mem d x"
    by (rule get_or_alloc_ok [OF "0.prems"(1,2) D "0.prems"(3-8)]) (use "0.prems"(9) in auto)
  have "tblocks (mem d') 0 b \<subseteq> tblocks (mem d) 0 (pblk ! pidx) \<union> (set (frefs (mem d) cs) - set (frefs (mem d') cs'))"
    using g(5,9,10,11) by (cases fresh) auto
  with g walk_post_leaf [OF g(5)] show ?case
    by (intro exI [of _ b] exI [of _ d'] exI [of _ sb'] exI [of _ cs']) simp
next
  case (Suc n)
  note pr = Suc.prems
  obtain b fresh sb1 d1 cs1 where g:
    "get_or_alloc below bino pblk pidx poff sb d = Inr (b, fresh, sb1, d1)" "inv d1"
    "free_state D (mem d1) sb1 cs1" "sb1 ! 0 = sb ! 0" "b \<noteq> 0" "mem d1 poff = pblk[pidx := b]"
    "set (frefs (mem d1) cs1) \<subseteq> set (frefs (mem d) cs)" "length (frefs (mem d) cs) \<le> Suc (length (frefs (mem d1) cs1))"
    "fresh \<longleftrightarrow> pblk ! pidx = 0" "\<not> fresh \<Longrightarrow> b = pblk ! pidx \<and> mem d1 = mem d \<and> cs1 = cs"
    "fresh \<Longrightarrow> b \<in> set (frefs (mem d) cs) - set (frefs (mem d1) cs1)"
    "\<forall>x. x \<noteq> 0 \<and> x \<noteq> poff \<and> x \<notin> set (frefs (mem d) cs) \<longrightarrow> mem d1 x = mem d x"
    by (rule get_or_alloc_ok [OF pr(1,2) D pr(3-8)]) (use pr(9) in auto)
  let ?k = "tindex off n" and ?F = "set (frefs (mem d) cs)" and ?T = "tblocks (mem d) (Suc n) (pblk ! pidx)"
  define tib where "tib = (if fresh then null_block else mem d1 b)"
  define mh where "mh = (mem d1)(b := tib)"
  have k: "?k < 128" by (rule tindex_less)
  have nf: "mh = mem d" "b = pblk ! pidx" "b \<in> ?T" if "\<not> fresh"
    using that g(5,9,10) by (auto simp: mh_def tib_def)
  have wfh: "twf mh (Suc n) b"
  proof (cases fresh)
    case True
    then have "mh b = null_block" by (simp add: mh_def tib_def)
    then show ?thesis by simp
  qed (use nf pr(10) in simp)
  have Th: "tblocks mh (Suc n) b \<subseteq> insert b ?T" "(\<Union>i<128. tblocks mh n (mh b ! i)) \<subseteq> ?T"
  proof -
    show "(\<Union>i<128. tblocks mh n (mh b ! i)) \<subseteq> ?T"
    proof (cases fresh)
      case True
      then have "mh b = null_block" by (simp add: mh_def tib_def)
      then show ?thesis by auto
    qed (use nf g(5) in auto)
    then show "tblocks mh (Suc n) b \<subseteq> insert b ?T" using g(5) by auto
  qed
  have mhb: "mh b = tib" by (simp add: mh_def)
  have wfc: "length tib = 128" "\<And>i. i < 128 \<Longrightarrow> b \<notin> tblocks mh n (tib ! i)" "\<And>i. i < 128 \<Longrightarrow> twf mh n (tib ! i)"
    "\<And>i j. i < 128 \<Longrightarrow> j < 128 \<Longrightarrow> i \<noteq> j \<Longrightarrow> tblocks mh n (tib ! i) \<inter> tblocks mh n (tib ! j) = {}"
    using wfh g(5) by (simp_all add: mhb)
  have fr1: "tblocks (mem d1) n (tib ! i) = tblocks mh n (tib ! i) \<and> twf (mem d1) n (tib ! i) = twf mh n (tib ! i) \<and>
      (\<forall>o1. tget (mem d1) n (tib ! i) o1 = tget mh n (tib ! i) o1)" if "i < 128" for i
    using wfc(2) [OF that] by (intro tree_frame) (auto simp: mh_def)
  have bF: "b \<notin> set (frefs (mem d1) cs1)" "b \<in> ?T \<union> (?F - set (frefs (mem d1) cs1))" "b \<in> D"
    using g(10,11) nf pr(11,12) free_stateD(5) [OF pr(2)] by (cases fresh; auto)+
  have Tk: "tblocks mh n (tib ! i) \<subseteq> ?T" if "i < 128" for i using Th(2) that by (auto simp: mhb)
  have TF: "?T \<inter> set (frefs (mem d1) cs1) = {}" using pr(12) g(7) by blast
  have "\<exists>t d' sb' cs' b'. write_walk below bino off n tib ?k b sb1 d1 = Inr (t, d') \<and> inv d' \<and>
    free_state D (mem d') sb' cs' \<and> sb' ! 0 = sb1 ! 0 \<and>
    set (frefs (mem d') cs') \<subseteq> set (frefs (mem d1) cs1) \<and>
    length (frefs (mem d1) cs1) \<le> length (frefs (mem d') cs') + Suc n \<and>
    mem d' b = tib[?k := b'] \<and>
    (\<forall>x. x \<noteq> 0 \<and> x \<noteq> b \<and> x \<notin> tblocks (mem d1) n (tib ! ?k) \<and> x \<notin> set (frefs (mem d1) cs1) \<longrightarrow>
       mem d' x = mem d1 x) \<and>
    tblocks (mem d') n b' \<subseteq> tblocks (mem d1) n (tib ! ?k) \<union> (set (frefs (mem d1) cs1) - set (frefs (mem d') cs')) \<and>
    walk_post (mem d1) n (tib ! ?k) off (mem d') b' t"
  proof (rule Suc.IH [OF g(2,3) wfc(1) k g(5) _ bF(1)])
    show "unat b < N" using bF(3) D by blast
    show "tib ! ?k \<noteq> 0 \<longrightarrow> mem d1 b = tib" using k by (simp add: tib_def)
    show "Suc n \<le> length (frefs (mem d1) cs1)" using pr(9) g(8) by simp
  qed (use fr1 [OF k] wfc(2,3) [OF k] Tk [OF k] pr(11) TF in auto)
  then obtain t d' sb' cs' c where r: "write_walk below bino off n tib ?k b sb1 d1 = Inr (t, d')" "inv d'"
    "free_state D (mem d') sb' cs'" "sb' ! 0 = sb1 ! 0" "set (frefs (mem d') cs') \<subseteq> set (frefs (mem d1) cs1)"
    "length (frefs (mem d1) cs1) \<le> length (frefs (mem d') cs') + Suc n" "mem d' b = tib[?k := c]"
    "\<forall>x. x \<noteq> 0 \<and> x \<noteq> b \<and> x \<notin> tblocks mh n (tib ! ?k) \<and> x \<notin> set (frefs (mem d1) cs1) \<longrightarrow> mem d' x = mem d1 x"
    "tblocks (mem d') n c \<subseteq> tblocks mh n (tib ! ?k) \<union> (set (frefs (mem d1) cs1) - set (frefs (mem d') cs'))"
    "walk_post (mem d1) n (tib ! ?k) off (mem d') c t"
    using fr1 [OF k] by auto
  have post: "walk_post mh n (mh b ! ?k) off (mem d') c t"
    using r(10) fr1 [OF k] by (simp add: walk_post_def mhb)
  have tD: "t \<in> D"
    using post r(9) Tk [OF k] pr(11) free_stateD(5) [OF g(3)] by (auto simp: walk_post_def)
  have frame: "\<forall>i < 128. i \<noteq> ?k \<longrightarrow> (\<forall>x \<in> tblocks mh n (mh b ! i). mem d' x = mh x)"
  proof (intro allI impI ballI)
    fix i x assume i: "i < 128" "i \<noteq> ?k" "x \<in> tblocks mh n (mh b ! i)"
    then have "x \<noteq> 0" "x \<noteq> b" "x \<notin> tblocks mh n (tib ! ?k)" "x \<notin> set (frefs (mem d1) cs1)"
      using tblocks_nonzero wfc(2) [OF i(1)] wfc(4) [OF i(1) k i(2)] Tk [OF i(1)] TF by (auto simp: mhb)
    then show "mem d' x = mh x" using r(8) by (simp add: mh_def)
  qed
  have dis: "b \<notin> tblocks (mem d') n c" "\<forall>i < 128. i \<noteq> ?k \<longrightarrow> tblocks (mem d') n c \<inter> tblocks mh n (mh b ! i) = {}"
  proof -
    show "b \<notin> tblocks (mem d') n c" using r(9) wfc(2) [OF k] bF(1) by auto
    show "\<forall>i < 128. i \<noteq> ?k \<longrightarrow> tblocks (mem d') n c \<inter> tblocks mh n (mh b ! i) = {}"
    proof (intro allI impI)
      fix i assume i: "i < 128" "i \<noteq> ?k"
      show "tblocks (mem d') n c \<inter> tblocks mh n (mh b ! i) = {}"
        using r(9) wfc(4) [OF k i(1)] i(2) Tk [OF i(1)] TF unfolding mhb by blast
    qed
  qed
  have mb: "mem d' b = (mh b)[?k := c]" using r(7) by (simp add: mhb)
  note up = walk_post_Suc [OF wfh g(5) refl mb post frame dis mem_length [OF r(2)]]
  have "tget mh (Suc n) b o1 = tget (mem d) (Suc n) (pblk ! pidx) o1" for o1
  proof (cases fresh)
    case True
    then show ?thesis using g(9) tindex_less [of o1 n] by (simp add: mh_def tib_def)
  qed (use nf in simp)
  then have "walk_post (mem d) (Suc n) (pblk ! pidx) off (mem d') b t"
    using up(1) tD D by (simp add: walk_post_def del: tget.simps twf.simps tblocks.simps)
  moreover have "tblocks (mem d') (Suc n) b \<subseteq> ?T \<union> (?F - set (frefs (mem d') cs'))"
  proof -
    have "(\<Union>i \<in> {..<128} - {?k}. tblocks mh n (mh b ! i)) \<subseteq> ?T" using Th(2) by blast
    moreover have "b \<in> ?T \<union> (?F - set (frefs (mem d') cs'))" using bF(2) r(5) by blast
    moreover have "tblocks (mem d') n c \<subseteq> ?T \<union> (?F - set (frefs (mem d') cs'))"
      using r(9) Tk [OF k] g(7) by blast
    ultimately show ?thesis using up(2) tD D by auto
  qed
  moreover have "mem d' poff = pblk[pidx := b]"
  proof -
    have "poff \<noteq> b" using pr(7,13) bF(2) by auto
    moreover have "poff \<notin> tblocks mh n (tib ! ?k)" "poff \<notin> set (frefs (mem d1) cs1)"
      using pr(7,13) Tk [OF k] g(7) by auto
    ultimately show ?thesis using r(8) pr(5) g(6) by simp
  qed
  moreover have "mem d' x = mem d x" if "x \<noteq> 0" "x \<noteq> poff" "x \<notin> ?T" "x \<notin> ?F" for x
  proof -
    have "x \<noteq> b" "x \<notin> tblocks mh n (tib ! ?k)" "x \<notin> set (frefs (mem d1) cs1)"
      using that bF(2) Tk [OF k] g(7) by auto
    then show ?thesis using r(8) g(12) that by simp
  qed
  moreover have "write_walk below bino off (Suc n) pblk pidx poff sb d = Inr (t, d')"
    using g(1) r(1) mem_read [OF g(2), of b] bF(3) D by (cases fresh) (simp_all add: tib_def)
  moreover have "length (frefs (mem d) cs) \<le> length (frefs (mem d') cs') + Suc (Suc n)" using g(8) r(6) by simp
  moreover have "set (frefs (mem d') cs') \<subseteq> ?F" using r(5) g(7) by simp
  moreover have "sb' ! 0 = sb ! 0" using r(4) g(4) by simp
  ultimately show ?case using r(2,3) by blast
qed

end

section \<open>Growing the tree and reading\<close>

context disk_below
begin

lemma grow_levels_ok:
  assumes "inv d" "free_state D (mem d) sb cs" and D: "\<forall>b \<in> D. unat b < N"
    and "n \<le> length (frefs (mem d) cs)" "twf (mem d) l root" "tblocks (mem d) l root \<subseteq> D"
      "tblocks (mem d) l root \<inter> set (frefs (mem d) cs) = {}"
  shows "\<exists>sb' root' d' cs'. grow_levels below bino n sb root d = Inr (sb', root', d') \<and> inv d' \<and>
    free_state D (mem d') sb' cs' \<and> sb' ! 0 = sb ! 0 \<and>
    set (frefs (mem d') cs') \<subseteq> set (frefs (mem d) cs) \<and>
    length (frefs (mem d) cs) \<le> length (frefs (mem d') cs') + n \<and>
    twf (mem d') (l + n) root' \<and>
    tblocks (mem d') (l + n) root' \<subseteq> tblocks (mem d) l root \<union> (set (frefs (mem d) cs) - set (frefs (mem d') cs')) \<and>
    (\<forall>x. x \<noteq> 0 \<and> x \<notin> set (frefs (mem d) cs) \<longrightarrow> mem d' x = mem d x) \<and>
    (\<forall>o1. tget (mem d') (l + n) root' o1 =
       (if \<forall>i. l \<le> i \<and> i < l + n \<longrightarrow> tindex o1 i = 0 then tget (mem d) l root o1 else null_block))"
  using assms(1,2) assms(4-)
proof (induction n arbitrary: d sb cs l root)
  case 0
  then show ?case by auto
next
  case (Suc n)
  note pr = Suc.prems
  let ?F = "set (frefs (mem d) cs)" and ?T = "tblocks (mem d) l root"
  have "cs \<noteq> []" using pr(3) by auto
  then obtain b sb1 d1 cs1 where a: "treedisk_alloc_block below bino sb d = Inr (b, sb1, d1)" "inv d1"
    "free_state D (mem d1) sb1 cs1" "sb1 ! 0 = sb ! 0"
    "mset (frefs (mem d) cs) = add_mset b (mset (frefs (mem d1) cs1))"
    "\<forall>x. x \<noteq> 0 \<and> x \<notin> set cs1 \<longrightarrow> mem d1 x = mem d x"
    using alloc_block_ok [OF pr(1,2) D] by metis
  have set1: "?F = insert b (set (frefs (mem d1) cs1))" using arg_cong [OF a(5), of set_mset] by simp
  have len1: "length (frefs (mem d) cs) = Suc (length (frefs (mem d1) cs1))" using arg_cong [OF a(5), of size] by simp
  have b1: "b \<notin> set (frefs (mem d1) cs1)"
    using a(5) free_stateD(4) [OF pr(2)] by (metis distinct.simps(2) mset.simps(2) mset_eq_imp_distinct_iff)
  have bD: "b \<in> D" "b \<noteq> 0" using set1 free_stateD(5,6) [OF pr(2)] by auto
  have "unat b < N" using bD D by blast
  then obtain d2 where d2: "bs_write below bino b (null_block[0 := root]) d1 = Inr (Some d2)" "inv d2"
    "mem d2 = (mem d1)(b := null_block[0 := root])"
    using mem_write [OF a(2), of b "null_block[0 := root]"] by auto
  have "b \<notin> set cs1" using b1 set_frefs [of cs1 "mem d1"] by auto
  then have fs2: "free_state D (mem d2) sb1 cs1" "frefs (mem d2) cs1 = frefs (mem d1) cs1"
    using free_state_frame [OF a(3), of "mem d2"] bD(2) free_stateD(1) [OF a(3)] by (auto simp: d2(3))
  have fr: "mem d2 x = mem d x" if "x \<noteq> 0" "x \<notin> ?F" for x
    using a(6) that set1 set_frefs [of cs1 "mem d1"] by (auto simp: d2(3))
  have "\<forall>x \<in> ?T. mem d2 x = mem d x" using fr pr(6) tblocks_nonzero [of "mem d" l root] by (metis IntI empty_iff)
  from tree_frame [OF this] have T2: "tblocks (mem d2) l root = ?T" "twf (mem d2) l root"
    "\<And>o1. tget (mem d2) l root o1 = tget (mem d) l root o1" using pr(4) by auto
  have "b \<notin> tblocks (mem d2) l root" using T2(1) set1 pr(6) by auto
  note top = tree_on_top [of "mem d2" b root l, OF _ bD(2) T2(2) this]
  have top': "twf (mem d2) (Suc l) b" "tblocks (mem d2) (Suc l) b = insert b ?T"
    "\<And>o1. tget (mem d2) (Suc l) b o1 = (if tindex o1 l = 0 then tget (mem d) l root o1 else null_block)"
    using top by (simp_all add: d2(3) T2 [unfolded d2(3)] del: tget.simps twf.simps tblocks.simps)
  have "tblocks (mem d2) (Suc l) b \<subseteq> D" "tblocks (mem d2) (Suc l) b \<inter> set (frefs (mem d2) cs1) = {}"
    using top'(2) bD(1) pr(5,6) set1 b1 fs2(2) by auto
  from Suc.IH [OF d2(2) fs2(1) _ top'(1) this] pr(3) len1 fs2(2) obtain sb' root' d' cs' where r:
    "grow_levels below bino n sb1 b d2 = Inr (sb', root', d')" "inv d'"
    "free_state D (mem d') sb' cs'" "sb' ! 0 = sb1 ! 0" "set (frefs (mem d') cs') \<subseteq> set (frefs (mem d1) cs1)"
    "length (frefs (mem d1) cs1) \<le> length (frefs (mem d') cs') + n" "twf (mem d') (Suc l + n) root'"
    "tblocks (mem d') (Suc l + n) root' \<subseteq> insert b ?T \<union> (set (frefs (mem d1) cs1) - set (frefs (mem d') cs'))"
    "\<forall>x. x \<noteq> 0 \<and> x \<notin> set (frefs (mem d1) cs1) \<longrightarrow> mem d' x = mem d2 x"
    "\<forall>o1. tget (mem d') (Suc l + n) root' o1 =
       (if \<forall>i. Suc l \<le> i \<and> i < Suc l + n \<longrightarrow> tindex o1 i = 0 then tget (mem d2) (Suc l) b o1 else null_block)"
    unfolding top'(2) by auto
  have idx: "(\<forall>i. l \<le> i \<and> i < Suc l + n \<longrightarrow> tindex o1 i = 0) \<longleftrightarrow>
      tindex o1 l = 0 \<and> (\<forall>i. Suc l \<le> i \<and> i < Suc l + n \<longrightarrow> tindex o1 i = 0)" for o1
    by (metis Suc_leD Suc_leI add_Suc le_eq_less_or_eq le_add1 less_Suc_eq_le)
  have "tget (mem d') (Suc l + n) root' o1 =
       (if \<forall>i. l \<le> i \<and> i < Suc l + n \<longrightarrow> tindex o1 i = 0 then tget (mem d) l root o1 else null_block)" for o1
    unfolding idx r(10) [rule_format] top'(3) by (cases "tindex o1 l = 0") (simp_all only: if_True if_False simp_thms if_cancel)
  moreover have "tblocks (mem d') (Suc l + n) root' \<subseteq> ?T \<union> (?F - set (frefs (mem d') cs'))"
    using r(5,8) b1 unfolding set1 by blast
  moreover have "mem d' x = mem d x" if "x \<noteq> 0" "x \<notin> ?F" for x
    using r(9) fr [OF that] that set1 by auto
  moreover have "grow_levels below bino (Suc n) sb root d = Inr (sb', root', d')" using a(1) d2(1) r(1) by simp
  moreover have "length (frefs (mem d) cs) \<le> length (frefs (mem d') cs') + Suc n" using r(6) len1 by simp
  moreover have "set (frefs (mem d') cs') \<subseteq> ?F" "sb' ! 0 = sb ! 0" using r(4,5) set1 a(4) by auto
  moreover have "l + Suc n = Suc l + n" by simp
  ultimately show ?case using r(2,3,7) by (metis (no_types, lifting))
qed

lemma read_walk_ok:
  assumes "inv d" "\<forall>x \<in> tblocks (mem d) n b. unat x < N"
  shows "read_walk below bino off n b d = Inr (Some (tget (mem d) n b off))"
  using assms(2)
proof (induction n arbitrary: b)
  case 0
  then show ?case using mem_read [OF assms(1)] by simp
next
  case (Suc n)
  show ?case
  proof (cases "b = 0")
    case False
    have "unat b < N" "\<forall>x \<in> tblocks (mem d) n (mem d b ! tindex off n). unat x < N"
      using Suc.prems False tindex_less [of off n] by auto
    with Suc.IH False mem_read [OF assms(1), of b] show ?thesis by simp
  qed simp
qed

end

section \<open>The file system on the disk\<close>

definition nib :: "blockmem \<Rightarrow> nat" where "nib m = unat (n_inodeblocks (m 0))"
definition valid_ino :: "blockmem \<Rightarrow> m_uint32 \<Rightarrow> bool" where "valid_ino m ino \<longleftrightarrow> unat ino < nib m * 64"
definition iblk :: "m_uint32 \<Rightarrow> block_no" where "iblk ino = 1 + ino div of_nat INODES_PER_BLOCK"
definition iroot :: "blockmem \<Rightarrow> m_uint32 \<Rightarrow> block_no" where "iroot m ino = m (iblk ino) ! root_word ino"
definition isize :: "blockmem \<Rightarrow> m_uint32 \<Rightarrow> block_no" where "isize m ino = m (iblk ino) ! nblocks_word ino"

definition itree :: "blockmem \<Rightarrow> m_uint32 \<Rightarrow> block_no set" where
  "itree m ino = tblocks m (nlevels (isize m ino)) (iroot m ino)"

definition iget :: "blockmem \<Rightarrow> m_uint32 \<Rightarrow> block_no \<Rightarrow> block" where
  "iget m ino off = tget m (nlevels (isize m ino)) (iroot m ino) off"

definition ifile :: "blockmem \<Rightarrow> m_uint32 \<Rightarrow> block list" where
  "ifile m ino = map (\<lambda>i. iget m ino (of_nat i)) [0..<unat (isize m ino)]"

definition data_area :: "nat \<Rightarrow> blockmem \<Rightarrow> block_no set" where
  "data_area N m = {b. nib m < unat b \<and> unat b < N}"

text \<open>
  One inode is in order: its tree occupies blocks of the data area that are not free, and the
  tree holds no data past the end of the file.
\<close>

definition wf_inode :: "nat \<Rightarrow> blockmem \<Rightarrow> block_no list \<Rightarrow> m_uint32 \<Rightarrow> bool" where
  "wf_inode N m cs ino \<longleftrightarrow> twf m (nlevels (isize m ino)) (iroot m ino) \<and> itree m ino \<subseteq> data_area N m \<and>
     itree m ino \<inter> set (frefs m cs) = {} \<and> unat (isize m ino) < 2 ^ 31 \<and>
     (\<forall>off. unat (isize m ino) \<le> unat off \<and> unat off < 128 ^ nlevels (isize m ino) \<longrightarrow> iget m ino off = null_block)"

definition fs_inv :: "nat \<Rightarrow> blockmem \<Rightarrow> block_no list \<Rightarrow> bool" where
  "fs_inv N m cs \<longleftrightarrow> nib m * 64 < 2 ^ 32 \<and> nib m < N \<and> (\<forall>b. unat b < N \<longrightarrow> length (m b) = 128) \<and>
     free_state (data_area N m) m (m 0) cs \<and> (\<forall>ino. valid_ino m ino \<longrightarrow> wf_inode N m cs ino) \<and>
     (\<forall>i j. valid_ino m i \<and> valid_ino m j \<and> i \<noteq> j \<longrightarrow> itree m i \<inter> itree m j = {})"

lemma unat_iblk: "unat (iblk ino) = Suc (unat ino div 64)"
proof -
  define q where "q = ino div 64"
  have q: "unat q = unat ino div 64" by (simp add: q_def unat_div_distrib)
  have "unat ino < 64 * 2 ^ 26" using unsigned_less [of ino, where ?'a = nat] by simp
  then have "unat q < 2 ^ 26" unfolding q by simp
  then have "unat (1 + q) = Suc (unat q)" by (subst unat_word_ariths(1)) simp
  with q show ?thesis by (simp add: iblk_def INODES_PER_BLOCK_def q_def)
qed

lemma valid_iblk: "valid_ino m ino \<Longrightarrow> unat (iblk ino) \<le> nib m \<and> iblk ino \<noteq> 0"
  using unat_iblk [of ino] by (auto simp: valid_ino_def less_mult_imp_div_less Suc_le_eq)

lemma inode_words: "root_word ino < 128" "nblocks_word ino < 128" "root_word ino \<noteq> nblocks_word jno"
proof -
  have "unat ino mod 64 < 64" by simp
  then show "root_word ino < 128" "nblocks_word ino < 128"
    by (simp_all add: root_word_def nblocks_word_def INODES_PER_BLOCK_def)
  show "root_word ino \<noteq> nblocks_word jno"
    by (simp add: root_word_def nblocks_word_def double_not_eq_Suc_double)
qed

lemma iblk_eq_words:
  "iblk i = iblk j \<Longrightarrow> i \<noteq> j \<Longrightarrow> root_word i \<noteq> root_word j \<and> nblocks_word i \<noteq> nblocks_word j"
  using unat_iblk [of i] unat_iblk [of j] div_mult_mod_eq [of "unat i" 64] div_mult_mod_eq [of "unat j" 64]
  by (auto simp: root_word_def nblocks_word_def INODES_PER_BLOCK_def word_unat_eq_iff)

lemma fs_invD:
  assumes "fs_inv N m cs"
  shows "nib m * 64 < 2 ^ 32" "nib m < N" "unat b < N \<Longrightarrow> length (m b) = 128"
    "free_state (data_area N m) m (m 0) cs" "valid_ino m ino \<Longrightarrow> wf_inode N m cs ino"
    "valid_ino m i \<Longrightarrow> valid_ino m j \<Longrightarrow> i \<noteq> j \<Longrightarrow> itree m i \<inter> itree m j = {}"
  using assms by (auto simp: fs_inv_def)

text \<open>Changing one inode: new contents of its tree, of the free list and of its inode block.\<close>

lemma fs_update:
  assumes fs: "fs_inv N m cs" and v: "valid_ino m ino"
    and free: "free_state (data_area N m) m' (m' 0) cs'" "m' 0 ! 0 = m 0 ! 0"
      "set (frefs m' cs') \<subseteq> set (frefs m cs)"
    and len: "\<forall>b. unat b < N \<longrightarrow> length (m' b) = 128"
    and ib: "m' (iblk ino) = (m (iblk ino))[nblocks_word ino := s, root_word ino := r]"
    and frame: "\<forall>x. x \<noteq> 0 \<and> x \<noteq> iblk ino \<and> x \<notin> itree m ino \<and> x \<notin> set (frefs m cs) \<longrightarrow> m' x = m x"
    and tree: "twf m' (nlevels s) r" "tblocks m' (nlevels s) r \<subseteq> itree m ino \<union> (set (frefs m cs) - set (frefs m' cs'))"
      "unat s < 2 ^ 31" "\<forall>off. unat s \<le> unat off \<and> unat off < 128 ^ nlevels s \<longrightarrow> tget m' (nlevels s) r off = null_block"
  shows "fs_inv N m' cs'" "nib m' = nib m" "isize m' ino = s" "\<And>off. iget m' ino off = tget m' (nlevels s) r off"
    "\<And>jno. valid_ino m jno \<Longrightarrow> jno \<noteq> ino \<Longrightarrow> ifile m' jno = ifile m jno"
proof -
  note F = fs_invD [OF fs]
  show nib: "nib m' = nib m" using free(2) by (simp add: nib_def n_inodeblocks_def)
  then have area: "data_area N m' = data_area N m" and val: "valid_ino m' = valid_ino m"
    by (simp_all add: data_area_def valid_ino_def fun_eq_iff)
  have bl: "unat (iblk ino) < N" using valid_iblk [OF v] F(2) by simp
  have lib: "length (m (iblk ino)) = 128" using F(3) [OF bl] .
  show sz: "isize m' ino = s" using lib inode_words [of ino] by (simp add: isize_def ib nth_list_update)
  have rt: "iroot m' ino = r" using lib inode_words [of ino] by (simp add: iroot_def ib nth_list_update)
  have it: "itree m' ino = tblocks m' (nlevels s) r" by (simp add: itree_def sz rt)
  show ig: "iget m' ino off = tget m' (nlevels s) r off" for off by (simp add: iget_def sz rt)
  have fa: "set (frefs m cs) \<subseteq> data_area N m" using free_stateD(5) [OF F(4)] .
  have wfi: "wf_inode N m cs ino" using F(5) [OF v] .
  have other: "isize m' j = isize m j" "iroot m' j = iroot m j" "itree m' j = itree m j"
    "twf m' (nlevels (isize m j)) (iroot m j)" "\<And>off. iget m' j off = iget m j off"
    if j: "valid_ino m j" "j \<noteq> ino" for j
  proof -
    have na: "iblk j \<notin> data_area N m" using valid_iblk [OF j(1)] by (simp add: data_area_def)
    have same: "m' (iblk j) ! w = m (iblk j) ! w" if "w = root_word j \<or> w = nblocks_word j" for w
    proof (cases "iblk j = iblk ino")
      case True
      with iblk_eq_words [OF this j(2)] that inode_words(3) [of ino j] inode_words(3) [of j ino]
      show ?thesis by (auto simp: ib)
    next
      case False
      then have "m' (iblk j) = m (iblk j)"
        using frame na fa wfi valid_iblk [OF j(1)] by (auto simp: wf_inode_def)
      then show ?thesis by simp
    qed
    show si: "isize m' j = isize m j" "iroot m' j = iroot m j" using same by (simp_all add: isize_def iroot_def)
    have wfj: "wf_inode N m cs j" using F(5) [OF j(1)] .
    have "m' x = m x" if x: "x \<in> itree m j" for x
    proof -
      have "x \<in> data_area N m" "x \<notin> set (frefs m cs)" using wfj x by (auto simp: wf_inode_def)
      moreover have "x \<notin> itree m ino" using F(6) [OF j(1) v j(2)] x by auto
      moreover have "x \<noteq> 0" "x \<noteq> iblk ino" using \<open>x \<in> data_area N m\<close> valid_iblk [OF v] by (auto simp: data_area_def)
      ultimately show ?thesis using frame by blast
    qed
    from tree_frame [of m "nlevels (isize m j)" "iroot m j" m'] this wfj
    show "itree m' j = itree m j" "twf m' (nlevels (isize m j)) (iroot m j)" "\<And>off. iget m' j off = iget m j off"
      by (auto simp: itree_def si iget_def wf_inode_def)
  qed
  show "ifile m' jno = ifile m jno" if "valid_ino m jno" "jno \<noteq> ino" for jno
    using other [OF that] by (simp add: ifile_def)
  have "wf_inode N m' cs' j" if j: "valid_ino m j" for j
  proof (cases "j = ino")
    case True
    then show ?thesis
      using tree free(3) wfi fa area unfolding wf_inode_def True it sz rt ig by blast
  next
    case False
    then show ?thesis
      using other [OF j False] F(5) [OF j] free(3) area unfolding wf_inode_def by auto
  qed
  moreover have "itree m' i \<inter> itree m' j = {}" if ij: "valid_ino m i" "valid_ino m j" "i \<noteq> j" for i j
  proof -
    have *: "itree m' ino \<inter> itree m k = {}" if k: "valid_ino m k" "k \<noteq> ino" for k
    proof -
      have "itree m ino \<inter> itree m k = {}" "itree m k \<inter> set (frefs m cs) = {}"
        using F(6) [OF v k(1)] k F(5) [OF k(1)] by (auto simp: wf_inode_def)
      with tree(2) show ?thesis unfolding it by blast
    qed
    show ?thesis
      using other(3) [OF ij(1)] other(3) [OF ij(2)] F(6) [OF ij] * [of i] * [of j] ij
      by (cases "i = ino"; cases "j = ino") auto
  qed
  ultimately show "fs_inv N m' cs'"
    using F(1,2) free len area unfolding fs_inv_def nib val by auto
qed

lemma nlevels_from_mono: "unat x \<le> unat y \<Longrightarrow> nlevels_from x 0 \<le> nlevels_from y 0"
proof (rule ccontr)
  assume le: "unat x \<le> unat y" and "\<not> nlevels_from x 0 \<le> nlevels_from y 0"
  then have "128 ^ nlevels_from y 0 \<le> unat x" using nlevels_from_spec(3) [of 0 x] by simp
  with le nlevels_from_spec(1) [of y 0] show False by simp
qed

lemma nlevels_Suc:
  assumes "unat off < 2 ^ 31 - 1"
  shows "nlevels (off + 1) = nlevels_from off 0" "unat (off + 1) = Suc (unat off)" "off + 1 \<noteq> 0"
proof -
  show u: "unat (off + 1) = Suc (unat off)" using assms by (simp add: unat_word_ariths)
  then show "off + 1 \<noteq> 0" by (metis nat.distinct(1) unat_0)
  then show "nlevels (off + 1) = nlevels_from off 0" by (simp add: nlevels_def word_neq_0_conv)
qed

lemma nlevels_extend:
  assumes "nb \<le> off" "unat off < 2 ^ 31 - 1"
  shows "nlevels nb \<le> nlevels_from off 0"
proof (cases "nb = 0")
  case False
  then have "unat (nb - 1) \<le> unat off" using assms(1) unat_minus_one [OF False] by (simp add: word_le_nat_alt)
  with False show ?thesis by (simp add: nlevels_def word_neq_0_conv nlevels_from_mono)
qed simp

lemma nth_ifile: "i < unat (isize m ino) \<Longrightarrow> ifile m ino ! i = iget m ino (of_nat i)"
  by (simp add: ifile_def)

lemma length_ifile [simp]: "length (ifile m ino) = unat (isize m ino)"
  by (simp add: ifile_def)

context disk_below
begin

lemma snapshot_ok:
  assumes "inv d" "fs_inv N (mem d) cs" "valid_ino (mem d) ino"
  shows "treedisk_get_snapshot below bino ino d = Inr (Some
    \<lparr>superblock = mem d 0, inodeblock = mem d (iblk ino), inode_blockno = iblk ino\<rparr>)"
proof -
  note F = fs_invD [OF assms(2)]
  have "unat (n_inodeblocks (mem d 0) * of_nat INODES_PER_BLOCK) = nib (mem d) * 64"
    using F(1) by (simp add: INODES_PER_BLOCK_def unat_word_ariths nib_def)
  then have "\<not> n_inodeblocks (mem d 0) * of_nat INODES_PER_BLOCK \<le> ino"
    using assms(3) by (simp add: word_le_nat_alt valid_ino_def)
  moreover have "unat (iblk ino) < N" using valid_iblk [OF assms(3)] F(2) by simp
  ultimately show ?thesis
    using mem_read [OF assms(1)] unat_zero_N by (simp add: treedisk_get_snapshot_def iblk_def Let_def)
qed

lemma snapshot_invalid:
  assumes "inv d" "fs_inv N (mem d) cs" "\<not> valid_ino (mem d) ino"
  shows "treedisk_get_snapshot below bino ino d = Inr None"
proof -
  have "unat (n_inodeblocks (mem d 0) * of_nat INODES_PER_BLOCK) = nib (mem d) * 64"
    using fs_invD(1) [OF assms(2)] by (simp add: INODES_PER_BLOCK_def unat_word_ariths nib_def)
  then have "n_inodeblocks (mem d 0) * of_nat INODES_PER_BLOCK \<le> ino"
    using assms(3) by (simp add: word_le_nat_alt valid_ino_def)
  then show ?thesis
    using mem_read [OF assms(1) unat_zero_N] by (simp add: treedisk_get_snapshot_def)
qed

lemma treedisk_getsize_ok:
  assumes "inv d" "fs_inv N (mem d) cs" "valid_ino (mem d) ino"
  shows "treedisk_getsize below bino ino d = Inr (int (length (ifile (mem d) ino)))"
proof -
  have "unat (isize (mem d) ino) < 2 ^ 31" using fs_invD(5) [OF assms(2,3)] by (simp add: wf_inode_def)
  then have "sint (isize (mem d) ino) = int (unat (isize (mem d) ino))"
    by (rule sint_unat)
  then show ?thesis
    by (simp add: treedisk_getsize_def snapshot_ok [OF assms] isize_def)
qed

lemma treedisk_read_ok:
  assumes "inv d" "fs_inv N (mem d) cs" "valid_ino (mem d) ino"
  shows "treedisk_read below bino ino off d =
    Inr (if unat off < length (ifile (mem d) ino) then Some (ifile (mem d) ino ! unat off) else None)"
proof -
  have wf: "wf_inode N (mem d) cs ino" using fs_invD(5) [OF assms(2,3)] .
  have "\<forall>x \<in> tblocks (mem d) (nlevels (isize (mem d) ino)) (iroot (mem d) ino). unat x < N"
    using wf by (auto simp: wf_inode_def data_area_def itree_def)
  from read_walk_ok [OF assms(1) this] show ?thesis
    by (simp add: treedisk_read_def snapshot_ok [OF assms] isize_def [symmetric] iroot_def [symmetric]
        nth_ifile word_le_nat_alt not_less iget_def)
qed

end

section \<open>Writing a block\<close>

text \<open>The size of a file after a write.\<close>

definition size_after :: "block_no \<Rightarrow> block_no \<Rightarrow> block_no" where
  "size_after nb off = (if off \<ge> nb then off + 1 else nb)"

lemma size_after:
  assumes "unat off < 2 ^ 31 - 1" "unat nb < 2 ^ 31"
  shows "unat (size_after nb off) = max (unat nb) (Suc (unat off))" "size_after nb off \<noteq> 0"
    "nlevels nb \<le> nlevels (size_after nb off)" "unat (size_after nb off) < 2 ^ 31"
    "(if off \<ge> nb then nlevels_from off 0 else nlevels nb) = nlevels (size_after nb off)"
    "nlevels (size_after nb off) \<le> 5" "unat off < 128 ^ nlevels (size_after nb off)"
proof -
  note S = nlevels_Suc [OF assms(1)]
  show u: "unat (size_after nb off) = max (unat nb) (Suc (unat off))"
    using S(2) by (auto simp: size_after_def word_le_nat_alt)
  then show "size_after nb off \<noteq> 0" "unat (size_after nb off) < 2 ^ 31"
    using assms by (auto simp: word_unat_eq_iff)
  show "nlevels nb \<le> nlevels (size_after nb off)"
    using nlevels_extend [OF _ assms(1)] S(1) by (simp add: size_after_def)
  show "(if off \<ge> nb then nlevels_from off 0 else nlevels nb) = nlevels (size_after nb off)"
    using S(1) by (simp add: size_after_def)
  show "nlevels (size_after nb off) \<le> 5" by (simp add: nlevels_def nlevels_le)
  show "unat off < 128 ^ nlevels (size_after nb off)"
    using nlevels_capacity [of "size_after nb off"] u by simp
qed

context disk_below
begin

lemma treedisk_write_phases:
  assumes "inv d" "fs_inv N (mem d) cs" "valid_ino (mem d) ino" and off: "unat off < 2 ^ 31 - 1"
  defines "nb \<equiv> isize (mem d) ino"
  defines "s \<equiv> size_after nb off"
  shows "treedisk_write below bino ino off blk d =
    rbind (grow_levels below bino (nlevels s - nlevels nb) (mem d 0) (iroot (mem d) ino) d) (\<lambda>(sb, root, d1).
      let ib = (mem d (iblk ino))[nblocks_word ino := s, root_word ino := root]
      in rbind (if off \<ge> nb \<or> nlevels s > nlevels nb
                then on_success (bs_write below bino (iblk ino) ib d1)
                       (Inl (Fatal ''treedisk_write: inode block'')) Inr
                else Inr d1) (\<lambda>d1.
         rbind (write_walk below bino off (nlevels s) ib (root_word ino) (iblk ino) sb d1) (\<lambda>(b, d1).
         on_success (bs_write below bino b blk d1)
           (Inl (Fatal ''treedisk_write: data block''))
           (\<lambda>d1. Inr (Some d1)))))"
proof -
  note F = fs_invD [OF assms(2)]
  let ?ib = "mem d (iblk ino)"
  have nb31: "unat nb < 2 ^ 31" using F(5) [OF assms(3)] by (simp add: wf_inode_def nb_def)
  note S = size_after [OF off nb31, folded s_def]
  have len: "length ?ib = 128" using F(2,3) valid_iblk [OF assms(3)] by simp
  have ib: "(if off \<ge> nb then ?ib[nblocks_word ino := off + 1] else ?ib) = ?ib[nblocks_word ino := s]"
    by (simp add: s_def size_after_def nb_def isize_def)
  have w: "?ib[nblocks_word ino := s] ! nblocks_word ino = s" "?ib[nblocks_word ino := s] ! root_word ino = iroot (mem d) ino"
    using len inode_words(1,2) [of ino] inode_words(3) [of ino ino, symmetric] by (simp_all add: iroot_def)
  have lv: "(if nlevels s > nlevels nb then nlevels s else nlevels nb) = nlevels s" using S(3) by simp
  have g: "(if nlevels s > nlevels nb then grow_levels below bino (nlevels s - nlevels nb) (mem d 0) (iroot (mem d) ino) d
      else Inr (mem d 0, iroot (mem d) ino, d)) = grow_levels below bino (nlevels s - nlevels nb) (mem d 0) (iroot (mem d) ino) d"
    by (cases "nlevels s - nlevels nb") auto
  show ?thesis
    unfolding treedisk_write_def snapshot_ok [OF assms(1-3)] on_success_simps Let_def treedisk_snapshot.select_convs
      isize_def [symmetric, of "mem d" ino] nb_def [symmetric] ib w S(5)
    using S(2) by (simp add: g lv del: on_success_simps)
qed

lemma treedisk_write_ok:
  assumes inv: "inv d" and fs: "fs_inv N (mem d) cs" and v: "valid_ino (mem d) ino"
    and blk: "length blk = 128" and off: "unat off < 2 ^ 31 - 1" and room: "11 \<le> length (frefs (mem d) cs)"
  shows "\<exists>d' cs'. treedisk_write below bino ino off blk d = Inr (Some d') \<and> inv d' \<and> fs_inv N (mem d') cs' \<and>
    nib (mem d') = nib (mem d) \<and> ifile (mem d') ino = write_block (ifile (mem d) ino) (unat off) blk \<and>
    (\<forall>jno. valid_ino (mem d) jno \<and> jno \<noteq> ino \<longrightarrow> ifile (mem d') jno = ifile (mem d) jno) \<and>
    length (frefs (mem d) cs) \<le> length (frefs (mem d') cs') + 11"
proof -
  note F = fs_invD [OF fs]
  define m where "m = mem d"
  define nb where "nb = isize m ino"
  define s where "s = size_after nb off"
  define D where "D = data_area N m"
  let ?F = "set (frefs m cs)" and ?l = "nlevels nb" and ?L = "nlevels s" and ?r = "iroot m ino"
  have wfi: "wf_inode N m cs ino" using F(5) [OF v] by (simp add: m_def)
  then have tr: "twf m ?l ?r" "tblocks m ?l ?r = itree m ino" "itree m ino \<subseteq> D" "itree m ino \<inter> ?F = {}"
    "unat nb < 2 ^ 31" by (auto simp: wf_inode_def nb_def D_def itree_def)
  note S = size_after [OF off tr(5), folded s_def]
  have DN: "\<forall>b \<in> D. unat b < N" by (simp add: D_def data_area_def)
  have ibD: "iblk ino \<notin> D" "iblk ino \<noteq> 0" "unat (iblk ino) < N"
    using valid_iblk [OF v] F(2) by (auto simp: D_def data_area_def m_def)
  have FD: "?F \<subseteq> D" using free_stateD(5) [OF F(4)] by (simp add: m_def D_def)
  have len: "length (m (iblk ino)) = 128" using F(3) [OF ibD(3)] by (simp add: m_def)
  have f4: "free_state D m (m 0) cs" using F(4) by (simp add: m_def D_def)
  have n1: "?L - ?l \<le> length (frefs m cs)" using room S(6) by (simp add: m_def)
  obtain sb root d1 cs1 where g: "grow_levels below bino (?L - ?l) (m 0) ?r d = Inr (sb, root, d1)" "inv d1"
    "free_state D (mem d1) sb cs1" "sb ! 0 = m 0 ! 0" "set (frefs (mem d1) cs1) \<subseteq> ?F"
    "length (frefs m cs) \<le> length (frefs (mem d1) cs1) + (?L - ?l)"
    "twf (mem d1) (?l + (?L - ?l)) root"
    "tblocks (mem d1) (?l + (?L - ?l)) root \<subseteq> itree m ino \<union> (?F - set (frefs (mem d1) cs1))"
    "\<forall>x. x \<noteq> 0 \<and> x \<notin> ?F \<longrightarrow> mem d1 x = m x"
    "\<forall>o1. tget (mem d1) (?l + (?L - ?l)) root o1 =
       (if \<forall>i. ?l \<le> i \<and> i < ?l + (?L - ?l) \<longrightarrow> tindex o1 i = 0 then tget m ?l ?r o1 else null_block)"
    using grow_levels_ok [OF inv, of D "m 0" cs "?L - ?l" ?l ?r, folded m_def, OF f4 DN n1 tr(1)
        tr(3) [folded tr(2)] tr(4) [folded tr(2)], unfolded tr(2)]
    by (elim exE conjE) (rule that)
  have lL: "?l + (?L - ?l) = ?L" using S(3) by simp
  note g = g [unfolded lL]
  let ?ib = "(m (iblk ino))[nblocks_word ino := s, root_word ino := root]"
  have fr1: "mem d1 (iblk ino) = m (iblk ino)" using g(9) ibD FD by blast
  have noext: "?ib = m (iblk ino)" if "\<not> (off \<ge> nb \<or> ?L > ?l)"
  proof -
    have "s = nb" "?L - ?l = 0" using that by (auto simp: s_def size_after_def)
    then have "root = ?r" using g(1) by simp
    then show ?thesis using len \<open>s = nb\<close> by (simp add: nb_def isize_def iroot_def)
  qed
  obtain d2 where d2: "(if off \<ge> nb \<or> ?L > ?l then on_success (bs_write below bino (iblk ino) ?ib d1)
      (Inl (Fatal ''treedisk_write: inode block'')) Inr else Inr d1) = Inr d2" "inv d2" "mem d2 = (mem d1)(iblk ino := ?ib)"
  proof (cases "off \<ge> nb \<or> ?L > ?l")
    case True
    obtain d2 where "bs_write below bino (iblk ino) ?ib d1 = Inr (Some d2)" "inv d2" "mem d2 = (mem d1)(iblk ino := ?ib)"
      by (rule mem_write [OF g(2) ibD(3), of ?ib]) (use len in auto)
    with True show ?thesis by (intro that [of d2]) simp_all
  next
    case False
    with noext fr1 g(2) show ?thesis by (intro that [of d1]) (simp_all add: fun_upd_idem)
  qed
  have cs1: "iblk ino \<notin> set cs1" using free_stateD(7) [OF g(3)] ibD(1) by auto
  have fs2: "free_state D (mem d2) sb cs1" "frefs (mem d2) cs1 = frefs (mem d1) cs1"
    using free_state_frame [OF g(3), of "mem d2"] cs1 ibD(2) free_stateD(1) [OF g(3)] by (auto simp: d2(3))
  have T1: "tblocks (mem d1) ?L root \<subseteq> D" "tblocks (mem d1) ?L root \<inter> set (frefs (mem d1) cs1) = {}"
    using g(5,8) tr(3,4) FD by blast+
  have "\<forall>x \<in> tblocks (mem d1) ?L root. mem d2 x = mem d1 x" using T1(1) ibD(1) by (auto simp: d2(3))
  note T2 = tree_frame [OF this]
  have ib: "length ?ib = 128" "?ib ! root_word ino = root" "mem d2 (iblk ino) = ?ib"
    using len inode_words(1) [of ino] by (simp_all add: d2(3))
  have n2: "Suc ?L \<le> length (frefs (mem d2) cs1)" using g(6) room S(6) fs2(2) by (simp add: m_def)
  have "\<exists>t d' sb' cs' b'. write_walk below bino off ?L ?ib (root_word ino) (iblk ino) sb d2 = Inr (t, d') \<and> inv d' \<and>
    free_state D (mem d') sb' cs' \<and> sb' ! 0 = sb ! 0 \<and> set (frefs (mem d') cs') \<subseteq> set (frefs (mem d2) cs1) \<and>
    length (frefs (mem d2) cs1) \<le> length (frefs (mem d') cs') + Suc ?L \<and>
    mem d' (iblk ino) = ?ib[root_word ino := b'] \<and>
    (\<forall>x. x \<noteq> 0 \<and> x \<noteq> iblk ino \<and> x \<notin> tblocks (mem d2) ?L (?ib ! root_word ino) \<and> x \<notin> set (frefs (mem d2) cs1) \<longrightarrow>
       mem d' x = mem d2 x) \<and>
    tblocks (mem d') ?L b' \<subseteq> tblocks (mem d2) ?L (?ib ! root_word ino) \<union>
      (set (frefs (mem d2) cs1) - set (frefs (mem d') cs')) \<and>
    walk_post (mem d2) ?L (?ib ! root_word ino) off (mem d') b' t"
    by (rule write_walk_ok [OF d2(2) fs2(1) DN ib(1) inode_words(1) ibD(2,3) _ _ n2])
       (use ib T1 T2 g(7) fs2(2) ibD(1) free_stateD(5) [OF g(3)] in auto)
  then obtain t d3 sb3 cs3 b where w: "write_walk below bino off ?L ?ib (root_word ino) (iblk ino) sb d2 = Inr (t, d3)"
    "inv d3" "free_state D (mem d3) sb3 cs3" "sb3 ! 0 = sb ! 0" "set (frefs (mem d3) cs3) \<subseteq> set (frefs (mem d1) cs1)"
    "length (frefs (mem d1) cs1) \<le> length (frefs (mem d3) cs3) + Suc ?L"
    "mem d3 (iblk ino) = ?ib[root_word ino := b]"
    "\<forall>x. x \<noteq> 0 \<and> x \<noteq> iblk ino \<and> x \<notin> tblocks (mem d1) ?L root \<and> x \<notin> set (frefs (mem d1) cs1) \<longrightarrow> mem d3 x = mem d2 x"
    "tblocks (mem d3) ?L b \<subseteq> tblocks (mem d1) ?L root \<union> (set (frefs (mem d1) cs1) - set (frefs (mem d3) cs3))"
    "walk_post (mem d2) ?L root off (mem d3) b t"
    using ib(2) T2 fs2(2) by auto
  have tT: "t \<in> tblocks (mem d3) ?L b" using w(10) by (simp add: walk_post_def)
  have tD: "t \<in> D" "t \<in> itree m ino \<union> ?F" "t \<notin> set (frefs (mem d3) cs3)"
    using tT w(5,9) T1 g(5,8) free_stateD(5) [OF g(3)] by blast+
  obtain d4 where d4: "bs_write below bino t blk d3 = Inr (Some d4)" "inv d4" "mem d4 = (mem d3)(t := blk)"
    using tD(1) DN by (metis mem_write [OF w(2) _ blk])
  have t0: "t \<noteq> 0" "t \<noteq> iblk ino" "t \<notin> set cs3"
    using tD ibD(1) free_stateD(6) [OF w(3)] set_frefs [of cs3 "mem d3"] by auto
  have fs4: "free_state D (mem d4) sb3 cs3" "frefs (mem d4) cs3 = frefs (mem d3) cs3"
    using free_state_frame [OF w(3), of "mem d4"] t0 free_stateD(1) [OF w(3)] by (auto simp: d4(3))
  have post: "twf (mem d4) ?L b" "tblocks (mem d4) ?L b = tblocks (mem d3) ?L b"
    "\<And>o1. tget (mem d4) ?L b o1 = (if same_leaf ?L o1 off then blk else tget (mem d2) ?L root o1)"
    using w(10) blk unfolding walk_post_def d4(3) by blast+
  have get: "tget (mem d4) ?L b o1 = (if o1 = off then blk else if unat o1 < unat nb then iget m ino o1 else null_block)"
    if o1: "unat o1 < 128 ^ ?L" for o1
  proof -
    have "tget (mem d2) ?L root o1 = (if unat o1 < 128 ^ ?l then tget m ?l ?r o1 else null_block)"
      using T2 g(10) tindex_zero_iff [of o1 ?l "?L - ?l"] o1 lL by simp
    also have "\<dots> = (if unat o1 < unat nb then iget m ino o1 else null_block)"
      using wfi nlevels_capacity [of nb] by (auto simp: wf_inode_def iget_def nb_def)
    finally show ?thesis using post(3) [of o1] same_leaf_small [OF o1 S(7)] by simp
  qed
  have z: "mem d4 0 = sb3" using free_stateD(1) [OF fs4(1)] .
  have p1: "free_state (data_area N (mem d)) (mem d4) (mem d4 0) cs3" using fs4(1) by (simp add: z D_def m_def)
  have p2: "mem d4 0 ! 0 = mem d 0 ! 0" using z w(4) g(4) by (simp add: m_def)
  have p3: "set (frefs (mem d4) cs3) \<subseteq> set (frefs (mem d) cs)" using fs4(2) w(5) g(5) by (simp add: m_def)
  have p4: "\<forall>b. unat b < N \<longrightarrow> length (mem d4 b) = 128" using mem_length [OF d4(2)] by blast
  have p5: "mem d4 (iblk ino) = (mem d (iblk ino))[nblocks_word ino := s, root_word ino := b]"
    using w(7) t0(2) by (simp add: d4(3) m_def)
  have p6: "\<forall>x. x \<noteq> 0 \<and> x \<noteq> iblk ino \<and> x \<notin> itree (mem d) ino \<and> x \<notin> set (frefs (mem d) cs) \<longrightarrow> mem d4 x = mem d x"
  proof (intro allI impI, elim conjE)
    fix x assume x: "x \<noteq> 0" "x \<noteq> iblk ino" "x \<notin> itree (mem d) ino" "x \<notin> set (frefs (mem d) cs)"
    then have "x \<notin> tblocks (mem d1) ?L root" "x \<notin> set (frefs (mem d1) cs1)" "x \<noteq> t"
      using g(5,8) tD(2) by (auto simp: m_def)
    with x w(8) g(9) show "mem d4 x = mem d x" by (simp add: d4(3) d2(3) m_def)
  qed
  have p7: "tblocks (mem d4) ?L b \<subseteq> itree (mem d) ino \<union> (set (frefs (mem d) cs) - set (frefs (mem d4) cs3))"
    using post(2) w(5,9) g(5,8) unfolding fs4(2) by (auto simp: m_def)
  have p8: "\<forall>off'. unat s \<le> unat off' \<and> unat off' < 128 ^ ?L \<longrightarrow> tget (mem d4) ?L b off' = null_block"
    using get S(1) by (auto simp: word_unat_eq_iff)
  note up = fs_update [OF fs v p1 p2 p3 p4 p5 p6 post(1) p7 S(4) p8]
  have "ifile (mem d4) ino = write_block (ifile m ino) (unat off) blk"
  proof (rule nth_equalityI)
    show "length (ifile (mem d4) ino) = length (write_block (ifile m ino) (unat off) blk)"
      using up(3) S(1) by (simp add: nb_def)
    fix i assume "i < length (ifile (mem d4) ino)"
    then have i: "i < unat s" using up(3) by simp
    then have iN: "unat (of_nat i :: block_no) = i" using S(4) by (intro unat_of_nat_small) simp
    have "i < 128 ^ ?L" using i nlevels_capacity [of s] by simp
    then have "ifile (mem d4) ino ! i = (if of_nat i = off then blk else if i < unat nb then iget m ino (of_nat i) else null_block)"
      using get [of "of_nat i"] i up(3,4) iN by (simp add: nth_ifile)
    moreover have "(of_nat i = off) = (i = unat off)" using iN by (auto simp: word_unat_eq_iff)
    ultimately show "ifile (mem d4) ino ! i = write_block (ifile m ino) (unat off) blk ! i"
      using i S(1) by (simp add: write_block_nth nth_ifile nb_def)
  qed
  moreover have "treedisk_write below bino ino off blk d = Inr (Some d4)"
    unfolding treedisk_write_phases [OF inv fs v off, folded m_def, folded nb_def, folded s_def] g(1)
      rbind_simps prod.case Let_def d2(1) w(1) d4(1) on_success_simps ..
  moreover have "length (frefs m cs) \<le> length (frefs (mem d4) cs3) + 11"
    using g(6) w(6) S(3,6) by (simp add: fs4(2))
  ultimately show ?thesis using up(1,2,5) d4(2) unfolding m_def by blast
qed

end

section \<open>Treedisk provides the contract it uses\<close>

definition td_inv :: "('d \<Rightarrow> bool) \<Rightarrow> ('d \<Rightarrow> m_uint32 \<Rightarrow> block list option) \<Rightarrow> m_uint32 \<Rightarrow> nat \<Rightarrow> 'd \<Rightarrow> bool" where
  "td_inv ok files bino N d \<longleftrightarrow> ok d \<and> (\<exists>cs. fs_inv N (disk_mem files bino N d) cs)"

definition td_files :: "('d \<Rightarrow> m_uint32 \<Rightarrow> block list option) \<Rightarrow> m_uint32 \<Rightarrow> nat \<Rightarrow> 'd \<Rightarrow> m_uint32 \<Rightarrow> block list option" where
  "td_files files bino N d ino = (let m = disk_mem files bino N d
     in if valid_ino m ino then Some (ifile m ino) else None)"

text \<open>
  A write takes at most 11 blocks: up to 5 new levels on top of the tree, and up to 5 indirect
  blocks and the data block below.
\<close>

definition td_room :: "('d \<Rightarrow> m_uint32 \<Rightarrow> block list option) \<Rightarrow> m_uint32 \<Rightarrow> nat \<Rightarrow> 'd \<Rightarrow> m_uint32 \<Rightarrow> block_no \<Rightarrow> bool" where
  "td_room files bino N d ino off \<longleftrightarrow> unat off < 2 ^ 31 - 1 \<and>
     (\<exists>cs. fs_inv N (disk_mem files bino N d) cs \<and> 11 \<le> length (frefs (disk_mem files bino N d) cs))"

lemma tget_length:
  assumes "\<forall>x \<in> tblocks m n b. length (m x) = 128"
  shows "length (tget m n b off) = 128"
  using assms
proof (induction n arbitrary: b)
  case (Suc n)
  show ?case
  proof (cases "b = 0")
    case False
    then have "\<forall>x \<in> tblocks m n (m b ! tindex off n). length (m x) = 128"
      using Suc.prems tindex_less [of off n] by auto
    with Suc.IH False show ?thesis by simp
  qed simp
qed simp

lemma ifile_blocks:
  assumes "fs_inv N m cs" "valid_ino m ino" "x \<in> set (ifile m ino)"
  shows "length x = 128"
proof -
  have "\<forall>y \<in> itree m ino. length (m y) = 128"
    using fs_invD(3) [OF assms(1)] fs_invD(5) [OF assms(1,2)] by (auto simp: wf_inode_def data_area_def)
  then show ?thesis using assms(3) tget_length by (auto simp: ifile_def iget_def itree_def)
qed

sublocale disk_below \<subseteq> td: inode_store_contract "treedisk_init below bino" "td_inv inv files bino N"
  "td_files files bino N" "td_room files bino N"
proof
  fix d ino xs off and x :: block
  assume i: "td_inv inv files bino N d" and f: "td_files files bino N d ino = Some xs"
  then obtain cs where cs: "inv d" "fs_inv N (mem d) cs" "valid_ino (mem d) ino" "xs = ifile (mem d) ino"
    by (auto simp: td_inv_def td_files_def Let_def split: if_splits)
  show "bs_getsize (treedisk_init below bino) ino d = Inr (int (length xs))"
    using treedisk_getsize_ok [OF cs(1-3)] cs(4) by (simp add: treedisk_init_def)
  show "length xs < 2 ^ 31 \<and> (\<forall>x \<in> set xs. length x = 128)"
    using fs_invD(5) [OF cs(2,3)] ifile_blocks [OF cs(2,3)] cs(4) by (simp add: wf_inode_def)
  show "bs_read (treedisk_init below bino) ino off d = Inr (Some (xs ! unat off))" if "unat off < length xs"
    using treedisk_read_ok [OF cs(1-3), of off] cs(4) that by (simp add: treedisk_init_def)
  assume r: "td_room files bino N d ino off" and x: "length x = 128"
  then obtain cs' where cs': "fs_inv N (mem d) cs'" "11 \<le> length (frefs (mem d) cs')" "unat off < 2 ^ 31 - 1"
    by (auto simp: td_room_def)
  obtain d' cs2 where d': "treedisk_write below bino ino off x d = Inr (Some d')" "inv d'" "fs_inv N (mem d') cs2"
    "nib (mem d') = nib (mem d)" "ifile (mem d') ino = write_block (ifile (mem d) ino) (unat off) x"
    "\<forall>jno. valid_ino (mem d) jno \<and> jno \<noteq> ino \<longrightarrow> ifile (mem d') jno = ifile (mem d) jno"
    using treedisk_write_ok [OF cs(1) cs'(1) cs(3) x cs'(3,2)] by blast
  have "td_files files bino N d' = (td_files files bino N d)(ino \<mapsto> write_block xs (unat off) x)"
    using d'(4-6) cs(3,4) by (auto simp: td_files_def Let_def valid_ino_def fun_eq_iff)
  with d' show "\<exists>d'. bs_write (treedisk_init below bino) ino off x d = Inr (Some d') \<and> td_inv inv files bino N d' \<and>
      td_files files bino N d' = (td_files files bino N d)(ino \<mapsto> write_block xs (unat off) x)"
    by (intro exI [of _ d']) (auto simp: treedisk_init_def td_inv_def)
qed

context disk_below
begin

lemmas td_write_ok = td.write_ok
lemmas td_read_after_write = td.read_after_write

end

section \<open>Creating the file system\<close>

lemma fill_refs_spec:
  assumes "unat nf \<le> unat nb"
  shows "unat (snd (fill_refs n nf nb)) = min (unat nf + n) (unat nb)" "length (fst (fill_refs n nf nb)) = n"
    "filter (\<lambda>r. r \<noteq> 0) (fst (fill_refs n nf nb)) =
       filter (\<lambda>r. r \<noteq> 0) (map of_nat [unat nf..<min (unat nf + n) (unat nb)])"
  using assms
proof (induction n nf nb rule: fill_refs.induct)
  case (2 n nf nb)
  { case 1
    show ?case
    proof (cases "nf < nb")
      case True
      with word_less_Suc [OF True] 2(1) [OF True] 1 show ?thesis
        by (simp add: case_prod_beta word_less_nat_alt)
    qed (use 1 in \<open>auto simp: word_less_nat_alt\<close>) }
  { case 2
    show ?case
    proof (cases "nf < nb")
      case True
      with word_less_Suc [OF True] "2.IH"(2) [OF True] 2 show ?thesis
        by (simp add: case_prod_beta word_less_nat_alt)
    qed (use 2 in auto) }
  { case 3
    show ?case
    proof (cases "nf < nb")
      case True
      then have "[unat nf..<min (unat nf + Suc n) (unat nb)] = unat nf # [Suc (unat nf)..<min (unat nf + Suc n) (unat nb)]"
        by (intro upt_conv_Cons) (simp add: word_less_nat_alt)
      with True word_less_Suc [OF True] "2.IH"(3) [OF True] show ?thesis
        by (cases "nf = 0") (simp_all add: case_prod_beta word_less_nat_alt)
    qed (use 3 in \<open>auto simp: word_less_nat_alt\<close>) }
qed simp_all

lemma set_map_of_nat:
  assumes "b \<le> 2 ^ 32"
  shows "set (map (of_nat :: nat \<Rightarrow> block_no) [a..<b]) = {x. a \<le> unat x \<and> unat x < b}"
    "distinct (map (of_nat :: nat \<Rightarrow> block_no) [a..<b])"
proof -
  have u: "unat (of_nat i :: block_no) = i" if "i < b" for i using that assms by (intro unat_of_nat_small) simp
  have "x \<in> set (map of_nat [a..<b])" if "a \<le> unat x" "unat x < b" for x :: block_no
    unfolding set_map by (rule image_eqI [of _ _ "unat x"]) (use that in auto)
  then show "set (map (of_nat :: nat \<Rightarrow> block_no) [a..<b]) = {x. a \<le> unat x \<and> unat x < b}"
    using u by auto
  have "inj_on (of_nat :: nat \<Rightarrow> block_no) {a..<b}" by (rule inj_onI) (metis atLeastLessThan_iff u)
  then show "distinct (map (of_nat :: nat \<Rightarrow> block_no) [a..<b])" by (simp add: distinct_map)
qed

lemma card_unat_interval:
  assumes "b \<le> 2 ^ 32"
  shows "card {x :: block_no. a \<le> unat x \<and> unat x < b} = b - a"
  unfolding set_map_of_nat(1) [OF assms, symmetric]
  using distinct_card [OF set_map_of_nat(2) [OF assms, of a]] by simp

lemma Collect_interval_Un:
  fixes a b c :: nat
  assumes "a \<le> b" "b \<le> c"
  shows "{x. b \<le> f x \<and> f x < c} \<union> {x. a \<le> f x \<and> f x < b} = {x. a \<le> f x \<and> f x < c}"
  using assms by (auto simp: set_eq_iff)

context disk_below
begin

lemma setup_freelist_loop_ok:
  assumes "inv d" "unat nb = N" "0 < lo" "lo \<le> unat nf" "unat nf \<le> N"
    "fchain (mem d) fb cs" "distinct (frefs (mem d) cs)" "set (frefs (mem d) cs) = {b. lo \<le> unat b \<and> unat b < unat nf}"
  shows "\<exists>h d' cs'. setup_freelist_loop below bino fb nf nb d = Inr (h, d') \<and> inv d' \<and> fchain (mem d') h cs' \<and>
    distinct (frefs (mem d') cs') \<and> set (frefs (mem d') cs') = {b. lo \<le> unat b \<and> unat b < N} \<and>
    (\<forall>b. unat b < lo \<longrightarrow> mem d' b = mem d b)"
  using assms
proof (induction "unat nb - unat nf" arbitrary: d fb nf cs rule: less_induct)
  case less
  note pr = less.prems
  show ?case
  proof (cases "nf < nb")
    case False
    then have "unat nf = N" using pr(2,5) by (simp add: word_less_nat_alt)
    with False pr show ?thesis by (subst setup_freelist_loop.simps) auto
  next
    case True
    let ?refs = "fst (fill_refs 127 (nf + 1) nb)" and ?nf = "snd (fill_refs 127 (nf + 1) nb)"
    have nf1: "unat (nf + 1) = Suc (unat nf)" using word_less_Suc [OF True] .
    have lt: "unat nf < N" using True pr(2) by (simp add: word_less_nat_alt)
    note fill = fill_refs_spec [of "nf + 1" nb 127]
    have fl: "unat ?nf = min (Suc (unat nf) + 127) N" "length ?refs = 127"
      "filter (\<lambda>r. r \<noteq> 0) ?refs = filter (\<lambda>r. r \<noteq> 0) (map of_nat [Suc (unat nf)..<unat ?nf])"
      using fill lt nf1 pr(2) by simp_all
    have N32: "N \<le> 2 ^ 32" using N_bound [OF pr(1)] by simp
    obtain d1 where d1: "bs_write below bino nf (fb # ?refs) d = Inr (Some d1)" "inv d1" "mem d1 = (mem d)(nf := fb # ?refs)"
      by (rule mem_write [OF pr(1) lt, of "fb # ?refs"]) (use fl(2) in auto)
    have "nf \<notin> set cs" using pr(8) set_frefs [of cs "mem d"] by auto
    then have fr: "fchain (mem d1) fb cs = fchain (mem d) fb cs \<and> frefs (mem d1) cs = frefs (mem d) cs"
      by (intro fchain_frame) (auto simp: d1(3))
    have nf0: "nf \<noteq> 0" using pr(3,4) by auto
    have len: "min (Suc (unat nf) + 127) N \<le> 2 ^ 32" using N32 by simp
    note sm = set_map_of_nat [OF len, of "Suc (unat nf)", folded fl(1)]
    have nz: "filter (\<lambda>r. r \<noteq> 0) (map of_nat [Suc (unat nf)..<unat ?nf]) = map (of_nat :: nat \<Rightarrow> block_no) [Suc (unat nf)..<unat ?nf]"
      using sm(1) by (intro filter_True) auto
    have refs: "frefs (mem d1) (nf # cs) = nf # map of_nat [Suc (unat nf)..<unat ?nf] @ frefs (mem d) cs"
      using fr fl(3) nz by (simp add: d1(3))
    have lt2: "unat nf < unat ?nf" "unat ?nf \<le> N" using fl(1) lt by auto
    have "fchain (mem d1) nf (nf # cs)" using fr pr(6) nf0 fl(2) by (simp add: d1(3))
    moreover have "distinct (frefs (mem d1) (nf # cs))"
      unfolding refs using sm pr(7,8) by auto
    moreover have "set (frefs (mem d1) (nf # cs)) = {b. lo \<le> unat b \<and> unat b < unat ?nf}"
    proof -
      have "insert nf {x. Suc (unat nf) \<le> unat x \<and> unat x < unat ?nf} = {x. unat nf \<le> unat x \<and> unat x < unat ?nf}"
        using lt2 by (auto simp: word_unat_eq_iff)
      then have "set (frefs (mem d1) (nf # cs)) = {x. unat nf \<le> unat x \<and> unat x < unat ?nf} \<union> {b. lo \<le> unat b \<and> unat b < unat nf}"
        unfolding refs list.set(2) set_append sm(1) pr(8) Un_insert_left [symmetric] by (rule arg_cong)
      also have "\<dots> = {b. lo \<le> unat b \<and> unat b < unat ?nf}" by (rule Collect_interval_Un [OF pr(4) less_imp_le [OF lt2(1)]])
      finally show ?thesis .
    qed
    ultimately have "\<exists>h d' cs'. setup_freelist_loop below bino nf ?nf nb d1 = Inr (h, d') \<and> inv d' \<and> fchain (mem d') h cs' \<and>
      distinct (frefs (mem d') cs') \<and> set (frefs (mem d') cs') = {b. lo \<le> unat b \<and> unat b < N} \<and>
      (\<forall>b. unat b < lo \<longrightarrow> mem d' b = mem d1 b)"
      by (intro less.hyps [of ?nf d1 nf "nf # cs"]) (use d1(2) pr(2-4) lt lt2 in linarith | use d1(2) pr(2,3) in assumption)+
    then obtain h d' cs' where r: "setup_freelist_loop below bino nf ?nf nb d1 = Inr (h, d')" "inv d'"
      "fchain (mem d') h cs'" "distinct (frefs (mem d') cs')" "set (frefs (mem d') cs') = {b. lo \<le> unat b \<and> unat b < N}"
      "\<forall>b. unat b < lo \<longrightarrow> mem d' b = mem d1 b"
      by blast
    have "setup_freelist_loop below bino fb nf nb d = Inr (h, d')"
      using True d1(1) r(1) by (subst setup_freelist_loop.simps) (simp add: REFS_PER_BLOCK_def case_prod_beta)
    moreover have "\<forall>b. unat b < lo \<longrightarrow> mem d' b = mem d b" using r(6) pr(4) by (auto simp: d1(3))
    ultimately show ?thesis using r(2-5) by blast
  qed
qed

lemma clear_inodeblocks_ok:
  assumes "inv d" "unat i + n \<le> N"
  shows "\<exists>d'. clear_inodeblocks below bino n i d = Inr (Some d') \<and> inv d' \<and>
    mem d' = (\<lambda>b. if unat i \<le> unat b \<and> unat b < unat i + n then null_block else mem d b)"
  using assms
proof (induction n arbitrary: i d)
  case (Suc n)
  have i: "unat i < N" using Suc.prems by simp
  obtain d1 where d1: "bs_write below bino i null_block d = Inr (Some d1)" "inv d1" "mem d1 = (mem d)(i := null_block)"
    by (rule mem_write [OF Suc.prems(1) i, of null_block]) auto
  have u: "unat (i + 1) = Suc (unat i)" using i N_bound [OF Suc.prems(1)] by (simp add: unat_word_ariths)
  obtain d' where d': "clear_inodeblocks below bino n (i + 1) d1 = Inr (Some d')" "inv d'"
    "mem d' = (\<lambda>b. if unat (i + 1) \<le> unat b \<and> unat b < unat (i + 1) + n then null_block else mem d1 b)"
    using Suc.IH [OF d1(2), of "i + 1"] u Suc.prems(2) by auto
  have "mem d' = (\<lambda>b. if unat i \<le> unat b \<and> unat b < unat i + Suc n then null_block else mem d b)"
    unfolding d'(3) d1(3) u by (auto simp: fun_eq_iff word_unat_eq_iff)
  with d1(1) d'(1,2) show ?case by auto
qed (auto simp: fun_eq_iff)

end

text \<open>What \<^verbatim>\<open>treedisk_create\<close> leaves behind: all data blocks free and all inodes empty.\<close>

definition fresh_fs :: "nat \<Rightarrow> nat \<Rightarrow> blockmem \<Rightarrow> block_no list \<Rightarrow> bool" where
  "fresh_fs N k m cs \<longleftrightarrow> fs_inv N m cs \<and> nib m = k \<and> set (frefs m cs) = data_area N m \<and>
     (\<forall>ino. valid_ino m ino \<longrightarrow> ifile m ino = [])"

lemma fresh_fsI:
  assumes "k * 64 < 2 ^ 32" "k < N" "\<forall>b. unat b < N \<longrightarrow> length (m b) = 128"
    "unat (n_inodeblocks (m 0)) = k" "fchain m (free_list (m 0)) cs" "distinct (frefs m cs)"
    "set (frefs m cs) = {b. k < unat b \<and> unat b < N}"
    "\<forall>b. 0 < unat b \<and> unat b \<le> k \<longrightarrow> m b = null_block"
  shows "fresh_fs N k m cs"
proof -
  have ib: "iroot m ino = 0 \<and> isize m ino = 0" if "valid_ino m ino" for ino
  proof -
    have "m (iblk ino) = null_block"
      using that assms(4,8) valid_iblk [OF that] by (auto simp: nib_def word_unat_eq_iff)
    then show ?thesis using inode_words by (simp add: iroot_def isize_def)
  qed
  have "length (m 0) = 128" using assms(2,3) by simp
  then have "free_state (data_area N m) m (m 0) cs"
    using assms(4-7) by (simp add: free_state_def data_area_def nib_def)
  moreover have "itree m ino = {} \<and> wf_inode N m cs ino" if "valid_ino m ino" for ino
    using ib [OF that] by (simp add: wf_inode_def itree_def iget_def)
  ultimately have "fs_inv N m cs" using assms(1-4) by (simp add: fs_inv_def nib_def)
  moreover have "ifile m ino = []" if "valid_ino m ino" for ino using ib [OF that] by (simp add: ifile_def)
  ultimately show ?thesis using assms(4,7) by (auto simp: fresh_fs_def nib_def data_area_def)
qed

context disk_below
begin

lemma treedisk_create_ok:
  assumes d: "inv d" "n_inodeblocks (mem d 0) = 0" and k: "k = (unat ninodes + 63) div 64"
    "unat ninodes + 63 < 2 ^ 32" "k + 2 \<le> N"
  shows "\<exists>d' cs. treedisk_create below bino ninodes d = Inr (Some d') \<and> inv d' \<and> fresh_fs N k (mem d') cs"
proof -
  let ?nb = "(ninodes + of_nat INODES_PER_BLOCK - 1) div of_nat INODES_PER_BLOCK"
  have N: "N < 2 ^ 31" by (rule N_bound [OF d(1)])
  have "unat (ninodes + 63) = unat ninodes + 63" using k(2) by (simp add: unat_word_ariths)
  then have nb: "unat ?nb = k" by (simp add: INODES_PER_BLOCK_def unat_div_distrib k(1) add_diff_eq [symmetric])
  then have nb1: "unat (?nb + 1) = Suc k" "unat (?nb + 2) = k + 2" using N k(3) by (simp_all add: unat_word_ariths)
  have uN: "unat (of_nat N :: block_no) = N" using N by (intro unat_of_nat_small) simp
  have size: "bs_getsize below bino d = Inr (int N)" using size_below [OF d(1)] getsize_ok [OF d(1)] by auto
  obtain fl d1 cs where s: "setup_freelist_loop below bino 0 (?nb + 1) (of_nat N) d = Inr (fl, d1)" "inv d1"
    "fchain (mem d1) fl cs" "distinct (frefs (mem d1) cs)" "set (frefs (mem d1) cs) = {b. Suc k \<le> unat b \<and> unat b < N}"
    using setup_freelist_loop_ok [OF d(1), where nb = "of_nat N" and lo = "Suc k" and nf = "?nb + 1" and fb = 0 and cs = "[]"]
      uN nb1(1) k(3) by auto
  let ?sb = "null_block[0 := ?nb, 1 := fl]"
  obtain d2 where d2: "bs_write below bino 0 ?sb d1 = Inr (Some d2)" "inv d2" "mem d2 = (mem d1)(0 := ?sb)"
    by (rule mem_write [OF s(2) unat_zero_N, of ?sb]) simp_all
  obtain d3 where d3: "clear_inodeblocks below bino k 1 d2 = Inr (Some d3)" "inv d3"
    "mem d3 = (\<lambda>b. if unat (1 :: block_no) \<le> unat b \<and> unat b < unat (1 :: block_no) + k then null_block else mem d2 b)"
    using clear_inodeblocks_ok [OF d2(2), of 1 k] k(3) by auto
  have "\<not> (of_nat N :: block_no) < ?nb + 2" using k(3) uN nb1(2) by (simp add: word_less_nat_alt)
  then have "treedisk_create below bino ninodes d = Inr (Some d3)"
    using size s(1) d2(1) d3(1) nb d(2) mem_read [OF d(1) unat_zero_N]
    by (simp add: treedisk_create_def Let_def setup_freelist_def)
  moreover have "fresh_fs N k (mem d3) cs"
  proof (rule fresh_fsI)
    have m0: "mem d3 0 = ?sb" by (simp add: d3(3) d2(3))
    have fr: "fchain (mem d3) fl cs = fchain (mem d1) fl cs \<and> frefs (mem d3) cs = frefs (mem d1) cs"
      by (rule fchain_frame) (use s(5) set_frefs [of cs "mem d1"] in \<open>auto simp: d3(3) d2(3)\<close>)
    show "k * 64 < 2 ^ 32" unfolding k(1) using k(2) by (metis div_times_less_eq_dividend le_less_trans)
    show "k < N" "\<forall>b. unat b < N \<longrightarrow> length (mem d3 b) = 128" using k(3) mem_length [OF d3(2)] by auto
    show "unat (n_inodeblocks (mem d3 0)) = k" using nb by (simp add: m0 n_inodeblocks_def)
    show "fchain (mem d3) (free_list (mem d3 0)) cs" "distinct (frefs (mem d3) cs)"
      "set (frefs (mem d3) cs) = {b. k < unat b \<and> unat b < N}"
      using fr s(3-5) by (simp_all add: m0 free_list_def Suc_le_eq)
    show "\<forall>b. 0 < unat b \<and> unat b \<le> k \<longrightarrow> mem d3 b = null_block" by (auto simp: d3(3))
  qed
  ultimately show ?thesis using d3(2) by blast
qed

end

end
