(* ===== verification/Ramdisk.thy ===== *)
theory Ramdisk
  imports Treedisk_Refinement
begin

text \<open>
  tools/mkfs.c: the ram disk the image builder runs treedisk on. The array \<^verbatim>\<open>fs\<close> of
  \<^verbatim>\<open>FS_DISK_SIZE\<close> bytes is the list of its 4096 blocks; \<^verbatim>\<open>memcpy\<close> at
  \<^verbatim>\<open>fs + offset * BLOCK_SIZE\<close> with the 32-bit product outside the array is the fault
  \<open>Out_of_bounds\<close>. The ram disk meets the contract of an inode store, so treedisk on top of it
  does too; the properties of the file system are stated here for every disk that meets the
  contract and are witnessed on this one.
\<close>

section \<open>The ram disk\<close>

definition BLOCK_SIZE :: nat where "BLOCK_SIZE = 512"
definition FS_DISK_SIZE :: nat where "FS_DISK_SIZE = 1024 * 1024 * 2"
definition NINODES :: m_uint32 where "NINODES = 128"

type_synonym ramdisk = "block list"

definition ram_index :: "block_no \<Rightarrow> nat" where
  "ram_index offset = unat (offset * of_nat BLOCK_SIZE) div BLOCK_SIZE"

definition ram_getsize :: "m_uint32 \<Rightarrow> ramdisk \<Rightarrow> int res" where
  "ram_getsize ino fs = Inr (int (FS_DISK_SIZE div BLOCK_SIZE))"

definition ram_setsize :: "m_uint32 \<Rightarrow> block_no \<Rightarrow> ramdisk \<Rightarrow> (int \<times> ramdisk) res" where
  "ram_setsize ino newsize fs = Inl (Fatal ''assert(0)'')"

definition ramread :: "m_uint32 \<Rightarrow> block_no \<Rightarrow> ramdisk \<Rightarrow> block option res" where
  "ramread ino offset fs =
     (if ram_index offset < length fs then Inr (Some (fs ! ram_index offset)) else Inl Out_of_bounds)"

definition ramwrite :: "m_uint32 \<Rightarrow> block_no \<Rightarrow> block \<Rightarrow> ramdisk \<Rightarrow> ramdisk option res" where
  "ramwrite ino offset block fs =
     (if ram_index offset < length fs then Inr (Some (fs[ram_index offset := block])) else Inl Out_of_bounds)"

definition ramdisk_init :: "ramdisk inode_store" where
  "ramdisk_init = \<lparr>bs_getsize = ram_getsize, bs_setsize = ram_setsize, bs_read = ramread, bs_write = ramwrite\<rparr>"

definition ram_inv :: "ramdisk \<Rightarrow> bool" where
  "ram_inv fs \<longleftrightarrow> length fs = 4096 \<and> (\<forall>b \<in> set fs. length b = 128)"

definition ram_files :: "ramdisk \<Rightarrow> m_uint32 \<Rightarrow> block list option" where
  "ram_files fs ino = (if ino = 0 then Some fs else None)"

definition ram_room :: "ramdisk \<Rightarrow> m_uint32 \<Rightarrow> block_no \<Rightarrow> bool" where
  "ram_room fs ino off \<longleftrightarrow> unat off < 4096"

lemma ram_index_small: "unat off < 4096 \<Longrightarrow> ram_index off = unat off"
  by (simp add: ram_index_def BLOCK_SIZE_def unat_word_ariths)

interpretation ram: inode_store_contract ramdisk_init ram_inv ram_files ram_room
proof
  fix d ino xs and off :: block_no and x :: block
  assume d: "ram_inv d" "ram_files d ino = Some xs"
  then have xs: "xs = d" "ino = 0" "length d = 4096" "\<forall>b \<in> set d. length b = 128"
    by (auto simp: ram_files_def ram_inv_def split: if_splits)
  show "bs_getsize ramdisk_init ino d = Inr (int (length xs))"
    using xs by (simp add: ramdisk_init_def ram_getsize_def FS_DISK_SIZE_def BLOCK_SIZE_def)
  show "length xs < 2 ^ 31 \<and> (\<forall>x \<in> set xs. length x = 128)" using xs by simp
  show "bs_read ramdisk_init ino off d = Inr (Some (xs ! unat off))" if "unat off < length xs"
    using xs that by (simp add: ramdisk_init_def ramread_def ram_index_small)
  assume "ram_room d ino off" "length x = 128"
  then have "bs_write ramdisk_init ino off x d = Inr (Some (d[unat off := x])) \<and> ram_inv (d[unat off := x]) \<and>
      ram_files (d[unat off := x]) = (ram_files d)(ino \<mapsto> write_block xs (unat off) x)"
    using xs by (auto simp: ramdisk_init_def ramwrite_def ram_room_def ram_index_small ram_inv_def ram_files_def
        write_block_def fun_eq_iff dest!: subsetD [OF set_update_subset_insert])
  then show "\<exists>d'. bs_write ramdisk_init ino off x d = Inr (Some d') \<and> ram_inv d' \<and>
      ram_files d' = (ram_files d)(ino \<mapsto> write_block xs (unat off) x)" by blast
qed

lemma ram_disk_below: "disk_below ramdisk_init ram_inv ram_files ram_room 0 4096"
  by unfold_locales (auto simp: ram_files_def ram_inv_def ram_room_def)

interpretation ramfs: disk_below ramdisk_init ram_inv ram_files ram_room 0 4096
  by (rule ram_disk_below)

definition blank_fs :: ramdisk where "blank_fs = replicate 4096 null_block"

lemma ram_inv_blank [simp]: "ram_inv blank_fs"
  by (simp add: ram_inv_def blank_fs_def)

lemma ram_mem: "unat b < 4096 \<Longrightarrow> disk_mem ram_files 0 4096 d b = d ! unat b"
  by (simp add: disk_mem_def ram_files_def)

lemma blank_mem0: "n_inodeblocks (disk_mem ram_files 0 4096 blank_fs 0) = 0"
  by (simp add: ram_mem blank_fs_def n_inodeblocks_def)

section \<open>A fresh file system on the ram disk\<close>

lemma ram_fresh:
  obtains d where "treedisk_create ramdisk_init 0 NINODES blank_fs = Inr (Some d)"
    "td_inv ram_inv ram_files 0 4096 d"
    "\<And>ino. td_files ram_files 0 4096 d ino = (if unat ino < 128 then Some [] else None)"
    "\<And>ino off. unat off < 2 ^ 31 - 1 \<Longrightarrow> td_room ram_files 0 4096 d ino off"
    "\<exists>cs. ram_inv d \<and> fresh_fs 4096 2 (disk_mem ram_files 0 4096 d) cs \<and> 4093 \<le> length (frefs (disk_mem ram_files 0 4096 d) cs)"
proof -
  have "\<exists>d cs. treedisk_create ramdisk_init 0 NINODES blank_fs = Inr (Some d) \<and> ram_inv d \<and>
    fresh_fs 4096 2 (disk_mem ram_files 0 4096 d) cs"
    by (rule ramfs.treedisk_create_ok [OF ram_inv_blank blank_mem0]) (simp_all add: NINODES_def)
  then obtain d cs where d: "treedisk_create ramdisk_init 0 NINODES blank_fs = Inr (Some d)" "ram_inv d"
    "fresh_fs 4096 2 (disk_mem ram_files 0 4096 d) cs" by blast
  let ?m = "disk_mem ram_files 0 4096 d"
  have f: "fs_inv 4096 ?m cs" "nib ?m = 2" "set (frefs ?m cs) = data_area 4096 ?m"
    "\<And>ino. valid_ino ?m ino \<Longrightarrow> ifile ?m ino = []" using d(3) by (auto simp: fresh_fs_def)
  have "data_area 4096 ?m = {b. 3 \<le> unat b \<and> unat b < 4096}" using f(2) by (auto simp: data_area_def)
  then have "card (data_area 4096 ?m) = 4093" using card_unat_interval [of 4096 3] by simp
  then have len: "4093 \<le> length (frefs ?m cs)" using card_length [of "frefs ?m cs"] f(3) by simp
  show thesis
  proof (rule that [OF d(1)])
    show "td_inv ram_inv ram_files 0 4096 d" using d(2) f(1) by (auto simp: td_inv_def)
    show "td_files ram_files 0 4096 d ino = (if unat ino < 128 then Some [] else None)" for ino
      using f(2,4) by (simp add: td_files_def valid_ino_def)
    show "td_room ram_files 0 4096 d ino off" if "unat off < 2 ^ 31 - 1" for ino off
      using that f(1) len by (force simp: td_room_def)
    show "\<exists>cs. ram_inv d \<and> fresh_fs 4096 2 ?m cs \<and> 4093 \<le> length (frefs ?m cs)" using d(2,3) len by blast
  qed
qed

section \<open>The file system implements files as lists of blocks\<close>

text \<open>
  C2. treedisk_write refines the abstract write. On any disk below that meets the contract, in a
  state with a well-formed file system and room for a write, writing a block of 512 bytes to a
  file succeeds, keeps the file system well formed, replaces or appends the block in the list of
  blocks that the file is (with zero blocks in a gap) and leaves every other file as it was.
\<close>

theorem treedisk_write_refines:
  assumes "disk_below below ok files room bino N"
    and "td_inv ok files bino N d" "td_files files bino N d ino = Some xs"
    and "td_room files bino N d ino off" "length x = 128"
  shows "\<exists>d'. treedisk_write below bino ino off x d = Inr (Some d') \<and> td_inv ok files bino N d' \<and>
    td_files files bino N d' = (td_files files bino N d)(ino \<mapsto> write_block xs (unat off) x)"
  using disk_below.td_write_ok [OF assms] by (simp add: treedisk_init_def)

theorem treedisk_write_refines_witness:
  "\<exists>d d'. treedisk_create ramdisk_init 0 NINODES blank_fs = Inr (Some d) \<and>
     treedisk_write ramdisk_init 0 5 1 (replicate 128 7) d = Inr (Some d') \<and>
     td_files ram_files 0 4096 d' 5 = Some [null_block, replicate 128 7]"
proof -
  obtain d where d: "treedisk_create ramdisk_init 0 NINODES blank_fs = Inr (Some d)"
    "td_inv ram_inv ram_files 0 4096 d" "td_files ram_files 0 4096 d 5 = Some []" "td_room ram_files 0 4096 d 5 1"
    by (rule ram_fresh) auto
  from treedisk_write_refines [OF ram_disk_below d(2-4), of "replicate 128 7"] d(1) show ?thesis
    by (auto simp: write_block_def)
qed

lemma td_read_spec:
  assumes "disk_below below ok files room bino N" and "td_inv ok files bino N d"
  shows "treedisk_read below bino ino off d = Inr (case td_files files bino N d ino of
    None \<Rightarrow> None | Some xs \<Rightarrow> if unat off < length xs then Some (xs ! unat off) else None)"
proof -
  obtain cs where cs: "ok d" "fs_inv N (disk_mem files bino N d) cs" using assms(2) by (auto simp: td_inv_def)
  show ?thesis
  proof (cases "valid_ino (disk_mem files bino N d) ino")
    case True
    from disk_below.treedisk_read_ok [OF assms(1) cs this] True show ?thesis by (simp add: td_files_def Let_def)
  next
    case False
    from disk_below.snapshot_invalid [OF assms(1) cs this] False show ?thesis
      by (simp add: td_files_def Let_def treedisk_read_def)
  qed
qed

text \<open>
  C19. treedisk_read returns the block of the file at the offset, a block of zeros where the file
  has a gap, and fails for an offset past the end and for an inode number past the last inode.
\<close>

theorem treedisk_read_correct:
  assumes "disk_below below ok files room bino N" and "td_inv ok files bino N d"
  shows "treedisk_read below bino ino off d = Inr (case td_files files bino N d ino of
    None \<Rightarrow> None | Some xs \<Rightarrow> if unat off < length xs then Some (xs ! unat off) else None)"
  using assms by (rule td_read_spec)

theorem treedisk_read_correct_witness:
  "\<exists>d d'. treedisk_create ramdisk_init 0 NINODES blank_fs = Inr (Some d) \<and>
     treedisk_write ramdisk_init 0 5 1 (replicate 128 7) d = Inr (Some d') \<and>
     treedisk_read ramdisk_init 0 5 1 d' = Inr (Some (replicate 128 7)) \<and>
     treedisk_read ramdisk_init 0 5 0 d' = Inr (Some null_block) \<and>
     treedisk_read ramdisk_init 0 5 2 d' = Inr None \<and> treedisk_read ramdisk_init 0 128 0 d = Inr None"
proof -
  obtain d where d: "treedisk_create ramdisk_init 0 NINODES blank_fs = Inr (Some d)"
    "td_inv ram_inv ram_files 0 4096 d" "td_files ram_files 0 4096 d 5 = Some []"
    "td_files ram_files 0 4096 d 128 = None" "td_room ram_files 0 4096 d 5 1"
    by (rule ram_fresh) auto
  obtain d' where d': "treedisk_write ramdisk_init 0 5 1 (replicate 128 7) d = Inr (Some d')"
    "td_inv ram_inv ram_files 0 4096 d'" "td_files ram_files 0 4096 d' 5 = Some [null_block, replicate 128 7]"
    using disk_below.td_write_ok [OF ram_disk_below d(2,3,5), of "replicate 128 7"]
    by (auto simp: treedisk_init_def write_block_def)
  from treedisk_read_correct [OF ram_disk_below d'(2)] treedisk_read_correct [OF ram_disk_below d(2)] d(1,4) d'(1,3)
  show ?thesis by (intro exI [of _ d] exI [of _ d']) simp
qed

text \<open>
  C20. treedisk_create on a disk whose superblock is blank: with enough blocks for the inode blocks,
  the superblock and one data block it succeeds; all files of the new file system exist and are
  empty and the file system is well formed. The free list, followed from the head that the superblock
  names, lists every block behind the inode blocks exactly once.
\<close>

theorem treedisk_create_correct:
  assumes "disk_below below ok files room bino N"
    and "ok d" "n_inodeblocks (disk_mem files bino N d 0) = 0"
    and "unat ninodes + 63 < 2 ^ 32" "(unat ninodes + 63) div 64 + 2 \<le> N"
  shows "\<exists>d' cs. treedisk_create below bino ninodes d = Inr (Some d') \<and> td_inv ok files bino N d' \<and>
    (\<forall>ino. td_files files bino N d' ino = (if unat ino < (unat ninodes + 63) div 64 * 64 then Some [] else None)) \<and>
    unat (n_inodeblocks (disk_mem files bino N d' 0)) = (unat ninodes + 63) div 64 \<and>
    fchain (disk_mem files bino N d') (free_list (disk_mem files bino N d' 0)) cs \<and>
    distinct (frefs (disk_mem files bino N d') cs) \<and>
    set (frefs (disk_mem files bino N d') cs) = {b. (unat ninodes + 63) div 64 < unat b \<and> unat b < N}"
proof -
  obtain d' cs where d': "treedisk_create below bino ninodes d = Inr (Some d')" "ok d'"
    "fresh_fs N ((unat ninodes + 63) div 64) (disk_mem files bino N d') cs"
    using disk_below.treedisk_create_ok [OF assms(1-3) refl assms(4,5)] by blast
  let ?m = "disk_mem files bino N d'"
  have f: "fs_inv N ?m cs" "nib ?m = (unat ninodes + 63) div 64" "set (frefs ?m cs) = data_area N ?m"
    "\<forall>ino. valid_ino ?m ino \<longrightarrow> ifile ?m ino = []" using d'(3) by (simp_all add: fresh_fs_def)
  have "free_state (data_area N ?m) ?m (?m 0) cs" using f(1) by (simp add: fs_inv_def)
  note fr = free_stateD [OF this]
  have "td_inv ok files bino N d'" using d'(2) f(1) by (auto simp: td_inv_def)
  moreover have "td_files files bino N d' ino = (if unat ino < (unat ninodes + 63) div 64 * 64 then Some [] else None)" for ino
    using f(2,4) by (simp add: td_files_def valid_ino_def Let_def)
  moreover have "set (frefs ?m cs) = {b. (unat ninodes + 63) div 64 < unat b \<and> unat b < N}"
    using f(2,3) by (simp add: data_area_def)
  moreover have "unat (n_inodeblocks (?m 0)) = (unat ninodes + 63) div 64" using f(2) by (simp add: nib_def)
  ultimately show ?thesis using d'(1) fr(3,4) by (intro exI [of _ d'] exI [of _ cs]) simp
qed

theorem treedisk_create_correct_witness:
  "\<exists>d'. treedisk_create ramdisk_init 0 NINODES blank_fs = Inr (Some d') \<and>
     td_files ram_files 0 4096 d' 127 = Some [] \<and> td_files ram_files 0 4096 d' 128 = None"
  using treedisk_create_correct [OF ram_disk_below ram_inv_blank blank_mem0, of NINODES]
  by (auto simp: NINODES_def)

text \<open>
  C10. Reading back a block that was just written gives the block, and every other block of every
  file reads as before.
\<close>

theorem treedisk_read_after_write:
  assumes "disk_below below ok files room bino N"
    and "td_inv ok files bino N d" "td_files files bino N d ino = Some xs"
    and "td_room files bino N d ino off" "length x = 128"
    and "treedisk_write below bino ino off x d = Inr (Some d')"
  shows "treedisk_read below bino ino off d' = Inr (Some x) \<and>
    (\<forall>ino' off' ys. td_files files bino N d ino' = Some ys \<and> unat off' < length ys \<and> (ino', off') \<noteq> (ino, off) \<longrightarrow>
       treedisk_read below bino ino' off' d' = treedisk_read below bino ino' off' d)"
proof -
  have w: "bs_write (treedisk_init below bino) ino off x d = Inr (Some d')"
    using assms(6) by (simp add: treedisk_init_def)
  note r = disk_below.td_read_after_write [OF assms(1-5) w]
  from r(1) have "treedisk_read below bino ino off d' = Inr (Some x)" by (simp add: treedisk_init_def)
  moreover have "treedisk_read below bino ino' off' d' = treedisk_read below bino ino' off' d"
    if "td_files files bino N d ino' = Some ys" "unat off' < length ys" "(ino', off') \<noteq> (ino, off)" for ino' off' ys
    using r(2) [OF that] by (simp add: treedisk_init_def)
  ultimately show ?thesis by blast
qed

theorem treedisk_read_after_write_witness:
  "\<exists>d d'. treedisk_create ramdisk_init 0 NINODES blank_fs = Inr (Some d) \<and>
     treedisk_write ramdisk_init 0 9 200 (replicate 128 5) d = Inr (Some d') \<and>
     treedisk_read ramdisk_init 0 9 200 d' = Inr (Some (replicate 128 5))"
proof -
  obtain d where d: "treedisk_create ramdisk_init 0 NINODES blank_fs = Inr (Some d)"
    "td_inv ram_inv ram_files 0 4096 d" "td_files ram_files 0 4096 d 9 = Some []" "td_room ram_files 0 4096 d 9 200"
    by (rule ram_fresh) auto
  obtain d' where d': "treedisk_write ramdisk_init 0 9 200 (replicate 128 5) d = Inr (Some d')"
    using disk_below.td_write_ok [OF ram_disk_below d(2-4), of "replicate 128 5"]
    by (auto simp: treedisk_init_def)
  from treedisk_read_after_write [OF ram_disk_below d(2-4) _ d'] d(1) d' show ?thesis by auto
qed

text \<open>
  The loops that compute the shape of a tree end, for every size: a block holds 2 to the
  power of 7 references, at most 5 levels are needed, and the number of levels is the least with
  room for all the blocks of the file.
\<close>

theorem nlevels_terminates:
  "log_rpb = 7 \<and> nlevels nb \<le> 5 \<and> unat nb \<le> 128 ^ nlevels nb \<and> (\<forall>k < nlevels nb. 128 ^ k < unat nb)"
proof -
  have "128 ^ k < unat nb" if "k < nlevels nb" for k
  proof -
    have nb: "nb \<noteq> 0" "nlevels nb = nlevels_from (nb - 1) 0"
      using that by (auto simp: nlevels_def word_neq_0_conv split: if_splits)
    then have "128 ^ k \<le> unat (nb - 1)" using that nlevels_from_spec(3) [of 0 "nb - 1"] by simp
    then show ?thesis using unat_minus_one [OF nb(1)] nb(1) by (simp add: unat_gt_0 Suc_le_eq le_diff_conv2)
  qed
  moreover have "nlevels nb \<le> 5" using nlevels_le [of "nb - 1"] by (simp add: nlevels_def)
  ultimately show ?thesis using nlevels_capacity [of nb] log_rpb_eq by simp
qed

theorem nlevels_terminates_witness: "nlevels 129 \<le> 5 \<and> 128 ^ 1 < unat (129 :: block_no)"
  using nlevels_terminates [of 129] by simp

end
