(* ===== verification/Mkfs.thy ===== *)
theory Mkfs
  imports Ramdisk
begin

text \<open>
  tools/mkfs.c: the program that builds the disk image: the file system with the directories and
  applications (mkfs), and the image with the kernel binaries before it (main). The files of the
  build directory are an input: \<open>elf\<close> gives the bytes of the file with a name. The buffer of mkfs is
  on the stack and keeps what earlier files left in it, so the tail of the last block of a file is
  what was there before.
\<close>

section \<open>Blocks and bytes\<close>

fun words_of :: "m_uint8 list \<Rightarrow> m_uint32 list" where
  "words_of (a # b # c # d # bs) = le32 a b c d # words_of bs"
| "words_of _ = []"

definition block_of_bytes :: "m_uint8 list \<Rightarrow> block" where "block_of_bytes bs = words_of bs"
definition bytes_of_block :: "block \<Rightarrow> m_uint8 list" where "bytes_of_block b = concat (map bytes32 b)"

lemma words_of_bytes: "length bs = 4 * n \<Longrightarrow> concat (map bytes32 (words_of bs)) = bs \<and> length (words_of bs) = n"
proof (induction n arbitrary: bs)
  case (Suc n)
  then obtain a b c d cs where "bs = a # b # c # d # cs" "length cs = 4 * n"
    by (cases bs; cases "tl bs"; cases "tl (tl bs)"; cases "tl (tl (tl bs))") auto
  with Suc.IH show ?case by (simp add: bytes32_le32)
qed simp

lemma bytes_of_block_of_bytes: "length bs = 512 \<Longrightarrow> bytes_of_block (block_of_bytes bs) = bs"
  and length_block_of_bytes: "length bs = 512 \<Longrightarrow> length (block_of_bytes bs) = 128"
  using words_of_bytes [of bs 128] by (simp_all add: bytes_of_block_def block_of_bytes_def)

section \<open>The files\<close>

definition NINODE :: nat where "NINODE = 25"
definition GRASS_NEXEC :: nat where "GRASS_NEXEC = 8"
definition GRASS_EXEC_SIZE :: nat where "GRASS_EXEC_SIZE = 1024 * 1024"

definition contents :: "string list" where
  "contents = [
     ''./   0 ../   0 home/   1   bin/   6 '',
     ''./   1 ../   0 cs6640/ 2   cheng/   3 ta/   4 '',
     ''./   2 ../   1 fs/     100 README   5 '',
     ''./   3 ../   1 '',
     ''./   4 ../   1 '',
     ''Welcome to CS6640 labs. '' @ [CHR 0x0A] @
       ''This OS is tailored from egos-2000 (https://github.com/yhzhang0128/egos-2000).'' @ [CHR 0x0A],
     ''./   6 ../   0 echo   7 cat   8 ls   9 cd  10 pwd  11 clock  12 crash1  13 crash2  14 ult  15 memloop 16 helloworld 17 loop 18 crash3 19 append 20 fstest 21 macb_test 22 http 23'',
     ''#../build/release/echo.elf'',
     ''#../build/release/cat.elf'',
     ''#../build/release/ls.elf'',
     ''#../build/release/cd.elf'',
     ''#../build/release/pwd.elf'',
     ''#../build/release/clock.elf'',
     ''#../build/release/crash1.elf'',
     ''#../build/release/crash2.elf'',
     ''#../build/release/ult.elf'',
     ''#../build/release/memloop.elf'',
     ''#../build/release/helloworld.elf'',
     ''#../build/release/loop.elf'',
     ''#../build/release/crash3.elf'',
     ''#../build/release/append.elf'',
     ''#../build/release/fstest.elf'',
     ''#../build/release/macb_test.elf'',
     ''#../build/release/http.elf'',
     ''./   100 ../ 2 '']"

definition string_bytes :: "string \<Rightarrow> m_uint8 list" where "string_bytes s = map of_char s"

text \<open>\<^verbatim>\<open>strncpy (buf, s, n)\<close>: the characters of the string, up to \<open>n\<close>, then zeros up to \<open>n\<close>.\<close>

definition strncpy :: "m_uint8 list \<Rightarrow> string \<Rightarrow> nat \<Rightarrow> m_uint8 list" where
  "strncpy buf s n = take n (string_bytes s) @ replicate (n - length s) 0 @ drop n buf"

section \<open>mkfs\<close>

text \<open>The results of \<^verbatim>\<open>treedisk->write\<close> are not looked at.\<close>

definition write_ignoring :: "m_uint32 \<Rightarrow> block_no \<Rightarrow> block \<Rightarrow> ramdisk \<Rightarrow> ramdisk res" where
  "write_ignoring ino off blk fs =
     rbind (bs_write (treedisk_init ramdisk_init 0) ino off blk fs) (\<lambda>r. Inr (case r of None \<Rightarrow> fs | Some fs' \<Rightarrow> fs'))"

function write_file :: "m_uint32 \<Rightarrow> nat \<Rightarrow> nat \<Rightarrow> m_uint8 list \<Rightarrow> ramdisk \<Rightarrow> ramdisk res" where
  "write_file ino b st_size buf fs =
     (if b * BLOCK_SIZE < st_size
      then rbind (write_ignoring ino (of_nat b) (block_of_bytes (take BLOCK_SIZE (drop (b * BLOCK_SIZE) buf))) fs)
             (write_file ino (b + 1) st_size buf)
      else Inr fs)"
  by auto
termination by (relation "measure (\<lambda>(ino, b, st_size, buf, fs). st_size - b * BLOCK_SIZE)") (auto simp: BLOCK_SIZE_def)

declare write_file.simps [simp del]

text \<open>One file: the buffer after it and the file system.\<close>

definition mkfs_file :: "(string \<Rightarrow> m_uint8 list) \<Rightarrow> nat \<times> string \<Rightarrow> m_uint8 list \<times> ramdisk \<Rightarrow> (m_uint8 list \<times> ramdisk) res" where
  "mkfs_file elf = (\<lambda>(ino, s) (buf, fs).
     if s ! 0 \<noteq> CHR ''#''
     then let buf = strncpy buf s BLOCK_SIZE
          in rbind (write_ignoring (of_nat ino) 0 (block_of_bytes (take BLOCK_SIZE buf)) fs) (\<lambda>fs. Inr (buf, fs))
     else let file = elf (tl s)
          in if length file > length buf then Inl Out_of_bounds
             else let buf = file @ drop (length file) buf
                  in rbind (write_file (of_nat ino) 0 (length file) buf fs) (\<lambda>fs. Inr (buf, fs)))"

fun mkfs_files :: "(string \<Rightarrow> m_uint8 list) \<Rightarrow> (nat \<times> string) list \<Rightarrow> m_uint8 list \<times> ramdisk \<Rightarrow> (m_uint8 list \<times> ramdisk) res" where
  "mkfs_files elf [] st = Inr st"
| "mkfs_files elf (f # fs) st = rbind (mkfs_file elf f st) (mkfs_files elf fs)"

definition mkfs :: "(string \<Rightarrow> m_uint8 list) \<Rightarrow> m_uint8 list \<Rightarrow> ramdisk \<Rightarrow> ramdisk res" where
  "mkfs elf buf fs =
     rbind (treedisk_create ramdisk_init 0 NINODES fs) (\<lambda>r. case r of
       None \<Rightarrow> Inl (Fatal ''assert'')
     | Some fs \<Rightarrow> rbind (mkfs_files elf (zip [0..<NINODE] contents) (buf, fs)) (\<lambda>(buf, fs). Inr fs))"

section \<open>The image\<close>

definition kernel_processes :: "string list" where
  "kernel_processes = [''../build/release/grass.elf'', ''../build/release/sys_proc.elf'', ''../build/release/sys_file.elf'',
     ''../build/release/sys_dir.elf'', ''../build/release/sys_net.elf'', ''../build/release/sys_shell.elf'']"

definition exec_size :: nat where "exec_size = GRASS_EXEC_SIZE div GRASS_NEXEC"

definition kernel_segment :: "m_uint8 list \<Rightarrow> m_uint8 list res" where
  "kernel_segment file =
     (if length file > 0 \<and> length file \<le> exec_size then Inr (file @ replicate (exec_size - length file) 0)
      else Inl (Fatal ''assert''))"

fun kernel_segments :: "(string \<Rightarrow> m_uint8 list) \<Rightarrow> string list \<Rightarrow> m_uint8 list res" where
  "kernel_segments elf [] = Inr []"
| "kernel_segments elf (f # fs) =
     rbind (kernel_segment (elf f)) (\<lambda>seg. rbind (kernel_segments elf fs) (\<lambda>rest. Inr (seg @ rest)))"

text \<open>The bytes of disk.img; \<open>rwfs\<close> is the image of the second file system.\<close>

definition mkfs_main :: "(string \<Rightarrow> m_uint8 list) \<Rightarrow> m_uint8 list \<Rightarrow> m_uint8 list \<Rightarrow> ramdisk \<Rightarrow> m_uint8 list res" where
  "mkfs_main elf buf rwfs fs =
     rbind (mkfs elf buf fs) (\<lambda>fs.
     rbind (kernel_segments elf kernel_processes) (\<lambda>segs.
     Inr (rwfs @ segs @ replicate ((GRASS_NEXEC - length kernel_processes) * exec_size) 0 @ concat (map bytes_of_block fs))))"

section \<open>The files are in the file system\<close>

definition file_blocks :: "nat \<Rightarrow> m_uint8 list \<Rightarrow> block list" where
  "file_blocks st_size buf = map (\<lambda>b. block_of_bytes (take BLOCK_SIZE (drop (b * BLOCK_SIZE) buf))) [0..<(st_size + 511) div 512]"

definition fs_state :: "ramdisk \<Rightarrow> (m_uint32 \<Rightarrow> block list) \<Rightarrow> nat \<Rightarrow> bool" where
  "fs_state d f k \<longleftrightarrow> ram_inv d \<and> nib (disk_mem ram_files 0 4096 d) = 2 \<and>
     (\<forall>ino. unat ino < 128 \<longrightarrow> ifile (disk_mem ram_files 0 4096 d) ino = f ino) \<and>
     (\<exists>cs. fs_inv 4096 (disk_mem ram_files 0 4096 d) cs \<and> k \<le> length (frefs (disk_mem ram_files 0 4096 d) cs))"

lemma fs_state_fresh:
  obtains d where "treedisk_create ramdisk_init 0 NINODES blank_fs = Inr (Some d)" "fs_state d (\<lambda>_. []) 4093"
proof -
  obtain d cs where d: "treedisk_create ramdisk_init 0 NINODES blank_fs = Inr (Some d)" "ram_inv d"
    "fresh_fs 4096 2 (disk_mem ram_files 0 4096 d) cs" "4093 \<le> length (frefs (disk_mem ram_files 0 4096 d) cs)"
    by (rule ram_fresh) blast
  then have "fs_state d (\<lambda>_. []) 4093" by (auto simp: fs_state_def fresh_fs_def valid_ino_def)
  with d(1) show thesis by (rule that)
qed

lemma write_state:
  assumes "fs_state d f (k + 11)" "unat ino < 128" "length x = 128" "unat off < 2 ^ 31 - 1"
  shows "\<exists>d'. write_ignoring ino off x d = Inr d' \<and> fs_state d' (f(ino := write_block (f ino) (unat off) x)) k"
proof -
  let ?m = "disk_mem ram_files 0 4096"
  obtain cs where cs: "ram_inv d" "fs_inv 4096 (?m d) cs" "k + 11 \<le> length (frefs (?m d) cs)" "nib (?m d) = 2"
    "\<And>ino. unat ino < 128 \<Longrightarrow> ifile (?m d) ino = f ino"
    using assms(1) by (auto simp: fs_state_def)
  have v: "valid_ino (?m d) jno \<longleftrightarrow> unat jno < 128" for jno using cs(4) by (simp add: valid_ino_def)
  have r: "11 \<le> length (frefs (?m d) cs)" and v': "valid_ino (?m d) ino" using cs(3) v assms(2) by simp_all
  from ramfs.treedisk_write_ok [OF cs(1,2) v' assms(3,4) r] obtain d' cs' where
    d': "treedisk_write ramdisk_init 0 ino off x d = Inr (Some d')" "ram_inv d'" "fs_inv 4096 (?m d') cs'" "nib (?m d') = nib (?m d)"
    "ifile (?m d') ino = write_block (ifile (?m d) ino) (unat off) x"
    "\<forall>jno. valid_ino (?m d) jno \<and> jno \<noteq> ino \<longrightarrow> ifile (?m d') jno = ifile (?m d) jno"
    "length (frefs (?m d) cs) \<le> length (frefs (?m d') cs') + 11" by blast
  then have "fs_state d' (f(ino := write_block (f ino) (unat off) x)) k"
    using cs assms(2) by (auto simp: fs_state_def v)
  with d'(1) show ?thesis by (intro exI [of _ d']) (simp add: write_ignoring_def treedisk_init_def)
qed

definition n_blocks :: "(string \<Rightarrow> m_uint8 list) \<Rightarrow> string \<Rightarrow> nat" where
  "n_blocks elf s = (if s ! 0 \<noteq> CHR ''#'' then 1 else (length (elf (tl s)) + 511) div 512)"

text \<open>The blocks of a file hold a text, padded with zeros, or the bytes of a binary.\<close>

definition content_ok :: "(string \<Rightarrow> m_uint8 list) \<Rightarrow> string \<Rightarrow> block list \<Rightarrow> bool" where
  "content_ok elf s bs \<longleftrightarrow> length bs = n_blocks elf s \<and>
     (if s ! 0 \<noteq> CHR ''#'' then concat (map bytes_of_block bs) = string_bytes s @ replicate (512 - length s) 0
      else take (length (elf (tl s))) (concat (map bytes_of_block bs)) = elf (tl s))"

lemma block_slice:
  assumes "(b + 1) * 512 \<le> length buf"
  shows "length (take 512 (drop (b * 512) buf)) = 512"
  using assms by simp

lemma file_blocks_bytes:
  assumes "n * 512 \<le> length buf"
  shows "concat (map bytes_of_block (map (\<lambda>b. block_of_bytes (take 512 (drop (b * 512) buf))) [0..<n])) = take (n * 512) buf"
  using assms
proof (induction n)
  case (Suc n)
  have "length (take 512 (drop (n * 512) buf)) = 512" using Suc.prems by (intro block_slice) simp
  then have "concat (map bytes_of_block (map (\<lambda>b. block_of_bytes (take 512 (drop (b * 512) buf))) [0..<Suc n])) =
      take (n * 512) buf @ take 512 (drop (n * 512) buf)"
    using Suc by (simp add: bytes_of_block_of_bytes)
  also have "\<dots> = take (n * 512 + 512) buf" by (rule take_add [symmetric])
  finally show ?case by (simp add: add.commute)
qed simp

lemma length_file_blocks [simp]: "length (file_blocks st_size buf) = (st_size + 511) div 512"
  by (simp add: file_blocks_def)

lemma write_file_ok:
  assumes "fs_state d f (k + 11 * (n - b))" "n = (st_size + 511) div 512" "b \<le> n" "n * 512 \<le> length buf" "n \<le> 256" "unat ino < 128"
    and "f ino = take b (file_blocks st_size buf)"
  shows "\<exists>d'. write_file ino b st_size buf d = Inr d' \<and> fs_state d' (f(ino := file_blocks st_size buf)) k"
  using assms
proof (induction "n - b" arbitrary: b d f)
  case 0
  then have "b = n" "\<not> b * 512 < st_size" by auto
  moreover from this(1) have "f(ino := file_blocks st_size buf) = f" using 0 by (auto simp: fun_eq_iff)
  ultimately show ?case using 0 by (subst write_file.simps) (auto simp: BLOCK_SIZE_def)
next
  case (Suc x)
  let ?x = "block_of_bytes (take BLOCK_SIZE (drop (b * BLOCK_SIZE) buf))"
  have b: "b < n" "b * 512 < st_size" using Suc(2,4,5) by auto
  have "(b + 1) * 512 \<le> n * 512" using b(1) by simp
  then have "length (take 512 (drop (b * 512) buf)) = 512" using Suc(6) by (intro block_slice) linarith
  then have lx: "length ?x = 128" by (simp add: BLOCK_SIZE_def length_block_of_bytes)
  have u: "unat (of_nat b :: m_uint32) = b" using b(1) Suc(7) by (simp add: unsigned_of_nat take_bit_eq_mod)
  have st: "fs_state d f (k + 11 * (n - (b + 1)) + 11)" using Suc(2,3) b(1) by (simp add: Suc_diff_Suc algebra_simps)
  have lf: "length (f ino) = b" using Suc(4,9) b(1) by simp
  obtain d' where d': "write_ignoring ino (of_nat b) ?x d = Inr d'" "fs_state d' (f(ino := write_block (f ino) b ?x)) (k + 11 * (n - (b + 1)))"
    using write_state [OF st Suc(8) lx, of "of_nat b"] u b(1) Suc(7) by auto
  have t: "write_block (f ino) b ?x = take (b + 1) (file_blocks st_size buf)"
    using lf Suc(4,9) b(1) by (simp add: write_block_def take_Suc_conv_app_nth file_blocks_def)
  have "\<exists>d''. write_file ino (b + 1) st_size buf d' = Inr d'' \<and> fs_state d'' ((f(ino := write_block (f ino) b ?x))(ino := file_blocks st_size buf)) k"
    using Suc(2) Suc(5-8) b t by (intro Suc(1) [OF _ d'(2) Suc(4)]) auto
  with d'(1) b(2) show ?case by (subst write_file.simps) (simp add: BLOCK_SIZE_def)
qed

lemma strncpy_props:
  assumes "length buf = 131072" "length s \<le> 512"
  shows "length (strncpy buf s 512) = 131072" "take 512 (strncpy buf s 512) = string_bytes s @ replicate (512 - length s) 0"
  using assms by (simp_all add: strncpy_def string_bytes_def)

lemma mkfs_file_ok:
  assumes "fs_state d f (k + 11 * n_blocks elf s)" "length buf = 131072" "length s \<le> 512" "ino < 128" "f (of_nat ino) = []"
    "s ! 0 = CHR ''#'' \<Longrightarrow> length (elf (tl s)) \<le> 131072"
  shows "\<exists>d' buf' bs. mkfs_file elf (ino, s) (buf, d) = Inr (buf', d') \<and> length buf' = 131072 \<and> content_ok elf s bs \<and>
    fs_state d' (f(of_nat ino := bs)) k"
proof -
  have u: "unat (of_nat ino :: m_uint32) < 128" using assms(4) by (simp add: unsigned_of_nat take_bit_eq_mod)
  show ?thesis
  proof (cases "s ! 0 = CHR ''#''")
    case False
    let ?b = "strncpy buf s 512"
    note p = strncpy_props [OF assms(2,3)]
    have lx: "length (block_of_bytes (take 512 ?b)) = 128" using p(1) by (intro length_block_of_bytes) simp
    have st: "fs_state d f (k + 11)" using assms(1) False by (simp add: n_blocks_def)
    obtain d' where d': "write_ignoring (of_nat ino) 0 (block_of_bytes (take 512 ?b)) d = Inr d'"
      "fs_state d' (f(of_nat ino := write_block (f (of_nat ino)) 0 (block_of_bytes (take 512 ?b)))) k"
      using write_state [OF st u lx, of 0] by auto
    have "content_ok elf s [block_of_bytes (take 512 ?b)]"
      using False p assms(3) bytes_of_block_of_bytes [of "take 512 ?b"] by (simp add: content_ok_def n_blocks_def string_bytes_def)
    with d' p(1) False assms(5) show ?thesis by (auto simp: mkfs_file_def BLOCK_SIZE_def write_block_def)
  next
    case True
    let ?F = "elf (tl s)"
    let ?b = "?F @ drop (length ?F) buf" and ?n = "(length ?F + 511) div 512"
    have l: "length ?F \<le> 131072" "length ?b = 131072" using assms(2,6) True by simp_all
    then have n: "?n \<le> 256" "?n * 512 \<le> length ?b" "length ?F \<le> ?n * 512" by auto
    have "fs_state d f (k + 11 * (?n - 0))" using assms(1) True by (simp add: n_blocks_def)
    from write_file_ok [OF this refl _ n(2,1) u] obtain d' where
      d': "write_file (of_nat ino) 0 (length ?F) ?b d = Inr d'" "fs_state d' (f(of_nat ino := file_blocks (length ?F) ?b)) k"
      using assms(5) by auto
    have "take (length ?F) (take (?n * 512) ?b) = ?F" using n(3) by (simp add: min_def)
    then have "content_ok elf s (file_blocks (length ?F) ?b)"
      using True file_blocks_bytes [OF n(2)] by (simp add: content_ok_def n_blocks_def file_blocks_def BLOCK_SIZE_def del: map_map)
    with d' l True assms(2) show ?thesis by (auto simp: mkfs_file_def Let_def)
  qed
qed

lemma mkfs_files_ok:
  assumes "fs_state d f (k + 11 * sum_list (map (n_blocks elf \<circ> snd) fs))" "length buf = 131072" "distinct (map fst fs)"
    "\<forall>(ino, s) \<in> set fs. ino < 128 \<and> length s \<le> 512 \<and> f (of_nat ino) = [] \<and> (s ! 0 = CHR ''#'' \<longrightarrow> length (elf (tl s)) \<le> 131072)"
  shows "\<exists>d' buf' g. mkfs_files elf fs (buf, d) = Inr (buf', d') \<and> fs_state d' g k \<and>
    (\<forall>(ino, s) \<in> set fs. content_ok elf s (g (of_nat ino))) \<and> (\<forall>i. i \<notin> of_nat ` fst ` set fs \<longrightarrow> g i = f i)"
  using assms
proof (induction fs arbitrary: buf d f)
  case (Cons p fs)
  obtain ino s where p: "p = (ino, s)" by fastforce
  have h: "ino < 128" "length s \<le> 512" "f (of_nat ino) = []" "s ! 0 = CHR ''#'' \<Longrightarrow> length (elf (tl s)) \<le> 131072"
    using Cons.prems(4) p by auto
  have "fs_state d f (k + 11 * sum_list (map (n_blocks elf \<circ> snd) fs) + 11 * n_blocks elf s)"
    using Cons.prems(1) p by (simp add: algebra_simps o_def)
  from mkfs_file_ok [OF this Cons.prems(2) h(2,1,3,4)] obtain d1 buf1 bs where
    s1: "mkfs_file elf (ino, s) (buf, d) = Inr (buf1, d1)" "length buf1 = 131072" "content_ok elf s bs"
    "fs_state d1 (f(of_nat ino := bs)) (k + 11 * sum_list (map (n_blocks elf \<circ> snd) fs))" by auto
  have u: "unat (of_nat i :: m_uint32) = i" if "i < 128" for i using that by (simp add: unsigned_of_nat take_bit_eq_mod)
  have inj: "(of_nat i :: m_uint32) = of_nat j \<longleftrightarrow> i = j" if "i < 128" "j < 128" for i j
    using u [OF that(1)] u [OF that(2)] by metis
  have fresh: "\<forall>(i, t) \<in> set fs. (of_nat i :: m_uint32) \<noteq> of_nat ino"
  proof (intro ballI, clarify)
    fix i t assume it: "(i, t) \<in> set fs" "(of_nat i :: m_uint32) = of_nat ino"
    have "i < 128" using Cons.prems(4) it(1) by fastforce
    with it(2) inj h(1) have "i = ino" by blast
    moreover have "ino \<notin> fst ` set fs" using Cons.prems(3) p by simp
    ultimately show False using it(1) by (metis fst_conv imageI)
  qed
  have "\<forall>(i, t) \<in> set fs. i < 128 \<and> length t \<le> 512 \<and> (f(of_nat ino := bs)) (of_nat i) = [] \<and> (t ! 0 = CHR ''#'' \<longrightarrow> length (elf (tl t)) \<le> 131072)"
    using Cons.prems(4) fresh by auto
  from Cons.IH [OF s1(4,2) _ this] obtain d' buf' g where
    g: "mkfs_files elf fs (buf1, d1) = Inr (buf', d')" "fs_state d' g k" "\<forall>(ino, s) \<in> set fs. content_ok elf s (g (of_nat ino))"
    "\<forall>i. i \<notin> of_nat ` fst ` set fs \<longrightarrow> g i = (f(of_nat ino := bs)) i"
    using Cons.prems(3) p by auto
  have "(of_nat ino :: m_uint32) \<notin> of_nat ` fst ` set fs" using fresh by force
  then have "g (of_nat ino) = bs" using g(4) by simp
  then show ?case using s1 g p by (intro exI [of _ d'] exI [of _ buf'] exI [of _ g]) auto
qed auto

lemma contents_ok: "length contents = 25" "\<forall>s \<in> set contents. length s \<le> 512"
  by (simp_all add: contents_def)

lemma mkfs_ok:
  assumes "length buf = 131072" "\<forall>s \<in> set contents. s ! 0 = CHR ''#'' \<longrightarrow> length (elf (tl s)) \<le> 131072"
    and "sum_list (map (n_blocks elf) contents) \<le> 372"
  shows "\<exists>fs. mkfs elf buf blank_fs = Inr fs \<and> td_inv ram_inv ram_files 0 4096 fs \<and>
    (\<forall>ino < NINODE. \<exists>bs. td_files ram_files 0 4096 fs (of_nat ino) = Some bs \<and> content_ok elf (contents ! ino) bs)"
proof -
  obtain d where d: "treedisk_create ramdisk_init 0 NINODES blank_fs = Inr (Some d)" "fs_state d (\<lambda>_. []) 4093"
    by (rule fs_state_fresh)
  let ?fs = "zip [0..<NINODE] contents"
  have l: "length contents = NINODE" using contents_ok by (simp add: NINODE_def)
  then have m: "map (n_blocks elf \<circ> snd) ?fs = map (n_blocks elf) contents" "map fst ?fs = [0..<NINODE]"
    by (simp_all flip: map_map)
  have "fs_state d (\<lambda>_. []) (1 + 11 * sum_list (map (n_blocks elf \<circ> snd) ?fs))"
    using d(2) assms(3) unfolding m fs_state_def by (auto intro: order_trans)
  moreover have "\<forall>(ino, s) \<in> set ?fs. ino < 128 \<and> length s \<le> 512 \<and> ([] :: block list) = [] \<and> (s ! 0 = CHR ''#'' \<longrightarrow> length (elf (tl s)) \<le> 131072)"
    using contents_ok assms(2) by (auto simp: NINODE_def dest: set_zip_leftD set_zip_rightD)
  ultimately obtain d' buf' g where g: "mkfs_files elf ?fs (buf, d) = Inr (buf', d')" "fs_state d' g 1"
    "\<forall>(ino, s) \<in> set ?fs. content_ok elf s (g (of_nat ino))"
    using mkfs_files_ok [of d "\<lambda>_. []" 1 elf ?fs buf] assms(1) by (auto simp: m)
  have run: "mkfs elf buf blank_fs = Inr d'" using d(1) g(1) by (simp add: mkfs_def)
  have inv: "td_inv ram_inv ram_files 0 4096 d'" using g(2) by (auto simp: fs_state_def td_inv_def)
  have "td_files ram_files 0 4096 d' (of_nat ino) = Some (g (of_nat ino)) \<and> content_ok elf (contents ! ino) (g (of_nat ino))"
    if "ino < NINODE" for ino
  proof -
    have u: "unat (of_nat ino :: m_uint32) < 128" using that by (simp add: NINODE_def unsigned_of_nat take_bit_eq_mod)
    have "?fs ! ino = (ino, contents ! ino)" "ino < length ?fs" using that l by simp_all
    then have "(ino, contents ! ino) \<in> set ?fs" by (metis nth_mem)
    with g(2,3) u show ?thesis by (auto simp: fs_state_def td_files_def valid_ino_def Let_def)
  qed
  with run inv show ?thesis by blast
qed

text \<open>
  C21. mkfs makes a well-formed file system in which inode number i holds the contents of entry i
  of the table: the text, padded with zeros to a block, or the bytes of the binary it names, in
  as many blocks as they need. The hypotheses are that no binary is larger than the buffer of
  128 KB, and that the disk is large enough, at 11 blocks for every block written.
\<close>

theorem mkfs_correct:
  assumes "length buf = 131072" "\<forall>s \<in> set contents. s ! 0 = CHR ''#'' \<longrightarrow> length (elf (tl s)) \<le> 131072"
    and "sum_list (map (n_blocks elf) contents) \<le> 372"
  shows "\<exists>fs. mkfs elf buf blank_fs = Inr fs \<and> td_inv ram_inv ram_files 0 4096 fs \<and>
    (\<forall>ino < NINODE. \<exists>bs. td_files ram_files 0 4096 fs (of_nat ino) = Some bs \<and> content_ok elf (contents ! ino) bs)"
  by (rule mkfs_ok [OF assms])

theorem mkfs_correct_witness:
  "\<exists>fs. mkfs (\<lambda>_. replicate 600 1) (replicate 131072 0) blank_fs = Inr fs \<and>
     (\<exists>bs. td_files ram_files 0 4096 fs (of_nat 7) = Some bs \<and> take 600 (concat (map bytes_of_block bs)) = replicate 600 1)"
proof -
  have "sum_list (map (n_blocks (\<lambda>_. replicate 600 1)) contents) \<le> 372" by (simp add: contents_def n_blocks_def)
  moreover have "contents ! 7 = ''#../build/release/echo.elf''" by (simp add: contents_def)
  moreover obtain fs where "mkfs (\<lambda>_. replicate 600 1) (replicate 131072 0) blank_fs = Inr fs"
    "\<forall>ino < NINODE. \<exists>bs. td_files ram_files 0 4096 fs (of_nat ino) = Some bs \<and> content_ok (\<lambda>_. replicate 600 1) (contents ! ino) bs"
    using mkfs_correct [of "replicate 131072 0" "\<lambda>_. replicate 600 1"] calculation(1) by force
  moreover have "7 < NINODE" by (simp add: NINODE_def)
  ultimately obtain bs where "td_files ram_files 0 4096 fs (of_nat 7) = Some bs" "content_ok (\<lambda>_. replicate 600 1) ''#../build/release/echo.elf'' bs"
    by metis
  then show ?thesis using \<open>mkfs (\<lambda>_. replicate 600 1) (replicate 131072 0) blank_fs = Inr fs\<close> by (auto simp: content_ok_def)
qed

end
