(* ===== verification/File_Server.thy ===== *)
theory File_Server
  imports Mkfs
begin

text \<open>
  The path of a file read in the running system: the client functions file_read, file_write and
  file_size (library/servers/servers.c), the file server (apps/system/sys_file.c), the treedisk
  file system on the disk store (library/file/disk.c), and the disk driver (earth/dev_disk.c) on
  the on-board ROM that holds the image. The system is built without the second file system
  (RWFSON is not defined), so requests for its inodes are fatal. The driver of the SD card
  (earth/dev_sdcard.c) is incomplete in the sources: after waiting for the card every read and
  write of it is fatal.
\<close>

section \<open>The disk\<close>

definition PAGING_DEV_SIZE :: nat where "PAGING_DEV_SIZE = 1024 * 1024"
definition GRASS_FS_START :: m_uint32 where "GRASS_FS_START = of_nat ((PAGING_DEV_SIZE + GRASS_EXEC_SIZE) div BLOCK_SIZE)"

text \<open>Waiting until the card is not busy; \<open>spi i\<close> is the answer to the \<open>i\<close>-th exchange of a byte.\<close>

partial_function (option) sd_wait :: "(nat \<Rightarrow> m_uint8) \<Rightarrow> nat \<Rightarrow> nat option" where
  "sd_wait spi i = (if spi i \<noteq> 0xff then sd_wait spi (i + 1) else Some i)"

definition sd_single_read :: "(nat \<Rightarrow> m_uint8) \<Rightarrow> 'a res" where
  "sd_single_read spi = (case sd_wait spi 0 of
     None \<Rightarrow> Inl Diverges | Some i \<Rightarrow> Inl (Fatal ''sd_single_read(): cmd17 frame is not implemented.''))"

definition sd_single_write :: "(nat \<Rightarrow> m_uint8) \<Rightarrow> 'a res" where
  "sd_single_write spi = (case sd_wait spi 0 of None \<Rightarrow> Inl Diverges | Some i \<Rightarrow> Inl (Fatal ''sd_single_write is incomplete''))"

definition sd_multi_read :: "'a res" where "sd_multi_read = Inl (Fatal ''sd_multi_read is not implemented'')"
definition sd_multi_write :: "'a res" where "sd_multi_write = Inl (Fatal ''sd_multi_write is not implemented'')"

definition sd_read :: "(nat \<Rightarrow> m_uint8) \<Rightarrow> nat \<Rightarrow> 'a res" where
  "sd_read spi nblocks =
     (if nblocks = 1 then sd_single_read spi else if nblocks > 1 then sd_multi_read else Inl (Fatal ''invalid nblocks''))"

definition sd_write :: "(nat \<Rightarrow> m_uint8) \<Rightarrow> nat \<Rightarrow> 'a res" where
  "sd_write spi nblocks =
     (if nblocks = 1 then sd_single_write spi else if nblocks > 1 then sd_multi_write else Inl (Fatal ''invalid nblocks''))"

datatype disk_type = FLASH_ROM | SD_CARD

text \<open>The blocks of the image in the ROM, and the answers of the card.\<close>

record disk_dev =
  dtype :: disk_type
  rom :: "block list"
  spi :: "nat \<Rightarrow> m_uint8"

definition earth_disk_read :: "m_uint32 \<Rightarrow> nat \<Rightarrow> disk_dev \<Rightarrow> block list res" where
  "earth_disk_read block_no nblocks dev = (case dtype dev of
     FLASH_ROM \<Rightarrow> let i = unat (block_no * of_nat BLOCK_SIZE) div BLOCK_SIZE
       in if i + nblocks \<le> length (rom dev) then Inr (take nblocks (drop i (rom dev))) else Inl Out_of_bounds
   | SD_CARD \<Rightarrow> sd_read (spi dev) nblocks)"

definition earth_disk_write :: "m_uint32 \<Rightarrow> nat \<Rightarrow> block list \<Rightarrow> disk_dev \<Rightarrow> disk_dev res" where
  "earth_disk_write block_no nblocks src dev = (case dtype dev of
     FLASH_ROM \<Rightarrow> Inl (Fatal ''Attempt to write the on-board ROM'')
   | SD_CARD \<Rightarrow> sd_write (spi dev) nblocks)"

section \<open>The disk as an inode store\<close>

definition disk_getsize :: "m_uint32 \<Rightarrow> disk_dev \<Rightarrow> int res" where
  "disk_getsize ino dev = Inr (int (FS_DISK_SIZE div BLOCK_SIZE))"

definition disk_setsize :: "m_uint32 \<Rightarrow> block_no \<Rightarrow> disk_dev \<Rightarrow> (int \<times> disk_dev) res" where
  "disk_setsize ino n dev = Inl (Fatal ''disk: cannot set the size'')"

definition disk_read :: "m_uint32 \<Rightarrow> block_no \<Rightarrow> disk_dev \<Rightarrow> block option res" where
  "disk_read ino offset dev = rbind (earth_disk_read (GRASS_FS_START + offset) 1 dev) (\<lambda>bs. Inr (Some (hd bs)))"

definition disk_write :: "m_uint32 \<Rightarrow> block_no \<Rightarrow> block \<Rightarrow> disk_dev \<Rightarrow> disk_dev option res" where
  "disk_write ino offset b dev = rbind (earth_disk_write (GRASS_FS_START + offset) 1 [b] dev) (\<lambda>dev. Inr (Some dev))"

definition fs_disk_init :: "disk_dev inode_store" where
  "fs_disk_init = \<lparr>bs_getsize = disk_getsize, bs_setsize = disk_setsize, bs_read = disk_read, bs_write = disk_write\<rparr>"

section \<open>The file server\<close>

definition FS_ROOT_INODE :: m_uint32 where "FS_ROOT_INODE = 100"
definition FILE_READ :: m_uint32 where "FILE_READ = 1"
definition FILE_WRITE :: m_uint32 where "FILE_WRITE = 2"
definition FILE_GETSIZE :: m_uint32 where "FILE_GETSIZE = 3"
definition FILE_OK :: m_uint32 where "FILE_OK = 0"
definition FILE_ERROR :: m_uint32 where "FILE_ERROR = 1"

record file_request =
  req_type :: m_uint32
  req_ino :: m_uint32
  req_offset :: m_uint32
  req_len :: m_uint32
  req_block :: "m_uint8 list"

record file_reply =
  reply_status :: m_uint32
  reply_block :: "m_uint8 list"

text \<open>The reply is written over the request, so its block starts out as the request behind the type.\<close>

definition stale_block :: "file_request \<Rightarrow> m_uint8 list" where
  "stale_block r = take BLOCK_SIZE (bytes32 (req_ino r) @ bytes32 (req_offset r) @ bytes32 (req_len r) @ req_block r)"

definition sys_file_step :: "disk_dev \<Rightarrow> file_request \<Rightarrow> file_reply res" where
  "sys_file_step dev r =
     (if req_type r = FILE_READ
      then if req_ino r < FS_ROOT_INODE
           then rbind (bs_read (treedisk_init fs_disk_init 0) (req_ino r) (req_offset r) dev) (\<lambda>x. Inr (case x of
                  Some b \<Rightarrow> \<lparr>reply_status = FILE_OK, reply_block = bytes_of_block b\<rparr>
                | None \<Rightarrow> \<lparr>reply_status = FILE_ERROR, reply_block = stale_block r\<rparr>))
           else Inl (Fatal ''rwfs is off; should not be here'')
      else if req_type r = FILE_WRITE
      then if req_ino r < FS_ROOT_INODE then Inr \<lparr>reply_status = FILE_ERROR, reply_block = stale_block r\<rparr>
           else Inl (Fatal ''rwfs is off; should not be here'')
      else if req_type r = FILE_GETSIZE
      then if req_ino r < FS_ROOT_INODE then Inr \<lparr>reply_status = FILE_ERROR, reply_block = stale_block r\<rparr>
           else Inl (Fatal ''rwfs is off; should not be here'')
      else Inl (Fatal ''sys_file: request not implemented''))"

section \<open>The client functions\<close>

text \<open>\<open>stack\<close> is the request structure before it is filled in; the result is the return value and the block.\<close>

definition file_query :: "disk_dev \<Rightarrow> m_uint8 list \<Rightarrow> m_uint32 \<Rightarrow> m_uint32 \<Rightarrow> m_uint32 \<Rightarrow> nat \<Rightarrow> m_uint8 list \<Rightarrow> (int \<times> m_uint8 list) res" where
  "file_query dev stack type ino offset len blk =
     (if len > BLOCK_SIZE \<or> len > length blk then Inl Out_of_bounds
      else rbind (sys_file_step dev \<lparr>req_type = type, req_ino = ino, req_offset = offset, req_len = of_nat len,
             req_block = (if type = FILE_WRITE then take len blk @ drop len stack else stack)\<rparr>) (\<lambda>reply.
           Inr (if reply_status reply = FILE_OK then 0 else -1,
                if type = FILE_READ \<or> type = FILE_GETSIZE then take len (reply_block reply) @ drop len blk else blk)))"

definition file_read :: "disk_dev \<Rightarrow> m_uint8 list \<Rightarrow> m_uint32 \<Rightarrow> m_uint32 \<Rightarrow> nat \<Rightarrow> m_uint8 list \<Rightarrow> (int \<times> m_uint8 list) res" where
  "file_read dev stack ino offset len blk = file_query dev stack FILE_READ ino offset len blk"

definition file_write :: "disk_dev \<Rightarrow> m_uint8 list \<Rightarrow> m_uint32 \<Rightarrow> m_uint32 \<Rightarrow> nat \<Rightarrow> m_uint8 list \<Rightarrow> (int \<times> m_uint8 list) res" where
  "file_write dev stack ino offset len blk = file_query dev stack FILE_WRITE ino offset len blk"

definition file_size :: "disk_dev \<Rightarrow> m_uint8 list \<Rightarrow> m_uint32 \<Rightarrow> m_uint8 list \<Rightarrow> int res" where
  "file_size dev stack ino buf =
     rbind (file_query dev stack FILE_GETSIZE ino 0 4 buf) (\<lambda>(ret, buf).
       if ret < 0 then Inr ret else Inr (sint (le32 (buf ! 0) (buf ! 1) (buf ! 2) (buf ! 3))))"

section \<open>The ROM serves what the ram disk was made of\<close>

text \<open>Reading only, the tree disk gives the same result on a store that answers every read as another one does.\<close>

lemma on_success_mono:
  assumes "on_success m err f = Inr r" "\<And>x. m = Inr x \<Longrightarrow> m' = Inr x" "err = Inr r \<Longrightarrow> err' = Inr r" "\<And>x. f x = Inr r \<Longrightarrow> f' x = Inr r"
  shows "on_success m' err' f' = Inr r"
  using assms by (cases m) (auto simp: on_success_def split: option.splits)

lemma read_walk_mono:
  assumes "\<And>off x. bs_read below bino off d = Inr x \<Longrightarrow> bs_read below' bino' off d' = Inr x"
    and "read_walk below bino offset n b d = Inr r"
  shows "read_walk below' bino' offset n b d' = Inr r"
  using assms(2)
proof (induction n arbitrary: b)
  case 0
  then show ?case using assms(1) by (auto split: if_splits)
next
  case (Suc n)
  show ?case
  proof (cases "b = 0")
    case False
    with Suc.prems have "on_success (bs_read below bino b d) (Inr None) (\<lambda>tib. read_walk below bino offset n (tib ! tree_index offset n) d) = Inr r"
      by simp
    then have "on_success (bs_read below' bino' b d') (Inr None) (\<lambda>tib. read_walk below' bino' offset n (tib ! tree_index offset n) d') = Inr r"
      by (rule on_success_mono) (use assms(1) Suc.IH in auto)
    with False show ?thesis by simp
  qed (use Suc.prems in simp)
qed

lemma treedisk_read_mono:
  assumes r: "\<And>off x. bs_read below bino off d = Inr x \<Longrightarrow> bs_read below' bino' off d' = Inr x"
    and "treedisk_read below bino ino offset d = Inr y"
  shows "treedisk_read below' bino' ino offset d' = Inr y"
proof -
  have snap: "treedisk_get_snapshot below' bino' ino d' = Inr x" if "treedisk_get_snapshot below bino ino d = Inr x" for x
    using that unfolding treedisk_get_snapshot_def Let_def
    by (rule on_success_mono) (use r in \<open>auto split: if_splits elim!: on_success_mono\<close>)
  show ?thesis
    using assms(2) unfolding treedisk_read_def Let_def
    by (rule on_success_mono) (use snap read_walk_mono [OF r] in \<open>auto split: if_splits\<close>)
qed

lemma rom_agrees:
  assumes "dtype dev = FLASH_ROM" "rom dev = pre @ fs" "length pre = 4096" "length fs = 4096"
    and "bs_read ramdisk_init 0 off fs = Inr x"
  shows "bs_read fs_disk_init 0 off dev = Inr x"
proof -
  let ?w = "off * of_nat BLOCK_SIZE"
  have i: "ram_index off < 4096" "x = Some (fs ! ram_index off)"
    using assms(4,5) by (auto simp: ramdisk_init_def ramread_def split: if_splits)
  then have w: "unat ?w < 4096 * 512" by (simp add: ram_index_def BLOCK_SIZE_def)
  have "(GRASS_FS_START + off) * of_nat BLOCK_SIZE = 2097152 + ?w"
    by (simp add: GRASS_FS_START_def PAGING_DEV_SIZE_def GRASS_EXEC_SIZE_def BLOCK_SIZE_def algebra_simps)
  moreover have "unat (2097152 + ?w) = 2097152 + unat ?w" using w by (simp add: unat_word_ariths)
  ultimately have "unat ((GRASS_FS_START + off) * of_nat BLOCK_SIZE) div BLOCK_SIZE = 4096 + ram_index off"
    by (simp add: ram_index_def BLOCK_SIZE_def)
  with i assms show ?thesis
    by (simp add: fs_disk_init_def disk_read_def earth_disk_read_def Let_def hd_drop_conv_nth nth_append)
qed

lemma td_files_block:
  assumes "td_inv ram_inv ram_files 0 4096 fs" "td_files ram_files 0 4096 fs ino = Some xs" "i < length xs"
  shows "length (xs ! i) = 128"
  using assms by (auto simp: td_files_def td_inv_def Let_def split: if_splits intro: ifile_blocks)

lemma length_bytes_of_block: "length (bytes_of_block b) = 4 * length b"
  by (induction b) (simp_all add: bytes_of_block_def)

lemma rom_read:
  assumes dev: "dtype dev = FLASH_ROM" "rom dev = pre @ fs" "length pre = 4096" and fs: "td_inv ram_inv ram_files 0 4096 fs"
  shows "treedisk_read fs_disk_init 0 ino off dev = Inr (case td_files ram_files 0 4096 fs ino of
    None \<Rightarrow> None | Some xs \<Rightarrow> if unat off < length xs then Some (xs ! unat off) else None)"
proof -
  have l: "length fs = 4096" using fs by (simp add: td_inv_def ram_inv_def)
  show ?thesis by (rule treedisk_read_mono [OF rom_agrees [OF dev l] td_read_spec [OF ram_disk_below fs]])
qed

text \<open>
  C22. Reading a block of a file through the file server. When the ROM holds the image of a
  well-formed file system behind the first 4096 blocks, the block that comes back is the block
  of the file as mkfs wrote it; reads behind the end of the file, or of an inode the file system
  does not have, fail; and writes fail without effect.
\<close>

theorem file_read_correct:
  assumes "dtype dev = FLASH_ROM" "rom dev = pre @ fs" "length pre = 4096" "td_inv ram_inv ram_files 0 4096 fs"
    and "ino < FS_ROOT_INODE" "length blk = 512" "length stack = 512"
  shows "(case td_files ram_files 0 4096 fs ino of
      Some xs \<Rightarrow> if unat off < length xs then file_read dev stack ino off 512 blk = Inr (0, bytes_of_block (xs ! unat off))
        else \<exists>stale. file_read dev stack ino off 512 blk = Inr (-1, stale)
    | None \<Rightarrow> \<exists>stale. file_read dev stack ino off 512 blk = Inr (-1, stale)) \<and>
    file_write dev stack ino off 512 blk = Inr (-1, blk)"
proof -
  note r = rom_read [OF assms(1-4), of ino off]
  have b: "length (bytes_of_block (xs ! unat off)) = 512"
    if "td_files ram_files 0 4096 fs ino = Some xs" "unat off < length xs" for xs
    using td_files_block [OF assms(4) that] by (simp add: length_bytes_of_block)
  have "file_write dev stack ino off 512 blk = Inr (-1, blk)"
    using assms(5,6) by (simp add: file_write_def file_query_def sys_file_step_def FILE_READ_def FILE_WRITE_def FILE_GETSIZE_def
        FILE_OK_def FILE_ERROR_def BLOCK_SIZE_def)
  then show ?thesis
    using r b assms(5,6) by (auto simp: file_read_def file_query_def sys_file_step_def treedisk_init_def FILE_READ_def FILE_WRITE_def
        FILE_OK_def FILE_ERROR_def BLOCK_SIZE_def split: option.splits)
qed

theorem file_read_correct_witness:
  "\<exists>d d'. treedisk_create ramdisk_init 0 NINODES blank_fs = Inr (Some d) \<and> write_ignoring 7 0 (replicate 128 5) d = Inr d' \<and>
     file_read \<lparr>dtype = FLASH_ROM, rom = replicate 4096 null_block @ d', spi = (\<lambda>_. 0)\<rparr> (replicate 512 0) 7 0 512 (replicate 512 0) =
       Inr (0, bytes_of_block (replicate 128 5))"
proof -
  obtain d where d: "treedisk_create ramdisk_init 0 NINODES blank_fs = Inr (Some d)" "fs_state d (\<lambda>_. []) 4093"
    by (rule fs_state_fresh)
  then have "fs_state d (\<lambda>_. []) (4082 + 11)" by simp
  from write_state [OF this, of 7 "replicate 128 5" 0] obtain d' where
    d': "write_ignoring 7 0 (replicate 128 5) d = Inr d'" "fs_state d' ((\<lambda>_. [])(7 := [replicate 128 5])) 4082"
    by (auto simp: write_block_def)
  have f: "td_inv ram_inv ram_files 0 4096 d'" "td_files ram_files 0 4096 d' 7 = Some [replicate 128 5]"
    using d'(2) by (auto simp: fs_state_def td_inv_def td_files_def valid_ino_def Let_def)
  let ?dev = "\<lparr>dtype = FLASH_ROM, rom = replicate 4096 null_block @ d', spi = (\<lambda>_. 0)\<rparr>"
  have "file_read ?dev (replicate 512 0) 7 0 512 (replicate 512 0) = Inr (0, bytes_of_block (replicate 128 5))"
    using file_read_correct [of ?dev "replicate 4096 null_block" d' 7 "replicate 512 0" "replicate 512 0" 0] f
    by (simp add: FS_ROOT_INODE_def)
  with d(1) d'(1) show ?thesis by blast
qed

end
