(* ===== verification/Dir_Server.thy ===== *)
theory Dir_Server
  imports File_Server
begin

text \<open>
  The directory server (apps/system/sys_dir.c) and its clients dir_lookup, dir_mk and dir_rm
  (library/servers/servers.c). A directory of the read-only file system is a text of names and
  inode numbers, separated by blanks, in the first block of its file. The scan of that text is
  shown to look names up as in an association list.
\<close>

section \<open>Characters\<close>

definition blank :: m_uint8 where "blank = 32"

text \<open>\<^verbatim>\<open>isspace\<close>, and \<^verbatim>\<open>atoi\<close> of the C library: blanks, a sign, digits.\<close>

definition isspace :: "m_uint8 \<Rightarrow> bool" where "isspace c \<longleftrightarrow> c = 32 \<or> 9 \<le> c \<and> c \<le> 13"
definition isdigit :: "m_uint8 \<Rightarrow> bool" where "isdigit c \<longleftrightarrow> 48 \<le> c \<and> c \<le> 57"

fun digits_value :: "int \<Rightarrow> m_uint8 list \<Rightarrow> int" where
  "digits_value v [] = v"
| "digits_value v (c # cs) = (if isdigit c then digits_value (10 * v + (uint c - 48)) cs else v)"

definition atoi :: "m_uint8 list \<Rightarrow> int" where
  "atoi s = (case dropWhile isspace s of
     [] \<Rightarrow> 0
   | c # cs \<Rightarrow> if c = 45 then - digits_value 0 cs else if c = 43 then digits_value 0 cs else digits_value 0 (c # cs))"

section \<open>The scan\<close>

text \<open>
  The loop of dir_do_lookup over the buffer of 512 bytes. The bound \<open>strlen (buf) - namelen\<close> is
  unsigned: it is huge when the name is longer than the text, and then the loop leaves the buffer.
  The comparison leaves it when all of the rest of the buffer agrees with the name.
\<close>

function dir_scan :: "m_uint8 list \<Rightarrow> m_uint8 list \<Rightarrow> nat \<Rightarrow> nat \<Rightarrow> int res" where
  "dir_scan name buf limit i =
     (if i < limit
      then if i \<ge> length buf \<or> i + length name \<ge> length buf \<and> drop i buf = take (length buf - i) name then Inl Out_of_bounds
           else if take (length name) (drop i buf) = name \<and> i + length name < length buf \<and> buf ! (i + length name) = blank \<and>
                   (i = 0 \<or> buf ! (i - 1) = blank)
           then Inr (atoi (drop (i + length name) buf))
           else dir_scan name buf limit (i + 1)
      else Inr (-1))"
  by auto
termination by (relation "measure (\<lambda>(name, buf, limit, i). length buf - i)") auto

declare dir_scan.simps [simp del]

definition strlen :: "m_uint8 list \<Rightarrow> nat" where "strlen s = length (takeWhile (\<lambda>c. c \<noteq> 0) s)"

text \<open>The result of file_read is ignored; \<open>buf\<close> is what it leaves in the buffer.\<close>

definition dir_do_lookup :: "disk_dev \<Rightarrow> m_uint8 list \<Rightarrow> m_uint32 \<Rightarrow> m_uint8 list \<Rightarrow> m_uint8 list \<Rightarrow> int res" where
  "dir_do_lookup dev stack dir_ino name junk =
     rbind (file_read dev stack dir_ino 0 BLOCK_SIZE junk) (\<lambda>(r, buf).
       if strlen buf = length buf then Inl Out_of_bounds
       else dir_scan name buf (unat (of_nat (strlen buf) - of_nat (length name) :: m_uint32)) 0)"

section \<open>The server and its clients\<close>

definition DIR_LOOKUP :: m_uint32 where "DIR_LOOKUP = 1"
definition DIR_INSERT :: m_uint32 where "DIR_INSERT = 2"
definition DIR_REMOVE :: m_uint32 where "DIR_REMOVE = 3"
definition DIR_NAME_SIZE :: nat where "DIR_NAME_SIZE = 32"

record dir_request =
  dir_type :: m_uint32
  dir_ino :: m_uint32
  dir_name :: "m_uint8 list"

datatype dir_status = DIR_OK | DIR_ERROR

record dir_reply =
  dr_status :: dir_status
  dr_ino :: int

definition sys_dir_step :: "disk_dev \<Rightarrow> m_uint8 list \<Rightarrow> m_uint8 list \<Rightarrow> dir_request \<Rightarrow> dir_reply res" where
  "sys_dir_step dev stack junk r =
     (if dir_type r = DIR_LOOKUP
      then if sint (dir_ino r) < sint FS_ROOT_INODE
           then rbind (dir_do_lookup dev stack (dir_ino r) (dir_name r) junk) (\<lambda>ino.
             Inr \<lparr>dr_status = (if ino = -1 then DIR_ERROR else DIR_OK), dr_ino = ino\<rparr>)
           else Inl (Fatal ''rwfs is off; should not be here'')
      else Inl (Fatal ''sys_dir: request not implemented''))"

definition dir_query :: "disk_dev \<Rightarrow> m_uint8 list \<Rightarrow> m_uint8 list \<Rightarrow> m_uint32 \<Rightarrow> m_uint32 \<Rightarrow> m_uint8 list \<Rightarrow> int res" where
  "dir_query dev stack junk type ino name =
     (if length name \<ge> DIR_NAME_SIZE then Inl Out_of_bounds
      else rbind (sys_dir_step dev stack junk \<lparr>dir_type = type, dir_ino = ino, dir_name = name\<rparr>) (\<lambda>reply.
        Inr (if dr_status reply = DIR_OK then dr_ino reply else -1)))"

definition dir_lookup :: "disk_dev \<Rightarrow> m_uint8 list \<Rightarrow> m_uint8 list \<Rightarrow> m_uint32 \<Rightarrow> m_uint8 list \<Rightarrow> int res" where
  "dir_lookup dev stack junk ino name = dir_query dev stack junk DIR_LOOKUP ino name"

definition dir_mk :: "disk_dev \<Rightarrow> m_uint8 list \<Rightarrow> m_uint8 list \<Rightarrow> m_uint32 \<Rightarrow> m_uint8 list \<Rightarrow> int res" where
  "dir_mk dev stack junk ino name = dir_query dev stack junk DIR_INSERT ino name"

definition dir_rm :: "disk_dev \<Rightarrow> m_uint8 list \<Rightarrow> m_uint8 list \<Rightarrow> m_uint32 \<Rightarrow> m_uint8 list \<Rightarrow> int res" where
  "dir_rm dev stack junk ino name = dir_query dev stack junk DIR_REMOVE ino name"

section \<open>Looking up a name\<close>

text \<open>The scan on the rest of the text, with the information whether a name may start here.\<close>

fun scan_text :: "m_uint8 list \<Rightarrow> bool \<Rightarrow> m_uint8 list \<Rightarrow> int" where
  "scan_text name start [] = -1"
| "scan_text name start (c # cs) =
     (if start \<and> take (length name + 1) (c # cs) = name @ [blank] then atoi (drop (length name) (c # cs))
      else scan_text name (c = blank) cs)"

lemma atoi_zeros: "atoi (s @ 0 # zs) = atoi s"
proof -
  have z: "\<not> isspace 0" "\<not> isdigit 0" by (simp_all add: isspace_def isdigit_def)
  have d: "digits_value v (t @ 0 # zs) = digits_value v t" for v t
    by (induction v t rule: digits_value.induct) (simp_all add: z)
  have w: "dropWhile isspace (s @ 0 # zs) = dropWhile isspace s @ 0 # zs" using z(1) by (induction s) auto
  have "atoi (s @ 0 # zs) = atoi s" if "dropWhile isspace s = t" for t
    using that w z d [of 0 "tl t"] d [of 0 t] by (cases t) (simp_all only: atoi_def append_Nil append_Cons list.case list.sel, simp_all)
  then show ?thesis by blast
qed

lemma scan_text_short: "length s \<le> length name \<Longrightarrow> scan_text name start s = -1"
proof (induction name start s rule: scan_text.induct)
  case (2 name start c cs)
  then have "length (take (length name + 1) (c # cs)) < length (name @ [blank])" by simp
  then have "take (length name + 1) (c # cs) \<noteq> name @ [blank]" by (metis less_irrefl)
  with 2 show ?case by simp
qed simp

text \<open>A match does not reach over the end of the text, because neither the name nor a blank is zero.\<close>

lemma match_inside:
  assumes "buf = text @ 0 # zs" "0 \<notin> set name" "i \<le> length text"
  shows "take (length name) (drop i buf) = name \<and> i + length name < length buf \<and> buf ! (i + length name) = blank
    \<longleftrightarrow> take (length name + 1) (drop i text) = name @ [blank]"
proof -
  have l: "take (length name) (drop i buf) = name \<and> i + length name < length buf \<and> buf ! (i + length name) = blank
      \<longleftrightarrow> take (length name + 1) (drop i buf) = name @ [blank]"
  proof (cases "i + length name < length buf")
    case True
    then show ?thesis by (auto simp: take_Suc_conv_app_nth)
  next
    case False
    then have "length (take (length name + 1) (drop i buf)) < length (name @ [blank])" by simp
    then have "take (length name + 1) (drop i buf) \<noteq> name @ [blank]" by (metis less_irrefl)
    with False show ?thesis by simp
  qed
  show ?thesis
  proof (cases "i + length name < length text")
    case True
    then have "take (length name + 1) (drop i buf) = take (length name + 1) (drop i text)" using assms(1,3) by simp
    with l show ?thesis by simp
  next
    case False
    then have "take (length name + 1) (drop i buf) = drop i text @ 0 # take (i + length name - length text) zs"
      using assms(1,3) by (simp add: Suc_diff_le take_Cons' add.commute)
    then have "0 \<in> set (take (length name + 1) (drop i buf))" by simp
    then have "take (length name + 1) (drop i buf) \<noteq> name @ [blank]" using assms(2) by (auto simp: blank_def)
    moreover have "length (take (length name + 1) (drop i text)) < length (name @ [blank])" using False by simp
    then have "take (length name + 1) (drop i text) \<noteq> name @ [blank]" by (metis less_irrefl)
    ultimately show ?thesis using l by simp
  qed
qed

lemma dir_scan_text:
  assumes "buf = text @ 0 # zs" "0 \<notin> set name" "length name \<le> length text" "i \<le> length text"
  shows "dir_scan name buf (length text - length name) i = Inr (scan_text name (i = 0 \<or> text ! (i - 1) = blank) (drop i text))"
  using assms(4)
proof (induction "length text - i" arbitrary: i)
  case 0
  then have "i = length text" by simp
  with assms(3) show ?case by (subst dir_scan.simps) (auto simp: assms(1))
next
  case (Suc n)
  have i: "i < length text" using Suc(2) by simp
  show ?case
  proof (cases "i < length text - length name")
    case False
    then have "length (drop i text) \<le> length name" by simp
    with False show ?thesis by (subst dir_scan.simps) (simp add: scan_text_short)
  next
    case True
    have d: "drop i text = text ! i # drop (i + 1) text" using i by (simp add: Cons_nth_drop_Suc)
    have b: "buf ! j = text ! j" if "j < length text" for j using that assms(1) by (simp add: nth_append)
    have m: "take (length name) (drop i buf) = name \<and> i + length name < length buf \<and> buf ! (i + length name) = blank \<and> (i = 0 \<or> buf ! (i - 1) = blank)
        \<longleftrightarrow> (i = 0 \<or> text ! (i - 1) = blank) \<and> take (length name + 1) (drop i text) = name @ [blank]"
      using match_inside [OF assms(1,2), of i] i b [of "i - 1"] by auto
    have "drop (i + length name) buf = drop (i + length name) text @ 0 # zs" using True assms(1) by simp
    then have at: "atoi (drop (i + length name) buf) = atoi (drop (length name) (drop i text))" by (simp add: atoi_zeros add.commute)
    have "0 \<in> set (drop i buf)" using i assms(1) by simp
    then have in_buf: "drop i buf \<noteq> take (length buf - i) name" using assms(2) by (metis in_set_takeD)
    have step: "dir_scan name buf (length text - length name) i =
      (if (i = 0 \<or> text ! (i - 1) = blank) \<and> take (length name + 1) (drop i text) = name @ [blank] then Inr (atoi (drop (length name) (drop i text)))
       else dir_scan name buf (length text - length name) (i + 1))"
      using True i in_buf m at by (subst dir_scan.simps) (simp add: assms(1))
    have "dir_scan name buf (length text - length name) (i + 1) = Inr (scan_text name (text ! i = blank) (drop (i + 1) text))"
      using Suc(1) [of "i + 1"] Suc(2) i by simp
    with step show ?thesis unfolding d by simp
  qed
qed

section \<open>A directory is an association list\<close>

type_synonym dir_entry = "m_uint8 list \<times> nat \<times> m_uint8 list \<times> nat"

text \<open>Entries are a name, blanks, the digits of an inode number, and blanks, which may be missing at the end.\<close>

fun dir_text :: "dir_entry list \<Rightarrow> m_uint8 list" where
  "dir_text [] = []"
| "dir_text ((nm, a, ds, b) # es) = nm @ replicate (Suc a) blank @ ds @ replicate b blank @ dir_text es"

definition is_name :: "m_uint8 list \<Rightarrow> bool" where
  "is_name nm \<longleftrightarrow> nm \<noteq> [] \<and> blank \<notin> set nm \<and> 0 \<notin> set nm"

fun wf_dir :: "dir_entry list \<Rightarrow> bool" where
  "wf_dir [] \<longleftrightarrow> True"
| "wf_dir ((nm, a, ds, b) # es) \<longleftrightarrow> is_name nm \<and> ds \<noteq> [] \<and> (\<forall>c \<in> set ds. isdigit c) \<and> digits_value 0 ds < 2 ^ 31 \<and>
     (b > 0 \<or> es = []) \<and> wf_dir es"

definition dir_map :: "dir_entry list \<Rightarrow> m_uint8 list \<Rightarrow> int option" where
  "dir_map es = map_of (map (\<lambda>(nm, a, ds, b). (nm, digits_value 0 ds)) es)"

lemma scan_skip: "blank \<notin> set t \<Longrightarrow> scan_text name False (t @ blank # r) = scan_text name True r"
  by (induction t) auto

lemma scan_tail: "blank \<notin> set t \<Longrightarrow> scan_text name False t = -1"
  by (induction t) auto

lemma match_token:
  assumes "blank \<notin> set t" "blank \<notin> set name"
  shows "take (length name + 1) (t @ blank # r) = name @ [blank] \<longleftrightarrow> t = name"
  using assms
proof (induction t arbitrary: name)
  case Nil
  then show ?case by (cases name) auto
next
  case (Cons c cs)
  then show ?case by (cases name) auto
qed

lemma scan_token:
  assumes "blank \<notin> set t" "t \<noteq> []" "is_name name"
  shows "scan_text name True (t @ blank # r) = (if t = name then atoi (blank # r) else scan_text name True r)"
proof -
  obtain c cs where t: "t = c # cs" using assms(2) by (cases t) auto
  have n: "blank \<notin> set name" using assms(3) by (simp add: is_name_def)
  show ?thesis
  proof (cases "t = name")
    case True
    with match_token [OF assms(1) n, of r] t show ?thesis by (simp del: take_append)
  next
    case False
    with match_token [OF assms(1) n, of r] have "take (length name + 1) (t @ blank # r) \<noteq> name @ [blank]" by simp
    then have "scan_text name True (t @ blank # r) = scan_text name False (cs @ blank # r)"
      using assms(1) t by (auto simp del: take_Suc_Cons)
    also have "\<dots> = scan_text name True r" using assms(1) t by (intro scan_skip) simp
    finally show ?thesis using False by simp
  qed
qed

lemma scan_last:
  assumes "blank \<notin> set t" "is_name name"
  shows "scan_text name True t = -1"
proof (cases t)
  case (Cons c cs)
  have "blank \<in> set (name @ [blank])" "blank \<notin> set (take (length name + 1) t)" using assms(1) set_take_subset [of _ t] by auto
  then have "take (length name + 1) t \<noteq> name @ [blank]" by metis
  with Cons assms(1) scan_tail [of cs name] show ?thesis by (auto simp del: take_Suc_Cons)
qed simp

lemma scan_blanks: "is_name name \<Longrightarrow> scan_text name True (replicate k blank @ r) = scan_text name True r"
proof (induction k)
  case (Suc k)
  have "hd (take (length name + 1) (blank # s)) \<noteq> hd (name @ [blank])" for s
    using Suc.prems by (cases name) (auto simp: is_name_def)
  then have n: "take (length name + 1) (blank # s) \<noteq> name @ [blank]" for s by metis
  have "scan_text name True (blank # replicate k blank @ r) = scan_text name True (replicate k blank @ r)"
    using n [of "replicate k blank @ r"] by (simp only: scan_text.simps simp_thms if_False)
  with Suc show ?case by simp
qed simp

lemma digits_no_blank: "\<forall>c \<in> set ds. isdigit c \<Longrightarrow> blank \<notin> set ds"
  by (auto simp: isdigit_def blank_def)

lemma digits_value_append:
  "\<forall>c \<in> set ds. isdigit c \<Longrightarrow> r = [] \<or> \<not> isdigit (hd r) \<Longrightarrow> digits_value v (ds @ r) = digits_value v ds"
  by (induction ds arbitrary: v) (cases r; auto)+

lemma atoi_digits:
  assumes "\<forall>c \<in> set ds. isdigit c" "ds \<noteq> []" "r = [] \<or> \<not> isdigit (hd r)"
  shows "atoi (replicate k blank @ ds @ r) = digits_value 0 ds"
proof -
  obtain c cs where ds: "ds = c # cs" using assms(2) by (cases ds) auto
  have c: "\<not> isspace c" "c \<noteq> 45" "c \<noteq> 43" "isdigit c" using assms(1) ds by (auto simp: isdigit_def isspace_def word_le_nat_alt)
  have b: "isspace blank" by (simp add: isspace_def blank_def)
  have "dropWhile isspace (replicate k blank @ ds @ r) = ds @ r" using c(1) b ds by (induction k) simp_all
  then have "atoi (replicate k blank @ ds @ r) = digits_value 0 (ds @ r)" using c(2,3) ds by (simp add: atoi_def)
  with digits_value_append [OF assms(1,3)] show ?thesis by simp
qed

lemma scan_dir:
  assumes "wf_dir es" "is_name name" "\<not> (\<forall>c \<in> set name. isdigit c)"
  shows "scan_text name True (dir_text es) = (case dir_map es name of Some v \<Rightarrow> v | None \<Rightarrow> -1)"
  using assms(1)
proof (induction es rule: dir_text.induct)
  case (2 nm a ds b es)
  let ?r = "replicate b blank @ dir_text es"
  have h: "is_name nm" "ds \<noteq> []" "\<forall>c \<in> set ds. isdigit c" "b > 0 \<or> es = []" "wf_dir es" using 2(2) by auto
  have hr: "?r = [] \<or> \<not> isdigit (hd ?r)" using h(4) by (cases b) (auto simp: isdigit_def blank_def)
  have split: "dir_text ((nm, a, ds, b) # es) = nm @ blank # (replicate a blank @ ds @ ?r)" by simp
  have first: "scan_text name True (nm @ blank # (replicate a blank @ ds @ ?r)) =
      (if nm = name then atoi (replicate (Suc a) blank @ ds @ ?r) else scan_text name True (ds @ ?r))"
    using scan_token [of nm name "replicate a blank @ ds @ ?r"] scan_blanks [OF assms(2), of a "ds @ ?r"] h(1) assms(2) by (simp add: is_name_def)
  have dn: "ds \<noteq> name" using assms(3) h(3) by auto
  have "scan_text name True (ds @ ?r) = scan_text name True (dir_text es)"
  proof (cases b)
    case 0
    with h(4) have "es = []" by simp
    with 0 show ?thesis using scan_last [OF digits_no_blank [OF h(3)] assms(2)] by simp
  next
    case (Suc k)
    have "scan_text name True (ds @ blank # (replicate k blank @ dir_text es)) = scan_text name True (replicate k blank @ dir_text es)"
      using scan_token [OF digits_no_blank [OF h(3)] h(2) assms(2)] dn by simp
    with Suc show ?thesis using scan_blanks [OF assms(2)] by simp
  qed
  with first 2(1) h(5) atoi_digits [OF h(3,2) hr, of "Suc a"] show ?case unfolding split by (simp add: dir_map_def)
qed (simp add: dir_map_def)

section \<open>The lookup through the server\<close>

lemma dir_text_no_zero: "wf_dir es \<Longrightarrow> 0 \<notin> set (dir_text es)"
  by (induction es rule: dir_text.induct) (auto simp: is_name_def blank_def isdigit_def)

lemma file_read_block:
  assumes "dtype dev = FLASH_ROM" "rom dev = pre @ fs" "length pre = 4096" "td_inv ram_inv ram_files 0 4096 fs"
    and "td_files ram_files 0 4096 fs ino = Some (b # bs)" "ino < FS_ROOT_INODE" "length junk = 512"
  shows "file_read dev stack ino 0 BLOCK_SIZE junk = Inr (0, bytes_of_block b)"
proof -
  have "length (bytes_of_block b) = 512"
    using td_files_block [OF assms(4,5), of 0] by (simp add: length_bytes_of_block)
  then show ?thesis using rom_read [OF assms(1-4), of ino 0] assms(5-7)
    by (simp add: file_read_def file_query_def sys_file_step_def treedisk_init_def FILE_READ_def FILE_WRITE_def
        FILE_OK_def FILE_ERROR_def BLOCK_SIZE_def)
qed

lemma strlen_text: "0 \<notin> set text \<Longrightarrow> strlen (text @ 0 # zs) = length text"
  unfolding strlen_def by (subst takeWhile_append2) auto

lemma dir_do_lookup_text:
  assumes "file_read dev stack ino 0 BLOCK_SIZE junk = Inr (r, text @ 0 # zs)" "0 \<notin> set text" "length text < 512"
    and "0 \<notin> set name" "length name \<le> length text"
  shows "dir_do_lookup dev stack ino name junk = Inr (scan_text name True text)"
proof -
  have "unat (of_nat (length text) - of_nat (length name) :: m_uint32) = length text - length name"
    using assms(3,5) by (simp add: unsigned_of_nat take_bit_eq_mod flip: of_nat_diff)
  then show ?thesis using assms dir_scan_text [OF refl assms(4,5), of 0]
    by (simp add: dir_do_lookup_def strlen_text)
qed

lemma dir_lookup_ok:
  assumes "dtype dev = FLASH_ROM" "rom dev = pre @ fs" "length pre = 4096" "td_inv ram_inv ram_files 0 4096 fs"
    and "td_files ram_files 0 4096 fs ino = Some (b # bs)" "ino < FS_ROOT_INODE" "length junk = 512"
    and "bytes_of_block b = dir_text es @ replicate (512 - length (dir_text es)) 0" "length (dir_text es) < 512" "wf_dir es"
    and "is_name name" "\<not> (\<forall>c \<in> set name. isdigit c)" "length name < DIR_NAME_SIZE" "length name \<le> length (dir_text es)"
  shows "dir_lookup dev stack junk ino name = Inr (case dir_map es name of Some v \<Rightarrow> v | None \<Rightarrow> -1)"
proof -
  have "replicate (512 - length (dir_text es)) (0 :: m_uint8) = 0 # replicate (511 - length (dir_text es)) 0"
    using assms(9) by (cases "512 - length (dir_text es)") (auto simp: Suc_diff_Suc)
  then have rd: "file_read dev stack ino 0 BLOCK_SIZE junk = Inr (0, dir_text es @ 0 # replicate (511 - length (dir_text es)) 0)"
    using file_read_block [OF assms(1-7), of stack] assms(8) by simp
  have "0 \<notin> set name" using assms(11) by (simp add: is_name_def)
  with dir_do_lookup_text [OF rd dir_text_no_zero [OF assms(10)] assms(9) _ assms(14)]
  have l: "dir_do_lookup dev stack ino name junk = Inr (case dir_map es name of Some v \<Rightarrow> v | None \<Rightarrow> -1)"
    using scan_dir [OF assms(10-12)] by simp
  have "uint ino < 100" using assms(6) by (simp add: FS_ROOT_INODE_def word_less_def)
  moreover have "- (2 ^ 31) \<le> uint ino" by (rule order_trans [OF _ unsigned_greater_eq]) simp
  ultimately have "sint ino = uint ino" by (simp add: sint_uint signed_take_bit_int_eq_self)
  with assms(6) have s: "sint ino < sint FS_ROOT_INODE" by (simp add: FS_ROOT_INODE_def word_less_def)
  show ?thesis using l s assms(13) by (simp add: dir_lookup_def dir_query_def sys_dir_step_def)
qed

text \<open>
  C23. Looking a name up in a directory of the read-only file system. When the first block of the
  directory's file is a text of entries, filled up with zeros, the answer that reaches the client
  is the inode number of the first entry with that name, and -1 when there is none. The name must
  not be a number, as the scan would take the inode numbers for names as well, and must not be
  longer than the text.
\<close>

theorem dir_lookup_correct:
  assumes "dtype dev = FLASH_ROM" "rom dev = pre @ fs" "length pre = 4096" "td_inv ram_inv ram_files 0 4096 fs"
    and "td_files ram_files 0 4096 fs ino = Some (b # bs)" "ino < FS_ROOT_INODE" "length junk = 512"
    and "bytes_of_block b = dir_text es @ replicate (512 - length (dir_text es)) 0" "length (dir_text es) < 512" "wf_dir es"
    and "is_name name" "\<not> (\<forall>c \<in> set name. isdigit c)" "length name < DIR_NAME_SIZE" "length name \<le> length (dir_text es)"
  shows "dir_lookup dev stack junk ino name = Inr (case dir_map es name of Some v \<Rightarrow> v | None \<Rightarrow> -1)"
  by (rule dir_lookup_ok [OF assms])

text \<open>
  A name longer than the text of the directory is searched beyond the end of the buffer, as the
  bound of the loop is the difference of unsigned numbers.
\<close>

theorem long_name_leaves_buffer:
  assumes "file_read dev stack ino 0 BLOCK_SIZE junk = Inr (r, text @ replicate (512 - length text) 0)"
    and "0 \<notin> set text" "length text < length name" "length name < 500" "0 \<notin> set name"
  shows "dir_do_lookup dev stack ino name junk = Inl Out_of_bounds"
proof -
  let ?buf = "text @ replicate (512 - length text) (0 :: m_uint8)"
  obtain buf where buf: "buf = ?buf" by simp
  have lb: "length buf = 512" using assms(3,4) buf by simp
  have no: "take (length name) (drop i buf) \<noteq> name" for i
  proof
    assume m: "take (length name) (drop i buf) = name"
    then have "length (take (length name) (drop i buf)) = length name" by simp
    then have i: "i + length name \<le> 512" using lb assms(3) by auto
    have "take (length name) (drop i buf) ! (length name - 1) = buf ! (i + (length name - 1))" using assms(3) lb i by simp
    moreover have "buf ! (i + (length name - 1)) = 0" using assms(3) i
      unfolding buf by (subst nth_append) (simp add: less_diff_conv2)
    ultimately have "name ! (length name - 1) = 0" using m by simp
    moreover have "name ! (length name - 1) \<in> set name" using assms(3) by (intro nth_mem) simp
    ultimately show False using assms(5) by simp
  qed
  have "dir_scan name buf limit i = Inl Out_of_bounds" if "limit > 512" "i \<le> 512" for limit i
    using that(2)
  proof (induction "512 - i" arbitrary: i)
    case 0
    with that(1) lb show ?case by (subst dir_scan.simps) simp
  next
    case (Suc n)
    then have "dir_scan name buf limit (i + 1) = Inl Out_of_bounds" by simp
    moreover have "i < limit" using that(1) Suc(2) by simp
    ultimately show ?case using no [of i] by (subst dir_scan.simps) simp
  qed
  moreover have "replicate (512 - length text) (0 :: m_uint8) = 0 # replicate (511 - length text) 0"
    using assms(3,4) by (cases "512 - length text") (auto simp: Suc_diff_Suc)
  then have "strlen buf = length text" using strlen_text [OF assms(2)] buf by simp
  moreover have "unat (of_nat (length text) - of_nat (length name) :: m_uint32) > 512"
    using assms(3,4) by (simp add: unat_sub_if' unsigned_of_nat take_bit_eq_mod)
  ultimately show ?thesis using assms(1,3,4) lb by (simp add: dir_do_lookup_def flip: buf)
qed

definition root_entries :: "dir_entry list" where
  "root_entries = [(string_bytes ''./'', 2, string_bytes ''0'', 1), (string_bytes ''../'', 2, string_bytes ''0'', 1),
     (string_bytes ''home/'', 2, string_bytes ''1'', 3), (string_bytes ''bin/'', 2, string_bytes ''6'', 1)]"

lemma root_entries_text: "dir_text root_entries = string_bytes (contents ! 0)"
  by (simp add: root_entries_def contents_def string_bytes_def blank_def numeral_eq_Suc)

lemma root_entries_wf: "wf_dir root_entries"
  by (simp add: root_entries_def is_name_def string_bytes_def blank_def isdigit_def)

theorem dir_lookup_correct_witness:
  "\<exists>d d'. treedisk_create ramdisk_init 0 NINODES blank_fs = Inr (Some d) \<and>
     write_ignoring 0 0 (block_of_bytes (string_bytes (contents ! 0) @ replicate 476 0)) d = Inr d' \<and>
     dir_lookup \<lparr>dtype = FLASH_ROM, rom = replicate 4096 null_block @ d', spi = (\<lambda>_. 0)\<rparr> [] (replicate 512 0) 0 (string_bytes ''bin/'') = Inr 6"
proof -
  let ?b = "block_of_bytes (string_bytes (contents ! 0) @ replicate 476 0)"
  obtain d where d: "treedisk_create ramdisk_init 0 NINODES blank_fs = Inr (Some d)" "fs_state d (\<lambda>_. []) 4093"
    by (rule fs_state_fresh)
  then have st: "fs_state d (\<lambda>_. []) (4082 + 11)" by simp
  have l: "length (string_bytes (contents ! 0)) = 36" by (simp add: contents_def string_bytes_def)
  then have lb: "length ?b = 128" by (intro length_block_of_bytes) simp
  from write_state [OF st _ lb, of 0 0] obtain d' where
    d': "write_ignoring 0 0 ?b d = Inr d'" "fs_state d' ((\<lambda>_. [])(0 := [?b])) 4082"
    by (auto simp: write_block_def)
  have f: "td_inv ram_inv ram_files 0 4096 d'" "td_files ram_files 0 4096 d' 0 = Some [?b]"
    using d'(2) by (auto simp: fs_state_def td_inv_def td_files_def valid_ino_def Let_def)
  have b: "bytes_of_block ?b = dir_text root_entries @ replicate (512 - length (dir_text root_entries)) 0"
    using l by (simp add: root_entries_text bytes_of_block_of_bytes)
  have n: "is_name (string_bytes ''bin/'')" "\<not> (\<forall>c \<in> set (string_bytes ''bin/''). isdigit c)" "length (string_bytes ''bin/'') = 4"
    "dir_map root_entries (string_bytes ''bin/'') = Some 6"
    by (simp_all add: is_name_def string_bytes_def blank_def isdigit_def dir_map_def root_entries_def)
  let ?dev = "\<lparr>dtype = FLASH_ROM, rom = replicate 4096 null_block @ d', spi = (\<lambda>_. 0)\<rparr>"
  have "dir_lookup ?dev [] (replicate 512 0) 0 (string_bytes ''bin/'') = Inr 6"
    using dir_lookup_correct [of ?dev "replicate 4096 null_block" d' 0 ?b "[]" "replicate 512 0" root_entries "string_bytes ''bin/''" "[]"]
      f b n l root_entries_wf by (simp add: FS_ROOT_INODE_def DIR_NAME_SIZE_def root_entries_text)
  with d(1) d'(1) show ?thesis by blast
qed

end
