(* ===== verification/Shell.thy ===== *)
theory Shell
  imports Dir_Server
begin

text \<open>
  The line editor of the terminal (earth/dev_tty.c, with uart_getc of earth/bus_uart.c) and the
  shell (apps/system/sys_shell.c): splitting a batch of commands, splitting a command into its
  arguments, and the requests the shell sends to the process server for each command.
\<close>

section \<open>The terminal\<close>

text \<open>
  \<^verbatim>\<open>uart_getc\<close> reads a register of the UART: the top bit says that there is no character.
\<close>

definition uart_getc :: "m_uint32 \<Rightarrow> int" where
  "uart_getc ch = (if ch AND push_bit 31 1 \<noteq> 0 then -1 else uint (ch AND 0xFF))"

text \<open>
  The loop of tty_read. \<open>regs\<close> are the values the register will have, read by read; what is
  echoed is left out. \<open>None\<close> as the length says that it is still waiting for a character.
\<close>

fun tty_loop :: "nat \<Rightarrow> nat \<Rightarrow> m_uint8 list \<Rightarrow> m_uint32 list \<Rightarrow> (nat option \<times> m_uint8 list \<times> m_uint32 list) res" where
  "tty_loop len i buf [] =
     (if i < len - 1 then Inr (None, buf, [])
      else if len - 1 < length buf then Inr (Some (len - 1), buf[len - 1 := 0], []) else Inl Out_of_bounds)"
| "tty_loop len i buf (r # regs) =
     (if i < len - 1
      then let c = uart_getc r; buf1 = buf[i := word_of_int c] in
        if c = -1 then tty_loop len i buf regs
        else if i \<ge> length buf then Inl Out_of_bounds
        else if c = 0x03 then Inr (Some 0, buf1[0 := 0, i := 0], regs)
        else if c = 0x0d then Inr (Some i, buf1[i := 0], regs)
        else if c = 0x7f then tty_loop len (i - 1) buf1 regs
        else tty_loop len (i + 1) buf1 regs
      else if len - 1 < length buf then Inr (Some (len - 1), buf[len - 1 := 0], r # regs) else Inl Out_of_bounds)"

definition tty_read :: "m_uint8 list \<Rightarrow> nat \<Rightarrow> m_uint32 list \<Rightarrow> (nat option \<times> m_uint8 list \<times> m_uint32 list) res" where
  "tty_read buf len regs = tty_loop len 0 buf regs"

section \<open>Requests to the process server\<close>

definition CMD_NARGS :: nat where "CMD_NARGS = 16"
definition CMD_ARG_LEN :: nat where "CMD_ARG_LEN = 32"

datatype proc_request_type = PROC_SPAWN | PROC_EXIT | PROC_SLEEP | PROC_KILLALL

record proc_request =
  pr_type :: proc_request_type
  argc :: nat
  argv :: "m_uint8 list list"

datatype proc_reply = CMD_OK | CMD_ERROR

section \<open>Splitting a command into arguments\<close>

text \<open>\<open>argv[n][i] = c\<close>, with the bounds of the array.\<close>

definition argv_set :: "nat \<Rightarrow> nat \<Rightarrow> m_uint8 \<Rightarrow> proc_request \<Rightarrow> proc_request res" where
  "argv_set n i c req =
     (if n < CMD_NARGS \<and> i < CMD_ARG_LEN then Inr (req\<lparr>argv := (argv req)[n := (argv req ! n)[i := c]]\<rparr>) else Inl Out_of_bounds)"

text \<open>The loop over the characters; the result is 0 or -1, as the function returns it.\<close>

fun parse_chars :: "m_uint8 list \<Rightarrow> nat \<Rightarrow> nat \<Rightarrow> proc_request \<Rightarrow> (int \<times> proc_request) res" where
  "parse_chars [] idx nargs req = Inr (0, req\<lparr>argc := (if idx \<noteq> 0 then nargs + 1 else nargs)\<rparr>)"
| "parse_chars (c # cs) idx nargs req =
     (if c \<noteq> blank
      then rbind (argv_set nargs idx c req) (\<lambda>req.
        if idx + 1 \<ge> CMD_ARG_LEN then Inr (-1, req) else parse_chars cs (idx + 1) nargs req)
      else if idx \<noteq> 0
      then rbind (argv_set nargs idx 0 req) (\<lambda>req.
        if nargs + 1 \<ge> CMD_NARGS then Inr (-1, req) else parse_chars cs 0 (nargs + 1) req)
      else parse_chars cs idx nargs req)"

text \<open>A string in memory, up to the byte 0.\<close>

definition c_string :: "m_uint8 list \<Rightarrow> m_uint8 list" where "c_string buf = takeWhile (\<lambda>c. c \<noteq> 0) buf"

definition parse_request :: "m_uint8 list \<Rightarrow> proc_request \<Rightarrow> (int \<times> proc_request) res" where
  "parse_request buf req =
     (if 0 \<notin> set buf then Inl Out_of_bounds
      else parse_chars (c_string buf) 0 0 (req\<lparr>argv := replicate CMD_NARGS (replicate CMD_ARG_LEN 0)\<rparr>))"

section \<open>Splitting a batch\<close>

text \<open>\<^verbatim>\<open>strtok\<close> with one delimiter: the next token and the rest of the string.\<close>

definition strtok :: "m_uint8 \<Rightarrow> m_uint8 list \<Rightarrow> (m_uint8 list \<times> m_uint8 list) option" where
  "strtok d s = (let t = dropWhile (\<lambda>c. c = d) s in
     if t = [] then None else Some (takeWhile (\<lambda>c. c \<noteq> d) t, drop 1 (dropWhile (\<lambda>c. c \<noteq> d) t)))"

lemma strtok_shorter: "strtok d s = Some (t, r) \<Longrightarrow> length r < length s"
proof -
  assume a: "strtok d s = Some (t, r)"
  then have "dropWhile (\<lambda>c. c = d) s \<noteq> []" "r = drop 1 (dropWhile (\<lambda>c. c \<noteq> d) (dropWhile (\<lambda>c. c = d) s))"
    by (auto simp: strtok_def Let_def split: if_splits)
  moreover have "length (dropWhile (\<lambda>c. c \<noteq> d) (dropWhile (\<lambda>c. c = d) s)) \<le> length (dropWhile (\<lambda>c. c = d) s)"
    "length (dropWhile (\<lambda>c. c = d) s) \<le> length s" by (rule length_dropWhile_le)+
  ultimately show ?thesis by (cases "dropWhile (\<lambda>c. c = d) s") auto
qed

record batch_state =
  cmds :: "m_uint8 list list"
  cmd_idx :: int
  max_idx :: int

definition batch_init :: batch_state where
  "batch_init = \<lparr>cmds = replicate 10 (replicate 256 0), cmd_idx = -1, max_idx = -1\<rparr>"

text \<open>\<open>strncpy (cmds[n], s, 256)\<close>\<close>

definition cmds_set :: "nat \<Rightarrow> m_uint8 list \<Rightarrow> batch_state \<Rightarrow> batch_state res" where
  "cmds_set n s st =
     (if n < 10 then Inr (st\<lparr>cmds := (cmds st)[n := take 256 s @ replicate (256 - length s) 0]\<rparr>) else Inl Out_of_bounds)"

text \<open>
  The loop over the tokens; \<open>None\<close> for the early return. The check comes after the write, so
  that the eleventh command is written behind the array before it is refused.
\<close>

function store_cmds :: "nat \<Rightarrow> m_uint8 list \<Rightarrow> batch_state \<Rightarrow> (nat option \<times> batch_state) res" where
  "store_cmds num_cmd s st = (case strtok 59 s of
     None \<Rightarrow> Inr (Some num_cmd, st)
   | Some (cmd, rest) \<Rightarrow> rbind (cmds_set num_cmd cmd st) (\<lambda>st.
       if num_cmd + 1 > 10 then Inr (None, st) else store_cmds (num_cmd + 1) rest st))"
  by auto
termination by (relation "measure (\<lambda>(n, s, st). length s)") (auto simp: strtok_shorter)

declare store_cmds.simps [simp del]

definition load_batch :: "m_uint8 list \<Rightarrow> batch_state \<Rightarrow> (bool \<times> batch_state) res" where
  "load_batch buf st =
     (let s = c_string (take 256 buf) in
      if buf ! 0 \<noteq> 40 \<or> last s \<noteq> 41
      then rbind (cmds_set 0 s st) (\<lambda>st. Inr (True, st\<lparr>cmd_idx := 0, max_idx := 0\<rparr>))
      else rbind (store_cmds 0 (tl (butlast s)) st) (\<lambda>(n, st). case n of
        None \<Rightarrow> Inr (False, st)
      | Some num_cmd \<Rightarrow> Inr (True, st\<lparr>cmd_idx := 0, max_idx := int num_cmd - 1\<rparr>)))"

definition parse_batch_cmds :: "m_uint8 list \<Rightarrow> batch_state \<Rightarrow> (m_uint8 list option \<times> batch_state) res" where
  "parse_batch_cmds buf st =
     rbind (if cmd_idx st = -1 then load_batch buf st else Inr (True, st)) (\<lambda>(loaded, st).
       if \<not> loaded then Inr (None, st)
       else rbind (rassert (cmd_idx st \<ge> 0 \<and> cmd_idx st \<le> max_idx st + 1) '''') (\<lambda>_.
         if cmd_idx st \<le> max_idx st
         then Inr (Some (cmds st ! nat (cmd_idx st)), st\<lparr>cmd_idx := cmd_idx st + 1\<rparr>)
         else Inr (None, st\<lparr>cmd_idx := -1, max_idx := -1\<rparr>)))"

section \<open>The main loop\<close>

datatype shell_event = Sent proc_request | Informed string

text \<open>
  One command. \<open>req\<close> is what the variable of the request holds before, \<open>replies\<close> what the process
  server will answer, and \<open>None\<close> in the result says that the shell waits for an answer.
\<close>

definition killall_cmd :: "m_uint8 list" where "killall_cmd = string_bytes ''killall''"

definition shell_command :: "m_uint8 list \<Rightarrow> proc_request \<Rightarrow> proc_reply list \<Rightarrow> (shell_event list \<times> proc_reply list option) res" where
  "shell_command nextcmd req replies =
     (if 0 \<notin> set nextcmd then Inl Out_of_bounds
      else if c_string nextcmd = killall_cmd then Inr ([Sent (req\<lparr>pr_type := PROC_KILLALL\<rparr>)], Some replies)
      else rbind (parse_request nextcmd (req\<lparr>pr_type := PROC_SPAWN\<rparr>)) (\<lambda>(r, req).
        if r \<noteq> 0 then Inr ([Informed ''sys_shell: too many arguments or argument too long''], Some replies)
        else case replies of
          [] \<Rightarrow> Inr ([Sent req], None)
        | reply # replies \<Rightarrow>
            if reply \<noteq> CMD_OK then Inr ([Sent req, Informed ''sys_shell: command causes an error''], Some replies)
            else if argc req = 0 then Inl Out_of_bounds
            else if argv req ! (argc req - 1) ! 0 \<noteq> 38
            then case replies of [] \<Rightarrow> Inr ([Sent req], None) | _ # replies \<Rightarrow> Inr ([Sent req], Some replies)
            else Inr ([Sent req], Some replies)))"

text \<open>The loop over the commands of one line.\<close>

definition batch_left :: "batch_state \<Rightarrow> nat" where
  "batch_left st = (if cmd_idx st = -1 then 12 else nat (max_idx st + 1 - cmd_idx st))"

lemma store_cmds_bound: "store_cmds n s st = Inr (Some k, st') \<Longrightarrow> n \<le> 10 \<Longrightarrow> k \<le> 10"
proof (induction n s st rule: store_cmds.induct)
  case (1 n s st)
  then show ?case by (subst (asm) (2) store_cmds.simps) (auto simp: res_simps split: option.splits if_splits)
qed

lemma load_batch_bound: "load_batch buf st = Inr (True, st') \<Longrightarrow> cmd_idx st' = 0 \<and> max_idx st' \<le> 9"
  using store_cmds_bound [of 0] by (fastforce simp: load_batch_def Let_def res_simps split: if_splits option.splits)

lemma parse_batch_decreases: "parse_batch_cmds buf st = Inr (Some c, st') \<Longrightarrow> batch_left st' < batch_left st"
proof -
  assume a: "parse_batch_cmds buf st = Inr (Some c, st')"
  then obtain st1 where s: "(if cmd_idx st = -1 then load_batch buf st else Inr (True, st)) = Inr (True, st1)"
    "0 \<le> cmd_idx st1" "cmd_idx st1 \<le> max_idx st1" "st' = st1\<lparr>cmd_idx := cmd_idx st1 + 1\<rparr>"
    by (auto simp: parse_batch_cmds_def res_simps split: if_splits)
  then show ?thesis using load_batch_bound [of buf st st1] by (auto simp: batch_left_def split: if_splits)
qed

function shell_batch :: "m_uint8 list \<Rightarrow> proc_request \<Rightarrow> batch_state \<Rightarrow> proc_reply list \<Rightarrow>
    (shell_event list \<times> batch_state \<times> proc_reply list option) res" where
  "shell_batch buf req st replies = (case parse_batch_cmds buf st of
     Inl e \<Rightarrow> Inl e
   | Inr (None, st) \<Rightarrow> Inr ([], st, Some replies)
   | Inr (Some nextcmd, st) \<Rightarrow> (case shell_command nextcmd req replies of
       Inl e \<Rightarrow> Inl e
     | Inr (evs, None) \<Rightarrow> Inr (evs, st, None)
     | Inr (evs, Some replies) \<Rightarrow> rbind (shell_batch buf req st replies) (\<lambda>(evs', st, out). Inr (evs @ evs', st, out))))"
  by auto
termination by (relation "measure (\<lambda>(buf, req, st, replies). batch_left st)") (auto simp: parse_batch_decreases)

declare shell_batch.simps [simp del]

text \<open>The prompt is repeated while nothing was typed.\<close>

lemma tty_loop_consumes:
  "tty_loop len i buf regs = Inr (r, buf', regs') \<Longrightarrow> length regs' \<le> length regs \<and> (r = Some 0 \<and> 1 < len \<longrightarrow> length regs' < length regs)"
proof (induction len i buf regs rule: tty_loop.induct)
  case (1 len i buf)
  then show ?case by (auto split: if_splits)
next
  case (2 len i buf c regs)
  show ?case
  proof (cases "i < len - 1")
    case True
    consider "uart_getc c = -1" | "uart_getc c \<noteq> -1" by blast
    then show ?thesis using 2(1) [OF True refl refl] 2(2,3) [OF True refl refl] 2(4) True
      by cases (auto simp: Let_def less_Suc_eq_le split: if_splits)
  next
    case False
    with 2(4) show ?thesis by (auto split: if_splits)
  qed
qed

function shell_prompt :: "m_uint8 list \<Rightarrow> m_uint32 list \<Rightarrow> (nat option \<times> m_uint8 list \<times> m_uint32 list) res" where
  "shell_prompt buf regs = (case tty_read buf 256 regs of
     Inl e \<Rightarrow> Inl e
   | Inr (r, buf, regs) \<Rightarrow> if r = Some 0 then shell_prompt buf regs else Inr (r, buf, regs))"
  by auto
termination by (relation "measure (\<lambda>(buf, regs). length regs)") (auto simp: tty_read_def dest: tty_loop_consumes)

declare shell_prompt.simps [simp del]

text \<open>One round of the main loop: the commands of the line, and the next line, unless it waits.\<close>

definition shell_turn :: "m_uint8 list \<Rightarrow> proc_request \<Rightarrow> batch_state \<Rightarrow> proc_reply list \<Rightarrow> m_uint32 list \<Rightarrow>
    (shell_event list \<times> batch_state \<times> proc_reply list option \<times> nat option \<times> m_uint8 list \<times> m_uint32 list) res" where
  "shell_turn buf req st replies regs =
     rbind (shell_batch buf req st replies) (\<lambda>(evs, st, out). case out of
       None \<Rightarrow> Inr (evs, st, None, None, buf, regs)
     | Some replies \<Rightarrow> rbind (shell_prompt buf regs) (\<lambda>(r, buf, regs). Inr (evs, st, Some replies, r, buf, regs)))"

section \<open>Tokens\<close>

function tokens :: "m_uint8 \<Rightarrow> m_uint8 list \<Rightarrow> m_uint8 list list" where
  "tokens d s = (case strtok d s of None \<Rightarrow> [] | Some (t, r) \<Rightarrow> t # tokens d r)"
  by auto
termination by (relation "measure (\<lambda>(d, s). length s)") (auto simp: strtok_shorter)

declare tokens.simps [simp del]

lemma span_delims: "\<exists>k u. s = replicate k d @ u \<and> dropWhile (\<lambda>c. c = d) s = u"
proof (induction s)
  case (Cons c s)
  then obtain k u where k: "s = replicate k d @ u" "dropWhile (\<lambda>c. c = d) s = u" by blast
  show ?case
  proof (cases "c = d")
    case True
    with k(2) have "dropWhile (\<lambda>c. c = d) (c # s) = u" by simp
    moreover have "c # s = replicate (Suc k) d @ u" using True k(1) by simp
    ultimately show ?thesis by blast
  next
    case False
    then show ?thesis by (intro exI [of _ 0] exI [of _ "c # s"]) simp
  qed
qed simp

lemma strtok_None: 
  assumes "strtok d s = None"
  obtains k where "s = replicate k d"
proof -
  obtain k u where k: "s = replicate k d @ u" "dropWhile (\<lambda>c. c = d) s = u" using span_delims [of s d] by blast
  have "u = []" using assms by (simp add: strtok_def Let_def k(2) split: if_splits)
  with k(1) have "s = replicate k d" by simp
  then show thesis by (rule that)
qed

lemma strtok_Some:
  assumes "strtok d s = Some (t, r)"
  obtains k where "s = replicate k d @ t" "r = []" "t \<noteq> []" "d \<notin> set t"
  | k where "s = replicate k d @ t @ d # r" "t \<noteq> []" "d \<notin> set t"
proof -
  obtain k u where k: "s = replicate k d @ u" and d: "dropWhile (\<lambda>c. c = d) s = u" using span_delims [of s d] by blast
  have u: "u \<noteq> []" "t = takeWhile (\<lambda>c. c \<noteq> d) u" "r = drop 1 (dropWhile (\<lambda>c. c \<noteq> d) u)"
    using assms by (simp_all add: strtok_def Let_def d split: if_splits)
  have "hd u \<noteq> d" using hd_dropWhile [of "\<lambda>c. c = d" s] u(1) d by simp
  then have t: "t \<noteq> []" using u(1,2) by (cases u) simp_all
  have dt: "d \<notin> set t" using u(2) set_takeWhileD by fastforce
  obtain w where w: "dropWhile (\<lambda>c. c \<noteq> d) u = w" by simp
  have s: "u = t @ w" unfolding u(2) w [symmetric] by simp
  show thesis
  proof (cases w)
    case Nil
    have "r = []" using u(3) w Nil by simp
    moreover have "s = replicate k d @ t" unfolding k s Nil by simp
    ultimately show thesis using t dt that(1) by blast
  next
    case (Cons c cs)
    have "c = d" using hd_dropWhile [of "\<lambda>c. c \<noteq> d" u] w Cons by simp
    moreover have "r = cs" using u(3) w Cons by simp
    ultimately have "s = replicate k d @ t @ d # r" unfolding k s Cons by simp
    then show thesis using t dt that(2) by blast
  qed
qed

section \<open>The arguments of a command\<close>

definition pad :: "m_uint8 list \<Rightarrow> m_uint8 list" where "pad w = w @ replicate (32 - length w) 0"

definition argv_of :: "m_uint8 list list \<Rightarrow> m_uint8 list list" where
  "argv_of ws = map pad ws @ replicate (16 - length ws) (pad [])"

text \<open>A sixteenth argument must end the command: a blank behind it counts as one more.\<close>

definition fits :: "m_uint8 list \<Rightarrow> bool" where
  "fits s \<longleftrightarrow> (\<forall>w \<in> set (tokens blank s). length w < 32) \<and>
     (length (tokens blank s) < 16 \<or> length (tokens blank s) = 16 \<and> last s \<noteq> blank)"

lemma length_argv_of: "length ws \<le> 16 \<Longrightarrow> length (argv_of ws) = 16"
  by (simp add: argv_of_def)

lemma parse_word:
  assumes "blank \<notin> set t" "length (p @ t) < 32" "n < 16" "length (argv req) = 16" "argv req ! n = pad p"
  shows "parse_chars (t @ r) (length p) n req = parse_chars r (length (p @ t)) n (req\<lparr>argv := (argv req)[n := pad (p @ t)]\<rparr>)"
  using assms
proof (induction t arbitrary: p req)
  case Nil
  then have "req\<lparr>argv := (argv req)[n := pad p]\<rparr> = req" by (metis list_update_id proc_request.surjective proc_request.update_convs(3))
  then show ?case by simp
next
  case (Cons c t)
  let ?req = "req\<lparr>argv := (argv req)[n := pad (p @ [c])]\<rparr>"
  have c: "c \<noteq> blank" using Cons.prems(1) by auto
  have z: "replicate (32 - length p) (0 :: m_uint8) = 0 # replicate (31 - length p) 0"
    using Cons.prems(2) by (cases "32 - length p") auto
  have "(pad p)[length p := c] = pad (p @ [c])" unfolding pad_def z by simp
  then have "argv_set n (length p) c req = Inr ?req"
    using Cons.prems by (simp add: argv_set_def CMD_NARGS_def CMD_ARG_LEN_def)
  then have "parse_chars ((c # t) @ r) (length p) n req = parse_chars (t @ r) (length (p @ [c])) n ?req"
    using c Cons.prems(2) by (simp add: CMD_ARG_LEN_def)
  also have "\<dots> = parse_chars r (length ((p @ [c]) @ t)) n (?req\<lparr>argv := (argv ?req)[n := pad ((p @ [c]) @ t)]\<rparr>)"
    using Cons.prems by (intro Cons.IH) simp_all
  finally show ?case by simp
qed

lemma parse_long_word:
  assumes "blank \<notin> set t" "length (p @ t) \<ge> 32" "length p < 32" "n < 16"
  shows "\<exists>req'. parse_chars (t @ r) (length p) n req = Inr (-1, req')"
  using assms
proof (induction t arbitrary: p req)
  case (Cons c t)
  have c: "c \<noteq> blank" using Cons.prems(1) by auto
  show ?case
  proof (cases "length p + 1 \<ge> 32")
    case True
    with c Cons.prems show ?thesis by (simp add: argv_set_def CMD_NARGS_def CMD_ARG_LEN_def)
  next
    case False
    let ?req = "req\<lparr>argv := (argv req)[n := (argv req ! n)[length p := c]]\<rparr>"
    have "\<exists>req'. parse_chars (t @ r) (length (p @ [c])) n ?req = Inr (-1, req')"
      using Cons.prems False by (intro Cons.IH) simp_all
    with False c Cons.prems show ?thesis by (simp add: argv_set_def CMD_NARGS_def CMD_ARG_LEN_def)
  qed
qed simp

lemma parse_blanks: "parse_chars (replicate k blank @ r) 0 n req = parse_chars r 0 n req"
  by (induction k) simp_all

lemma argv_of_snoc:
  assumes "length ds < 16" "length t < 32"
  shows "(argv_of ds)[length ds := pad t] = argv_of (ds @ [t])"
proof -
  have "replicate (16 - length ds) (pad []) = pad [] # replicate (15 - length ds) (pad [])"
    using assms(1) by (cases "16 - length ds") auto
  then show ?thesis by (simp add: argv_of_def list_update_append)
qed

lemma pad_end: "length t < 32 \<Longrightarrow> (pad t)[length t := 0] = pad t"
  by (cases "32 - length t") (auto simp: pad_def)

lemma parse_token:
  assumes "length ds < 16" "argv req = argv_of ds" "blank \<notin> set t" "length t < 32"
  shows "parse_chars (replicate k blank @ t @ r) 0 (length ds) req = parse_chars r (length t) (length ds) (req\<lparr>argv := argv_of (ds @ [t])\<rparr>)"
proof -
  have "argv_of ds ! length ds = pad []" using assms(1) by (simp add: argv_of_def nth_append)
  with parse_word [of t "[]" "length ds" req r] show ?thesis
    using assms length_argv_of [of ds] by (simp add: parse_blanks argv_of_snoc)
qed

lemma parse_tokens:
  assumes "length ds < 16" "argv req = argv_of ds"
  shows "if (\<forall>w \<in> set (tokens blank s). length w < 32) \<and>
       (length ds + length (tokens blank s) < 16 \<or> length ds + length (tokens blank s) = 16 \<and> last s \<noteq> blank)
     then parse_chars s 0 (length ds) req = Inr (0, req\<lparr>argc := length ds + length (tokens blank s), argv := argv_of (ds @ tokens blank s)\<rparr>)
     else \<exists>req'. parse_chars s 0 (length ds) req = Inr (-1, req')"
  using assms
proof (induction blank s arbitrary: ds req rule: tokens.induct)
  case (1 s)
  show ?case
  proof (cases "strtok blank s")
    case None
    then have tk: "tokens blank s = []" by (subst tokens.simps) simp
    obtain k where "s = replicate k blank" using None by (rule strtok_None)
    then have "parse_chars s 0 (length ds) req = Inr (0, req\<lparr>argc := length ds\<rparr>)"
      using parse_blanks [of k "[]" "length ds" req] by simp
    moreover have "req\<lparr>argc := length ds, argv := argv_of ds\<rparr> = req\<lparr>argc := length ds\<rparr>" using 1(3) by (cases req) simp
    ultimately show ?thesis using 1(2) by (simp add: tk)
  next
    case (Some p)
    obtain t r where p: "p = (t, r)" by fastforce
    have tk: "tokens blank s = t # tokens blank r" using Some p by (subst tokens.simps) simp
    from Some p have st: "strtok blank s = Some (t, r)" by simp
    then show ?thesis
    proof (cases rule: strtok_Some)
      case (1 k)
      have [simp]: "tokens blank r = []" unfolding \<open>r = []\<close> by (subst tokens.simps) (simp add: strtok_def)
      have "last t \<in> set t" using \<open>t \<noteq> []\<close> by simp
      then have "last t \<noteq> blank" using \<open>blank \<notin> set t\<close> by metis
      then have "last s \<noteq> blank" using 1 by (simp add: last_append)
      moreover have "parse_chars s 0 (length ds) req = Inr (0, req\<lparr>argv := argv_of (ds @ [t]), argc := length ds + 1\<rparr>)" if "length t < 32"
        using parse_token [of ds req t k "[]"] that 1 \<open>length ds < 16\<close> \<open>argv req = argv_of ds\<close> by simp
      moreover have "\<exists>req'. parse_chars s 0 (length ds) req = Inr (-1, req')" if "\<not> length t < 32"
        using parse_long_word [of t "[]" "length ds" "[]" req] that 1 \<open>length ds < 16\<close> by (simp add: parse_blanks)
      ultimately show ?thesis using \<open>length ds < 16\<close> by (cases "length t < 32") (auto simp: tk)
    next
      case (2 k)
      have l: "last s = (if r = [] then blank else last r)" using 2 by simp
      show ?thesis
      proof (cases "length t < 32")
        case False
        then have "\<exists>req'. parse_chars s 0 (length ds) req = Inr (-1, req')"
          using parse_long_word [of t "[]" "length ds" "blank # r" req] 2 \<open>length ds < 16\<close> by (simp add: parse_blanks)
        with False show ?thesis by (simp add: tk)
      next
        case True
        let ?req = "req\<lparr>argv := argv_of (ds @ [t])\<rparr>"
        have row: "argv_of (ds @ [t]) ! length ds = pad t" by (simp add: argv_of_def nth_append)
        have la: "length (argv_of (ds @ [t])) = 16" using \<open>length ds < 16\<close> by (intro length_argv_of) simp
        have "argv_set (length ds) (length t) 0 ?req = Inr (?req\<lparr>argv := (argv_of (ds @ [t]))[length ds := pad t]\<rparr>)"
          using True \<open>length ds < 16\<close> row by (simp add: argv_set_def CMD_NARGS_def CMD_ARG_LEN_def pad_end)
        also have "(argv_of (ds @ [t]))[length ds := pad t] = argv_of (ds @ [t])" using row by (metis list_update_id)
        finally have set: "argv_set (length ds) (length t) 0 ?req = Inr ?req" by simp
        have step: "parse_chars s 0 (length ds) req = (if length ds + 1 \<ge> 16 then Inr (-1, ?req) else parse_chars r 0 (length (ds @ [t])) ?req)"
          using parse_token [of ds req t k "blank # r"] set 2 True \<open>length ds < 16\<close> \<open>argv req = argv_of ds\<close> by (simp add: CMD_NARGS_def)
        show ?thesis
        proof (cases "length ds + 1 \<ge> 16")
          case True
          then have "length ds = 15" using \<open>length ds < 16\<close> by simp
          moreover have "last s = blank" if "tokens blank r = []"
          proof -
            have "strtok blank r = None" using that by (subst (asm) tokens.simps) (auto split: option.splits)
            then obtain j where "r = replicate j blank" by (rule strtok_None)
            then show ?thesis using l by (cases j) auto
          qed
          ultimately show ?thesis using step by (auto simp: tk)
        next
          case False
          have "tokens blank r = []" if "r = []" using that by (subst tokens.simps) (simp add: strtok_def)
          with "1.hyps" [OF st refl, of "ds @ [t]" ?req] False \<open>length t < 32\<close> step l show ?thesis by (auto simp: tk split: if_split_asm)
        qed
      qed
    qed
  qed
qed

text \<open>
  C26. Splitting a command line into arguments. When every blank-separated word has less than 32
  characters and there are less than 16 of them, or 16 and no blank behind the last, parse_request
  returns 0, the number of arguments is the number of words, and the rows of argv are the words,
  filled up with zeros; otherwise it returns -1. It never writes outside argv.
\<close>

theorem parse_request_correct:
  assumes "0 \<in> set buf"
  shows "if fits (c_string buf)
     then parse_request buf req = Inr (0, req\<lparr>argc := length (tokens blank (c_string buf)), argv := argv_of (tokens blank (c_string buf))\<rparr>)
     else \<exists>req'. parse_request buf req = Inr (-1, req')"
proof -
  have "argv_of [] = replicate CMD_NARGS (replicate CMD_ARG_LEN 0)" by (simp add: argv_of_def pad_def CMD_NARGS_def CMD_ARG_LEN_def)
  then show ?thesis
    using parse_tokens [of "[]" "req\<lparr>argv := argv_of []\<rparr>" "c_string buf"] assms by (simp add: parse_request_def fits_def cong: if_cong)
qed

lemma tokens_Nil [simp]: "tokens d [] = []"
  by (subst tokens.simps) (simp add: strtok_def)

theorem parse_request_correct_witness:
  "parse_request (string_bytes ''echo  hi '' @ [0]) \<lparr>pr_type = PROC_SPAWN, argc = 0, argv = []\<rparr> =
     Inr (0, \<lparr>pr_type = PROC_SPAWN, argc = 2, argv = argv_of [string_bytes ''echo'', string_bytes ''hi'']\<rparr>)"
proof -
  have "tokens blank (string_bytes ''echo  hi '') = [string_bytes ''echo'', string_bytes ''hi'']"
    by (subst tokens.simps, simp add: strtok_def string_bytes_def blank_def,
        subst tokens.simps, simp add: strtok_def)
  moreover have "c_string (string_bytes ''echo  hi '' @ [0]) = string_bytes ''echo  hi ''" by (simp add: c_string_def string_bytes_def)
  ultimately show ?thesis
    using parse_request_correct [of "string_bytes ''echo  hi '' @ [0]" "\<lparr>pr_type = PROC_SPAWN, argc = 0, argv = []\<rparr>"]
    by (simp add: fits_def string_bytes_def)
qed

section \<open>The commands of a line\<close>

definition batch_cmds :: "m_uint8 list \<Rightarrow> m_uint8 list list" where
  "batch_cmds s = (if s \<noteq> [] \<and> hd s = 40 \<and> last s = 41 then tokens 59 (tl (butlast s)) else [s])"

definition row_of :: "m_uint8 list \<Rightarrow> m_uint8 list" where "row_of s = take 256 s @ replicate (256 - length s) 0"

text \<open>The commands one after the other, until one waits.\<close>

fun run_cmds :: "m_uint8 list list \<Rightarrow> proc_request \<Rightarrow> proc_reply list \<Rightarrow> (shell_event list \<times> proc_reply list option) res" where
  "run_cmds [] req replies = Inr ([], Some replies)"
| "run_cmds (c # cs) req replies = rbind (shell_command (row_of c) req replies) (\<lambda>(evs, out). case out of
     None \<Rightarrow> Inr (evs, None)
   | Some replies \<Rightarrow> rbind (run_cmds cs req replies) (\<lambda>(evs', out). Inr (evs @ evs', out)))"

lemma store_cmds_tokens:
  assumes "length (cmds st) = 10" "n + length (tokens 59 s) \<le> 10"
  shows "store_cmds n s st = Inr (Some (n + length (tokens 59 s)),
    st\<lparr>cmds := take n (cmds st) @ map row_of (tokens 59 s) @ drop (n + length (tokens 59 s)) (cmds st)\<rparr>)"
  using assms
proof (induction n s st rule: store_cmds.induct)
  case (1 n s st)
  show ?case
  proof (cases "strtok 59 s")
    case None
    then have "tokens 59 s = []" by (subst tokens.simps) simp
    with None show ?thesis by (subst store_cmds.simps) simp
  next
    case (Some p)
    obtain t r where p: "p = (t, r)" by fastforce
    have tk: "tokens 59 s = t # tokens 59 r" using Some p by (subst tokens.simps) simp
    let ?st = "st\<lparr>cmds := (cmds st)[n := row_of t]\<rparr>"
    have n: "n < 10" using 1(3) tk by simp
    then have set: "cmds_set n t st = Inr ?st" by (simp add: cmds_set_def row_of_def)
    have "store_cmds n s st = store_cmds (n + 1) r ?st" using Some p n set by (subst store_cmds.simps) simp
    also have "\<dots> = Inr (Some (n + 1 + length (tokens 59 r)),
      ?st\<lparr>cmds := take (n + 1) (cmds ?st) @ map row_of (tokens 59 r) @ drop (n + 1 + length (tokens 59 r)) (cmds ?st)\<rparr>)"
      using 1 Some p set n tk by (intro "1.IH") simp_all
    finally show ?thesis using n 1(2) tk by (simp add: take_Suc_conv_app_nth)
  qed
qed

lemma shell_batch_rest:
  assumes "cmd_idx st = int i" "max_idx st = int n - 1" "i \<le> n" "n \<le> 10" "length (cmds st) = 10"
    and "map row_of cs = drop i (take n (cmds st))"
  shows "case run_cmds cs req replies of Inl e \<Rightarrow> shell_batch buf req st replies = Inl e
     | Inr (evs, out) \<Rightarrow> \<exists>st'. shell_batch buf req st replies = Inr (evs, st', out) \<and> length (cmds st') = 10 \<and> (out \<noteq> None \<longrightarrow> cmd_idx st' = -1)"
  using assms
proof (induction cs arbitrary: st i replies)
  case Nil
  then have "i = n" by simp
  with Nil have "parse_batch_cmds buf st = Inr (None, st\<lparr>cmd_idx := -1, max_idx := -1\<rparr>)" by (simp add: parse_batch_cmds_def)
  with Nil show ?case by (subst shell_batch.simps) simp
next
  case (Cons c cs)
  have "length (map row_of (c # cs)) = n - i" using Cons.prems by simp
  then have i: "i < n" by (cases "n - i") auto
  have d: "drop i (take n (cmds st)) = cmds st ! i # drop (i + 1) (take n (cmds st))"
    using i Cons.prems(4,5) Cons_nth_drop_Suc [of i "take n (cmds st)"] by simp
  let ?st = "st\<lparr>cmd_idx := int (i + 1)\<rparr>"
  have p: "parse_batch_cmds buf st = Inr (Some (row_of c), ?st)"
    using i Cons.prems d by (simp add: parse_batch_cmds_def)
  have ih: "case run_cmds cs req rs of Inl e \<Rightarrow> shell_batch buf req ?st rs = Inl e
     | Inr (evs, out) \<Rightarrow> \<exists>st'. shell_batch buf req ?st rs = Inr (evs, st', out) \<and> length (cmds st') = 10 \<and> (out \<noteq> None \<longrightarrow> cmd_idx st' = -1)" for rs
    using Cons.prems d i by (intro Cons.IH [of ?st "i + 1"]) simp_all
  show ?case
  proof (cases "shell_command (row_of c) req replies")
    case (Inl e)
    with p show ?thesis by (subst (2) shell_batch.simps) (simp add: shell_batch.simps [of buf req st])
  next
    case (Inr x)
    obtain evs out where x: "x = (evs, out)" by fastforce
    show ?thesis
    proof (cases out)
      case None
      with p Inr x Cons.prems(5) show ?thesis by (simp add: shell_batch.simps [of buf req st])
    next
      case (Some rs)
      have "shell_batch buf req st replies = rbind (shell_batch buf req ?st rs) (\<lambda>(evs', st, out). Inr (evs @ evs', st, out))"
        using p Inr x Some by (simp add: shell_batch.simps [of buf req st])
      then show ?thesis using ih [of rs] Inr x Some by (auto split: sum.splits prod.splits)
    qed
  qed
qed

lemma load_batch_cmds:
  assumes "length buf = 256" "0 \<in> set buf" "length (cmds st) = 10" "length (batch_cmds (c_string buf)) \<le> 10"
  shows "\<exists>st'. load_batch buf st = Inr (True, st') \<and> cmd_idx st' = 0 \<and> max_idx st' = int (length (batch_cmds (c_string buf))) - 1 \<and>
    length (cmds st') = 10 \<and> map row_of (batch_cmds (c_string buf)) = take (length (batch_cmds (c_string buf))) (cmds st')"
proof -
  let ?s = "c_string buf"
  have h: "buf ! 0 = (if ?s = [] then 0 else hd ?s)" using assms(1) by (cases buf) (auto simp: c_string_def)
  show ?thesis
  proof (cases "?s \<noteq> [] \<and> hd ?s = 40 \<and> last ?s = 41")
    case True
    then have b: "batch_cmds ?s = tokens 59 (tl (butlast ?s))" by (simp add: batch_cmds_def)
    with True h show ?thesis using assms(1,3,4) store_cmds_tokens [OF assms(3), of 0 "tl (butlast ?s)"]
      by (simp add: load_batch_def Let_def)
  next
    case False
    then have b: "batch_cmds ?s = [?s]" "buf ! 0 \<noteq> 40 \<or> last ?s \<noteq> 41" using h by (auto simp: batch_cmds_def)
    have "cmds st = cmds st ! 0 # tl (cmds st)" using assms(3) by (cases "cmds st") auto
    then have "take 1 ((cmds st)[0 := row_of ?s]) = [row_of ?s]" by (cases "cmds st") auto
    with b show ?thesis using assms(1,3) by (auto simp: load_batch_def Let_def cmds_set_def row_of_def)
  qed
qed

text \<open>
  C25. A line typed to the shell. When it is a batch in parentheses of at most ten commands,
  separated by semicolons, or a single command, the shell runs exactly these commands in their
  order, each with the messages and answers it has by itself, and stops where one of them has to
  wait; after the last one it is ready for the next line.
\<close>

theorem shell_batch_correct:
  assumes "length buf = 256" "0 \<in> set buf" "cmd_idx st = -1" "length (cmds st) = 10" "length (batch_cmds (c_string buf)) \<le> 10"
  shows "case run_cmds (batch_cmds (c_string buf)) req replies of Inl e \<Rightarrow> shell_batch buf req st replies = Inl e
     | Inr (evs, out) \<Rightarrow> \<exists>st'. shell_batch buf req st replies = Inr (evs, st', out) \<and> length (cmds st') = 10 \<and> (out \<noteq> None \<longrightarrow> cmd_idx st' = -1)"
proof -
  obtain st1 where st1: "load_batch buf st = Inr (True, st1)" "cmd_idx st1 = 0" "max_idx st1 = int (length (batch_cmds (c_string buf))) - 1"
    "length (cmds st1) = 10" "map row_of (batch_cmds (c_string buf)) = take (length (batch_cmds (c_string buf))) (cmds st1)"
    using load_batch_cmds [OF assms(1,2,4,5)] by blast
  have "parse_batch_cmds buf st = parse_batch_cmds buf st1" using assms(3) st1(1,2) by (simp add: parse_batch_cmds_def)
  then have same: "shell_batch buf req st replies = shell_batch buf req st1 replies"
    by (simp add: shell_batch.simps [of buf req st] shell_batch.simps [of buf req st1])
  show ?thesis unfolding same
    using st1 assms(5) by (intro shell_batch_rest [of st1 0 "length (batch_cmds (c_string buf))"]) simp_all
qed

lemma c_string_zeros: "0 \<notin> set s \<Longrightarrow> c_string (s @ replicate n 0) = s"
  unfolding c_string_def by (cases n) (auto intro: takeWhile_eq_all_conv [THEN iffD2] simp: takeWhile_append)

lemma row_of_string:
  assumes "0 \<notin> set s" "length s < 256"
  shows "c_string (row_of s) = s" "0 \<in> set (row_of s)"
  using assms by (simp_all add: row_of_def c_string_zeros)

theorem shell_batch_correct_witness:
  "\<exists>st. shell_batch (string_bytes ''(killall;killall)'' @ replicate 239 0) \<lparr>pr_type = PROC_SPAWN, argc = 0, argv = []\<rparr> batch_init [] =
     Inr ([Sent \<lparr>pr_type = PROC_KILLALL, argc = 0, argv = []\<rparr>, Sent \<lparr>pr_type = PROC_KILLALL, argc = 0, argv = []\<rparr>], st, Some []) \<and> cmd_idx st = -1"
proof -
  let ?buf = "string_bytes ''(killall;killall)'' @ replicate 239 0" and ?k = "string_bytes ''killall''"
  have s: "c_string ?buf = string_bytes ''(killall;killall)''" by (intro c_string_zeros) (simp add: string_bytes_def)
  have "tokens 59 (string_bytes ''killall;killall'') = [?k, ?k]"
    by (subst tokens.simps, simp add: strtok_def string_bytes_def, subst tokens.simps, simp add: strtok_def)
  then have b: "batch_cmds (c_string ?buf) = [?k, ?k]" unfolding s by (simp add: batch_cmds_def string_bytes_def)
  have "c_string (row_of ?k) = ?k" "0 \<in> set (row_of ?k)" by (intro row_of_string; simp add: string_bytes_def)+
  then have r: "run_cmds [?k, ?k] req rs = Inr ([Sent (req\<lparr>pr_type := PROC_KILLALL\<rparr>), Sent (req\<lparr>pr_type := PROC_KILLALL\<rparr>)], Some rs)" for req rs
    by (simp add: shell_command_def killall_cmd_def)
  have "length ?buf = 256" "0 \<in> set ?buf" by (simp_all add: string_bytes_def)
  then show ?thesis
    using shell_batch_correct [of ?buf batch_init "\<lparr>pr_type = PROC_SPAWN, argc = 0, argv = []\<rparr>" "[]", unfolded b r]
    by (auto simp: batch_init_def)
qed

text \<open>The eleventh command of a batch is written behind the array of commands.\<close>

theorem eleventh_command_out_of_bounds:
  assumes "length (cmds st) = 10" "n \<le> 10" "n + length (tokens 59 s) > 10"
  shows "store_cmds n s st = Inl Out_of_bounds"
  using assms
proof (induction n s st rule: store_cmds.induct)
  case (1 n s st)
  show ?case
  proof (cases "strtok 59 s")
    case None
    then have "tokens 59 s = []" by (subst tokens.simps) simp
    with 1(3,4) show ?thesis by simp
  next
    case (Some p)
    obtain t r where p: "p = (t, r)" by fastforce
    have tk: "tokens 59 s = t # tokens 59 r" using Some p by (subst tokens.simps) simp
    show ?thesis
    proof (cases "n < 10")
      case True
      let ?st = "st\<lparr>cmds := (cmds st)[n := row_of t]\<rparr>"
      have set: "cmds_set n t st = Inr ?st" using True by (simp add: cmds_set_def row_of_def)
      have "store_cmds (n + 1) r ?st = Inl Out_of_bounds"
        using 1 True Some p set tk by (intro "1.IH") simp_all
      with Some p True set show ?thesis by (subst store_cmds.simps) simp
    next
      case False
      with Some p show ?thesis by (subst store_cmds.simps) (simp add: cmds_set_def)
    qed
  qed
qed

text \<open>
  A line of blanks has no arguments. When the process server accepts it, the shell looks at the
  argument before the first.
\<close>

theorem blank_command_out_of_bounds:
  "shell_command (row_of [blank]) req (CMD_OK # replies) = Inl Out_of_bounds"
proof -
  have "c_string (row_of [blank]) = [blank]" "0 \<in> set (row_of [blank])" by (intro row_of_string; simp add: blank_def)+
  then show ?thesis by (simp add: shell_command_def parse_request_def killall_cmd_def string_bytes_def)
qed

end
