(* ===== verification/Bitmap.thy ===== *)
theory Bitmap
  imports Egos_Prelude
begin

text \<open>
  Allocation bitmaps: one bit per page or block, eight to a byte. The functions
  \<^verbatim>\<open>bit_set\<close>, \<^verbatim>\<open>bit_clear\<close> and \<^verbatim>\<open>bit_test\<close> of library/file/fs.c and
  \<^verbatim>\<open>bitmap_set\<close>, \<^verbatim>\<open>bitmap_clear\<close> and \<^verbatim>\<open>bitmap_test\<close> of earth/page_alloc.c are
  the same code on different arrays. The lemmas read a bitmap as the set of the indices
  whose bit is set.
\<close>

definition bit_mask :: "nat \<Rightarrow> m_uint8" where
  "bit_mask i = push_bit (i mod 8) 1"

definition bit_set :: "m_uint8 list \<Rightarrow> nat \<Rightarrow> m_uint8 list" where
  "bit_set bm i = bm[i div 8 := (bm ! (i div 8)) OR bit_mask i]"

definition bit_clear :: "m_uint8 list \<Rightarrow> nat \<Rightarrow> m_uint8 list" where
  "bit_clear bm i = bm[i div 8 := (bm ! (i div 8)) AND NOT (bit_mask i)]"

definition bit_test :: "m_uint8 list \<Rightarrow> nat \<Rightarrow> m_uint8" where
  "bit_test bm i = (bm ! (i div 8)) AND bit_mask i"

definition bits_of :: "m_uint8 list \<Rightarrow> nat \<Rightarrow> nat set" where
  "bits_of bm n = {i. i < n \<and> bit_test bm i \<noteq> 0}"

lemma bit_mask_iff: "bit (bit_mask i) j \<longleftrightarrow> j = i mod 8"
  by (auto simp: bit_mask_def bit_exp_iff possible_bit_word)

lemma bit_test_iff: "bit_test bm i \<noteq> 0 \<longleftrightarrow> bit (bm ! (i div 8)) (i mod 8)"
proof -
  have "bit_test bm i \<noteq> 0 \<longleftrightarrow> (\<exists>j. bit (bit_test bm i) j)"
    by (metis bit_0_eq bit_eqI bot_fun_def bot_bool_def)
  then show ?thesis
    by (auto simp: bit_test_def bit_and_iff bit_mask_iff)
qed

lemma same_bit_iff: "i = j \<longleftrightarrow> i div 8 = j div 8 \<and> i mod 8 = (j mod 8 :: nat)"
  by (metis div_mult_mod_eq)

lemma length_bit_set [simp]: "length (bit_set bm i) = length bm"
  by (simp add: bit_set_def)

lemma length_bit_clear [simp]: "length (bit_clear bm i) = length bm"
  by (simp add: bit_clear_def)

lemma bit_test_bit_set:
  assumes "i div 8 < length bm"
  shows "bit_test (bit_set bm i) j \<noteq> 0 \<longleftrightarrow> j = i \<or> bit_test bm j \<noteq> 0"
  using assms
  by (cases "i div 8 = j div 8")
     (auto simp: bit_test_iff bit_set_def bit_or_iff bit_mask_iff same_bit_iff [of j i])

lemma bit_test_bit_clear:
  assumes "i div 8 < length bm"
  shows "bit_test (bit_clear bm i) j \<noteq> 0 \<longleftrightarrow> j \<noteq> i \<and> bit_test bm j \<noteq> 0"
proof (cases "i div 8 = j div 8")
  case True
  have "j mod 8 < 8" by simp
  then have "possible_bit TYPE(m_uint8) (j mod 8)" by (simp add: possible_bit_word)
  with True assms show ?thesis
    by (auto simp: bit_test_iff bit_clear_def bit_and_iff bit_not_iff bit_mask_iff
          same_bit_iff [of j i])
next
  case False
  with assms show ?thesis
    by (auto simp: bit_test_iff bit_clear_def)
qed

lemma bits_of_bit_set:
  "i < n \<Longrightarrow> i div 8 < length bm \<Longrightarrow> bits_of (bit_set bm i) n = insert i (bits_of bm n)"
  by (auto simp: bits_of_def bit_test_bit_set)

lemma bits_of_bit_clear:
  "i div 8 < length bm \<Longrightarrow> bits_of (bit_clear bm i) n = bits_of bm n - {i}"
  by (auto simp: bits_of_def bit_test_bit_clear)

text \<open>Clearing the bit just set restores a bitmap in which it was clear.\<close>

lemma bit_clear_bit_set:
  assumes "i div 8 < length bm" "bit_test bm i = 0"
  shows "bit_clear (bit_set bm i) i = bm"
proof -
  let ?b = "bm ! (i div 8)"
  have "\<not> bit ?b (i mod 8)" using assms(2) bit_test_iff by blast
  then have "(?b OR bit_mask i) AND NOT (bit_mask i) = ?b"
    by (auto intro!: bit_word_eqI simp: bit_and_iff bit_or_iff bit_not_iff bit_mask_iff)
  with assms(1) show ?thesis
    by (simp add: bit_clear_def bit_set_def list_update_beyond)
qed

end
