(* ===== verification/Page_Alloc.thy ===== *)
theory Page_Alloc
  imports Bitmap
begin

text \<open>
  earth/page_alloc.c: the allocator of physical pages in
  \<open>[FREE_MEM_START, FREE_MEM_END)\<close>. Its state is the bitmap and the memory whose pages it
  clears. The records that follow in the development extend \<open>phys\<close>, as the C files
  share their globals, so every operation is polymorphic in the rest of the state.
\<close>

definition FREE_MEM_START :: addr where "FREE_MEM_START = 0x80800000"
definition FREE_MEM_END :: addr where "FREE_MEM_END = 0x81000000"
definition REMOVED_PAGES :: nat where "REMOVED_PAGES = 900"

definition NPAGES :: nat where
  "NPAGES = (unat FREE_MEM_END - unat FREE_MEM_START) div PAGE_SIZE - REMOVED_PAGES"

definition ROUNDUP :: "nat \<Rightarrow> nat \<Rightarrow> nat" where
  "ROUNDUP x y = (if x mod y = 0 then x div y else (x + y - 1) div y)"

record phys =
  bitmap :: "m_uint8 list"
  pmem :: mem

definition bitmap_set :: "nat \<Rightarrow> 'a phys_scheme \<Rightarrow> 'a phys_scheme" where
  "bitmap_set i s = s\<lparr>bitmap := bit_set (bitmap s) i\<rparr>"

definition bitmap_clear :: "nat \<Rightarrow> 'a phys_scheme \<Rightarrow> 'a phys_scheme" where
  "bitmap_clear i s = s\<lparr>bitmap := bit_clear (bitmap s) i\<rparr>"

definition bitmap_test :: "nat \<Rightarrow> 'a phys_scheme \<Rightarrow> m_uint8" where
  "bitmap_test i s = bit_test (bitmap s) i"

definition pageid2paddr :: "nat \<Rightarrow> addr res" where
  "pageid2paddr pageid =
     rbind (rassert (pageid < NPAGES) ''pageid2paddr: pageid is too large'')
       (\<lambda>_. Inr (FREE_MEM_START + of_nat pageid * of_nat PAGE_SIZE))"

definition paddr2pageid :: "addr \<Rightarrow> nat res" where
  "paddr2pageid paddr =
     rbind (rassert (unat paddr mod PAGE_SIZE = 0) ''paddr2pageid: paddr is not page aligned'')
       (\<lambda>_. let pageid = unat (paddr - FREE_MEM_START) div PAGE_SIZE
            in rbind (rassert (pageid < NPAGES) ''paddr2pageid: pageid is too large'')
                 (\<lambda>_. Inr pageid))"

definition pmalloc :: "bool \<Rightarrow> 'a phys_scheme \<Rightarrow> (addr \<times> 'a phys_scheme) res" where
  "pmalloc clear_page s =
     (case scan_from (\<lambda>i. bitmap_test i s = 0) 0 NPAGES of
        None \<Rightarrow> Inl (Fatal ''pmalloc: no more available page'')
      | Some i \<Rightarrow>
          let s = bitmap_set i s
          in rbind (pageid2paddr i)
               (\<lambda>ret. Inr (ret, if clear_page
                                then s\<lparr>pmem := memset (pmem s) ret 0 PAGE_SIZE\<rparr> else s)))"

definition pfree :: "addr \<Rightarrow> 'a phys_scheme \<Rightarrow> 'a phys_scheme res" where
  "pfree paddr s = rbind (paddr2pageid paddr) (\<lambda>pageid. Inr (bitmap_clear pageid s))"

section \<open>Pages and addresses\<close>

lemma NPAGES_eq: "NPAGES = 1148"
  by (simp add: NPAGES_def FREE_MEM_START_def FREE_MEM_END_def PAGE_SIZE_def REMOVED_PAGES_def)

definition page_addr :: "nat \<Rightarrow> addr" where
  "page_addr i = FREE_MEM_START + of_nat i * of_nat PAGE_SIZE"

definition page_pool :: "addr set" where
  "page_pool = page_addr ` {..<NPAGES}"

lemma unat_page_addr: "i < NPAGES \<Longrightarrow> unat (page_addr i) = 0x80800000 + i * 4096"
  by (simp add: page_addr_def FREE_MEM_START_def PAGE_SIZE_def NPAGES_eq unat_word_ariths
      unat_of_nat take_bit_nat_eq_self)

lemma page_addr_inj: "inj_on page_addr {..<NPAGES}"
  by (rule inj_onI) (metis add_left_cancel lessThan_iff mult_cancel2 unat_page_addr zero_neq_numeral)

lemma page_addr_eq_iff: "i < NPAGES \<Longrightarrow> j < NPAGES \<Longrightarrow> page_addr i = page_addr j \<longleftrightarrow> i = j"
  using page_addr_inj by (auto simp: inj_on_def)

lemma pageid2paddr_eq: "i < NPAGES \<Longrightarrow> pageid2paddr i = Inr (page_addr i)"
  by (simp add: pageid2paddr_def page_addr_def)

lemma paddr2pageid_page_addr: "i < NPAGES \<Longrightarrow> paddr2pageid (page_addr i) = Inr i"
proof -
  assume i: "i < NPAGES"
  have "unat (page_addr i - FREE_MEM_START) = i * 4096"
    using i by (simp add: page_addr_def PAGE_SIZE_def NPAGES_eq unat_word_ariths unat_of_nat
        take_bit_nat_eq_self)
  moreover have "(0x80800000 + i * 4096) mod 4096 = 0" by presburger
  ultimately show ?thesis
    using i by (simp add: paddr2pageid_def unat_page_addr PAGE_SIZE_def)
qed

lemma paddr2pageid_Inr:
  assumes "paddr2pageid p = Inr i"
  shows "i < NPAGES" and "p = page_addr i"
proof -
  have i: "i = unat (p - FREE_MEM_START) div 4096" "i < NPAGES" "unat p mod 4096 = 0"
    using assms by (auto simp: paddr2pageid_def Let_def res_simps PAGE_SIZE_def)
  show "i < NPAGES" by fact
  obtain k where k: "unat p = 4096 * k" using i(3) by auto
  have "unat (p - FREE_MEM_START) =
      (if 526336 \<le> k then 4096 * (k - 526336) else 4096 * (k + 522240))"
    using k by (simp add: FREE_MEM_START_def unat_sub_if' word_le_nat_alt diff_mult_distrib2)
  then have "unat (p - FREE_MEM_START) mod 4096 = 0" by simp
  then have "unat (p - FREE_MEM_START) = i * 4096"
    using i(1) div_mult_mod_eq [of "unat (p - FREE_MEM_START)" 4096] by linarith
  then have "p - FREE_MEM_START = of_nat (i * 4096)"
    using \<open>i < NPAGES\<close>
    by (simp add: word_unat_eq_iff unat_word_ariths unat_of_nat take_bit_nat_eq_self NPAGES_eq)
  then show "p = page_addr i"
    by (simp add: page_addr_def PAGE_SIZE_def algebra_simps)
qed

section \<open>The allocator's contract\<close>

text \<open>
  What the memory layers above rely on: an allocation hands out a page of the pool that
  was free and marks it used, it fails exactly when the pool is exhausted, and freeing a
  page of the pool gives it back. \<open>used\<close> is the abstraction, \<open>inv\<close> the
  representation invariant.
\<close>

locale page_allocator =
  fixes alloc :: "'s \<Rightarrow> (addr \<times> 's) res"
    and free :: "addr \<Rightarrow> 's \<Rightarrow> 's res"
    and used :: "'s \<Rightarrow> addr set"
    and pool :: "addr set"
    and inv :: "'s \<Rightarrow> bool"
  assumes finite_pool: "finite pool"
    and alloc_ok: "inv s \<Longrightarrow> alloc s = Inr (p, s') \<Longrightarrow>
      p \<in> pool \<and> p \<notin> used s \<and> used s' = insert p (used s) \<and> inv s'"
    and alloc_fails: "inv s \<Longrightarrow> alloc s = Inl e \<Longrightarrow> pool \<subseteq> used s"
    and free_ok: "inv s \<Longrightarrow> p \<in> pool \<Longrightarrow>
      \<exists>s'. free p s = Inr s' \<and> used s' = used s - {p} \<and> inv s'"
begin

lemma alloc_succeeds:
  assumes "inv s" "\<not> pool \<subseteq> used s"
  shows "\<exists>p s'. alloc s = Inr (p, s')"
  using assms alloc_fails by (cases "alloc s") auto

text \<open>Freeing what was just allocated restores the set of used pages.\<close>

lemma free_alloc:
  assumes "inv s" "alloc s = Inr (p, s')"
  shows "\<exists>s''. free p s' = Inr s'' \<and> used s'' = used s"
proof -
  from alloc_ok [OF assms] have *: "p \<in> pool" "p \<notin> used s" "used s' = insert p (used s)" "inv s'"
    by auto
  from free_ok [OF *(4,1)] * show ?thesis by auto
qed

text \<open>The number of pages left is what the allocations below count on.\<close>

lemma free_pages_alloc:
  assumes "inv s" "alloc s = Inr (p, s')"
  shows "card (pool - used s') + 1 = card (pool - used s)"
proof -
  from alloc_ok [OF assms] have p: "p \<in> pool - used s" and u: "used s' = insert p (used s)"
    by auto
  have "pool - used s' = (pool - used s) - {p}" using u by auto
  then show ?thesis
    using card_Suc_Diff1 [of "pool - used s" p] p finite_pool by simp
qed

end

definition alloc_inv :: "'a phys_scheme \<Rightarrow> bool" where
  "alloc_inv s \<longleftrightarrow> length (bitmap s) = ROUNDUP NPAGES 8"

definition used_pages :: "'a phys_scheme \<Rightarrow> addr set" where
  "used_pages s = page_addr ` bits_of (bitmap s) NPAGES"

lemma length_bitmap: "alloc_inv s \<Longrightarrow> length (bitmap s) = 144"
  by (simp add: alloc_inv_def ROUNDUP_def NPAGES_eq)

lemma page_byte_in_bitmap: "alloc_inv s \<Longrightarrow> i < NPAGES \<Longrightarrow> i div 8 < length (bitmap s)"
  by (simp add: length_bitmap NPAGES_eq)

lemma pmalloc_Inr:
  assumes "pmalloc c s = Inr (p, s')"
  obtains i where "i < NPAGES" "bitmap_test i s = 0" "\<And>j. j < i \<Longrightarrow> bitmap_test j s \<noteq> 0"
    "p = page_addr i"
    "s' = (if c then (bitmap_set i s)\<lparr>pmem := memset (pmem s) p 0 PAGE_SIZE\<rparr>
           else bitmap_set i s)"
  using assms that
  by (auto simp: pmalloc_def Let_def scan_from_Some_iff pageid2paddr_eq bitmap_set_def
      split: option.splits)

lemma pmalloc_Inl: "pmalloc c s = Inl e \<Longrightarrow> i < NPAGES \<Longrightarrow> bitmap_test i s \<noteq> 0"
  by (auto simp: pmalloc_def Let_def scan_from_None_iff scan_from_Some_iff pageid2paddr_eq
      split: option.splits)

lemma pmalloc_ok:
  assumes "alloc_inv s" "pmalloc c s = Inr (p, s')"
  shows "p \<in> page_pool \<and> p \<notin> used_pages s \<and> used_pages s' = insert p (used_pages s) \<and> alloc_inv s'"
proof -
  obtain i where i: "i < NPAGES" "bitmap_test i s = 0" "p = page_addr i"
    and s': "bitmap s' = bit_set (bitmap s) i"
    by (rule pmalloc_Inr [OF assms(2)]) (auto simp: bitmap_set_def split: if_splits)
  have "p \<notin> used_pages s"
    using i by (auto simp: used_pages_def bits_of_def page_addr_eq_iff bitmap_test_def)
  with i s' page_byte_in_bitmap [OF assms(1) i(1)] assms(1) show ?thesis
    by (auto simp: page_pool_def used_pages_def bits_of_bit_set alloc_inv_def)
qed

lemma pfree_ok:
  assumes "alloc_inv s" "p \<in> page_pool"
  shows "\<exists>s'. pfree p s = Inr s' \<and> used_pages s' = used_pages s - {p} \<and> alloc_inv s'"
proof -
  obtain i where i: "i < NPAGES" "p = page_addr i" using assms(2) by (auto simp: page_pool_def)
  have "page_addr ` (bits_of (bitmap s) NPAGES - {i}) = page_addr ` bits_of (bitmap s) NPAGES - {p}"
    using i by (auto simp: bits_of_def page_addr_eq_iff)
  with i page_byte_in_bitmap [OF assms(1) i(1)] assms(1) show ?thesis
    by (simp add: pfree_def paddr2pageid_page_addr bitmap_clear_def used_pages_def
        bits_of_bit_clear alloc_inv_def)
qed

interpretation pages: page_allocator "pmalloc c" pfree used_pages page_pool alloc_inv
proof unfold_locales
  show "finite page_pool" by (simp add: page_pool_def)
next
  fix s :: "'a phys_scheme" and p s'
  assume "alloc_inv s" "pmalloc c s = Inr (p, s')"
  then show "p \<in> page_pool \<and> p \<notin> used_pages s \<and> used_pages s' = insert p (used_pages s) \<and> alloc_inv s'"
    by (rule pmalloc_ok)
next
  fix s :: "'a phys_scheme" and e
  assume "alloc_inv s" "pmalloc c s = Inl e"
  then show "page_pool \<subseteq> used_pages s"
    using pmalloc_Inl [of c s e]
    by (auto simp: page_pool_def used_pages_def bits_of_def bitmap_test_def)
next
  fix s :: "'a phys_scheme" and p
  assume "alloc_inv s" "p \<in> page_pool"
  then show "\<exists>s'. pfree p s = Inr s' \<and> used_pages s' = used_pages s - {p} \<and> alloc_inv s'"
    by (rule pfree_ok)
qed

section \<open>Properties\<close>

text \<open>
  C34. \<^verbatim>\<open>pmalloc\<close> either returns a page of the pool that was free, marks exactly this page
  used, clears it when asked to and touches no other byte of memory, or it ends in
  \<^verbatim>\<open>FATAL\<close>, and then every page of the pool is in use.
\<close>

theorem pmalloc_correct:
  assumes "alloc_inv s"
  shows "case pmalloc c s of
      Inr (p, s') \<Rightarrow> p \<in> page_pool - used_pages s \<and> used_pages s' = insert p (used_pages s) \<and>
        (\<forall>x. pmem s' x = (if c \<and> in_range x p PAGE_SIZE then 0 else pmem s x)) \<and> alloc_inv s'
    | Inl e \<Rightarrow> e = Fatal ''pmalloc: no more available page'' \<and> page_pool \<subseteq> used_pages s"
proof (cases "pmalloc c s")
  case (Inl e)
  then have "e = Fatal ''pmalloc: no more available page''"
    by (auto simp: pmalloc_def Let_def scan_from_Some_iff pageid2paddr_eq split: option.splits)
  with Inl pages.alloc_fails [OF assms Inl] show ?thesis by simp
next
  case (Inr r)
  obtain p s' where r: "r = (p, s')" by (cases r)
  have "\<forall>x. pmem s' x = (if c \<and> in_range x p PAGE_SIZE then 0 else pmem s x)"
    by (rule pmalloc_Inr [OF Inr [unfolded r]]) (auto simp: bitmap_set_def memset_def)
  with pages.alloc_ok [OF assms Inr [unfolded r]] show ?thesis by (simp add: Inr r)
qed

definition boot_phys :: phys where
  "boot_phys = \<lparr>bitmap = 0 # replicate 143 0, pmem = (\<lambda>_. 7)\<rparr>"

lemma boot_phys_inv: "alloc_inv boot_phys"
  by (simp add: alloc_inv_def boot_phys_def ROUNDUP_def NPAGES_eq)

lemma pmalloc_boot_phys:
  "pmalloc True boot_phys = Inr (0x80800000,
     boot_phys\<lparr>bitmap := 1 # replicate 143 0, pmem := memset (\<lambda>_. 7) 0x80800000 0 4096\<rparr>)"
proof -
  have "scan_from (\<lambda>i. bitmap_test i boot_phys = 0) 0 NPAGES = Some 0"
    by (simp add: scan_from_Some_iff boot_phys_def bitmap_test_def bit_test_def NPAGES_eq)
  then show ?thesis
    by (simp add: pmalloc_def boot_phys_def bitmap_set_def bit_set_def bit_mask_def
        pageid2paddr_def NPAGES_eq FREE_MEM_START_def PAGE_SIZE_def)
qed

theorem pmalloc_correct_witness:
  "alloc_inv boot_phys \<and> (0x80800000 :: addr) \<in> page_pool - used_pages boot_phys"
  using pmalloc_correct [OF boot_phys_inv, of True] boot_phys_inv by (simp add: pmalloc_boot_phys)

text \<open>
  Freeing the page that \<^verbatim>\<open>pmalloc\<close> has just returned gives the bitmap back as it was.
\<close>

theorem pfree_pmalloc:
  assumes "alloc_inv s" "pmalloc c s = Inr (p, s')"
  shows "pfree p s' = Inr (s'\<lparr>bitmap := bitmap s\<rparr>)"
proof -
  obtain i where i: "i < NPAGES" "bitmap_test i s = 0" "p = page_addr i"
    and s': "bitmap s' = bit_set (bitmap s) i"
    by (rule pmalloc_Inr [OF assms(2)]) (auto simp: bitmap_set_def split: if_splits)
  have "bit_clear (bit_set (bitmap s) i) i = bitmap s"
    using i page_byte_in_bitmap [OF assms(1) i(1)]
    by (intro bit_clear_bit_set) (simp_all add: bitmap_test_def)
  with i s' show ?thesis
    by (simp add: pfree_def paddr2pageid_page_addr bitmap_clear_def)
qed

theorem pfree_pmalloc_witness:
  "\<exists>p s'. pmalloc True boot_phys = Inr (p, s') \<and> pfree p s' = Inr (s'\<lparr>bitmap := bitmap boot_phys\<rparr>)"
  using pfree_pmalloc [OF boot_phys_inv pmalloc_boot_phys] pmalloc_boot_phys by blast

end
