(* ===== verification/Soft_TLB.thy ===== *)
theory Soft_TLB
  imports Page_Alloc
begin

text \<open>
  earth/cpu_mmu.c without page tables (\<^verbatim>\<open>VMOFF\<close>, the default of the Makefile): every
  process has private copies of its pages, and switching to a process copies the running
  process's pages from the fixed execution addresses back to its private pages and the new
  process's private pages to the execution addresses. The theory shows that this gives each
  process an address space of its own: \<open>proc_view\<close>, what a process sees at its mapped
  addresses, does not change under a switch.

  The C array \<^verbatim>\<open>app_pages\<close> has \<^verbatim>\<open>MAX_NPROCESS\<close> rows and is indexed by the pid, while the
  assertions admit \<^verbatim>\<open>pid == MAX_NPROCESS\<close>; that access is \<open>Out_of_bounds\<close> here.
\<close>

section \<open>Definitions\<close>

definition APPS_SIZE :: nat where "APPS_SIZE = 0x4000"
definition APPS_NPAGES :: nat where "APPS_NPAGES = APPS_SIZE div PAGE_SIZE + 2"

record page_mapping =
  private_addr :: addr
  exec_addr :: addr

record mmu = phys +
  app_pages :: "page_mapping list list"
  curr_vm_pid :: int

definition app_row :: "int \<Rightarrow> 'a mmu_scheme \<Rightarrow> page_mapping list res" where
  "app_row pid s = (if nat pid < length (app_pages s) then Inr (app_pages s ! nat pid)
                    else Inl Out_of_bounds)"

definition set_mapping :: "int \<Rightarrow> nat \<Rightarrow> page_mapping \<Rightarrow> 'a mmu_scheme \<Rightarrow> 'a mmu_scheme" where
  "set_mapping pid i pm s =
     s\<lparr>app_pages := (app_pages s)[nat pid := (app_pages s ! nat pid)[i := pm]]\<rparr>"

abbreviation pid_ok :: "int \<Rightarrow> bool" where
  "pid_ok pid \<equiv> pid > 0 \<and> pid \<le> int MAX_NPROCESS"

definition mmu_alloc :: "'a mmu_scheme \<Rightarrow> (addr \<times> 'a mmu_scheme) res" where
  "mmu_alloc s = pmalloc True s"

definition soft_tlb_free :: "int \<Rightarrow> 'a mmu_scheme \<Rightarrow> 'a mmu_scheme res" where
  "soft_tlb_free pid s =
     rbind (rassert (pid_ok pid) ''pid is unexpected'') (\<lambda>_.
     rfor (\<lambda>i s. rbind (app_row pid s) (\<lambda>pages.
             if private_addr (pages ! i) \<noteq> 0
             then rbind (pfree (private_addr (pages ! i)) s)
                    (\<lambda>s. Inr (set_mapping pid i \<lparr>private_addr = 0, exec_addr = 0\<rparr> s))
             else Inr s))
       [0..<APPS_NPAGES] s)"

definition soft_tlb_map :: "int \<Rightarrow> addr \<Rightarrow> addr \<Rightarrow> 'a mmu_scheme \<Rightarrow> 'a mmu_scheme res" where
  "soft_tlb_map pid dst src s =
     rbind (rassert (pid_ok pid) ''pid is unexpected'') (\<lambda>_.
     rbind (rassert (unat src mod PAGE_SIZE = 0 \<and> unat dst mod PAGE_SIZE = 0)
              ''mapping address is not page aligned'') (\<lambda>_.
     rbind (app_row pid s) (\<lambda>pages.
     case scan_from (\<lambda>i. private_addr (pages ! i) = 0) 0 APPS_NPAGES of
       Some i \<Rightarrow> Inr (set_mapping pid i \<lparr>private_addr = src, exec_addr = dst\<rparr> s)
     | None \<Rightarrow> Inl (Fatal ''soft_tlb_map: mapping more pages than expected''))))"

definition memcopy_helper :: "int \<Rightarrow> bool \<Rightarrow> 'a mmu_scheme \<Rightarrow> 'a mmu_scheme res" where
  "memcopy_helper pid private2exec s =
     rbind (rassert (pid_ok pid) ''pid is unexpected'') (\<lambda>_.
     rbind (app_row pid s) (\<lambda>pages.
     rfor (\<lambda>i s.
             if private_addr (pages ! i) \<noteq> 0
             then rbind (rassert (exec_addr (pages ! i) \<noteq> 0) '''') (\<lambda>_.
                  let src = (if private2exec then private_addr (pages ! i)
                             else exec_addr (pages ! i));
                      dst = (if private2exec then exec_addr (pages ! i)
                             else private_addr (pages ! i))
                  in Inr (s\<lparr>pmem := memcpy (pmem s) dst src PAGE_SIZE\<rparr>))
             else Inr s)
       [0..<APPS_NPAGES] s))"

definition soft_tlb_switch :: "int \<Rightarrow> 'a mmu_scheme \<Rightarrow> 'a mmu_scheme res" where
  "soft_tlb_switch pid s =
     (if pid = curr_vm_pid s then Inr s
      else rbind (if curr_vm_pid s > 0 then memcopy_helper (curr_vm_pid s) False s else Inr s)
             (\<lambda>s. rbind (memcopy_helper pid True s) (\<lambda>s. Inr (s\<lparr>curr_vm_pid := pid\<rparr>))))"

section \<open>Well-formed mappings\<close>

text \<open>
  The pairs of private and execution page numbers a process has mapped, and what the
  program keeps true of them: private pages come from the pool and belong to one mapping
  only, execution pages lie outside the pool and are distinct within a process.
\<close>

definition maps_of :: "'a mmu_scheme \<Rightarrow> int \<Rightarrow> page_mapping list" where
  "maps_of s pid = filter (\<lambda>pm. private_addr pm \<noteq> 0) (app_pages s ! nat pid)"

definition wf_mapping :: "page_mapping \<Rightarrow> bool" where
  "wf_mapping pm \<longleftrightarrow> private_addr pm \<in> page_pool \<and> aligned (exec_addr pm) \<and>
     exec_addr pm \<noteq> 0 \<and> exec_addr pm \<notin> page_pool"

definition wf_mmu :: "'a mmu_scheme \<Rightarrow> bool" where
  "wf_mmu s \<longleftrightarrow>
     length (app_pages s) = MAX_NPROCESS \<and>
     (\<forall>row \<in> set (app_pages s). length row = APPS_NPAGES) \<and>
     curr_vm_pid s < int MAX_NPROCESS \<and>
     (\<forall>p \<in> {1..<int MAX_NPROCESS}. \<forall>pm \<in> set (maps_of s p). wf_mapping pm) \<and>
     (\<forall>p \<in> {1..<int MAX_NPROCESS}. distinct (map private_addr (maps_of s p)) \<and>
        distinct (map exec_addr (maps_of s p))) \<and>
     (\<forall>p \<in> {1..<int MAX_NPROCESS}. \<forall>q \<in> {1..<int MAX_NPROCESS}. p \<noteq> q \<longrightarrow>
        private_addr ` set (maps_of s p) \<inter> private_addr ` set (maps_of s q) = {})"

text \<open>The byte a process reads at virtual address \<open>a\<close> when it runs.\<close>

definition mapping_at :: "'a mmu_scheme \<Rightarrow> int \<Rightarrow> addr \<Rightarrow> page_mapping option" where
  "mapping_at s pid a = find (\<lambda>pm. in_range a (exec_addr pm) PAGE_SIZE) (maps_of s pid)"

definition proc_view :: "'a mmu_scheme \<Rightarrow> int \<Rightarrow> addr \<Rightarrow> m_uint8" where
  "proc_view s pid a =
     (case mapping_at s pid a of
        None \<Rightarrow> pmem s a
      | Some pm \<Rightarrow> if curr_vm_pid s = pid then pmem s a
                   else pmem s (private_addr pm + (a - exec_addr pm)))"

section \<open>Copying pages\<close>

definition copy_pages :: "(addr \<times> addr) list \<Rightarrow> mem \<Rightarrow> mem" where
  "copy_pages cs m = fold (\<lambda>(dst, src) m. memcpy m dst src PAGE_SIZE) cs m"

lemma in_page_shift: "in_range x d PAGE_SIZE \<Longrightarrow> in_range (a + (x - d)) a PAGE_SIZE"
  by (simp add: in_range_def)

lemma in_two_pages:
  "aligned a \<Longrightarrow> aligned b \<Longrightarrow> in_range x a PAGE_SIZE \<Longrightarrow> in_range x b PAGE_SIZE \<longleftrightarrow> a = b"
  by (metis PAGE_SIZE_def in_page_iff page_no_eq_aligned)

text \<open>
  Copying between disjoint sets of pages, one page after the other, is one simultaneous
  copy.
\<close>

lemma copy_pages_at:
  assumes "distinct (map fst cs)" "\<forall>(d, a) \<in> set cs. aligned d \<and> aligned a"
    "fst ` set cs \<inter> snd ` set cs = {}"
  shows "copy_pages cs m x =
    (case find (\<lambda>(d, a). in_range x d PAGE_SIZE) cs of None \<Rightarrow> m x | Some (d, a) \<Rightarrow> m (a + (x - d)))"
  using assms
proof (induction cs arbitrary: m)
  case Nil
  then show ?case by (simp add: copy_pages_def)
next
  case (Cons c cs)
  obtain d a where c: "c = (d, a)" by (cases c)
  have IH: "copy_pages (c # cs) m x =
      (case find (\<lambda>(d, a). in_range x d PAGE_SIZE) cs of
         None \<Rightarrow> memcpy m d a PAGE_SIZE x | Some (d', a') \<Rightarrow> memcpy m d a PAGE_SIZE (a' + (x - d')))"
    using Cons.prems by (subst Cons.IH [symmetric]) (auto simp: copy_pages_def c)
  show ?case
  proof (cases "find (\<lambda>(d, a). in_range x d PAGE_SIZE) cs")
    case None
    then show ?thesis unfolding IH by (simp add: c memcpy_def)
  next
    case (Some e)
    obtain d' a' where e: "e = (d', a')" by (cases e)
    have in_cs: "(d', a') \<in> set cs" and x: "in_range x d' PAGE_SIZE"
      using Some e find_SomeD [OF Some] by auto
    have "d \<noteq> d'" using Cons.prems(1) in_cs by (force simp: c)
    moreover have al: "aligned d" "aligned a" "aligned d'" "aligned a'"
      using Cons.prems(2) in_cs by (auto simp: c)
    ultimately have "\<not> in_range x d PAGE_SIZE"
      using in_two_pages [OF al(3,1) x] by simp
    moreover have "\<not> in_range (a' + (x - d')) d PAGE_SIZE"
    proof -
      have "a' \<noteq> d" using Cons.prems(3) in_cs by (force simp: c)
      then show ?thesis
        using in_two_pages [OF al(4,1) in_page_shift [OF x, of a']] by simp
    qed
    ultimately show ?thesis
      using Some unfolding IH by (simp add: c e memcpy_outside)
  qed
qed

definition copy_dir :: "bool \<Rightarrow> page_mapping \<Rightarrow> addr \<times> addr" where
  "copy_dir private2exec pm =
     (if private2exec then (exec_addr pm, private_addr pm) else (private_addr pm, exec_addr pm))"

lemma page_pool_aligned: "p \<in> page_pool \<Longrightarrow> aligned p"
proof -
  assume "p \<in> page_pool"
  then obtain i where "unat p = 0x80800000 + i * 4096"
    by (auto simp: page_pool_def unat_page_addr)
  moreover have "(0x80800000 + i * 4096) mod 4096 = 0" by presburger
  ultimately show ?thesis by (simp add: aligned_def)
qed

lemma page_pool_nonzero: "p \<in> page_pool \<Longrightarrow> p \<noteq> 0"
  by (auto simp: page_pool_def dest: unat_page_addr)

lemma wf_mmuD:
  assumes "wf_mmu s" "p \<in> {1..<int MAX_NPROCESS}"
  shows "length (app_pages s ! nat p) = APPS_NPAGES" "app_row p s = Inr (app_pages s ! nat p)"
    "\<And>pm. pm \<in> set (maps_of s p) \<Longrightarrow> wf_mapping pm"
    "distinct (map private_addr (maps_of s p))" "distinct (map exec_addr (maps_of s p))"
  using assms by (auto simp: wf_mmu_def app_row_def MAX_NPROCESS_def nat_less_iff)

lemma wf_mmu_disjoint:
  assumes "wf_mmu s" "p \<in> {1..<int MAX_NPROCESS}" "q \<in> {1..<int MAX_NPROCESS}" "p \<noteq> q"
  shows "private_addr ` set (maps_of s p) \<inter> private_addr ` set (maps_of s q) = {}"
proof -
  have "\<forall>p \<in> {1..<int MAX_NPROCESS}. \<forall>q \<in> {1..<int MAX_NPROCESS}. p \<noteq> q \<longrightarrow>
        private_addr ` set (maps_of s p) \<inter> private_addr ` set (maps_of s q) = {}"
    using assms(1) unfolding wf_mmu_def by simp
  with assms(2-4) show ?thesis by simp
qed

lemma memcopy_helper_eq:
  assumes "wf_mmu s" "p \<in> {1..<int MAX_NPROCESS}"
  shows "memcopy_helper p b s =
    Inr (s\<lparr>pmem := copy_pages (map (copy_dir b) (maps_of s p)) (pmem s)\<rparr>)"
proof -
  let ?row = "app_pages s ! nat p"
  let ?g = "\<lambda>pm s. rbind (rassert (exec_addr pm \<noteq> 0) '''') (\<lambda>_.
       Inr (s\<lparr>pmem := (case copy_dir b pm of (dst, src) \<Rightarrow> memcpy (pmem s) dst src PAGE_SIZE)\<rparr>))"
  have "memcopy_helper p b s =
      rfor (\<lambda>i s. if private_addr (?row ! i) \<noteq> 0 then ?g (?row ! i) s else Inr s) [0..<length ?row] s"
    using assms wf_mmuD(1,2) [OF assms]
    unfolding memcopy_helper_def copy_dir_def Let_def by (cases b) (simp_all cong: if_cong)
  also have "\<dots> = rfor ?g (maps_of s p) s"
    by (subst rfor_nth [where g = "\<lambda>pm s. if private_addr pm \<noteq> 0 then ?g pm s else Inr s"])
       (simp add: rfor_filter maps_of_def)
  also have "\<dots> = Inr (fold (\<lambda>pm s. s\<lparr>pmem := (case copy_dir b pm of (dst, src) \<Rightarrow>
      memcpy (pmem s) dst src PAGE_SIZE)\<rparr>) (maps_of s p) s)"
    using wf_mmuD(3) [OF assms] by (intro rfor_Inr) (auto simp: wf_mapping_def)
  also have "fold (\<lambda>pm s. s\<lparr>pmem := (case copy_dir b pm of (dst, src) \<Rightarrow>
      memcpy (pmem s) dst src PAGE_SIZE)\<rparr>) pms s
      = s\<lparr>pmem := copy_pages (map (copy_dir b) pms) (pmem s)\<rparr>" for pms
    by (induction pms arbitrary: s) (auto simp: copy_pages_def split_def)
  finally show ?thesis .
qed

section \<open>Address spaces survive a switch\<close>

lemma maps_of_pmem [simp]: "maps_of (s\<lparr>pmem := m\<rparr>) p = maps_of s p"
  by (simp add: maps_of_def)

lemma maps_of_curr [simp]: "maps_of (s\<lparr>curr_vm_pid := c\<rparr>) p = maps_of s p"
  by (simp add: maps_of_def)

lemma mapping_at_frame [simp]:
  "mapping_at (s\<lparr>pmem := m\<rparr>) p a = mapping_at s p a"
  "mapping_at (s\<lparr>curr_vm_pid := c\<rparr>) p a = mapping_at s p a"
  by (simp_all add: mapping_at_def)

lemma wf_mmu_pmem [simp]: "wf_mmu (s\<lparr>pmem := m\<rparr>) \<longleftrightarrow> wf_mmu s"
  by (simp add: wf_mmu_def)

lemma wf_mmu_curr: "wf_mmu s \<Longrightarrow> c < int MAX_NPROCESS \<Longrightarrow> wf_mmu (s\<lparr>curr_vm_pid := c\<rparr>)"
  by (simp add: wf_mmu_def)

lemma mapping_at_Some:
  assumes "mapping_at s p a = Some pm"
  shows "pm \<in> set (maps_of s p)" "in_range a (exec_addr pm) PAGE_SIZE"
  using assms by (auto simp: mapping_at_def dest: find_SomeD)

lemma wf_copy:
  assumes "wf_mmu s" "p \<in> {1..<int MAX_NPROCESS}"
  shows "copy_pages (map (copy_dir b) (maps_of s p)) m x =
    (case find (\<lambda>(d, a). in_range x d PAGE_SIZE) (map (copy_dir b) (maps_of s p)) of
       None \<Rightarrow> m x | Some (d, a) \<Rightarrow> m (a + (x - d)))"
proof (rule copy_pages_at)
  note wf = wf_mmuD [OF assms]
  have dist: "map fst (map (copy_dir b) (maps_of s p)) =
      (if b then map exec_addr (maps_of s p) else map private_addr (maps_of s p))"
    by (auto simp: copy_dir_def)
  show "distinct (map fst (map (copy_dir b) (maps_of s p)))"
    unfolding dist using wf(4,5) by auto
  show "\<forall>(d, a) \<in> set (map (copy_dir b) (maps_of s p)). aligned d \<and> aligned a"
    using wf(3) page_pool_aligned by (auto simp: copy_dir_def wf_mapping_def)
  show "fst ` set (map (copy_dir b) (maps_of s p)) \<inter> snd ` set (map (copy_dir b) (maps_of s p)) = {}"
    using wf(3) by (auto simp: copy_dir_def wf_mapping_def) metis+
qed

text \<open>Loading a process writes its execution pages only, and from its private pages.\<close>

lemma load_at_exec:
  assumes "wf_mmu s" "p \<in> {1..<int MAX_NPROCESS}" "mapping_at s p a = Some pm"
  shows "copy_pages (map (copy_dir True) (maps_of s p)) m a = m (private_addr pm + (a - exec_addr pm))"
  using assms(3)
  by (simp add: wf_copy [OF assms(1,2)] find_map copy_dir_def mapping_at_def comp_def)

lemma load_at_pool:
  assumes "wf_mmu s" "p \<in> {1..<int MAX_NPROCESS}" "q \<in> page_pool" "in_range x q PAGE_SIZE"
  shows "copy_pages (map (copy_dir True) (maps_of s p)) m x = m x"
proof -
  have "\<not> in_range x (exec_addr pm) PAGE_SIZE" if "pm \<in> set (maps_of s p)" for pm
    using wf_mmuD(3) [OF assms(1,2) that] assms(3,4) in_two_pages page_pool_aligned
    by (metis wf_mapping_def)
  then have "find (\<lambda>(d, a). in_range x d PAGE_SIZE) (map (copy_dir True) (maps_of s p)) = None"
    by (auto simp: find_None_iff copy_dir_def)
  then show ?thesis by (simp add: wf_copy [OF assms(1,2)])
qed

text \<open>Saving a process writes its private pages only, and from its execution pages.\<close>

lemma save_at_private:
  assumes "wf_mmu s" "p \<in> {1..<int MAX_NPROCESS}" "mapping_at s p a = Some pm"
  shows "copy_pages (map (copy_dir False) (maps_of s p)) m (private_addr pm + (a - exec_addr pm)) = m a"
proof -
  let ?x = "private_addr pm + (a - exec_addr pm)"
  note pm = mapping_at_Some [OF assms(3)]
  note wf = wf_mmuD [OF assms(1,2)]
  have x: "in_range ?x (private_addr pm) PAGE_SIZE" by (rule in_page_shift [OF pm(2)])
  have "private_addr qm = private_addr pm" if "qm \<in> set (maps_of s p)" "in_range ?x (private_addr qm) PAGE_SIZE" for qm
    using wf(3) pm(1) that x in_two_pages page_pool_aligned by (metis wf_mapping_def)
  with wf(4) pm(1) have "qm = pm" if "qm \<in> set (maps_of s p)" "in_range ?x (private_addr qm) PAGE_SIZE" for qm
    using that by (auto simp: distinct_map inj_on_def)
  then have "find (\<lambda>qm. in_range ?x (private_addr qm) PAGE_SIZE) (maps_of s p) = Some pm"
    using pm(1) x by (intro find_unique)
  then show ?thesis
    by (simp add: wf_copy [OF assms(1,2)] find_map copy_dir_def comp_def)
qed

lemma save_elsewhere:
  assumes "wf_mmu s" "p \<in> {1..<int MAX_NPROCESS}"
    and "\<And>pm. pm \<in> set (maps_of s p) \<Longrightarrow> \<not> in_range x (private_addr pm) PAGE_SIZE"
  shows "copy_pages (map (copy_dir False) (maps_of s p)) m x = m x"
proof -
  have "find (\<lambda>(d, a). in_range x d PAGE_SIZE) (map (copy_dir False) (maps_of s p)) = None"
    using assms(3) by (auto simp: find_None_iff copy_dir_def)
  then show ?thesis by (simp add: wf_copy [OF assms(1,2)])
qed

lemma private_pages_disjoint:
  assumes "wf_mmu s" "p \<in> {1..<int MAX_NPROCESS}" "q \<in> {1..<int MAX_NPROCESS}" "p \<noteq> q"
    "pm \<in> set (maps_of s p)" "qm \<in> set (maps_of s q)" "in_range x (private_addr pm) PAGE_SIZE"
  shows "\<not> in_range x (private_addr qm) PAGE_SIZE"
proof -
  have "private_addr pm \<noteq> private_addr qm"
    using wf_mmu_disjoint [OF assms(1-4)] assms(5,6) by blast
  moreover have "aligned (private_addr pm)" "aligned (private_addr qm)"
    using wf_mmuD(3) [OF assms(1,2,5)] wf_mmuD(3) [OF assms(1,3,6)] page_pool_aligned
    by (auto simp: wf_mapping_def)
  ultimately show ?thesis using in_two_pages [OF _ _ assms(7)] by metis
qed

lemma private_addr_in_pool:
  assumes "wf_mmu s" "q \<in> {1..<int MAX_NPROCESS}" "mapping_at s q a = Some pm"
  shows "private_addr pm \<in> page_pool"
    "in_range (private_addr pm + (a - exec_addr pm)) (private_addr pm) PAGE_SIZE"
  using wf_mmuD(3) [OF assms(1,2) mapping_at_Some(1) [OF assms(3)]]
    in_page_shift [OF mapping_at_Some(2) [OF assms(3)]] by (auto simp: wf_mapping_def)

text \<open>The memory after the first half of a switch, which saves the running process.\<close>

definition saved_mem :: "'a mmu_scheme \<Rightarrow> mem" where
  "saved_mem s = (if curr_vm_pid s > 0
     then copy_pages (map (copy_dir False) (maps_of s (curr_vm_pid s))) (pmem s) else pmem s)"

lemma soft_tlb_switch_eq:
  assumes "wf_mmu s" "p \<in> {1..<int MAX_NPROCESS}" "p \<noteq> curr_vm_pid s"
  shows "soft_tlb_switch p s = Inr (s\<lparr>pmem := copy_pages (map (copy_dir True) (maps_of s p)) (saved_mem s),
    curr_vm_pid := p\<rparr>)"
proof (cases "curr_vm_pid s > 0")
  case True
  then have c: "curr_vm_pid s \<in> {1..<int MAX_NPROCESS}" using assms(1) by (simp add: wf_mmu_def)
  let ?s = "s\<lparr>pmem := copy_pages (map (copy_dir False) (maps_of s (curr_vm_pid s))) (pmem s)\<rparr>"
  have "memcopy_helper p True ?s = Inr (?s\<lparr>pmem := copy_pages (map (copy_dir True) (maps_of ?s p)) (pmem ?s)\<rparr>)"
    by (rule memcopy_helper_eq) (use assms in simp_all)
  with True assms(3) show ?thesis
    by (simp add: soft_tlb_switch_def memcopy_helper_eq [OF assms(1) c] saved_mem_def)
next
  case False
  with assms(3) show ?thesis
    by (simp add: soft_tlb_switch_def memcopy_helper_eq [OF assms(1,2)] saved_mem_def)
qed

text \<open>
  After the saving half every process other than the one to be loaded is intact in its
  private pages.
\<close>

lemma saved_mem_view:
  assumes "wf_mmu s" "q \<in> {1..<int MAX_NPROCESS}" "mapping_at s q a = Some pm"
  shows "saved_mem s (private_addr pm + (a - exec_addr pm)) = proc_view s q a"
proof (cases "curr_vm_pid s > 0")
  case True
  then have c: "curr_vm_pid s \<in> {1..<int MAX_NPROCESS}" using assms(1) by (simp add: wf_mmu_def)
  show ?thesis
  proof (cases "q = curr_vm_pid s")
    case True
    with c assms show ?thesis
      by (simp add: saved_mem_def proc_view_def save_at_private)
  next
    case False
    then have "saved_mem s (private_addr pm + (a - exec_addr pm)) = pmem s (private_addr pm + (a - exec_addr pm))"
      using private_pages_disjoint [OF assms(1,2) c False mapping_at_Some(1) [OF assms(3)] _
          private_addr_in_pool(2) [OF assms]] save_elsewhere [OF assms(1) c]
      by (auto simp: saved_mem_def)
    with False assms(3) show ?thesis by (simp add: proc_view_def)
  qed
next
  case False
  with assms show ?thesis by (simp add: saved_mem_def proc_view_def)
qed

lemma soft_tlb_switch_view:
  assumes "wf_mmu s" "p \<in> {1..<int MAX_NPROCESS}" "soft_tlb_switch p s = Inr s'"
    "q \<in> {1..<int MAX_NPROCESS}" "mapping_at s q a \<noteq> None"
  shows "proc_view s' q a = proc_view s q a"
proof (cases "p = curr_vm_pid s")
  case True
  with assms(3) show ?thesis by (simp add: soft_tlb_switch_def)
next
  case False
  obtain pm where pm: "mapping_at s q a = Some pm" using assms(5) by auto
  have s': "s' = s\<lparr>pmem := copy_pages (map (copy_dir True) (maps_of s p)) (saved_mem s), curr_vm_pid := p\<rparr>"
    using assms(3) soft_tlb_switch_eq [OF assms(1,2) False] by simp
  have v: "proc_view s' q a = copy_pages (map (copy_dir True) (maps_of s p)) (saved_mem s)
      (if q = p then a else private_addr pm + (a - exec_addr pm))"
    using pm by (simp add: proc_view_def s')
  show ?thesis
    using saved_mem_view [OF assms(1,4) pm] load_at_exec [OF assms(1,2), of a pm] pm
      load_at_pool [OF assms(1,2) private_addr_in_pool [OF assms(1,4) pm]]
    unfolding v by auto
qed

section \<open>The contract of the address spaces\<close>

text \<open>
  What the kernel relies on when it copies messages between processes: switching changes
  no process's memory, the running process's memory is what its loads and stores access,
  and a store of the running process is seen by no other process.
\<close>

locale address_spaces =
  fixes switch :: "int \<Rightarrow> 's \<Rightarrow> 's res"
    and peek :: "'s \<Rightarrow> addr \<Rightarrow> m_uint8"
    and poke :: "addr \<Rightarrow> m_uint8 list \<Rightarrow> 's \<Rightarrow> 's"
    and view :: "'s \<Rightarrow> int \<Rightarrow> addr \<Rightarrow> m_uint8"
    and mapped :: "'s \<Rightarrow> int \<Rightarrow> addr \<Rightarrow> bool"
    and running :: "'s \<Rightarrow> int"
    and inv :: "'s \<Rightarrow> bool"
    and procs :: "int set"
  assumes switch_ok: "inv s \<Longrightarrow> p \<in> procs \<Longrightarrow>
      \<exists>s'. switch p s = Inr s' \<and> inv s' \<and> running s' = p \<and> mapped s' = mapped s"
    and switch_view: "inv s \<Longrightarrow> p \<in> procs \<Longrightarrow> switch p s = Inr s' \<Longrightarrow> q \<in> procs \<Longrightarrow>
      mapped s q a \<Longrightarrow> view s' q a = view s q a"
    and peek_view: "inv s \<Longrightarrow> running s \<in> procs \<Longrightarrow> mapped s (running s) a \<Longrightarrow>
      peek s a = view s (running s) a"
    and poke_ok: "inv s \<Longrightarrow> running s \<in> procs \<Longrightarrow>
      inv (poke a bs s) \<and> running (poke a bs s) = running s \<and> mapped (poke a bs s) = mapped s"
    and poke_view: "inv s \<Longrightarrow> running s \<in> procs \<Longrightarrow>
      \<forall>x. in_range x a (length bs) \<longrightarrow> mapped s (running s) x \<Longrightarrow> q \<in> procs \<Longrightarrow> mapped s q x \<Longrightarrow>
      view (poke a bs s) q x =
        (if q = running s \<and> in_range x a (length bs) then bs ! unat (x - a) else view s q x)"
begin

text \<open>
  Copying \<open>n\<close> bytes from one process to the same or another address of a second one, by
  way of a buffer of the kernel: the second process sees the first one's bytes, and
  nothing else changes.
\<close>

lemma copy_between:
  assumes "inv s" "p \<in> procs" "q \<in> procs" "n \<le> 2 ^ 32"
    and src: "\<forall>x. in_range x a n \<longrightarrow> mapped s p x"
    and dst: "\<forall>x. in_range x b n \<longrightarrow> mapped s q x"
    and s1: "switch p s = Inr s1" and s2: "switch q s1 = Inr s2"
    and s3: "s3 = poke b (map (\<lambda>i. peek s1 (a + of_nat i)) [0..<n]) s2"
  shows "inv s3 \<and> running s3 = q \<and> mapped s3 = mapped s \<and>
    (\<forall>r \<in> procs. \<forall>x. mapped s r x \<longrightarrow> view s3 r x =
      (if r = q \<and> in_range x b n then view s p (a + (x - b)) else view s r x))"
proof -
  have 1: "inv s1" "running s1 = p" "mapped s1 = mapped s"
    using switch_ok [OF assms(1,2)] s1 by auto
  have 2: "inv s2" "running s2 = q" "mapped s2 = mapped s"
    using switch_ok [OF 1(1) assms(3)] s2 1 by auto
  have buf: "map (\<lambda>i. peek s1 (a + of_nat i)) [0..<n] ! unat (x - b) = view s p (a + (x - b))"
    if x: "in_range x b n" for x
  proof -
    have m: "mapped s p (a + (x - b))" using src x by (simp add: in_range_def)
    have "peek s1 (a + (x - b)) = view s1 p (a + (x - b))"
      using peek_view [OF 1(1)] 1 m assms(2) by simp
    with switch_view [OF assms(1,2) s1 assms(2) m] x show ?thesis
      by (simp add: in_range_def)
  qed
  have "view s3 r x = (if r = q \<and> in_range x b n then view s p (a + (x - b)) else view s r x)"
    if r: "r \<in> procs" "mapped s r x" for r x
  proof -
    have "view s2 r x = view s r x"
      using switch_view [OF assms(1,2) s1 r] switch_view [OF 1(1) assms(3) s2] r 1 by simp
    then show ?thesis
      using poke_view [OF 2(1), of b "map (\<lambda>i. peek s1 (a + of_nat i)) [0..<n]" r x] 2 dst assms(3) r buf
      by (simp add: s3)
  qed
  with poke_ok [OF 2(1)] 2 assms(3) show ?thesis by (simp add: s3)
qed

end

definition store_exec :: "addr \<Rightarrow> m_uint8 list \<Rightarrow> 'a mmu_scheme \<Rightarrow> 'a mmu_scheme" where
  "store_exec a bs s = s\<lparr>pmem := store_bytes (pmem s) a bs\<rparr>"

definition mapped :: "'a mmu_scheme \<Rightarrow> int \<Rightarrow> addr \<Rightarrow> bool" where
  "mapped s p a \<longleftrightarrow> mapping_at s p a \<noteq> None"

lemma soft_tlb_switch_ok:
  assumes "wf_mmu s" "p \<in> {1..<int MAX_NPROCESS}"
  shows "\<exists>s'. soft_tlb_switch p s = Inr s' \<and> wf_mmu s' \<and> curr_vm_pid s' = p \<and> mapped s' = mapped s"
proof (cases "p = curr_vm_pid s")
  case True
  with assms show ?thesis by (simp add: soft_tlb_switch_def)
next
  case False
  from soft_tlb_switch_eq [OF assms False] assms show ?thesis
    by (simp add: wf_mmu_curr mapped_def fun_eq_iff)
qed

lemma exec_not_in_pool:
  assumes "wf_mmu s" "p \<in> {1..<int MAX_NPROCESS}" "mapped s p x" "q \<in> page_pool"
  shows "\<not> in_range x q PAGE_SIZE"
proof -
  obtain pm where pm: "mapping_at s p x = Some pm" using assms(3) by (auto simp: mapped_def)
  note m = mapping_at_Some [OF pm]
  have "wf_mapping pm" using wf_mmuD(3) [OF assms(1,2) m(1)] .
  then show ?thesis
    using in_two_pages [OF _ page_pool_aligned [OF assms(4)] m(2)] assms(4) by (auto simp: wf_mapping_def)
qed

lemma store_exec_view:
  assumes "wf_mmu s" "curr_vm_pid s \<in> {1..<int MAX_NPROCESS}"
    "\<forall>x. in_range x a (length bs) \<longrightarrow> mapped s (curr_vm_pid s) x"
    "q \<in> {1..<int MAX_NPROCESS}" "mapped s q x"
  shows "proc_view (store_exec a bs s) q x =
    (if q = curr_vm_pid s \<and> in_range x a (length bs) then bs ! unat (x - a) else proc_view s q x)"
proof -
  obtain pm where pm: "mapping_at s q x = Some pm" using assms(5) by (auto simp: mapped_def)
  show ?thesis
  proof (cases "q = curr_vm_pid s")
    case True
    with pm show ?thesis
      by (simp add: proc_view_def store_exec_def store_bytes_def)
  next
    case False
    let ?y = "private_addr pm + (x - exec_addr pm)"
    have "\<not> in_range ?y a (length bs)"
      using exec_not_in_pool [OF assms(1,2)] assms(3) private_addr_in_pool [OF assms(1,4) pm] by blast
    with False pm show ?thesis
      by (simp add: proc_view_def store_exec_def store_bytes_def)
  qed
qed

interpretation tlb: address_spaces soft_tlb_switch pmem store_exec proc_view mapped
  curr_vm_pid wf_mmu "{1..<int MAX_NPROCESS}"
proof unfold_locales
  fix s s' :: "'a mmu_scheme" and p q a
  assume "wf_mmu s" "p \<in> {1..<int MAX_NPROCESS}" "soft_tlb_switch p s = Inr s'"
    "q \<in> {1..<int MAX_NPROCESS}" "mapped s q a"
  then show "proc_view s' q a = proc_view s q a"
    by (intro soft_tlb_switch_view) (auto simp: mapped_def)
next
  fix s :: "'a mmu_scheme" and a
  assume "mapped s (curr_vm_pid s) a"
  then show "pmem s a = proc_view s (curr_vm_pid s) a"
    by (auto simp: proc_view_def mapped_def)
next
  fix s :: "'a mmu_scheme" and a bs
  assume "wf_mmu s"
  then show "wf_mmu (store_exec a bs s) \<and> curr_vm_pid (store_exec a bs s) = curr_vm_pid s \<and>
      mapped (store_exec a bs s) = mapped s"
    by (simp add: store_exec_def mapped_def fun_eq_iff)
qed (rule soft_tlb_switch_ok store_exec_view; assumption)+

section \<open>Mapping and freeing\<close>

definition private_pages :: "'a mmu_scheme \<Rightarrow> int \<Rightarrow> addr set" where
  "private_pages s p = private_addr ` set (maps_of s p)"

definition clear_pm :: "page_mapping \<Rightarrow> page_mapping" where
  "clear_pm pm = (if private_addr pm \<noteq> 0 then \<lparr>private_addr = 0, exec_addr = 0\<rparr> else pm)"

text \<open>The state after the loop of \<^verbatim>\<open>soft_tlb_free\<close> has handled the first \<open>i\<close> entries.\<close>

definition freed_upto :: "int \<Rightarrow> 'a mmu_scheme \<Rightarrow> nat \<Rightarrow> 'a mmu_scheme \<Rightarrow> bool" where
  "freed_upto p s i s' \<longleftrightarrow>
     (let row = app_pages s ! nat p in
      \<exists>bm. s' = s\<lparr>bitmap := bm,
             app_pages := (app_pages s)[nat p := map clear_pm (take i row) @ drop i row]\<rparr> \<and>
           alloc_inv s' \<and>
           used_pages s' = used_pages s - private_addr ` {pm \<in> set (take i row). private_addr pm \<noteq> 0})"

lemma freed_upto_step:
  assumes wf: "wf_mmu s" "p \<in> {1..<int MAX_NPROCESS}" and i: "i < APPS_NPAGES"
    and f: "freed_upto p s i s'"
  shows "\<exists>s''. rbind (app_row p s') (\<lambda>pages.
             if private_addr (pages ! i) \<noteq> 0
             then rbind (pfree (private_addr (pages ! i)) s')
                    (\<lambda>s. Inr (set_mapping p i \<lparr>private_addr = 0, exec_addr = 0\<rparr> s))
             else Inr s') = Inr s'' \<and> freed_upto p s (Suc i) s''"
proof -
  define row where "row = app_pages s ! nat p"
  obtain bm where s': "s' = s\<lparr>bitmap := bm,
      app_pages := (app_pages s)[nat p := map clear_pm (take i row) @ drop i row]\<rparr>"
    and inv: "alloc_inv s'"
    and used: "used_pages s' = used_pages s - private_addr ` {pm \<in> set (take i row). private_addr pm \<noteq> 0}"
    using f by (auto simp: freed_upto_def Let_def row_def)
  have len: "length row = APPS_NPAGES" "nat p < length (app_pages s)"
    using wf wf_mmuD(1) [OF wf] by (auto simp: row_def wf_mmu_def nat_less_iff)
  have row': "app_row p s' = Inr (map clear_pm (take i row) @ drop i row)"
    using len by (simp add: app_row_def s')
  have nth: "(map clear_pm (take i row) @ drop i row) ! i = row ! i"
    using len i by (simp add: nth_append)
  have take': "take (Suc i) row = take i row @ [row ! i]"
    using len i by (simp add: take_Suc_conv_app_nth)
  have upd: "(map clear_pm (take i row) @ drop i row)[i := clear_pm (row ! i)]
      = map clear_pm (take (Suc i) row) @ drop (Suc i) row"
    using len i by (simp add: list_update_append take' Cons_nth_drop_Suc [symmetric])
  show ?thesis
  proof (cases "private_addr (row ! i) = 0")
    case True
    then have c: "clear_pm (row ! i) = row ! i" by (simp add: clear_pm_def)
    have "map clear_pm (take (Suc i) row) @ drop (Suc i) row = map clear_pm (take i row) @ drop i row"
      using upd c nth by (metis list_update_id)
    with True s' inv used row' nth show ?thesis
      by (auto simp: freed_upto_def Let_def row_def [symmetric] take')
  next
    case False
    then have "row ! i \<in> set (maps_of s p)"
      using len i by (simp add: maps_of_def row_def)
    then have pool: "private_addr (row ! i) \<in> page_pool"
      using wf_mmuD(3) [OF wf] by (simp add: wf_mapping_def)
    from pfree_ok [OF inv pool] obtain s1 where s1: "pfree (private_addr (row ! i)) s' = Inr s1"
      "used_pages s1 = used_pages s' - {private_addr (row ! i)}" "alloc_inv s1" by auto
    then obtain bm1 where bm1: "s1 = s'\<lparr>bitmap := bm1\<rparr>"
      by (auto simp: pfree_def res_simps bitmap_clear_def)
    have c: "clear_pm (row ! i) = \<lparr>private_addr = 0, exec_addr = 0\<rparr>" using False by (simp add: clear_pm_def)
    have sm: "set_mapping p i \<lparr>private_addr = 0, exec_addr = 0\<rparr> s1 = s\<lparr>bitmap := bm1,
        app_pages := (app_pages s)[nat p := map clear_pm (take (Suc i) row) @ drop (Suc i) row]\<rparr>"
      using upd [unfolded c] len by (simp add: set_mapping_def bm1 s')
    have "alloc_inv (set_mapping p i \<lparr>private_addr = 0, exec_addr = 0\<rparr> s1)"
      "used_pages (set_mapping p i \<lparr>private_addr = 0, exec_addr = 0\<rparr> s1) = used_pages s1"
      using s1(3) by (simp_all add: set_mapping_def alloc_inv_def used_pages_def)
    with False s1 row' nth used show ?thesis
      by (auto simp: freed_upto_def Let_def row_def [symmetric] take' sm intro!: exI [of _ bm1])
  qed
qed

lemma freed_upto_wf:
  assumes "wf_mmu s" "p \<in> {1..<int MAX_NPROCESS}" "freed_upto p s APPS_NPAGES s'"
  shows "wf_mmu s'" "maps_of s' p = []" "\<And>q. q \<in> {1..<int MAX_NPROCESS} \<Longrightarrow> q \<noteq> p \<Longrightarrow> maps_of s' q = maps_of s q"
    "pmem s' = pmem s" "used_pages s' = used_pages s - private_pages s p" "alloc_inv s'"
proof -
  define row where "row = app_pages s ! nat p"
  have len: "length row = APPS_NPAGES" "nat p < length (app_pages s)"
    using assms(1,2) wf_mmuD(1) [OF assms(1,2)] by (auto simp: row_def wf_mmu_def nat_less_iff)
  obtain bm where s': "s' = s\<lparr>bitmap := bm, app_pages := (app_pages s)[nat p := map clear_pm row]\<rparr>"
    and *: "alloc_inv s'" "used_pages s' = used_pages s - private_addr ` {pm \<in> set row. private_addr pm \<noteq> 0}"
    using assms(3) len by (auto simp: freed_upto_def Let_def row_def [symmetric])
  show m: "maps_of s' p = []"
    using len by (auto simp: maps_of_def s' clear_pm_def filter_empty_conv)
  show o: "maps_of s' q = maps_of s q" if "q \<in> {1..<int MAX_NPROCESS}" "q \<noteq> p" for q
    using that assms(2) by (simp add: maps_of_def s' nat_eq_iff)
  show "pmem s' = pmem s" by (simp add: s')
  show "used_pages s' = used_pages s - private_pages s p" "alloc_inv s'"
    using * by (auto simp: private_pages_def maps_of_def row_def)
  have rows: "length (app_pages s') = MAX_NPROCESS" "\<forall>row \<in> set (app_pages s'). length row = APPS_NPAGES"
      "curr_vm_pid s' < int MAX_NPROCESS"
    using assms(1) len by (auto simp: s' wf_mmu_def dest!: set_update_subset_insert [THEN subsetD])
  have "maps_of s' q = (if q = p then [] else maps_of s q)" if "q \<in> {1..<int MAX_NPROCESS}" for q
    using m o [OF that] by simp
  with rows assms(1) show "wf_mmu s'"
    by (simp add: wf_mmu_def)
qed

lemma soft_tlb_free_ok:
  assumes "wf_mmu s" "p \<in> {1..<int MAX_NPROCESS}" "alloc_inv s"
  shows "\<exists>s'. soft_tlb_free p s = Inr s' \<and> wf_mmu s' \<and> maps_of s' p = [] \<and>
     (\<forall>q \<in> {1..<int MAX_NPROCESS} - {p}. maps_of s' q = maps_of s q) \<and> pmem s' = pmem s \<and>
     used_pages s' = used_pages s - private_pages s p \<and> alloc_inv s'"
proof -
  let ?body = "\<lambda>i s. rbind (app_row p s) (\<lambda>pages.
             if private_addr (pages ! i) \<noteq> 0
             then rbind (pfree (private_addr (pages ! i)) s)
                    (\<lambda>s. Inr (set_mapping p i \<lparr>private_addr = 0, exec_addr = 0\<rparr> s))
             else Inr s)"
  have init: "freed_upto p s 0 s"
    using assms(3) by (auto simp: freed_upto_def Let_def intro!: exI [of _ "bitmap s"])
  obtain s' where s': "rfor ?body [0..<APPS_NPAGES] s = Inr s'" "freed_upto p s APPS_NPAGES s'"
    using rfor_upt [where P = "freed_upto p s" and body = ?body, OF init freed_upto_step [OF assms(1,2)]]
    by blast
  have "soft_tlb_free p s = Inr s'"
    using assms(2) s'(1) by (simp add: soft_tlb_free_def)
  with freed_upto_wf [OF assms(1,2) s'(2)] show ?thesis by blast
qed

lemma soft_tlb_map_ok:
  assumes "wf_mmu s" "p \<in> {1..<int MAX_NPROCESS}" "length (maps_of s p) < APPS_NPAGES"
    and src: "src \<in> page_pool" "\<forall>q \<in> {1..<int MAX_NPROCESS}. src \<notin> private_pages s q"
    and dst: "aligned dst" "dst \<noteq> 0" "dst \<notin> page_pool" "dst \<notin> exec_addr ` set (maps_of s p)"
  shows "\<exists>i < APPS_NPAGES. private_addr (app_pages s ! nat p ! i) = 0 \<and>
     (\<forall>j < i. private_addr (app_pages s ! nat p ! j) \<noteq> 0) \<and>
     soft_tlb_map p dst src s = Inr (set_mapping p i \<lparr>private_addr = src, exec_addr = dst\<rparr> s)"
proof -
  let ?row = "app_pages s ! nat p"
  have len: "length ?row = APPS_NPAGES" using wf_mmuD(1) [OF assms(1,2)] .
  have "\<exists>i < APPS_NPAGES. private_addr (?row ! i) = 0"
  proof (rule ccontr)
    assume "\<not> ?thesis"
    then have "\<forall>pm \<in> set ?row. private_addr pm \<noteq> 0"
      using len by (metis in_set_conv_nth)
    then have "maps_of s p = ?row" by (simp add: maps_of_def)
    with assms(3) len show False by simp
  qed
  then obtain k where "k < APPS_NPAGES" "private_addr (?row ! k) = 0" by auto
  then obtain i where i: "scan_from (\<lambda>i. private_addr (?row ! i) = 0) 0 APPS_NPAGES = Some i"
    using scan_from_ex [of 0 k APPS_NPAGES "\<lambda>i. private_addr (?row ! i) = 0"] by auto
  have "unat src mod PAGE_SIZE = 0" "unat dst mod PAGE_SIZE = 0"
    using page_pool_aligned [OF src(1)] dst(1) by (simp_all add: aligned_def PAGE_SIZE_def)
  then have "soft_tlb_map p dst src s = Inr (set_mapping p i \<lparr>private_addr = src, exec_addr = dst\<rparr> s)"
    using assms(2) wf_mmuD(2) [OF assms(1,2)] i by (simp add: soft_tlb_map_def)
  with i show ?thesis unfolding scan_from_Some_iff by blast
qed

lemma maps_of_set_mapping:
  assumes "wf_mmu s" "p \<in> {1..<int MAX_NPROCESS}" "i < APPS_NPAGES" "private_addr pm \<noteq> 0"
    "private_addr (app_pages s ! nat p ! i) = 0" "\<forall>j < i. private_addr (app_pages s ! nat p ! j) \<noteq> 0"
  obtains xs ys where "maps_of s p = xs @ ys" "maps_of (set_mapping p i pm s) p = xs @ pm # ys"
    "\<And>q. q \<in> {1..<int MAX_NPROCESS} \<Longrightarrow> q \<noteq> p \<Longrightarrow> maps_of (set_mapping p i pm s) q = maps_of s q"
proof -
  let ?row = "app_pages s ! nat p"
  have len: "i < length ?row" "nat p < length (app_pages s)"
    using assms(1-3) wf_mmuD(1) [OF assms(1,2)] by (auto simp: wf_mmu_def nat_less_iff)
  let ?zs = "filter (\<lambda>pm. private_addr pm \<noteq> 0) (drop (Suc i) ?row)"
  let ?xs = "filter (\<lambda>pm. private_addr pm \<noteq> 0) (take i ?row)"
  have "maps_of s p = filter (\<lambda>pm. private_addr pm \<noteq> 0) (take i ?row @ ?row ! i # drop (Suc i) ?row)"
    using len(1) by (simp only: maps_of_def id_take_nth_drop [symmetric])
  then have 1: "maps_of s p = ?xs @ ?zs"
    using assms(5) by simp
  have 2: "maps_of (set_mapping p i pm s) p = ?xs @ pm # ?zs"
    using len assms(4) upd_conv_take_nth_drop [OF len(1), of pm] by (simp add: maps_of_def set_mapping_def)
  have 3: "maps_of (set_mapping p i pm s) q = maps_of s q" if "q \<in> {1..<int MAX_NPROCESS}" "q \<noteq> p" for q
    using that assms(2) by (simp add: maps_of_def set_mapping_def nat_eq_iff)
  from 1 2 3 show ?thesis by (rule that)
qed

lemma set_mapping_wf:
  assumes wf: "wf_mmu s" "p \<in> {1..<int MAX_NPROCESS}" "i < APPS_NPAGES"
    and slot: "private_addr (app_pages s ! nat p ! i) = 0" "\<forall>j < i. private_addr (app_pages s ! nat p ! j) \<noteq> 0"
    and src: "src \<in> page_pool" "\<forall>q \<in> {1..<int MAX_NPROCESS}. src \<notin> private_pages s q"
    and dst: "aligned dst" "dst \<noteq> 0" "dst \<notin> page_pool" "dst \<notin> exec_addr ` set (maps_of s p)"
  shows "wf_mmu (set_mapping p i \<lparr>private_addr = src, exec_addr = dst\<rparr> s)"
proof -
  let ?pm = "\<lparr>private_addr = src, exec_addr = dst\<rparr>"
  let ?s = "set_mapping p i ?pm s"
  obtain xs ys where m: "maps_of s p = xs @ ys" "maps_of ?s p = xs @ ?pm # ys"
    "\<And>q. q \<in> {1..<int MAX_NPROCESS} \<Longrightarrow> q \<noteq> p \<Longrightarrow> maps_of ?s q = maps_of s q"
    using maps_of_set_mapping [OF wf, of ?pm] slot page_pool_nonzero [OF src(1)] by auto
  have rows: "length (app_pages ?s) = MAX_NPROCESS" "\<forall>row \<in> set (app_pages ?s). length row = APPS_NPAGES"
      "curr_vm_pid ?s < int MAX_NPROCESS"
    using wf wf_mmuD(1) [OF wf(1,2)]
    by (auto simp: set_mapping_def wf_mmu_def dest!: set_update_subset_insert [THEN subsetD])
  have wfm: "wf_mapping pm" if "q \<in> {1..<int MAX_NPROCESS}" "pm \<in> set (maps_of ?s q)" for q pm
    using that m src(1) dst wf_mmuD(3) [OF wf(1)] by (cases "q = p") (auto simp: wf_mapping_def)
  have "src \<notin> private_addr ` set (xs @ ys)" "dst \<notin> exec_addr ` set (xs @ ys)"
    using bspec [OF src(2) wf(2)] dst(4) by (simp_all only: private_pages_def m(1) not_False_eq_True)
  then have "distinct (map private_addr (maps_of ?s p))" "distinct (map exec_addr (maps_of ?s p))"
    using wf_mmuD(4,5) [OF wf(1,2)] unfolding m(1,2) by auto
  then have dis: "distinct (map private_addr (maps_of ?s q))" "distinct (map exec_addr (maps_of ?s q))"
    if "q \<in> {1..<int MAX_NPROCESS}" for q
    using wf_mmuD(4,5) [OF wf(1) that] m(3) [OF that] by (cases "q = p", simp, simp)+
  have "private_addr ` set (maps_of ?s q) \<inter> private_addr ` set (maps_of ?s r) = {}"
    if "q \<in> {1..<int MAX_NPROCESS}" "r \<in> {1..<int MAX_NPROCESS}" "q \<noteq> r" for q r
  proof -
    have old: "private_pages s q \<inter> private_pages s r = {}"
      using wf_mmu_disjoint [OF wf(1) that] by (simp add: private_pages_def)
    have "private_addr ` set (maps_of ?s t) = (if t = p then insert src (private_pages s t) else private_pages s t)"
      if "t \<in> {1..<int MAX_NPROCESS}" for t
      using m that by (auto simp: private_pages_def)
    with old that src(2) show ?thesis by auto
  qed
  with rows wfm dis show ?thesis unfolding wf_mmu_def by simp
qed

section \<open>Properties\<close>

text \<open>
  C1. Switching the soft TLB to a process succeeds, makes it the running one and gives every
  process its own address space back: whatever a process sees at its mapped addresses is
  the same before and after the switch, for the process switched in, the one switched out
  and all the others.
\<close>

theorem switch_preserves_address_spaces:
  assumes "wf_mmu s" "p \<in> {1..<int MAX_NPROCESS}"
  shows "\<exists>s'. soft_tlb_switch p s = Inr s' \<and> wf_mmu s' \<and> curr_vm_pid s' = p \<and>
    (\<forall>q \<in> {1..<int MAX_NPROCESS}. \<forall>a. mapped s q a \<longrightarrow> proc_view s' q a = proc_view s q a)"
proof -
  obtain s' where s': "soft_tlb_switch p s = Inr s'" "wf_mmu s'" "curr_vm_pid s' = p"
    using tlb.switch_ok [OF assms] by auto
  with tlb.switch_view [OF assms s'(1)] show ?thesis by auto
qed

text \<open>
  Two processes with one page each, mapped at the same execution address; process 1 runs.
\<close>

definition two_rows :: "addr \<Rightarrow> page_mapping list list" where
  "two_rows e = (let none = \<lparr>private_addr = 0, exec_addr = 0\<rparr>; row = (\<lambda>pm. pm # replicate 5 none)
     in [row none, row \<lparr>private_addr = 0x80800000, exec_addr = e\<rparr>,
         row \<lparr>private_addr = 0x80801000, exec_addr = e\<rparr>] @ replicate 13 (row none))"

definition two_procs :: mmu where
  "two_procs = \<lparr>bitmap = 3 # replicate 143 0, pmem = (\<lambda>x. if x = 0x80801000 then 42 else 7),
     app_pages = two_rows 0x80400000, curr_vm_pid = 1\<rparr>"

lemma page_pool_first: "0x80800000 \<in> page_pool" "0x80801000 \<in> page_pool"
proof -
  have "page_addr 0 = 0x80800000" "page_addr 1 = 0x80801000"
    by (simp_all add: page_addr_def FREE_MEM_START_def PAGE_SIZE_def)
  then show "0x80800000 \<in> page_pool" "0x80801000 \<in> page_pool"
    unfolding page_pool_def NPAGES_eq by force+
qed

lemma not_page_pool: "unat a < 0x80800000 \<Longrightarrow> a \<notin> page_pool"
  by (auto simp: page_pool_def unat_page_addr)

lemma two_rows_maps:
  assumes "app_pages s = two_rows e"
  shows "maps_of s 1 = [\<lparr>private_addr = 0x80800000, exec_addr = e\<rparr>]"
    "maps_of s 2 = [\<lparr>private_addr = 0x80801000, exec_addr = e\<rparr>]"
    "p \<in> {1..<int MAX_NPROCESS} \<Longrightarrow> p \<noteq> 1 \<Longrightarrow> p \<noteq> 2 \<Longrightarrow> maps_of s p = []"
proof -
  show "maps_of s 1 = [\<lparr>private_addr = 0x80800000, exec_addr = e\<rparr>]"
    "maps_of s 2 = [\<lparr>private_addr = 0x80801000, exec_addr = e\<rparr>]"
    by (simp_all add: maps_of_def assms two_rows_def Let_def)
  assume p: "p \<in> {1..<int MAX_NPROCESS}" "p \<noteq> 1" "p \<noteq> 2"
  then have "nat p = Suc (Suc (Suc (nat (p - 3))))" "nat (p - 3) < 13"
    by (auto simp: MAX_NPROCESS_def)
  then show "maps_of s p = []"
    by (simp add: maps_of_def assms two_rows_def Let_def nth_append)
qed

lemma two_rows_wf:
  assumes "app_pages s = two_rows e" "aligned e" "e \<noteq> 0" "e \<notin> page_pool" "curr_vm_pid s < int MAX_NPROCESS"
  shows "wf_mmu s"
proof -
  have rows: "length (app_pages s) = MAX_NPROCESS" "\<forall>row \<in> set (app_pages s). length row = APPS_NPAGES"
    by (auto simp: assms(1) two_rows_def Let_def MAX_NPROCESS_def APPS_NPAGES_def APPS_SIZE_def PAGE_SIZE_def)
  have m: "maps_of s p =
      (if p = 1 then [\<lparr>private_addr = 0x80800000, exec_addr = e\<rparr>]
       else if p = 2 then [\<lparr>private_addr = 0x80801000, exec_addr = e\<rparr>] else [])"
    if "p \<in> {1..<int MAX_NPROCESS}" for p
    using two_rows_maps(3) [OF assms(1) that] by (simp add: two_rows_maps(1,2) [OF assms(1)])
  show ?thesis
    unfolding wf_mmu_def using rows assms(2-5) by (auto simp: m wf_mapping_def page_pool_first)
qed

lemma two_rows_used:
  assumes "app_pages s = two_rows e" "bitmap s = 3 # replicate 143 0"
  shows "\<forall>q \<in> {1..<int MAX_NPROCESS}. private_pages s q \<subseteq> used_pages s"
proof
  fix q assume q: "q \<in> {1..<int MAX_NPROCESS}"
  have b: "0 \<in> bits_of (bitmap s) NPAGES" "1 \<in> bits_of (bitmap s) NPAGES"
    by (simp_all add: bits_of_def NPAGES_eq bit_test_def bit_mask_def assms(2))
  have "page_addr 0 = 0x80800000" "page_addr 1 = 0x80801000"
    by (simp_all add: page_addr_def FREE_MEM_START_def PAGE_SIZE_def)
  with b have "0x80800000 \<in> used_pages s" "0x80801000 \<in> used_pages s"
    unfolding used_pages_def by force+
  with two_rows_maps [OF assms(1)] q show "private_pages s q \<subseteq> used_pages s"
    by (cases "q = 1"; cases "q = 2") (simp_all add: private_pages_def)
qed

lemma two_procs_rows: "app_pages two_procs = two_rows 0x80400000"
  by (simp add: two_procs_def)

lemmas two_procs_maps = two_rows_maps [OF two_procs_rows]

lemma two_procs_wf: "wf_mmu two_procs"
  by (rule two_rows_wf [OF two_procs_rows])
     (simp_all add: aligned_def not_page_pool, simp add: two_procs_def MAX_NPROCESS_def)

lemma two_procs_mapped: "mapped two_procs 2 0x80400000" "proc_view two_procs 2 0x80400000 = 42"
  by (simp_all add: mapped_def proc_view_def mapping_at_def two_procs_maps in_range_def PAGE_SIZE_def)
     (simp add: two_procs_def)

theorem switch_preserves_address_spaces_witness:
  "\<exists>s'. soft_tlb_switch 2 two_procs = Inr s' \<and> proc_view s' 2 0x80400000 = 42 \<and>
     pmem two_procs 0x80400000 = 7"
proof -
  have p: "2 \<in> {1..<int MAX_NPROCESS}" by (simp add: MAX_NPROCESS_def)
  show ?thesis
    using switch_preserves_address_spaces [OF two_procs_wf p] two_procs_mapped p
    by (auto simp: two_procs_def)
qed

text \<open>
  \<^verbatim>\<open>soft_tlb_free\<close> releases exactly the private pages of the process: its mappings are
  gone, its pages are free again, the mappings of every other process, the memory and the
  well-formedness of the tables are kept.
\<close>

theorem soft_tlb_free_correct:
  assumes "wf_mmu s" "p \<in> {1..<int MAX_NPROCESS}" "alloc_inv s"
  shows "\<exists>s'. soft_tlb_free p s = Inr s' \<and> wf_mmu s' \<and> alloc_inv s' \<and> maps_of s' p = [] \<and>
     (\<forall>q \<in> {1..<int MAX_NPROCESS} - {p}. maps_of s' q = maps_of s q) \<and> pmem s' = pmem s \<and>
     used_pages s' = used_pages s - private_pages s p"
  using soft_tlb_free_ok [OF assms] by blast

theorem soft_tlb_free_correct_witness:
  "\<exists>s'. soft_tlb_free 2 two_procs = Inr s' \<and> maps_of s' 2 = [] \<and>
     maps_of s' 1 = [\<lparr>private_addr = 0x80800000, exec_addr = 0x80400000\<rparr>]"
proof -
  have p: "2 \<in> {1..<int MAX_NPROCESS}" "1 \<in> {1..<int MAX_NPROCESS} - {2}" by (simp_all add: MAX_NPROCESS_def)
  have "alloc_inv two_procs" by (simp add: alloc_inv_def two_procs_def ROUNDUP_def NPAGES_eq)
  from soft_tlb_free_correct [OF two_procs_wf p(1) this] p(2) show ?thesis
    by (auto simp: two_procs_maps)
qed

lemma alloc_and_map:
  assumes "wf_mmu s" "alloc_inv s" "p \<in> {1..<int MAX_NPROCESS}" "length (maps_of s p) < APPS_NPAGES"
    and acc: "\<forall>q \<in> {1..<int MAX_NPROCESS}. private_pages s q \<subseteq> used_pages s"
    and dst: "aligned dst" "dst \<noteq> 0" "dst \<notin> page_pool" "dst \<notin> exec_addr ` set (maps_of s p)"
    and alloc: "mmu_alloc s = Inr (src, s1)"
  shows "\<exists>s2. soft_tlb_map p dst src s1 = Inr s2 \<and> wf_mmu s2 \<and> s2 = s1\<lparr>app_pages := app_pages s2\<rparr> \<and>
    set (maps_of s2 p) = insert \<lparr>private_addr = src, exec_addr = dst\<rparr> (set (maps_of s p)) \<and>
    length (maps_of s2 p) = Suc (length (maps_of s p)) \<and>
    (\<forall>q \<in> {1..<int MAX_NPROCESS}. q \<noteq> p \<longrightarrow> maps_of s2 q = maps_of s q) \<and>
    (\<forall>q \<in> {1..<int MAX_NPROCESS}. private_pages s2 q \<subseteq> used_pages s2)"
proof -
  note ok = pages.alloc_ok [OF assms(2) alloc [unfolded mmu_alloc_def]]
  obtain bm m where s1: "s1 = s\<lparr>bitmap := bm, pmem := m\<rparr>"
    using alloc unfolding mmu_alloc_def by (elim pmalloc_Inr) (auto simp: bitmap_set_def)
  have maps: "maps_of s1 q = maps_of s q" for q by (simp add: s1 maps_of_def)
  have wf1: "wf_mmu s1" using assms(1) by (simp add: s1 wf_mmu_def maps_of_def)
  have src: "src \<in> page_pool" "\<forall>q \<in> {1..<int MAX_NPROCESS}. src \<notin> private_pages s1 q"
    using ok acc unfolding private_pages_def maps by auto
  obtain i where i: "i < APPS_NPAGES" "private_addr (app_pages s1 ! nat p ! i) = 0"
      "\<forall>j < i. private_addr (app_pages s1 ! nat p ! j) \<noteq> 0"
      "soft_tlb_map p dst src s1 = Inr (set_mapping p i \<lparr>private_addr = src, exec_addr = dst\<rparr> s1)"
    using soft_tlb_map_ok [OF wf1 assms(3) _ src dst(1-3)] assms(4) dst(4) unfolding maps by blast
  let ?s2 = "set_mapping p i \<lparr>private_addr = src, exec_addr = dst\<rparr> s1"
  have wf2: "wf_mmu ?s2"
    using set_mapping_wf [OF wf1 assms(3) i(1-3) src dst(1-3)] dst(4) unfolding maps by blast
  obtain xs ys where m: "maps_of s1 p = xs @ ys"
      "maps_of ?s2 p = xs @ \<lparr>private_addr = src, exec_addr = dst\<rparr> # ys"
      "\<And>q. q \<in> {1..<int MAX_NPROCESS} \<Longrightarrow> q \<noteq> p \<Longrightarrow> maps_of ?s2 q = maps_of s1 q"
    using maps_of_set_mapping [OF wf1 assms(3) i(1) _ i(2,3), of "\<lparr>private_addr = src, exec_addr = dst\<rparr>"]
      page_pool_nonzero [OF src(1)] by auto
  have m': "set (maps_of ?s2 p) = insert \<lparr>private_addr = src, exec_addr = dst\<rparr> (set (maps_of s p))"
      "length (maps_of ?s2 p) = Suc (length (maps_of s p))"
    using m(1,2) by (simp_all add: maps [symmetric])
  have "used_pages ?s2 = insert src (used_pages s)"
    using ok by (simp add: used_pages_def set_mapping_def)
  then have "private_pages ?s2 q \<subseteq> used_pages ?s2" if "q \<in> {1..<int MAX_NPROCESS}" for q
    using bspec [OF acc that] bspec [OF acc assms(3)] m'(1) m(3) [OF that] maps
    by (cases "q = p") (auto simp: private_pages_def)
  moreover have "?s2 = s1\<lparr>app_pages := app_pages ?s2\<rparr>" by (simp add: set_mapping_def)
  ultimately show ?thesis using i(4) wf2 m' m(3) maps by (intro exI [of _ ?s2]) simp
qed

text \<open>
  C35. Allocating a page and mapping it into a process that has room for it keeps the tables
  well-formed, provided the page allocator accounts for every page already mapped: the new
  page belongs to no other process.
\<close>

theorem alloc_and_map_wf:
  assumes "wf_mmu s" "alloc_inv s" "p \<in> {1..<int MAX_NPROCESS}" "length (maps_of s p) < APPS_NPAGES"
    and "\<forall>q \<in> {1..<int MAX_NPROCESS}. private_pages s q \<subseteq> used_pages s"
    and "aligned dst" "dst \<noteq> 0" "dst \<notin> page_pool" "dst \<notin> exec_addr ` set (maps_of s p)"
    and "mmu_alloc s = Inr (src, s1)"
  shows "\<exists>s2. soft_tlb_map p dst src s1 = Inr s2 \<and> wf_mmu s2 \<and>
    private_pages s2 p = insert src (private_pages s p) \<and>
    (\<forall>q \<in> {1..<int MAX_NPROCESS}. private_pages s2 q \<subseteq> used_pages s2)"
proof -
  obtain s2 where "soft_tlb_map p dst src s1 = Inr s2" "wf_mmu s2"
      "set (maps_of s2 p) = insert \<lparr>private_addr = src, exec_addr = dst\<rparr> (set (maps_of s p))"
      "\<forall>q \<in> {1..<int MAX_NPROCESS}. private_pages s2 q \<subseteq> used_pages s2"
    using alloc_and_map [OF assms] by blast
  then show ?thesis by (intro exI [of _ s2]) (simp add: private_pages_def)
qed

lemma two_procs_alloc_inv: "alloc_inv two_procs"
  by (simp add: alloc_inv_def two_procs_def ROUNDUP_def NPAGES_eq)

lemma two_procs_used: "\<forall>q \<in> {1..<int MAX_NPROCESS}. private_pages two_procs q \<subseteq> used_pages two_procs"
  by (rule two_rows_used [OF two_procs_rows]) (simp add: two_procs_def)

lemma two_procs_alloc: "\<exists>src s1. mmu_alloc two_procs = Inr (src, s1)"
proof -
  have "bitmap_test 2 two_procs = 0" by (simp add: bitmap_test_def bit_test_def bit_mask_def two_procs_def)
  then have "mmu_alloc two_procs \<noteq> Inl e" for e
    using pmalloc_Inl [of True two_procs e 2] by (auto simp: mmu_alloc_def NPAGES_eq)
  then show ?thesis by (cases "mmu_alloc two_procs") auto
qed

theorem alloc_and_map_wf_witness:
  "\<exists>src s1 s2. mmu_alloc two_procs = Inr (src, s1) \<and> soft_tlb_map 2 0x80401000 src s1 = Inr s2 \<and>
     private_pages s2 2 = {src, 0x80801000}"
proof -
  obtain src s1 where a: "mmu_alloc two_procs = Inr (src, s1)" using two_procs_alloc by blast
  have p: "2 \<in> {1..<int MAX_NPROCESS}" by (simp add: MAX_NPROCESS_def)
  have l: "length (maps_of two_procs 2) < APPS_NPAGES"
    by (simp add: two_procs_maps APPS_NPAGES_def APPS_SIZE_def PAGE_SIZE_def)
  have d: "aligned 0x80401000" "(0x80401000 :: addr) \<noteq> 0" "0x80401000 \<notin> page_pool"
      "0x80401000 \<notin> exec_addr ` set (maps_of two_procs 2)"
    by (simp_all add: aligned_def two_procs_maps not_page_pool)
  show ?thesis
    using alloc_and_map_wf [OF two_procs_wf two_procs_alloc_inv p l two_procs_used d a] a
    by (auto simp: private_pages_def [of two_procs] two_procs_maps)
qed

end
