(* ===== verification/Process_Table.thy ===== *)
theory Process_Table
  imports Soft_TLB
begin

text \<open>
  grass/process.h, grass/process.c and grass/scheduler.c with the default scheduler
  (\<^verbatim>\<open>NAIVE\<close>): the process table \<^verbatim>\<open>proc_set\<close>, allocation and release of process
  slots, and the round-robin \<^verbatim>\<open>proc_yield\<close>. The kernel's globals extend those of the
  MMU. \<^verbatim>\<open>proc_yield\<close> ends in one of two ways: it returns to the trap handler, which
  resumes the chosen process where it was, or it enters a new process at its entry point
  and never returns (the inline \<^verbatim>\<open>mret\<close>).
\<close>

section \<open>Definitions\<close>

datatype proc_status = PROC_UNUSED | PROC_LOADING | PROC_READY | PROC_RUNNING
  | PROC_RUNNABLE | PROC_WAIT_TO_SEND | PROC_WAIT_TO_RECV | PROC_SLEEPING

record process =
  proc_pid :: int
  proc_stat :: proc_status
  from_sender_pid :: int
  to_receiver_pid :: int
  proc_sp :: addr
  proc_mepc :: addr

text \<open>What the kernel does to devices, in order (the latest first).\<close>

datatype kevent = Timer_reset | Msip_clear | Info string

record kernel = mmu +
  proc_set :: "process list"
  proc_curr_idx :: nat
  proc_stack :: "m_uint8 list list"
  klog :: "kevent list"

definition GPID_PROCESS :: int where "GPID_PROCESS = 1"
definition GPID_SHELL :: int where "GPID_SHELL = 5"
definition GPID_USER_START :: int where "GPID_USER_START = 6"

definition pid2idx :: "int \<Rightarrow> nat res" where
  "pid2idx pid = (if pid \<ge> 1 \<and> pid \<le> int MAX_NPROCESS then Inr (nat (pid - 1))
                  else Inl (Fatal ''pid2idx: invalid pid''))"

definition idx2pid :: "nat \<Rightarrow> int res" where
  "idx2pid i = (if i < MAX_NPROCESS then Inr (int i + 1) else Inl (Fatal ''idx2pid: invalid idx''))"

abbreviation curr_proc :: "'a kernel_scheme \<Rightarrow> process" where
  "curr_proc s \<equiv> proc_set s ! proc_curr_idx s"

abbreviation curr_pid :: "'a kernel_scheme \<Rightarrow> int" where
  "curr_pid s \<equiv> proc_pid (curr_proc s)"

abbreviation curr_status :: "'a kernel_scheme \<Rightarrow> proc_status" where
  "curr_status s \<equiv> proc_stat (curr_proc s)"

definition upd_proc :: "nat \<Rightarrow> (process \<Rightarrow> process) \<Rightarrow> 'a kernel_scheme \<Rightarrow> 'a kernel_scheme" where
  "upd_proc i f s = s\<lparr>proc_set := (proc_set s)[i := f (proc_set s ! i)]\<rparr>"

definition log_event :: "kevent \<Rightarrow> 'a kernel_scheme \<Rightarrow> 'a kernel_scheme" where
  "log_event e s = s\<lparr>klog := e # klog s\<rparr>"

definition proc_set_status :: "int \<Rightarrow> proc_status \<Rightarrow> 'a kernel_scheme \<Rightarrow> 'a kernel_scheme res" where
  "proc_set_status pid st s =
     rbind (pid2idx pid) (\<lambda>i.
     rbind (rassert (pid = proc_pid (proc_set s ! i)) '''') (\<lambda>_.
     Inr (upd_proc i (\<lambda>p. p\<lparr>proc_stat := st\<rparr>) s)))"

definition proc_set_ready :: "int \<Rightarrow> 'a kernel_scheme \<Rightarrow> 'a kernel_scheme res" where
  "proc_set_ready pid s = proc_set_status pid PROC_READY s"

definition proc_set_running :: "int \<Rightarrow> 'a kernel_scheme \<Rightarrow> 'a kernel_scheme res" where
  "proc_set_running pid s = proc_set_status pid PROC_RUNNING s"

definition proc_set_runnable :: "int \<Rightarrow> 'a kernel_scheme \<Rightarrow> 'a kernel_scheme res" where
  "proc_set_runnable pid s = proc_set_status pid PROC_RUNNABLE s"

text \<open>The scheduler hooks: without \<^verbatim>\<open>MLFQ\<close> they assert and log, and keep no state.\<close>

definition proc_on_arrive :: "int \<Rightarrow> 'a kernel_scheme \<Rightarrow> 'a kernel_scheme res" where
  "proc_on_arrive pid s = Inr s"

definition proc_on_stop :: "int \<Rightarrow> 'a kernel_scheme \<Rightarrow> 'a kernel_scheme res" where
  "proc_on_stop pid s =
     rbind (pid2idx pid) (\<lambda>i.
     rbind (rassert (proc_stat (proc_set s ! i) = PROC_UNUSED) '''') (\<lambda>_.
     Inr (log_event (Info ''proc finished'') s)))"

definition proc_on_sleep :: "int \<Rightarrow> int \<Rightarrow> 'a kernel_scheme \<Rightarrow> 'a kernel_scheme res" where
  "proc_on_sleep pid time_units s =
     rbind (pid2idx pid) (\<lambda>i.
     rbind (rassert (proc_stat (proc_set s ! i) \<noteq> PROC_SLEEPING) '''') (\<lambda>_. Inr s))"

definition proc_sleep :: "int \<Rightarrow> int \<Rightarrow> 'a kernel_scheme \<Rightarrow> 'a kernel_scheme res" where
  "proc_sleep pid time_units s = proc_on_sleep pid time_units s"

definition proc_alloc :: "'a kernel_scheme \<Rightarrow> (int \<times> 'a kernel_scheme) res" where
  "proc_alloc s =
     (case scan_from (\<lambda>i. proc_stat (proc_set s ! i) = PROC_UNUSED) 0 MAX_NPROCESS of
        None \<Rightarrow> Inl (Fatal ''proc_alloc: reach the limit of processes'')
      | Some i \<Rightarrow>
          rbind (idx2pid i) (\<lambda>pid.
          let s = upd_proc i (\<lambda>p. p\<lparr>proc_pid := pid, proc_stat := PROC_LOADING\<rparr>) s
          in rbind (proc_on_arrive pid s) (\<lambda>s. Inr (pid, s))))"

definition proc_free :: "int \<Rightarrow> 'a kernel_scheme \<Rightarrow> 'a kernel_scheme res" where
  "proc_free pid s =
     (if pid \<noteq> -1 then
        rbind (soft_tlb_free pid s) (\<lambda>s.
        rbind (proc_set_status pid PROC_UNUSED s) (proc_on_stop pid))
      else
        rfor (\<lambda>i s.
            let p = proc_set s ! i
            in if proc_pid p \<ge> GPID_USER_START \<and> proc_stat p \<noteq> PROC_UNUSED
               then rbind (soft_tlb_free (proc_pid p) s) (\<lambda>s.
                    proc_on_stop (proc_pid p) (upd_proc i (\<lambda>p. p\<lparr>proc_stat := PROC_UNUSED\<rparr>) s))
               else Inr s)
          [0..<MAX_NPROCESS] s)"

datatype yield_outcome = Resume | Enter_app

definition runnable :: "proc_status \<Rightarrow> bool" where
  "runnable st \<longleftrightarrow> st = PROC_READY \<or> st = PROC_RUNNING \<or> st = PROC_RUNNABLE"

definition next_runnable :: "'a kernel_scheme \<Rightarrow> nat option" where
  "next_runnable s =
     map_option (\<lambda>i. (proc_curr_idx s + i) mod MAX_NPROCESS)
       (scan_from (\<lambda>i. runnable (proc_stat (proc_set s ! ((proc_curr_idx s + i) mod MAX_NPROCESS))))
          1 (MAX_NPROCESS + 1))"

definition proc_yield :: "'a kernel_scheme \<Rightarrow> (yield_outcome \<times> 'a kernel_scheme) res" where
  "proc_yield s =
     (case next_runnable s of
        None \<Rightarrow> Inl (Fatal ''proc_yield: no runnable process'')
      | Some next_idx \<Rightarrow>
          rbind (if curr_status s = PROC_RUNNING then proc_set_runnable (curr_pid s) s else Inr s) (\<lambda>s.
          let s = s\<lparr>proc_curr_idx := next_idx\<rparr>
          in rbind (rassert (curr_pid s > 0 \<and> curr_pid s \<le> int MAX_NPROCESS)
                      ''proc_yield: invalid pid to switch'') (\<lambda>_.
             rbind (soft_tlb_switch (curr_pid s) s) (\<lambda>s.
             let s = log_event Timer_reset s
             in if curr_status s = PROC_READY
                then rbind (proc_set_running (curr_pid s) s) (\<lambda>s. Inr (Enter_app, s))
                else rbind (proc_set_running (curr_pid s) s) (\<lambda>s. Inr (Resume, s))))))"

section \<open>The process table invariant\<close>

text \<open>
  A used slot \<open>i\<close> holds the process with pid \<open>i + 1\<close>. The last slot is never used: its
  pid, 16, would index \<^verbatim>\<open>app_pages\<close> and \<^verbatim>\<open>proc_stack\<close> past their ends.
\<close>

definition wf_procs :: "'a kernel_scheme \<Rightarrow> bool" where
  "wf_procs s \<longleftrightarrow> length (proc_set s) = MAX_NPROCESS \<and> proc_curr_idx s < MAX_NPROCESS \<and>
     (\<forall>i < MAX_NPROCESS. proc_stat (proc_set s ! i) \<noteq> PROC_UNUSED \<longrightarrow>
        proc_pid (proc_set s ! i) = int i + 1 \<and> i < MAX_NPROCESS - 1)"

definition pages_accounted :: "'a mmu_scheme \<Rightarrow> bool" where
  "pages_accounted s \<longleftrightarrow> (\<forall>q \<in> {1..<int MAX_NPROCESS}. private_pages s q \<subseteq> used_pages s)"

definition wf_kernel :: "'a kernel_scheme \<Rightarrow> bool" where
  "wf_kernel s \<longleftrightarrow> wf_procs s \<and> wf_mmu s \<and> alloc_inv s \<and> pages_accounted s"

lemma wf_procsD:
  assumes "wf_procs s"
  shows "length (proc_set s) = 16" "proc_curr_idx s < 16"
    "i < 16 \<Longrightarrow> proc_stat (proc_set s ! i) \<noteq> PROC_UNUSED \<Longrightarrow> proc_pid (proc_set s ! i) = int i + 1"
    "i < 16 \<Longrightarrow> proc_stat (proc_set s ! i) \<noteq> PROC_UNUSED \<Longrightarrow> i < 15"
  using assms by (auto simp: wf_procs_def MAX_NPROCESS_def)

lemma wf_kernelD:
  assumes "wf_kernel s"
  shows "wf_procs s" "wf_mmu s" "alloc_inv s" "pages_accounted s"
  using assms by (auto simp: wf_kernel_def)

lemma pid2idx_pid: "i < 16 \<Longrightarrow> pid2idx (int i + 1) = Inr i"
  by (simp add: pid2idx_def MAX_NPROCESS_def)

lemma proc_set_status_ok:
  "i < 16 \<Longrightarrow> proc_pid (proc_set s ! i) = int i + 1 \<Longrightarrow>
   proc_set_status (int i + 1) st s = Inr (upd_proc i (\<lambda>p. p\<lparr>proc_stat := st\<rparr>) s)"
  by (simp add: proc_set_status_def pid2idx_pid)

text \<open>Switching address spaces leaves everything else of the kernel alone.\<close>

lemma switch_frame:
  assumes "wf_mmu s" "p \<in> {1..<int MAX_NPROCESS}"
  obtains m where "soft_tlb_switch p s = Inr (s\<lparr>pmem := m, curr_vm_pid := p\<rparr>)"
proof (cases "p = curr_vm_pid s")
  case True
  then have "soft_tlb_switch p s = Inr (s\<lparr>pmem := pmem s, curr_vm_pid := p\<rparr>)"
    by (simp add: soft_tlb_switch_def)
  then show ?thesis by (rule that)
next
  case False
  from soft_tlb_switch_eq [OF assms False] show ?thesis by (rule that)
qed

lemma mmu_frame [simp]:
  "wf_mmu (s\<lparr>proc_set := ps\<rparr>) = wf_mmu s" "wf_mmu (s\<lparr>proc_curr_idx := n\<rparr>) = wf_mmu s"
  "wf_mmu (s\<lparr>klog := l\<rparr>) = wf_mmu s" "wf_mmu (s\<lparr>proc_stack := st\<rparr>) = wf_mmu s"
  "maps_of (s\<lparr>proc_set := ps\<rparr>) = maps_of s" "maps_of (s\<lparr>proc_curr_idx := n\<rparr>) = maps_of s"
  "maps_of (s\<lparr>klog := l\<rparr>) = maps_of s" "maps_of (s\<lparr>proc_stack := st\<rparr>) = maps_of s"
  by (simp_all add: wf_mmu_def maps_of_def fun_eq_iff)

lemma switch_commutes:
  assumes "wf_mmu s" "p \<in> {1..<int MAX_NPROCESS}"
    and sw: "soft_tlb_switch p s = Inr (s\<lparr>pmem := m, curr_vm_pid := p\<rparr>)"
  shows "soft_tlb_switch p (s\<lparr>proc_set := ps, proc_curr_idx := n\<rparr>)
      = Inr (s\<lparr>proc_set := ps, proc_curr_idx := n, pmem := m, curr_vm_pid := p\<rparr>)"
proof (cases "p = curr_vm_pid s")
  case True
  with sw have "s = s\<lparr>pmem := m, curr_vm_pid := p\<rparr>" by (simp add: soft_tlb_switch_def)
  then have "pmem s = m" by (metis (no_types) mmu.select_convs phys.select_convs(2) phys.surjective
        phys.update_convs(2) mmu.surjective mmu.update_convs(2))
  with True show ?thesis by (simp add: soft_tlb_switch_def)
next
  case False
  let ?s = "s\<lparr>proc_set := ps, proc_curr_idx := n\<rparr>"
  have "pmem (s\<lparr>pmem := m, curr_vm_pid := p\<rparr>) =
      pmem (s\<lparr>pmem := copy_pages (map (copy_dir True) (maps_of s p)) (saved_mem s), curr_vm_pid := p\<rparr>)"
    using sw soft_tlb_switch_eq [OF assms(1,2) False] by simp
  then have m: "m = copy_pages (map (copy_dir True) (maps_of s p)) (saved_mem s)" by simp
  have "saved_mem ?s = saved_mem s" by (simp add: saved_mem_def)
  with soft_tlb_switch_eq [of ?s p] assms(1,2) False m show ?thesis by simp
qed

lemma next_runnable_Some:
  assumes "next_runnable s = Some n"
  shows "n < 16" "runnable (proc_stat (proc_set s ! n))"
  using assms by (auto simp: next_runnable_def scan_from_Some_iff MAX_NPROCESS_def)

text \<open>The specification of the choice: of the slots after the current one, in ring order, the first that can run.\<close>

lemma next_runnable_eq:
  assumes "1 \<le> k" "k \<le> 16" "n = (proc_curr_idx s + k) mod 16" "runnable (proc_stat (proc_set s ! n))"
    "\<forall>j. 1 \<le> j \<and> j < k \<longrightarrow> \<not> runnable (proc_stat (proc_set s ! ((proc_curr_idx s + j) mod 16)))"
  shows "next_runnable s = Some n"
proof -
  have "scan_from (\<lambda>i. runnable (proc_stat (proc_set s ! ((proc_curr_idx s + i) mod 16)))) 1 17 = Some k"
    unfolding scan_from_Some_iff using assms by auto
  then show ?thesis using assms(3) by (simp add: next_runnable_def MAX_NPROCESS_def)
qed

lemma next_runnable_None_iff:
  assumes "proc_curr_idx s < 16"
  shows "next_runnable s = None \<longleftrightarrow> (\<forall>i < 16. \<not> runnable (proc_stat (proc_set s ! i)))"
proof
  assume none: "next_runnable s = None"
  show "\<forall>i < 16. \<not> runnable (proc_stat (proc_set s ! i))"
  proof (intro allI impI)
    fix i :: nat assume "i < 16"
    define d where "d = (if proc_curr_idx s < i then i - proc_curr_idx s else i + 16 - proc_curr_idx s)"
    have "1 \<le> d" "d < 17" "(proc_curr_idx s + d) mod 16 = i"
      using assms \<open>i < 16\<close> by (auto simp: d_def)
    with none show "\<not> runnable (proc_stat (proc_set s ! i))"
      by (auto simp: next_runnable_def scan_from_None_iff MAX_NPROCESS_def)
  qed
next
  assume "\<forall>i < 16. \<not> runnable (proc_stat (proc_set s ! i))"
  then show "next_runnable s = None"
    by (auto simp: next_runnable_def scan_from_None_iff MAX_NPROCESS_def)
qed

definition demote :: "proc_status \<Rightarrow> proc_status" where
  "demote st = (if st = PROC_RUNNING then PROC_RUNNABLE else st)"

text \<open>The table after a yield: the process that ran becomes runnable, the chosen one runs.\<close>

definition yielded :: "'a kernel_scheme \<Rightarrow> nat \<Rightarrow> process list" where
  "yielded s n =
     (let ps = (proc_set s)[proc_curr_idx s := (curr_proc s)\<lparr>proc_stat := demote (curr_status s)\<rparr>]
      in ps[n := (ps ! n)\<lparr>proc_stat := PROC_RUNNING\<rparr>])"

lemma proc_yield_eq:
  assumes wf: "wf_kernel s" and n: "next_runnable s = Some n"
  obtains m where "proc_yield s = Inr
     (if proc_stat (proc_set s ! n) = PROC_READY then Enter_app else Resume,
      s\<lparr>pmem := m, curr_vm_pid := int n + 1, proc_set := yielded s n, proc_curr_idx := n,
        klog := Timer_reset # klog s\<rparr>)"
    "soft_tlb_switch (int n + 1) s = Inr (s\<lparr>pmem := m, curr_vm_pid := int n + 1\<rparr>)"
proof -
  note ps = wf_procsD [OF wf_kernelD(1) [OF wf]]
  let ?c = "proc_curr_idx s"
  have n16: "n < 16" and run: "runnable (proc_stat (proc_set s ! n))" using next_runnable_Some [OF n] .
  then have used: "proc_stat (proc_set s ! n) \<noteq> PROC_UNUSED" by (auto simp: runnable_def)
  have pidn: "proc_pid (proc_set s ! n) = int n + 1" and n15: "n < 15"
    using ps(3,4) [OF n16 used] by auto
  define ps1 where "ps1 = (proc_set s)[?c := (curr_proc s)\<lparr>proc_stat := demote (curr_status s)\<rparr>]"
  have demoted: "(if curr_status s = PROC_RUNNING then proc_set_runnable (curr_pid s) s else Inr s)
      = Inr (s\<lparr>proc_set := ps1\<rparr>)"
    using ps(3) [OF ps(2)] ps(2)
    by (auto simp: proc_set_runnable_def proc_set_status_ok upd_proc_def ps1_def demote_def)
  have ps1n: "proc_pid (ps1 ! n) = int n + 1" "length ps1 = 16"
    "proc_stat (ps1 ! n) = PROC_READY \<longleftrightarrow> proc_stat (proc_set s ! n) = PROC_READY"
    using pidn ps(1,2) n16 by (auto simp: ps1_def nth_list_update demote_def)
  have range: "int n + 1 \<in> {1..<int MAX_NPROCESS}" using n15 by (simp add: MAX_NPROCESS_def)
  obtain m where m: "soft_tlb_switch (int n + 1) s = Inr (s\<lparr>pmem := m, curr_vm_pid := int n + 1\<rparr>)"
    by (rule switch_frame [OF wf_kernelD(2) [OF wf] range])
  have sw: "soft_tlb_switch (int n + 1) (s\<lparr>proc_set := ps1, proc_curr_idx := n\<rparr>)
      = Inr (s\<lparr>proc_set := ps1, proc_curr_idx := n, pmem := m, curr_vm_pid := int n + 1\<rparr>)"
    by (rule switch_commutes [OF wf_kernelD(2) [OF wf] range m])
  have "proc_yield s = Inr
     (if proc_stat (proc_set s ! n) = PROC_READY then Enter_app else Resume,
      s\<lparr>pmem := m, curr_vm_pid := int n + 1, proc_set := yielded s n, proc_curr_idx := n,
        klog := Timer_reset # klog s\<rparr>)"
    using n15
    by (simp add: proc_yield_def n demoted ps1n sw log_event_def proc_set_running_def proc_set_status_ok
        upd_proc_def yielded_def ps1_def [symmetric] MAX_NPROCESS_def)
  then show ?thesis using m by (rule that)
qed

lemma yielded_nth:
  assumes "wf_procs s" "n < 16" "i < 16"
  shows "proc_stat (yielded s n ! i) =
      (if i = n then PROC_RUNNING else if i = proc_curr_idx s then demote (curr_status s)
       else proc_stat (proc_set s ! i))"
    "proc_pid (yielded s n ! i) = proc_pid (proc_set s ! i)"
    "length (yielded s n) = 16"
  using assms wf_procsD(1,2) [OF assms(1)]
  by (auto simp: yielded_def Let_def nth_list_update)

lemma demote_UNUSED [simp]: "demote st = PROC_UNUSED \<longleftrightarrow> st = PROC_UNUSED"
  by (auto simp: demote_def)

lemma runnable_demote [simp]: "runnable (demote st) \<longleftrightarrow> runnable st"
  by (auto simp: demote_def runnable_def)

lemma proc_yield_wf:
  assumes wf: "wf_kernel s" and y: "proc_yield s = Inr (out, s')"
  obtains n where "next_runnable s = Some n" "proc_curr_idx s' = n" "proc_set s' = yielded s n"
    "curr_vm_pid s' = int n + 1" "wf_kernel s'"
    "soft_tlb_switch (int n + 1) s = Inr (s\<lparr>pmem := pmem s', curr_vm_pid := int n + 1\<rparr>)"
    "app_pages s' = app_pages s"
    "out = (if proc_stat (proc_set s ! n) = PROC_READY then Enter_app else Resume)"
    "klog s' = Timer_reset # klog s"
proof -
  obtain n where n: "next_runnable s = Some n"
    using y by (auto simp: proc_yield_def split: option.splits)
  obtain m where m: "proc_yield s = Inr
     (if proc_stat (proc_set s ! n) = PROC_READY then Enter_app else Resume,
      s\<lparr>pmem := m, curr_vm_pid := int n + 1, proc_set := yielded s n, proc_curr_idx := n,
        klog := Timer_reset # klog s\<rparr>)"
    "soft_tlb_switch (int n + 1) s = Inr (s\<lparr>pmem := m, curr_vm_pid := int n + 1\<rparr>)"
    by (rule proc_yield_eq [OF wf n])
  note s' = m(1) [unfolded y, simplified]
  have n16: "n < 16" and run: "runnable (proc_stat (proc_set s ! n))" using next_runnable_Some [OF n] .
  then have used: "proc_stat (proc_set s ! n) \<noteq> PROC_UNUSED" by (auto simp: runnable_def)
  note ps = wf_procsD [OF wf_kernelD(1) [OF wf]]
  have n15: "n < 15" using ps(4) [OF n16 used] .
  have "wf_procs s'"
    using wf_kernelD(1) [OF wf] n16 used n15 ps
    by (auto simp: s' wf_procs_def MAX_NPROCESS_def yielded_nth [OF wf_kernelD(1) [OF wf] n16])
  moreover have "wf_mmu s'"
    using wf_mmu_curr [of s "int n + 1"] wf_kernelD(2) [OF wf] n15
    by (simp add: s' MAX_NPROCESS_def wf_mmu_def maps_of_def)
  moreover have "alloc_inv s'" "pages_accounted s'" using wf_kernelD(3,4) [OF wf]
    by (simp_all add: s' alloc_inv_def pages_accounted_def private_pages_def used_pages_def maps_of_def)
  ultimately have "wf_kernel s'" by (simp add: wf_kernel_def)
  then show ?thesis using n m(2) by (intro that [of n]) (simp_all add: s')
qed

section \<open>Fairness of the round robin\<close>

definition ring_dist :: "nat \<Rightarrow> nat \<Rightarrow> nat" where
  "ring_dist c j = (if c < j then j - c else j + 16 - c)"

lemma next_runnable_dist:
  assumes "proc_curr_idx s < 16" "j < 16" "runnable (proc_stat (proc_set s ! j))" "next_runnable s = Some n"
  shows "n = j \<or> ring_dist n j < ring_dist (proc_curr_idx s) j"
proof -
  let ?c = "proc_curr_idx s"
  obtain k where k: "1 \<le> k" "k < 17" "n = (?c + k) mod 16"
    "\<forall>i. 1 \<le> i \<and> i < k \<longrightarrow> \<not> runnable (proc_stat (proc_set s ! ((?c + i) mod 16)))"
    using assms(4) by (auto simp: next_runnable_def scan_from_Some_iff MAX_NPROCESS_def)
  have d: "1 \<le> ring_dist ?c j" "(?c + ring_dist ?c j) mod 16 = j"
    using assms(1,2) by (auto simp: ring_dist_def)
  then have "k \<le> ring_dist ?c j" using k(4) assms(3) by (metis not_le)
  then show ?thesis
    using k(1,2,3) assms(1,2) by (auto simp: ring_dist_def mod_if split: if_splits)
qed

fun yields :: "nat \<Rightarrow> 'a kernel_scheme \<Rightarrow> 'a kernel_scheme res" where
  "yields 0 s = Inr s"
| "yields (Suc n) s = rbind (proc_yield s) (\<lambda>(out, s'). yields n s')"

lemma yields_reach:
  assumes "wf_kernel s" "j < 16" "runnable (proc_stat (proc_set s ! j))"
  shows "\<exists>n s'. 1 \<le> n \<and> n \<le> ring_dist (proc_curr_idx s) j \<and> yields n s = Inr s' \<and> wf_kernel s' \<and>
    proc_curr_idx s' = j \<and> proc_stat (proc_set s' ! j) = PROC_RUNNING"
  using assms
proof (induction "ring_dist (proc_curr_idx s) j" arbitrary: s rule: less_induct)
  case less
  note wfp = wf_kernelD(1) [OF less.prems(1)]
  have c16: "proc_curr_idx s < 16" using wf_procsD(2) [OF wfp] .
  have "next_runnable s \<noteq> None" using next_runnable_None_iff [OF c16] less.prems(2,3) by blast
  then obtain k where k: "next_runnable s = Some k" by auto
  then obtain out s1 where y: "proc_yield s = Inr (out, s1)"
    using proc_yield_eq [OF less.prems(1) k] by blast
  then have s1: "proc_curr_idx s1 = k" "proc_set s1 = yielded s k" "wf_kernel s1"
    using proc_yield_wf [OF less.prems(1) y] k by auto
  have k16: "k < 16" using next_runnable_Some(1) [OF k] .
  have d1: "1 \<le> ring_dist (proc_curr_idx s) j" using c16 less.prems(2) by (auto simp: ring_dist_def)
  show ?case
  proof (cases "k = j")
    case True
    then show ?thesis
      using y s1 d1 yielded_nth(1) [OF wfp k16 k16] by (intro exI [of _ 1] exI [of _ s1]) simp
  next
    case False
    then have lt: "ring_dist (proc_curr_idx s1) j < ring_dist (proc_curr_idx s) j"
      using next_runnable_dist [OF c16 less.prems(2,3) k] s1(1) by simp
    have "runnable (proc_stat (proc_set s1 ! j))"
      using less.prems(3) False yielded_nth(1) [OF wfp k16 less.prems(2)]
      by (cases "j = proc_curr_idx s") (simp_all add: s1(2))
    from less.hyps [OF lt s1(3) less.prems(2) this] obtain n s' where
      "1 \<le> n" "n \<le> ring_dist (proc_curr_idx s1) j" "yields n s1 = Inr s'" "wf_kernel s'"
      "proc_curr_idx s' = j" "proc_stat (proc_set s' ! j) = PROC_RUNNING" by blast
    with y lt show ?thesis by (intro exI [of _ "Suc n"] exI [of _ s']) simp
  qed
qed

section \<open>Allocating and freeing processes\<close>

lemma upd_proc_frame [simp]:
  "wf_mmu (upd_proc i f s) = wf_mmu s" "alloc_inv (upd_proc i f s) = alloc_inv s"
  "pages_accounted (upd_proc i f s) = pages_accounted s"
  "maps_of (upd_proc i f s) = maps_of s" "pmem (upd_proc i f s) = pmem s"
  "curr_vm_pid (upd_proc i f s) = curr_vm_pid s" "proc_curr_idx (upd_proc i f s) = proc_curr_idx s"
  "app_pages (upd_proc i f s) = app_pages s" "proc_stack (upd_proc i f s) = proc_stack s"
  by (simp_all add: upd_proc_def alloc_inv_def pages_accounted_def private_pages_def used_pages_def maps_of_def)

lemma log_event_frame [simp]:
  "wf_mmu (log_event e s) = wf_mmu s" "alloc_inv (log_event e s) = alloc_inv s"
  "pages_accounted (log_event e s) = pages_accounted s" "wf_procs (log_event e s) = wf_procs s"
  "maps_of (log_event e s) = maps_of s" "pmem (log_event e s) = pmem s"
  "proc_set (log_event e s) = proc_set s"
  by (simp_all add: log_event_def alloc_inv_def pages_accounted_def private_pages_def used_pages_def
      maps_of_def wf_procs_def)

lemma upd_proc_nth:
  "i < length (proc_set s) \<Longrightarrow>
   proc_set (upd_proc i f s) ! j = (if j = i then f (proc_set s ! i) else proc_set s ! j)"
  by (auto simp: upd_proc_def nth_list_update)

lemma length_upd_proc [simp]: "length (proc_set (upd_proc i f s)) = length (proc_set s)"
  by (simp add: upd_proc_def)

lemma proc_alloc_Some:
  assumes "i < 16" "proc_stat (proc_set s ! i) = PROC_UNUSED"
    "\<forall>j < i. proc_stat (proc_set s ! j) \<noteq> PROC_UNUSED"
  shows "proc_alloc s = Inr (int i + 1,
    upd_proc i (\<lambda>p. p\<lparr>proc_pid := int i + 1, proc_stat := PROC_LOADING\<rparr>) s)"
proof -
  have "scan_from (\<lambda>i. proc_stat (proc_set s ! i) = PROC_UNUSED) 0 MAX_NPROCESS = Some i"
    using assms by (simp add: scan_from_Some_iff MAX_NPROCESS_def)
  with assms(1) show ?thesis
    by (simp add: proc_alloc_def idx2pid_def MAX_NPROCESS_def proc_on_arrive_def Let_def)
qed

lemma wf_procs_upd:
  assumes "wf_procs s" "i < 15" "proc_pid (f (proc_set s ! i)) = int i + 1 \<or>
    proc_stat (f (proc_set s ! i)) = PROC_UNUSED"
  shows "wf_procs (upd_proc i f s)"
  using assms by (auto simp: wf_procs_def upd_proc_nth MAX_NPROCESS_def)

text \<open>
  Process allocation takes the first unused slot, gives the process the pid of that slot
  in state \<^verbatim>\<open>PROC_LOADING\<close> and touches no other process, keeping the kernel well-formed, as
  long as one of the first 15 slots is unused; with all 16 slots in use it is fatal.
\<close>

theorem proc_alloc_correct:
  assumes "wf_kernel s"
  shows "(\<forall>i < MAX_NPROCESS - 1. proc_stat (proc_set s ! i) = PROC_UNUSED \<and>
       (\<forall>j < i. proc_stat (proc_set s ! j) \<noteq> PROC_UNUSED) \<longrightarrow>
       (\<exists>s'. proc_alloc s = Inr (int i + 1, s') \<and> wf_kernel s' \<and>
          proc_stat (proc_set s' ! i) = PROC_LOADING \<and> proc_pid (proc_set s' ! i) = int i + 1 \<and>
          (\<forall>j. j \<noteq> i \<longrightarrow> proc_set s' ! j = proc_set s ! j))) \<and>
    ((\<forall>i < MAX_NPROCESS. proc_stat (proc_set s ! i) \<noteq> PROC_UNUSED) \<longrightarrow>
       proc_alloc s = Inl (Fatal ''proc_alloc: reach the limit of processes''))"
proof (intro conjI allI impI)
  fix i assume "i < MAX_NPROCESS - 1"
    and u: "proc_stat (proc_set s ! i) = PROC_UNUSED \<and> (\<forall>j < i. proc_stat (proc_set s ! j) \<noteq> PROC_UNUSED)"
  then have i: "i < 15" by (simp add: MAX_NPROCESS_def)
  let ?s = "upd_proc i (\<lambda>p. p\<lparr>proc_pid := int i + 1, proc_stat := PROC_LOADING\<rparr>) s"
  have "wf_kernel ?s"
    using assms wf_procs_upd [OF wf_kernelD(1) [OF assms] i] by (simp add: wf_kernel_def)
  then show "\<exists>s'. proc_alloc s = Inr (int i + 1, s') \<and> wf_kernel s' \<and>
          proc_stat (proc_set s' ! i) = PROC_LOADING \<and> proc_pid (proc_set s' ! i) = int i + 1 \<and>
          (\<forall>j. j \<noteq> i \<longrightarrow> proc_set s' ! j = proc_set s ! j)"
    using proc_alloc_Some [of i s] u i wf_procsD(1) [OF wf_kernelD(1) [OF assms]]
    by (intro exI [of _ ?s]) (simp add: upd_proc_nth)
next
  assume "\<forall>i < MAX_NPROCESS. proc_stat (proc_set s ! i) \<noteq> PROC_UNUSED"
  then have "scan_from (\<lambda>i. proc_stat (proc_set s ! i) = PROC_UNUSED) 0 MAX_NPROCESS = None"
    by (simp add: scan_from_None_iff)
  then show "proc_alloc s = Inl (Fatal ''proc_alloc: reach the limit of processes'')"
    by (simp add: proc_alloc_def)
qed

text \<open>One iteration of the loop of \<^verbatim>\<open>proc_free(-1)\<close>, on a user process.\<close>

lemma soft_tlb_free_frame:
  assumes "soft_tlb_free p s = Inr s'"
  shows "proc_set s' = proc_set s" "proc_curr_idx s' = proc_curr_idx s" "curr_vm_pid s' = curr_vm_pid s"
    "proc_stack s' = proc_stack s"
proof -
  let ?P = "\<lambda>i t. proc_set t = proc_set s \<and> proc_curr_idx t = proc_curr_idx s \<and>
    curr_vm_pid t = curr_vm_pid s \<and> proc_stack t = proc_stack s"
  have "?P () s'"
    using assms unfolding soft_tlb_free_def rbind_Inr_iff
  proof (elim exE conjE)
    assume "rfor (\<lambda>i s. rbind (app_row p s) (\<lambda>pages.
             if private_addr (pages ! i) \<noteq> 0
             then rbind (pfree (private_addr (pages ! i)) s)
                    (\<lambda>s. Inr (set_mapping p i \<lparr>private_addr = 0, exec_addr = 0\<rparr> s))
             else Inr s)) [0..<APPS_NPAGES] s = Inr s'"
    then show ?thesis
      by (rule rfor_inv [where P = "?P ()"])
         (auto simp: res_simps pfree_def bitmap_clear_def set_mapping_def split: if_splits)
  qed
  then show "proc_set s' = proc_set s" "proc_curr_idx s' = proc_curr_idx s" "curr_vm_pid s' = curr_vm_pid s"
    "proc_stack s' = proc_stack s" by auto
qed

lemma soft_tlb_free_accounted:
  assumes "wf_mmu s" "alloc_inv s" "pages_accounted s" "p \<in> {1..<int MAX_NPROCESS}"
  obtains s' where "soft_tlb_free p s = Inr s'" "wf_mmu s'" "alloc_inv s'" "pages_accounted s'"
    "maps_of s' p = []" "\<And>q. q \<in> {1..<int MAX_NPROCESS} \<Longrightarrow> q \<noteq> p \<Longrightarrow> maps_of s' q = maps_of s q"
    "pmem s' = pmem s" "used_pages s' = used_pages s - private_pages s p"
proof -
  obtain s' where s': "soft_tlb_free p s = Inr s'" "wf_mmu s'" "alloc_inv s'" "maps_of s' p = []"
    "\<And>q. q \<in> {1..<int MAX_NPROCESS} \<Longrightarrow> q \<noteq> p \<Longrightarrow> maps_of s' q = maps_of s q" "pmem s' = pmem s"
    and used: "used_pages s' = used_pages s - private_pages s p"
    using soft_tlb_free_ok [OF assms(1,4,2)] by blast
  have "private_pages s' q \<subseteq> used_pages s'" if q: "q \<in> {1..<int MAX_NPROCESS}" for q
  proof (cases "q = p")
    case False
    with wf_mmu_disjoint [OF assms(1) q assms(4)] have "private_pages s q \<inter> private_pages s p = {}"
      by (simp add: private_pages_def)
    moreover have "private_pages s q \<subseteq> used_pages s"
      using assms(3) q unfolding pages_accounted_def by (rule bspec)
    ultimately show ?thesis using s'(5) [OF q False] used by (auto simp: private_pages_def)
  qed (simp add: private_pages_def s'(4))
  then have "pages_accounted s'" by (simp add: pages_accounted_def)
  with s' used show ?thesis by (intro that [of s']) simp_all
qed

lemma kill_slot:
  assumes wf: "wf_kernel s" and i: "i < 16" "proc_stat (proc_set s ! i) \<noteq> PROC_UNUSED"
  obtains s' where
    "rbind (soft_tlb_free (proc_pid (proc_set s ! i)) s) (\<lambda>t. proc_on_stop (proc_pid (proc_set s ! i))
       (upd_proc i (\<lambda>p. p\<lparr>proc_stat := PROC_UNUSED\<rparr>) t)) = Inr s'"
    "wf_kernel s'" "proc_set s' = (proc_set s)[i := (proc_set s ! i)\<lparr>proc_stat := PROC_UNUSED\<rparr>]"
    "maps_of s' (int i + 1) = []" "pmem s' = pmem s"
    "\<And>q. q \<in> {1..<int MAX_NPROCESS} \<Longrightarrow> q \<noteq> int i + 1 \<Longrightarrow> maps_of s' q = maps_of s q"
    "used_pages s' = used_pages s - private_pages s (int i + 1)"
    "proc_curr_idx s' = proc_curr_idx s" "curr_vm_pid s' = curr_vm_pid s" "proc_stack s' = proc_stack s"
proof -
  note ps = wf_procsD [OF wf_kernelD(1) [OF wf]]
  have pid: "proc_pid (proc_set s ! i) = int i + 1" and i15: "i < 15" using ps(3,4) [OF i] by auto
  then have "int i + 1 \<in> {1..<int MAX_NPROCESS}" by (simp add: MAX_NPROCESS_def)
  from soft_tlb_free_accounted [OF wf_kernelD(2,3,4) [OF wf] this] obtain t where
    t: "soft_tlb_free (int i + 1) s = Inr t" "wf_mmu t" "alloc_inv t" "pages_accounted t"
      "maps_of t (int i + 1) = []" "pmem t = pmem s"
      "\<And>q. q \<in> {1..<int MAX_NPROCESS} \<Longrightarrow> q \<noteq> int i + 1 \<Longrightarrow> maps_of t q = maps_of s q"
      "used_pages t = used_pages s - private_pages s (int i + 1)" by metis
  note f = soft_tlb_free_frame [OF t(1)]
  let ?u = "upd_proc i (\<lambda>p. p\<lparr>proc_stat := PROC_UNUSED\<rparr>) t"
  have "wf_procs t" using wf_kernelD(1) [OF wf] f by (simp add: wf_procs_def)
  then have "wf_procs ?u" using i15 by (rule wf_procs_upd) simp
  moreover have "proc_on_stop (int i + 1) ?u = Inr (log_event (Info ''proc finished'') ?u)"
    using i(1) f ps(1) by (simp add: proc_on_stop_def pid2idx_pid upd_proc_nth)
  ultimately show ?thesis
    using t f by (intro that [of "log_event (Info ''proc finished'') ?u"])
      (simp_all add: pid wf_kernel_def, simp_all add: upd_proc_def used_pages_def log_event_def)
qed

definition user_slot :: "'a kernel_scheme \<Rightarrow> nat \<Rightarrow> bool" where
  "user_slot s i \<longleftrightarrow> proc_pid (proc_set s ! i) \<ge> GPID_USER_START \<and> proc_stat (proc_set s ! i) \<noteq> PROC_UNUSED"

definition killed_upto :: "nat \<Rightarrow> 'a kernel_scheme \<Rightarrow> 'a kernel_scheme \<Rightarrow> bool" where
  "killed_upto k s s' \<longleftrightarrow> wf_kernel s' \<and> pmem s' = pmem s \<and> proc_curr_idx s' = proc_curr_idx s \<and>
     curr_vm_pid s' = curr_vm_pid s \<and> proc_stack s' = proc_stack s \<and>
     used_pages s' = used_pages s - (\<Union>i \<in> {i. i < k \<and> user_slot s i}. private_pages s (int i + 1)) \<and>
     (\<forall>i < MAX_NPROCESS. proc_set s' ! i = (if i < k \<and> user_slot s i
        then (proc_set s ! i)\<lparr>proc_stat := PROC_UNUSED\<rparr> else proc_set s ! i)) \<and>
     (\<forall>q \<in> {1..<int MAX_NPROCESS}. maps_of s' q =
        (if nat (q - 1) < k \<and> user_slot s (nat (q - 1)) then [] else maps_of s q))"

lemma killed_upto_step:
  assumes k: "killed_upto k s t" "k < MAX_NPROCESS"
  shows "\<exists>t'. (let p = proc_set t ! k
       in if proc_pid p \<ge> GPID_USER_START \<and> proc_stat p \<noteq> PROC_UNUSED
          then rbind (soft_tlb_free (proc_pid p) t) (\<lambda>t.
               proc_on_stop (proc_pid p) (upd_proc k (\<lambda>p. p\<lparr>proc_stat := PROC_UNUSED\<rparr>) t))
          else Inr t) = Inr t' \<and> killed_upto (Suc k) s t'"
proof -
  have wf: "wf_kernel t" and k16: "k < 16" using k by (simp_all add: killed_upto_def MAX_NPROCESS_def)
  have tk: "proc_set t ! k = proc_set s ! k" using k by (simp add: killed_upto_def)
  show ?thesis
  proof (cases "user_slot s k")
    case False
    then have "killed_upto (Suc k) s t" using k(1) by (auto simp: killed_upto_def less_Suc_eq)
    with False tk show ?thesis by (auto simp: user_slot_def)
  next
    case True
    then have "proc_stat (proc_set t ! k) \<noteq> PROC_UNUSED" by (simp add: user_slot_def tk)
    from kill_slot [OF wf k16 this] obtain t' where t':
      "rbind (soft_tlb_free (proc_pid (proc_set t ! k)) t) (\<lambda>u. proc_on_stop (proc_pid (proc_set t ! k))
         (upd_proc k (\<lambda>p. p\<lparr>proc_stat := PROC_UNUSED\<rparr>) u)) = Inr t'"
      "wf_kernel t'" "proc_set t' = (proc_set t)[k := (proc_set t ! k)\<lparr>proc_stat := PROC_UNUSED\<rparr>]"
      "maps_of t' (int k + 1) = []" "pmem t' = pmem t"
      "\<And>q. q \<in> {1..<int MAX_NPROCESS} \<Longrightarrow> q \<noteq> int k + 1 \<Longrightarrow> maps_of t' q = maps_of t q"
      "used_pages t' = used_pages t - private_pages t (int k + 1)"
      "proc_curr_idx t' = proc_curr_idx t" "curr_vm_pid t' = curr_vm_pid t" "proc_stack t' = proc_stack t" by metis
    have k15: "k < 15"
      using wf_procsD(4) [OF wf_kernelD(1) [OF wf] k16 \<open>proc_stat (proc_set t ! k) \<noteq> PROC_UNUSED\<close>] .
    have "private_pages t (int k + 1) = private_pages s (int k + 1)"
      using k(1) k15 by (simp add: killed_upto_def private_pages_def MAX_NPROCESS_def)
    moreover have "{i. i < Suc k \<and> user_slot s i} = insert k {i. i < k \<and> user_slot s i}" using True by auto
    ultimately have "used_pages t' = used_pages s - (\<Union>i \<in> {i. i < Suc k \<and> user_slot s i}. private_pages s (int i + 1))"
      using t'(7) k(1) by (auto simp: killed_upto_def)
    moreover have len: "length (proc_set t) = MAX_NPROCESS"
      using wf_procsD(1) [OF wf_kernelD(1) [OF wf]] by (simp add: MAX_NPROCESS_def)
    moreover have "proc_set t' ! i = (if i < Suc k \<and> user_slot s i
        then (proc_set s ! i)\<lparr>proc_stat := PROC_UNUSED\<rparr> else proc_set s ! i)" if "i < MAX_NPROCESS" for i
      using k(1) True that len tk by (cases "i = k") (auto simp: t'(3) killed_upto_def less_Suc_eq)
    moreover have "maps_of t' q = (if nat (q - 1) < Suc k \<and> user_slot s (nat (q - 1)) then [] else maps_of s q)"
      if q: "q \<in> {1..<int MAX_NPROCESS}" for q
    proof (cases "q = int k + 1")
      case False
      then have "nat (q - 1) < Suc k \<longleftrightarrow> nat (q - 1) < k" using q by auto
      with t'(6) [OF q False] k(1) q show ?thesis by (simp add: killed_upto_def)
    qed (use True t'(4) in simp)
    ultimately have "killed_upto (Suc k) s t'" using t'(2,5,8,9,10) k(1) by (simp add: killed_upto_def)
    with True tk t'(1) show ?thesis by (simp add: user_slot_def)
  qed
qed

text \<open>
  C36. \<^verbatim>\<open>proc_free(-1)\<close>, the shell's killall, succeeds on a well-formed kernel and ends exactly
  the user processes: their slots are unused and their pages are unmapped, while the slots
  and mappings of the kernel processes and the memory stay as they are. The pages of the
  ended processes are free again, and no other page changes between free and used.
\<close>

theorem proc_free_all:
  assumes "wf_kernel s"
  shows "\<exists>s'. proc_free (- 1) s = Inr s' \<and> wf_kernel s' \<and> pmem s' = pmem s \<and>
    proc_curr_idx s' = proc_curr_idx s \<and> curr_vm_pid s' = curr_vm_pid s \<and> proc_stack s' = proc_stack s \<and>
    used_pages s' = used_pages s - (\<Union>i \<in> {i. i < MAX_NPROCESS \<and> user_slot s i}. private_pages s (int i + 1)) \<and>
    (\<forall>i < MAX_NPROCESS. proc_set s' ! i = (if user_slot s i
       then (proc_set s ! i)\<lparr>proc_stat := PROC_UNUSED\<rparr> else proc_set s ! i)) \<and>
    (\<forall>q \<in> {1..<int MAX_NPROCESS}. maps_of s' q = (if user_slot s (nat (q - 1)) then [] else maps_of s q))"
proof -
  have init: "killed_upto 0 s s" using assms by (simp add: killed_upto_def)
  let ?body = "\<lambda>i s. let p = proc_set s ! i
       in if proc_pid p \<ge> GPID_USER_START \<and> proc_stat p \<noteq> PROC_UNUSED
          then rbind (soft_tlb_free (proc_pid p) s) (\<lambda>s.
               proc_on_stop (proc_pid p) (upd_proc i (\<lambda>p. p\<lparr>proc_stat := PROC_UNUSED\<rparr>) s))
          else Inr s"
  have "\<exists>s'. rfor ?body [0..<MAX_NPROCESS] s = Inr s' \<and> killed_upto MAX_NPROCESS s s'"
    using init by (rule rfor_upt) (rule killed_upto_step)
  then obtain s' where "proc_free (- 1) s = Inr s'" "killed_upto MAX_NPROCESS s s'"
    by (auto simp: proc_free_def)
  then show ?thesis by (intro exI [of _ s']) (auto simp: killed_upto_def nat_less_iff)
qed

section \<open>Scheduling\<close>

definition only_current_runs :: "'a kernel_scheme \<Rightarrow> bool" where
  "only_current_runs s \<longleftrightarrow>
     (\<forall>i < MAX_NPROCESS. proc_stat (proc_set s ! i) = PROC_RUNNING \<longrightarrow> i = proc_curr_idx s)"

lemma only_current_runs_yielded:
  assumes "wf_procs s" "only_current_runs s" "n < 16" "proc_set s' = yielded s n" "proc_curr_idx s' = n"
  shows "only_current_runs s'"
  using assms(2) unfolding only_current_runs_def
  by (auto simp: assms(4,5) MAX_NPROCESS_def yielded_nth [OF assms(1,3)] demote_def split: if_splits)

lemma proc_yield_ok:
  assumes wf: "wf_kernel s" and ocr: "only_current_runs s" and n: "next_runnable s = Some n"
  obtains s' where
    "proc_yield s = Inr (if proc_stat (proc_set s ! n) = PROC_READY then Enter_app else Resume, s')"
    "wf_kernel s'" "only_current_runs s'" "proc_curr_idx s' = n" "curr_status s' = PROC_RUNNING"
    "curr_vm_pid s' = curr_pid s'" "proc_set s' = yielded s n" "mapped s' = mapped s"
    "\<forall>q \<in> {1..<int MAX_NPROCESS}. \<forall>a. mapped s q a \<longrightarrow> proc_view s' q a = proc_view s q a"
    "proc_stack s' = proc_stack s"
proof -
  note n16 = next_runnable_Some [OF n] and wfp = wf_kernelD(1) [OF wf]
  obtain m where m: "proc_yield s = Inr
     (if proc_stat (proc_set s ! n) = PROC_READY then Enter_app else Resume,
      s\<lparr>pmem := m, curr_vm_pid := int n + 1, proc_set := yielded s n, proc_curr_idx := n,
        klog := Timer_reset # klog s\<rparr>)" (is "_ = Inr (_, ?s')")
    "soft_tlb_switch (int n + 1) s = Inr (s\<lparr>pmem := m, curr_vm_pid := int n + 1\<rparr>)"
    by (rule proc_yield_eq [OF wf n])
  have wf': "wf_kernel ?s'" by (rule proc_yield_wf [OF wf m(1)])
  have used: "proc_stat (proc_set s ! n) \<noteq> PROC_UNUSED" using n16(2) by (auto simp: runnable_def)
  have range: "int n + 1 \<in> {1..<int MAX_NPROCESS}"
    using wf_procsD(4) [OF wfp n16(1) used] by (simp add: MAX_NPROCESS_def)
  have "proc_view ?s' q a = proc_view (s\<lparr>pmem := m, curr_vm_pid := int n + 1\<rparr>) q a" for q a
    by (simp add: proc_view_def mapping_at_def maps_of_def split: option.split)
  then have "\<forall>q \<in> {1..<int MAX_NPROCESS}. \<forall>a. mapped s q a \<longrightarrow> proc_view ?s' q a = proc_view s q a"
    using tlb.switch_view [OF wf_kernelD(2) [OF wf] range m(2)] by simp
  moreover have "curr_status ?s' = PROC_RUNNING" "curr_vm_pid ?s' = curr_pid ?s'"
    using yielded_nth(1,2) [OF wfp n16(1) n16(1)] wf_procsD(3) [OF wfp n16(1) used] by simp_all
  moreover have "only_current_runs ?s'" by (rule only_current_runs_yielded [OF wfp ocr n16(1)]) simp_all
  moreover have "mapped ?s' = mapped s"
    by (simp add: mapped_def mapping_at_def maps_of_def fun_eq_iff)
  ultimately show ?thesis using m(1) wf' by (intro that [of ?s']) simp_all
qed

lemma yielded_process:
  assumes "wf_procs s" "n < 16" "i < 16"
  shows "yielded s n ! i = (proc_set s ! i)\<lparr>proc_stat := if i = n then PROC_RUNNING
     else if i = proc_curr_idx s then demote (curr_status s) else proc_stat (proc_set s ! i)\<rparr>"
  using assms wf_procsD(1,2) [OF assms(1)] by (auto simp: yielded_def Let_def nth_list_update)

lemma proc_yield_fatal_iff:
  assumes "wf_kernel s" "only_current_runs s"
  shows "proc_yield s = Inl (Fatal ''proc_yield: no runnable process'') \<longleftrightarrow>
    (\<forall>i < 16. \<not> runnable (proc_stat (proc_set s ! i)))"
proof (cases "next_runnable s")
  case None
  then show ?thesis
    using next_runnable_None_iff [OF wf_procsD(2) [OF wf_kernelD(1) [OF assms(1)]]] by (simp add: proc_yield_def)
next
  case (Some n)
  then have "\<not> (\<forall>i < 16. \<not> runnable (proc_stat (proc_set s ! i)))" using next_runnable_Some [OF Some] by blast
  moreover have "\<exists>s'. proc_yield s = Inr s'" using proc_yield_ok [OF assms Some] by metis
  ultimately show ?thesis by auto
qed

text \<open>
  C11. \<^verbatim>\<open>proc_yield\<close> is fatal exactly when no process is \<^verbatim>\<open>PROC_READY\<close>, \<^verbatim>\<open>PROC_RUNNING\<close> or
  \<^verbatim>\<open>PROC_RUNNABLE\<close>. Otherwise it switches to the first slot after the current one, in ring order, whose
  process has one of these states (the current one comes last): the kernel stays well-formed, the chosen
  process alone is \<^verbatim>\<open>PROC_RUNNING\<close> and owns the execution memory, the process that ran becomes
  \<^verbatim>\<open>PROC_RUNNABLE\<close>, nothing else of the process table and no address space or mapping changes, and the
  chosen process is entered at its entry point if and only if it had never run.
\<close>

theorem proc_yield_correct:
  assumes "wf_kernel s" "only_current_runs s"
  shows "(proc_yield s = Inl (Fatal ''proc_yield: no runnable process'') \<longleftrightarrow>
      (\<forall>i < MAX_NPROCESS. proc_stat (proc_set s ! i) \<notin> {PROC_READY, PROC_RUNNING, PROC_RUNNABLE})) \<and>
    (\<forall>k n. 1 \<le> k \<and> k \<le> MAX_NPROCESS \<and> n = (proc_curr_idx s + k) mod MAX_NPROCESS \<and>
       proc_stat (proc_set s ! n) \<in> {PROC_READY, PROC_RUNNING, PROC_RUNNABLE} \<and>
       (\<forall>j. 1 \<le> j \<and> j < k \<longrightarrow>
          proc_stat (proc_set s ! ((proc_curr_idx s + j) mod MAX_NPROCESS)) \<notin> {PROC_READY, PROC_RUNNING, PROC_RUNNABLE}) \<longrightarrow>
       (\<exists>s'. proc_yield s = Inr (if proc_stat (proc_set s ! n) = PROC_READY then Enter_app else Resume, s') \<and>
          wf_kernel s' \<and> only_current_runs s' \<and> proc_curr_idx s' = n \<and> curr_status s' = PROC_RUNNING \<and>
          curr_vm_pid s' = curr_pid s' \<and>
          (\<forall>i < MAX_NPROCESS. proc_set s' ! i = (proc_set s ! i)\<lparr>proc_stat := if i = n then PROC_RUNNING
             else if proc_stat (proc_set s ! i) = PROC_RUNNING then PROC_RUNNABLE else proc_stat (proc_set s ! i)\<rparr>) \<and>
          proc_stack s' = proc_stack s \<and> mapped s' = mapped s \<and>
          (\<forall>q \<in> {1..<int MAX_NPROCESS}. \<forall>a. mapped s q a \<longrightarrow> proc_view s' q a = proc_view s q a)))"
proof (intro conjI allI impI)
  have set: "proc_stat p \<in> {PROC_READY, PROC_RUNNING, PROC_RUNNABLE} \<longleftrightarrow> runnable (proc_stat p)" for p
    by (simp add: runnable_def)
  show "proc_yield s = Inl (Fatal ''proc_yield: no runnable process'') \<longleftrightarrow>
      (\<forall>i < MAX_NPROCESS. proc_stat (proc_set s ! i) \<notin> {PROC_READY, PROC_RUNNING, PROC_RUNNABLE})"
    unfolding set MAX_NPROCESS_def by (rule proc_yield_fatal_iff [OF assms])
  fix k n assume a: "1 \<le> k \<and> k \<le> MAX_NPROCESS \<and> n = (proc_curr_idx s + k) mod MAX_NPROCESS \<and>
       proc_stat (proc_set s ! n) \<in> {PROC_READY, PROC_RUNNING, PROC_RUNNABLE} \<and>
       (\<forall>j. 1 \<le> j \<and> j < k \<longrightarrow>
          proc_stat (proc_set s ! ((proc_curr_idx s + j) mod MAX_NPROCESS)) \<notin> {PROC_READY, PROC_RUNNING, PROC_RUNNABLE})"
  have n: "next_runnable s = Some n"
    by (rule next_runnable_eq [of k]) (use a [unfolded set MAX_NPROCESS_def] in blast)+
  have n16: "n < 16" using a by (simp add: MAX_NPROCESS_def)
  obtain s' where s':
    "proc_yield s = Inr (if proc_stat (proc_set s ! n) = PROC_READY then Enter_app else Resume, s')"
    "wf_kernel s'" "only_current_runs s'" "proc_curr_idx s' = n" "curr_status s' = PROC_RUNNING"
    "curr_vm_pid s' = curr_pid s'" "proc_set s' = yielded s n" "mapped s' = mapped s"
    "\<forall>q \<in> {1..<int MAX_NPROCESS}. \<forall>a. mapped s q a \<longrightarrow> proc_view s' q a = proc_view s q a" "proc_stack s' = proc_stack s"
    by (rule proc_yield_ok [OF assms n])
  have tab: "proc_set s' ! i = (proc_set s ! i)\<lparr>proc_stat := if i = n then PROC_RUNNING
     else if proc_stat (proc_set s ! i) = PROC_RUNNING then PROC_RUNNABLE else proc_stat (proc_set s ! i)\<rparr>"
    if "i < MAX_NPROCESS" for i
    using yielded_process [OF wf_kernelD(1) [OF assms(1)] n16, of i] that assms(2)
    by (auto simp: s'(7) MAX_NPROCESS_def only_current_runs_def demote_def)
  show "\<exists>s'. proc_yield s = Inr (if proc_stat (proc_set s ! n) = PROC_READY then Enter_app else Resume, s') \<and>
          wf_kernel s' \<and> only_current_runs s' \<and> proc_curr_idx s' = n \<and> curr_status s' = PROC_RUNNING \<and>
          curr_vm_pid s' = curr_pid s' \<and>
          (\<forall>i < MAX_NPROCESS. proc_set s' ! i = (proc_set s ! i)\<lparr>proc_stat := if i = n then PROC_RUNNING
             else if proc_stat (proc_set s ! i) = PROC_RUNNING then PROC_RUNNABLE else proc_stat (proc_set s ! i)\<rparr>) \<and>
          proc_stack s' = proc_stack s \<and> mapped s' = mapped s \<and>
          (\<forall>q \<in> {1..<int MAX_NPROCESS}. \<forall>a. mapped s q a \<longrightarrow> proc_view s' q a = proc_view s q a)"
    by (intro exI [of _ s'] conjI allI impI s' tab)
qed

text \<open>
  C15. The scheduler starves nobody: when a process is runnable, at most 16 consecutive yields
  succeed and the last one runs it.
\<close>

theorem proc_yield_fair:
  assumes "wf_kernel s" "j < MAX_NPROCESS" "runnable (proc_stat (proc_set s ! j))"
  shows "\<exists>n s'. 1 \<le> n \<and> n \<le> MAX_NPROCESS \<and> yields n s = Inr s' \<and> wf_kernel s' \<and>
    proc_curr_idx s' = j \<and> proc_stat (proc_set s' ! j) = PROC_RUNNING"
proof -
  have "j < 16" using assms(2) by (simp add: MAX_NPROCESS_def)
  moreover from this have "ring_dist (proc_curr_idx s) j \<le> 16" by (auto simp: ring_dist_def)
  ultimately show ?thesis
    using yields_reach [OF assms(1) _ assms(3)] by (fastforce simp: MAX_NPROCESS_def)
qed

text \<open>
  A kernel with two processes that have a page each at the address of the system call
  arguments; their states are the parameters and process 1 is the current one.
\<close>

definition demo_proc :: "int \<Rightarrow> proc_status \<Rightarrow> process" where
  "demo_proc pid st = \<lparr>proc_pid = pid, proc_stat = st, from_sender_pid = 0, to_receiver_pid = 0,
     proc_sp = 0x807ff000, proc_mepc = 0x80400000\<rparr>"

definition demo_kernel :: "mem \<Rightarrow> process \<Rightarrow> process \<Rightarrow> process \<Rightarrow> kernel" where
  "demo_kernel m p1 p2 p3 = \<lparr>bitmap = 3 # replicate 143 0, pmem = m,
     app_pages = two_rows 0x80601000, curr_vm_pid = 1,
     proc_set = [p1, p2] @ replicate 3 (demo_proc 0 PROC_UNUSED) @ [p3] @
       replicate 10 (demo_proc 0 PROC_UNUSED),
     proc_curr_idx = 0, proc_stack = replicate 16 (replicate 4096 0), klog = []\<rparr>"

lemma demo_nth:
  "i < 16 \<Longrightarrow> proc_set (demo_kernel m p1 p2 p3) ! i =
     (if i = 0 then p1 else if i = 1 then p2 else if i = 5 then p3 else demo_proc 0 PROC_UNUSED)"
  by (simp add: demo_kernel_def nth_append nth_Cons')

lemma demo_kernel_wf:
  assumes "proc_pid p1 = 1" "proc_pid p2 = 2" "proc_pid p3 = 6"
  shows "wf_kernel (demo_kernel m p1 p2 p3)"
proof -
  let ?s = "demo_kernel m p1 p2 p3"
  have rows: "app_pages ?s = two_rows 0x80601000" "bitmap ?s = 3 # replicate 143 0"
    by (simp_all add: demo_kernel_def)
  have "wf_mmu ?s"
    by (rule two_rows_wf [OF rows(1)])
       (simp_all add: aligned_def not_page_pool, simp add: demo_kernel_def MAX_NPROCESS_def)
  moreover have "wf_procs ?s"
    using assms by (auto simp: wf_procs_def MAX_NPROCESS_def demo_nth demo_proc_def)
       (simp_all add: demo_kernel_def)
  moreover have "alloc_inv ?s" by (simp add: alloc_inv_def rows(2) ROUNDUP_def NPAGES_eq)
  moreover have "pages_accounted ?s" using two_rows_used [OF rows] by (simp add: pages_accounted_def)
  ultimately show ?thesis by (simp add: wf_kernel_def)
qed

lemmas demo_simps = demo_nth MAX_NPROCESS_def demo_proc_def runnable_def

lemma demo_curr [simp]: "proc_curr_idx (demo_kernel m p1 p2 p3) = 0"
  by (simp add: demo_kernel_def)

theorem proc_alloc_correct_witness:
  "\<exists>s'. proc_alloc (demo_kernel (\<lambda>_. 0) (demo_proc 1 PROC_RUNNING) (demo_proc 2 PROC_READY)
      (demo_proc 6 PROC_UNUSED)) = Inr (3, s') \<and> proc_stat (proc_set s' ! 2) = PROC_LOADING"
  using proc_alloc_correct [OF demo_kernel_wf, of "demo_proc 1 PROC_RUNNING" "demo_proc 2 PROC_READY"
      "demo_proc 6 PROC_UNUSED" "\<lambda>_. 0", THEN conjunct1, THEN spec, of 2]
  by (auto simp: demo_simps less_Suc_eq numeral_eq_Suc)

theorem proc_free_all_witness:
  "\<exists>s'. proc_free (- 1) (demo_kernel (\<lambda>_. 0) (demo_proc 1 PROC_RUNNING) (demo_proc 2 PROC_READY)
      (demo_proc 6 PROC_RUNNABLE)) = Inr s' \<and> proc_stat (proc_set s' ! 5) = PROC_UNUSED \<and>
      proc_stat (proc_set s' ! 1) = PROC_READY"
  using proc_free_all [OF demo_kernel_wf, of "demo_proc 1 PROC_RUNNING" "demo_proc 2 PROC_READY"
      "demo_proc 6 PROC_RUNNABLE" "\<lambda>_. 0"]
  by (auto simp: demo_simps user_slot_def GPID_USER_START_def)

theorem proc_yield_correct_witness:
  "\<exists>s'. proc_yield (demo_kernel (\<lambda>_. 0) (demo_proc 1 PROC_RUNNING) (demo_proc 2 PROC_WAIT_TO_RECV)
      (demo_proc 6 PROC_READY)) = Inr (Enter_app, s') \<and> proc_curr_idx s' = 5"
proof -
  let ?s = "demo_kernel (\<lambda>_. 0) (demo_proc 1 PROC_RUNNING) (demo_proc 2 PROC_WAIT_TO_RECV)
      (demo_proc 6 PROC_READY)"
  have wf: "wf_kernel ?s" by (rule demo_kernel_wf) (simp_all add: demo_proc_def)
  have run: "only_current_runs ?s" by (simp add: only_current_runs_def demo_simps)
  have "(1 :: nat) \<le> 5 \<and> 5 \<le> MAX_NPROCESS \<and> 5 = (proc_curr_idx ?s + 5) mod MAX_NPROCESS \<and>
       proc_stat (proc_set ?s ! 5) \<in> {PROC_READY, PROC_RUNNING, PROC_RUNNABLE} \<and>
       (\<forall>j. 1 \<le> j \<and> j < 5 \<longrightarrow>
          proc_stat (proc_set ?s ! ((proc_curr_idx ?s + j) mod MAX_NPROCESS)) \<notin> {PROC_READY, PROC_RUNNING, PROC_RUNNABLE})"
    by (auto simp: demo_simps split: if_splits)
  from mp [OF spec [OF spec [OF conjunct2 [OF proc_yield_correct [OF wf run]]]] this]
  obtain s' where "proc_yield ?s = Inr (if proc_stat (proc_set ?s ! 5) = PROC_READY then Enter_app else Resume, s')"
    "proc_curr_idx s' = 5" by blast
  then show ?thesis by (simp add: demo_simps)
qed

theorem proc_yield_fair_witness:
  "\<exists>n s'. yields n (demo_kernel (\<lambda>_. 0) (demo_proc 1 PROC_RUNNING) (demo_proc 2 PROC_RUNNABLE)
      (demo_proc 6 PROC_READY)) = Inr s' \<and> n \<le> 16 \<and> proc_curr_idx s' = 5"
  using proc_yield_fair [OF demo_kernel_wf, of "demo_proc 1 PROC_RUNNING" "demo_proc 2 PROC_RUNNABLE"
      "demo_proc 6 PROC_READY" 5 "\<lambda>_. 0"]
  by (auto simp: demo_simps)

text \<open>
  C39. The sixteenth process escapes the tables of the MMU: when the first 15 slots are in
  use \<^verbatim>\<open>proc_alloc\<close> hands out pid 16, which the assertions of the MMU accept although
  \<^verbatim>\<open>app_pages\<close> ends at index 15, so mapping or freeing its pages accesses the array out of
  bounds.
\<close>

theorem sixteenth_process_out_of_bounds:
  assumes "wf_mmu s" "length (proc_set s) = MAX_NPROCESS"
    "\<forall>i < MAX_NPROCESS - 1. proc_stat (proc_set s ! i) \<noteq> PROC_UNUSED"
    "proc_stat (proc_set s ! (MAX_NPROCESS - 1)) = PROC_UNUSED"
    "unat src mod PAGE_SIZE = 0" "unat dst mod PAGE_SIZE = 0"
  shows "\<exists>s'. proc_alloc s = Inr (16, s') \<and> soft_tlb_map 16 dst src s' = Inl Out_of_bounds \<and>
    soft_tlb_free 16 s' = Inl Out_of_bounds"
proof -
  let ?s = "upd_proc 15 (\<lambda>p. p\<lparr>proc_pid := 16, proc_stat := PROC_LOADING\<rparr>) s"
  have "proc_alloc s = Inr (16, ?s)"
    using proc_alloc_Some [of 15 s] assms(3,4) by (simp add: MAX_NPROCESS_def)
  moreover have row: "app_row 16 ?s = Inl Out_of_bounds"
    using assms(1) by (simp add: app_row_def wf_mmu_def MAX_NPROCESS_def)
  moreover have "[0..<APPS_NPAGES] = 0 # [1..<APPS_NPAGES]"
    by (simp add: upt_rec APPS_NPAGES_def APPS_SIZE_def PAGE_SIZE_def)
  ultimately show ?thesis
    using assms(5,6) by (simp add: soft_tlb_map_def soft_tlb_free_def MAX_NPROCESS_def)
qed

theorem sixteenth_process_out_of_bounds_witness:
  "\<exists>s'. proc_alloc ((demo_kernel (\<lambda>_. 0) (demo_proc 1 PROC_RUNNING) (demo_proc 2 PROC_READY)
        (demo_proc 6 PROC_READY))\<lparr>proc_set := map (\<lambda>i. demo_proc (int i + 1) PROC_RUNNABLE) [0..<15] @
        [demo_proc 0 PROC_UNUSED]\<rparr>) = Inr (16, s') \<and>
     soft_tlb_map 16 0x80400000 0x80802000 s' = Inl Out_of_bounds"
proof -
  let ?k = "demo_kernel (\<lambda>_. 0) (demo_proc 1 PROC_RUNNING) (demo_proc 2 PROC_READY) (demo_proc 6 PROC_READY)"
  let ?ps = "map (\<lambda>i. demo_proc (int i + 1) PROC_RUNNABLE) [0..<15] @ [demo_proc 0 PROC_UNUSED]"
  have "wf_mmu (?k\<lparr>proc_set := ?ps\<rparr>)"
    using wf_kernelD(2) [OF demo_kernel_wf, of "demo_proc 1 PROC_RUNNING" "demo_proc 2 PROC_READY"
        "demo_proc 6 PROC_READY" "\<lambda>_. 0"] by (simp add: demo_proc_def)
  moreover have "\<forall>i < MAX_NPROCESS - 1. proc_stat (?ps ! i) \<noteq> PROC_UNUSED"
    "proc_stat (?ps ! (MAX_NPROCESS - 1)) = PROC_UNUSED" "length ?ps = MAX_NPROCESS"
    by (simp_all add: MAX_NPROCESS_def nth_append demo_proc_def)
  moreover have "unat (0x80802000 :: addr) mod PAGE_SIZE = 0" "unat (0x80400000 :: addr) mod PAGE_SIZE = 0"
    by (simp_all add: PAGE_SIZE_def)
  ultimately show ?thesis
    using sixteenth_process_out_of_bounds [where s = "?k\<lparr>proc_set := ?ps\<rparr>" and src = "0x80802000"
        and dst = "0x80400000"]
    by simp blast
qed

end
