(* ===== verification/Kernel_IPC.thy ===== *)
theory Kernel_IPC
  imports Process_Table
begin

text \<open>
  grass/syscall.c, grass/syscall.h and grass/kernel.c: the message passing system calls,
  whose arguments and results travel in \<^verbatim>\<open>struct syscall\<close> at \<^verbatim>\<open>SYSCALL_ARG\<close> of the calling
  process, and the trap handler that saves the user stack, runs the interrupt handler and
  resumes the process the scheduler chose. Without \<^verbatim>\<open>VMON\<close> and \<^verbatim>\<open>ECALL\<close>, the Makefile's
  default: a system call is a software interrupt and messages are copied by switching the
  soft TLB.

  A system call is modelled in three parts, as it runs: what the library writes before the
  trap, the kernel half, and what the library reads after it.
\<close>

section \<open>System call arguments\<close>

definition SYSCALL_ARG :: addr where "SYSCALL_ARG = 0x80601000"
definition APPS_STACK_TOP :: addr where "APPS_STACK_TOP = 0x80800000"
definition APPS_ARG :: addr where "APPS_ARG = 0x80600000"
definition APPS_ENTRY :: addr where "APPS_ENTRY = 0x80400000"
definition GRASS_STACK_TOP :: addr where "GRASS_STACK_TOP = 0x80400000"
definition SYSCALL_MSG_LEN :: nat where "SYSCALL_MSG_LEN = 1024"

datatype syscall_type = SYS_UNUSED | SYS_RECV | SYS_SEND | SYS_YIELD | SYS_NCALLS

definition syscall_code :: "syscall_type \<Rightarrow> m_uint32" where
  "syscall_code t = (case t of SYS_UNUSED \<Rightarrow> 0 | SYS_RECV \<Rightarrow> 1 | SYS_SEND \<Rightarrow> 2 | SYS_YIELD \<Rightarrow> 3 | SYS_NCALLS \<Rightarrow> 4)"

text \<open>The fields of \<^verbatim>\<open>struct syscall\<close>: offsets 0, 4, 8, 12 and 1036.\<close>

definition sc_type :: addr where "sc_type = SYSCALL_ARG"
definition sc_msg :: addr where "sc_msg = SYSCALL_ARG + 4"
definition sc_sender :: addr where "sc_sender = sc_msg"
definition sc_receiver :: addr where "sc_receiver = sc_msg + 4"
definition sc_content :: addr where "sc_content = sc_msg + 8"
definition sc_retval :: addr where "sc_retval = sc_content + of_nat SYSCALL_MSG_LEN"
definition sizeof_sys_msg :: nat where "sizeof_sys_msg = 8 + SYSCALL_MSG_LEN"
definition sizeof_syscall :: nat where "sizeof_syscall = 4 + sizeof_sys_msg + 4"

definition get_field :: "addr \<Rightarrow> 'a kernel_scheme \<Rightarrow> int" where
  "get_field a s = sint (load_u32 (pmem s) a)"

definition set_field :: "addr \<Rightarrow> int \<Rightarrow> 'a kernel_scheme \<Rightarrow> 'a kernel_scheme" where
  "set_field a v s = store_exec a (bytes32 (word_of_int v)) s"

section \<open>The user half\<close>

definition sys_yield_enter :: "'a kernel_scheme \<Rightarrow> 'a kernel_scheme" where
  "sys_yield_enter s = set_field sc_type 3 s"

definition sys_send_enter :: "int \<Rightarrow> m_uint8 list \<Rightarrow> 'a kernel_scheme \<Rightarrow> 'a kernel_scheme option" where
  "sys_send_enter receiver msg s =
     (if length msg > SYSCALL_MSG_LEN then None
      else Some (store_exec sc_content msg (set_field sc_receiver receiver (set_field sc_type 2 s))))"

definition sys_send_exit :: "'a kernel_scheme \<Rightarrow> int" where
  "sys_send_exit s = get_field sc_retval s"

definition sys_recv_enter :: "int \<Rightarrow> nat \<Rightarrow> 'a kernel_scheme \<Rightarrow> 'a kernel_scheme option res" where
  "sys_recv_enter sender sz s =
     (if sz > SYSCALL_MSG_LEN then Inr None
      else let s = set_field sc_type 1 s
           in if sender > 0
              then rbind (rassert (sender < int MAX_NPROCESS) '''') (\<lambda>_.
                   Inr (Some (set_field sc_sender sender s)))
              else Inr (Some (set_field sc_sender 0 s)))"

definition sys_recv_exit :: "nat \<Rightarrow> 'a kernel_scheme \<Rightarrow> m_uint8 list \<times> int \<times> int" where
  "sys_recv_exit sz s =
     (load_bytes (pmem s) sc_content sz, get_field sc_sender s, get_field sc_retval s)"

section \<open>The kernel half\<close>

definition msgcpy :: "int \<Rightarrow> int \<Rightarrow> addr \<Rightarrow> addr \<Rightarrow> nat \<Rightarrow> 'a kernel_scheme \<Rightarrow> 'a kernel_scheme res" where
  "msgcpy src_pid dst_pid src_addr dst_addr sz s =
     rbind (rassert (sz > 0 \<and> sz < PAGE_SIZE) '''') (\<lambda>_.
     rbind (soft_tlb_switch src_pid s) (\<lambda>s.
     let buf = load_bytes (pmem s) src_addr sz
     in rbind (soft_tlb_switch dst_pid s) (\<lambda>s.
        Inr (store_exec dst_addr buf s))))"

definition proc_send :: "'a kernel_scheme \<Rightarrow> (yield_outcome \<times> 'a kernel_scheme) res" where
  "proc_send s =
     (let s = set_field sc_sender (curr_pid s) s;
          receiver = get_field sc_receiver s
      in rbind (pid2idx receiver) (\<lambda>recv_idx.
         rbind (rassert (proc_pid (proc_set s ! recv_idx) = receiver) '''') (\<lambda>_.
         rbind
           (if proc_stat (proc_set s ! recv_idx) \<noteq> PROC_WAIT_TO_RECV \<or>
               (from_sender_pid (proc_set s ! recv_idx) \<noteq> curr_pid s \<and>
                from_sender_pid (proc_set s ! recv_idx) \<noteq> 0)
            then Inr (upd_proc (proc_curr_idx s)
                   (\<lambda>p. p\<lparr>proc_stat := PROC_WAIT_TO_SEND, to_receiver_pid := receiver\<rparr>) s)
            else rbind (msgcpy (curr_pid s) receiver sc_msg sc_msg sizeof_sys_msg s)
                   (proc_set_runnable receiver))
           proc_yield)))"

definition waiting_for :: "'a kernel_scheme \<Rightarrow> nat \<Rightarrow> bool" where
  "waiting_for s i \<longleftrightarrow> proc_stat (proc_set s ! i) = PROC_WAIT_TO_SEND \<and>
     to_receiver_pid (proc_set s ! i) = curr_pid s"

definition find_sender :: "int \<Rightarrow> 'a kernel_scheme \<Rightarrow> int res" where
  "find_sender exp_sender s =
     (if exp_sender = 0
      then Inr (fold (\<lambda>i sender. if waiting_for s i then proc_pid (proc_set s ! i) else sender)
                  [0..<MAX_NPROCESS] (- 1))
      else rbind (pid2idx exp_sender) (\<lambda>i. Inr (if waiting_for s i then exp_sender else - 1)))"

definition proc_recv :: "'a kernel_scheme \<Rightarrow> (yield_outcome \<times> 'a kernel_scheme) res" where
  "proc_recv s =
     (let exp_sender = get_field sc_sender s
      in rbind (rassert (exp_sender \<ge> 0 \<and> exp_sender < int MAX_NPROCESS) '''') (\<lambda>_.
         let s = upd_proc (proc_curr_idx s) (\<lambda>p. p\<lparr>from_sender_pid := exp_sender\<rparr>) s
         in rbind (find_sender exp_sender s) (\<lambda>sender.
            rbind
              (if sender = - 1
               then Inr (upd_proc (proc_curr_idx s) (\<lambda>p. p\<lparr>proc_stat := PROC_WAIT_TO_RECV\<rparr>) s)
               else rbind (msgcpy sender (curr_pid s) sc_msg sc_msg sizeof_sys_msg s)
                      (proc_set_runnable sender))
              proc_yield)))"

definition proc_syscall :: "'a kernel_scheme \<Rightarrow> (yield_outcome \<times> 'a kernel_scheme) res" where
  "proc_syscall s =
     (let type = get_field sc_type s;
          s = log_event Msip_clear (set_field sc_type 0 (set_field sc_retval 0 s))
      in if type = 1 then proc_recv s
         else if type = 2 then proc_send s
         else if type = 3 then proc_yield s
         else Inl (Fatal ''proc_syscall: got unknown syscall type''))"

section \<open>Traps\<close>

definition INTR_ID_SOFT :: nat where "INTR_ID_SOFT = 3"
definition INTR_ID_TIMER :: nat where "INTR_ID_TIMER = 7"

text \<open>\<open>ctrl_c\<close> is what the terminal's \<^verbatim>\<open>tty_intr\<close> answers.\<close>

definition intr_entry :: "bool \<Rightarrow> nat \<Rightarrow> 'a kernel_scheme \<Rightarrow> (yield_outcome \<times> 'a kernel_scheme) res" where
  "intr_entry ctrl_c trap_id s =
     (if trap_id = INTR_ID_TIMER \<and> curr_pid s < GPID_SHELL then Inr (Resume, log_event Timer_reset s)
      else if curr_pid s \<ge> GPID_USER_START \<and> ctrl_c
      then Inr (Resume, upd_proc (proc_curr_idx s) (\<lambda>p. p\<lparr>proc_mepc := APPS_ENTRY + 0xC\<rparr>)
                          (log_event (Info ''process killed by interrupt'') s))
      else if trap_id = INTR_ID_SOFT then proc_syscall s
      else if trap_id = INTR_ID_TIMER then proc_yield s
      else Inl (Fatal ''intr_entry: got unknown interrupt''))"

definition excp_entry :: "nat \<Rightarrow> 'a kernel_scheme \<Rightarrow> (yield_outcome \<times> 'a kernel_scheme) res" where
  "excp_entry trap_id s = Inl (Fatal ''fatal exception'')"

definition check_nested_trap :: "addr \<Rightarrow> unit res" where
  "check_nested_trap sp =
     (if GRASS_STACK_TOP - sp < of_nat (2 * PAGE_SIZE)
      then Inl (Fatal ''trap_handler: meet nested trap in kernel'') else Inr ())"

definition manage_userstack :: "bool \<Rightarrow> 'a kernel_scheme \<Rightarrow> 'a kernel_scheme res" where
  "manage_userstack save s =
     (let sp = proc_sp (curr_proc s);
          stack_size = sint (APPS_STACK_TOP - sp)
      in rbind (rassert (stack_size \<le> int PAGE_SIZE) '''') (\<lambda>_.
         if stack_size < 0 \<or> curr_pid s < 0 \<or> nat (curr_pid s) \<ge> length (proc_stack s)
         then Inl Out_of_bounds
         else let n = nat stack_size; i = nat (curr_pid s)
              in if save
                 then Inr (s\<lparr>proc_stack := (proc_stack s)
                              [i := load_bytes (pmem s) sp n @ drop n (proc_stack s ! i)]\<rparr>)
                 else Inr (s\<lparr>pmem := store_bytes (pmem s) sp (take n (proc_stack s ! i))\<rparr>)))"

text \<open>How the processor continues after the trap.\<close>

datatype resumption = At_entry | Back_to addr addr

definition ctx_entry :: "bool \<Rightarrow> m_uint32 \<Rightarrow> addr \<Rightarrow> 'a kernel_scheme \<Rightarrow> (resumption \<times> 'a kernel_scheme) res" where
  "ctx_entry ctrl_c trap_cause mepc s =
     (let s = upd_proc (proc_curr_idx s) (\<lambda>p. p\<lparr>proc_mepc := mepc\<rparr>) s
      in rbind (manage_userstack True s) (\<lambda>s.
         let trap_id = unat (trap_cause AND 0x3FF)
         in rbind (if trap_cause AND push_bit 31 1 \<noteq> 0 then intr_entry ctrl_c trap_id s else excp_entry trap_id s)
              (\<lambda>(out, s). case out of
                 Enter_app \<Rightarrow> Inr (At_entry, s)
               | Resume \<Rightarrow>
                   rbind (manage_userstack False s) (\<lambda>s.
                   Inr (Back_to (proc_mepc (curr_proc s)) (proc_sp (curr_proc s)), s)))))"

text \<open>
  \<open>ksp\<close> is the stack pointer on entry and \<open>usp\<close> the one \<^verbatim>\<open>ctx_start\<close> (context.S) stores
  after pushing the callee-saved registers.
\<close>

definition trap_handler ::
  "bool \<Rightarrow> m_uint32 \<Rightarrow> addr \<Rightarrow> addr \<Rightarrow> addr \<Rightarrow> 'a kernel_scheme \<Rightarrow> (resumption \<times> 'a kernel_scheme) res" where
  "trap_handler ctrl_c mcause mepc ksp usp s =
     rbind (check_nested_trap ksp) (\<lambda>_.
     ctx_entry ctrl_c mcause mepc (upd_proc (proc_curr_idx s) (\<lambda>p. p\<lparr>proc_sp := usp\<rparr>) s))"

section \<open>The kernel invariant\<close>

text \<open>
  Between traps one process runs, the current one, and the execution memory is its own.
  Inside a system call the second and third part may fail until the next process is chosen.
\<close>

definition yield_pre :: "'a kernel_scheme \<Rightarrow> bool" where
  "yield_pre s \<longleftrightarrow> wf_kernel s \<and> only_current_runs s \<and>
     length (proc_stack s) = MAX_NPROCESS \<and> (\<forall>st \<in> set (proc_stack s). length st = PAGE_SIZE)"

definition kernel_inv :: "'a kernel_scheme \<Rightarrow> bool" where
  "kernel_inv s \<longleftrightarrow> yield_pre s \<and> curr_status s = PROC_RUNNING \<and> curr_vm_pid s = curr_pid s"

lemma store_exec_frame [simp]:
  "proc_set (store_exec a bs s) = proc_set s" "proc_curr_idx (store_exec a bs s) = proc_curr_idx s"
  "proc_stack (store_exec a bs s) = proc_stack s" "curr_vm_pid (store_exec a bs s) = curr_vm_pid s"
  "pmem (store_exec a bs s) = store_bytes (pmem s) a bs" "klog (store_exec a bs s) = klog s"
  "mapped (store_exec a bs s) = mapped s" "wf_mmu (store_exec a bs s) = wf_mmu s"
  by (simp_all add: store_exec_def mapped_def fun_eq_iff)

lemma set_field_frame [simp]:
  "proc_set (set_field a v s) = proc_set s" "proc_curr_idx (set_field a v s) = proc_curr_idx s"
  "proc_stack (set_field a v s) = proc_stack s" "curr_vm_pid (set_field a v s) = curr_vm_pid s"
  "pmem (set_field a v s) = store_u32 (pmem s) a (word_of_int v)"
  "mapped (set_field a v s) = mapped s"
  by (simp_all add: set_field_def store_u32_def)

lemma wf_kernel_mem:
  "wf_kernel s \<Longrightarrow> p < int MAX_NPROCESS \<Longrightarrow> wf_kernel (s\<lparr>pmem := m, curr_vm_pid := p\<rparr>)"
  by (simp add: wf_kernel_def wf_procs_def wf_mmu_def maps_of_def alloc_inv_def pages_accounted_def
      private_pages_def used_pages_def)

lemma wf_kernel_pmem [simp]: "wf_kernel (s\<lparr>pmem := m\<rparr>) = wf_kernel s"
  by (simp add: wf_kernel_def wf_procs_def wf_mmu_def maps_of_def alloc_inv_def pages_accounted_def
      private_pages_def used_pages_def)

lemma wf_kernel_store [simp]:
  "wf_kernel (store_exec a bs s) = wf_kernel s" "wf_kernel (set_field a v s) = wf_kernel s"
  "wf_kernel (log_event e s) = wf_kernel s"
  by (simp_all add: set_field_def store_exec_def) (simp add: wf_kernel_def)

lemma log_event_more [simp]:
  "proc_curr_idx (log_event e s) = proc_curr_idx s" "proc_stack (log_event e s) = proc_stack s"
  "curr_vm_pid (log_event e s) = curr_vm_pid s" "mapped (log_event e s) = mapped s"
  by (simp_all add: log_event_def mapped_def mapping_at_def maps_of_def fun_eq_iff)

lemma upd_proc_mapped [simp]: "mapped (upd_proc i f s) = mapped s"
  by (simp add: mapped_def mapping_at_def fun_eq_iff)

lemma proc_view_cong:
  "pmem s' = pmem s \<Longrightarrow> curr_vm_pid s' = curr_vm_pid s \<Longrightarrow> app_pages s' = app_pages s \<Longrightarrow>
   proc_view s' = proc_view s"
  by (intro ext) (simp add: proc_view_def mapping_at_def maps_of_def split: option.split)

lemma yield_pre_frame [simp]:
  "yield_pre (store_exec a bs s) = yield_pre s" "yield_pre (set_field a v s) = yield_pre s"
  "yield_pre (log_event e s) = yield_pre s"
  by (simp_all add: yield_pre_def only_current_runs_def)

lemma kernel_inv_frame [simp]:
  "kernel_inv (store_exec a bs s) = kernel_inv s" "kernel_inv (set_field a v s) = kernel_inv s"
  "kernel_inv (log_event e s) = kernel_inv s"
  by (simp_all add: kernel_inv_def)

lemma kernel_invD:
  assumes "kernel_inv s"
  shows "yield_pre s" "wf_kernel s" "only_current_runs s" "curr_status s = PROC_RUNNING"
    "curr_vm_pid s = curr_pid s" "proc_curr_idx s < 15" "curr_pid s = int (proc_curr_idx s) + 1"
    "curr_pid s \<in> {1..<int MAX_NPROCESS}" "length (proc_set s) = 16"
proof -
  show "yield_pre s" "wf_kernel s" "only_current_runs s" "curr_status s = PROC_RUNNING"
    "curr_vm_pid s = curr_pid s"
    using assms by (simp_all add: kernel_inv_def yield_pre_def)
  then show "length (proc_set s) = 16" "proc_curr_idx s < 15" "curr_pid s = int (proc_curr_idx s) + 1"
    using wf_procsD [OF wf_kernelD(1), of s] by simp_all
  then show "curr_pid s \<in> {1..<int MAX_NPROCESS}" by (simp add: MAX_NPROCESS_def)
qed

lemma yield_pre_upd:
  assumes "yield_pre s" "i < 15"
    "proc_pid (f (proc_set s ! i)) = int i + 1 \<or> proc_stat (f (proc_set s ! i)) = PROC_UNUSED"
    "proc_stat (f (proc_set s ! i)) = PROC_RUNNING \<longrightarrow> i = proc_curr_idx s"
  shows "yield_pre (upd_proc i f s)"
proof -
  have wf: "wf_kernel s" "only_current_runs s" using assms(1) by (simp_all add: yield_pre_def)
  have "length (proc_set s) = 16" using wf_procsD(1) [OF wf_kernelD(1) [OF wf(1)]] .
  then have "only_current_runs (upd_proc i f s)"
    using wf(2) assms(2,4) by (auto simp: only_current_runs_def upd_proc_nth MAX_NPROCESS_def)
  moreover have "wf_kernel (upd_proc i f s)"
    using wf(1) wf_procs_upd [of s i f] wf_kernelD(1) [OF wf(1)] assms(2,3) by (simp add: wf_kernel_def)
  ultimately show ?thesis using assms(1) by (simp add: yield_pre_def)
qed

lemma proc_yield_inv:
  assumes "yield_pre s" "proc_yield s = Inr (out, s')"
  shows "kernel_inv s'"
proof -
  have wf: "wf_kernel s" "only_current_runs s" using assms(1) by (simp_all add: yield_pre_def)
  obtain n where n: "next_runnable s = Some n"
    using assms(2) by (auto simp: proc_yield_def split: option.splits)
  obtain t where t:
    "proc_yield s = Inr (if proc_stat (proc_set s ! n) = PROC_READY then Enter_app else Resume, t)"
    "wf_kernel t" "only_current_runs t" "curr_status t = PROC_RUNNING" "curr_vm_pid t = curr_pid t"
    "proc_stack t = proc_stack s"
    by (rule proc_yield_ok [OF wf n])
  have "t = s'" using t(1) assms(2) by simp
  with t assms(1) show ?thesis by (simp add: kernel_inv_def yield_pre_def)
qed

section \<open>Copying a message\<close>

lemma msgcpy_frame:
  assumes "wf_kernel s" "p \<in> {1..<int MAX_NPROCESS}" "q \<in> {1..<int MAX_NPROCESS}" "0 < n" "n < PAGE_SIZE"
  obtains m where "msgcpy p q a b n s = Inr (s\<lparr>pmem := m, curr_vm_pid := q\<rparr>)"
    "(\<forall>x. in_range x a n \<longrightarrow> mapped s p x) \<and> (\<forall>x. in_range x b n \<longrightarrow> mapped s q x) \<longrightarrow>
     (\<forall>r \<in> {1..<int MAX_NPROCESS}. \<forall>x. mapped s r x \<longrightarrow>
       proc_view (s\<lparr>pmem := m, curr_vm_pid := q\<rparr>) r x =
         (if r = q \<and> in_range x b n then proc_view s p (a + (x - b)) else proc_view s r x))"
proof -
  note wf = wf_kernelD(2) [OF assms(1)]
  obtain m1 where 1: "soft_tlb_switch p s = Inr (s\<lparr>pmem := m1, curr_vm_pid := p\<rparr>)"
    by (rule switch_frame [OF wf assms(2)])
  let ?s1 = "s\<lparr>pmem := m1, curr_vm_pid := p\<rparr>"
  have wf1: "wf_mmu ?s1" using wf_kernelD(2) [OF wf_kernel_mem [OF assms(1)]] assms(2) by simp
  obtain m2 where 2: "soft_tlb_switch q ?s1 = Inr (?s1\<lparr>pmem := m2, curr_vm_pid := q\<rparr>)"
    by (rule switch_frame [OF wf1 assms(3)])
  let ?s2 = "?s1\<lparr>pmem := m2, curr_vm_pid := q\<rparr>"
  let ?m = "store_bytes m2 b (load_bytes m1 a n)"
  have s3: "s\<lparr>pmem := ?m, curr_vm_pid := q\<rparr> = store_exec b (map (\<lambda>i. pmem ?s1 (a + of_nat i)) [0..<n]) ?s2"
    by (simp add: store_exec_def load_bytes_def)
  have "msgcpy p q a b n s = Inr (s\<lparr>pmem := ?m, curr_vm_pid := q\<rparr>)"
    using 1 2 assms(4,5) by (simp add: msgcpy_def store_exec_def)
  moreover have "n \<le> 2 ^ 32" using assms(5) by (simp add: PAGE_SIZE_def)
  ultimately show ?thesis
    using tlb.copy_between [OF wf assms(2,3) _ _ _ 1 2 s3] by (intro that [of ?m]) blast+
qed

lemma runnable_yielded:
  assumes "wf_procs s" "n < 16" "i < 16" "runnable (proc_stat (proc_set s ! i))"
  shows "runnable (proc_stat (yielded s n ! i))"
proof -
  have "runnable PROC_RUNNING" by (simp add: runnable_def)
  with assms(4) show ?thesis
    unfolding yielded_nth(1) [OF assms(1-3)] by (cases "i = proc_curr_idx s") auto
qed

text \<open>
  Every access of a system call is at \<open>arg k\<close> for a small offset \<open>k\<close>, where loads and
  stores behave as on a list.
\<close>

definition arg :: "nat \<Rightarrow> addr" where
  "arg k = SYSCALL_ARG + of_nat k"

lemma sc_fields:
  "sc_type = arg 0" "sc_sender = arg 4" "sc_msg = arg 4" "sc_receiver = arg 8" "sc_content = arg 12"
  "sc_retval = arg 1036"
  by (simp_all add: arg_def sc_type_def sc_sender_def sc_msg_def sc_receiver_def sc_content_def
      sc_retval_def SYSCALL_MSG_LEN_def)

lemma unat_arg_minus: "k < 4096 \<Longrightarrow> b \<le> k \<Longrightarrow> unat (arg k - arg b) = k - b"
  using unat_of_nat_small [of "k - b"] by (simp add: arg_def of_nat_diff)

lemma in_range_arg:
  assumes "k < 4096" "b < 4096" "n \<le> 4096"
  shows "in_range (arg k) (arg b) n \<longleftrightarrow> b \<le> k \<and> k < b + n"
proof (cases "b \<le> k")
  case True
  with assms show ?thesis by (simp add: in_range_def unat_arg_minus) linarith
next
  case False
  have "unat (arg k - arg b) = 2 ^ 32 - (b - k)"
    using False assms unat_of_nat_small [of b] unat_of_nat_small [of k]
    by (simp add: arg_def unat_sub_if')
  with False assms show ?thesis by (simp add: in_range_def)
qed

lemma store_bytes_arg:
  assumes "k < 4096" "b < 4096" "length bs \<le> 4096"
  shows "store_bytes m (arg b) bs (arg k) = (if b \<le> k \<and> k < b + length bs then bs ! (k - b) else m (arg k))"
  using assms by (auto simp: store_bytes_def in_range_arg unat_arg_minus)

lemma load_bytes_arg: "load_bytes m (arg b) n = map (\<lambda>i. m (arg (b + i))) [0..<n]"
  by (simp add: load_bytes_def arg_def add.assoc)

lemma load_u32_arg: "load_u32 m (arg b) = le32 (m (arg b)) (m (arg (b + 1))) (m (arg (b + 2))) (m (arg (b + 3)))"
  by (simp add: load_u32_def arg_def ac_simps)

lemma load_u32_arg_store:
  assumes "k < 4000" "b < 4000" "length bs \<le> 1024" "k + 4 \<le> b \<or> b + length bs \<le> k"
  shows "load_u32 (store_bytes m (arg b) bs) (arg k) = load_u32 m (arg k)"
  using assms by (auto simp: load_u32_arg store_bytes_arg)

lemma in_range_argD:
  assumes "in_range x (arg b) n" "b + n \<le> 4096"
  obtains k where "x = arg k" "b \<le> k" "k < b + n"
proof (rule that [of "b + unat (x - arg b)"])
  show "x = arg (b + unat (x - arg b))" by (simp add: arg_def)
qed (use assms in \<open>simp_all add: in_range_def\<close>)

lemmas arg_simps = sc_fields store_bytes_arg load_bytes_arg load_u32_arg_store store_u32_def

definition syscall_mapped :: "'a mmu_scheme \<Rightarrow> int \<Rightarrow> bool" where
  "syscall_mapped s q \<longleftrightarrow> (\<forall>x. in_range x SYSCALL_ARG sizeof_syscall \<longrightarrow> mapped s q x)"

lemma syscall_mappedD: "syscall_mapped s q \<Longrightarrow> k < 1040 \<Longrightarrow> mapped s q (arg k)"
  using in_range_arg [of k 0 1040]
  by (simp add: syscall_mapped_def arg_def sizeof_syscall_def sizeof_sys_msg_def SYSCALL_MSG_LEN_def)

lemma msg_mapped:
  "syscall_mapped s q \<Longrightarrow> \<forall>x. in_range x (arg 4) 1032 \<longrightarrow> mapped s q x"
  by (auto elim!: in_range_argD intro!: syscall_mappedD)

text \<open>What the running process sees at the system call arguments is the memory there.\<close>

lemma view_arg:
  "curr_vm_pid s = q \<Longrightarrow> proc_view s q x = pmem s x"
  by (simp add: proc_view_def split: option.split)

lemma sizeof_sys_msg [simp]: "sizeof_sys_msg = 1032"
  by (simp add: sizeof_sys_msg_def SYSCALL_MSG_LEN_def)

lemma deliver_ok:
  assumes pre: "yield_pre s" and "p \<in> {1..<int MAX_NPROCESS}" "q \<in> {1..<int MAX_NPROCESS}"
    and w: "w < 16" "proc_stat (proc_set s ! w) \<noteq> PROC_UNUSED"
    and map: "syscall_mapped s p" "syscall_mapped s q"
  obtains out s' where
    "rbind (rbind (msgcpy p q sc_msg sc_msg sizeof_sys_msg s) (proc_set_runnable (int w + 1))) proc_yield
       = Inr (out, s')"
    "kernel_inv s'" "runnable (proc_stat (proc_set s' ! w))"
    "\<And>i. i < 16 \<Longrightarrow> runnable (proc_stat (proc_set s ! i)) \<Longrightarrow> runnable (proc_stat (proc_set s' ! i))"
    "mapped s' = mapped s"
    "\<And>r x. r \<in> {1..<int MAX_NPROCESS} \<Longrightarrow> mapped s r x \<Longrightarrow> proc_view s' r x =
       (if r = q \<and> in_range x (arg 4) 1032 then proc_view s p x else proc_view s r x)"
    "\<And>i. i < 16 \<Longrightarrow> i \<noteq> w \<Longrightarrow> \<not> runnable (proc_stat (proc_set s ! i)) \<Longrightarrow> proc_set s' ! i = proc_set s ! i"
proof -
  have wf: "wf_kernel s" using pre by (simp add: yield_pre_def)
  note ps = wf_procsD [OF wf_kernelD(1) [OF wf]]
  note pid = ps(3,4) [OF w]
  have sz: "0 < (1032 :: nat)" "1032 < PAGE_SIZE" by (simp_all add: PAGE_SIZE_def)
  obtain m where m: "msgcpy p q (arg 4) (arg 4) 1032 s = Inr (s\<lparr>pmem := m, curr_vm_pid := q\<rparr>)"
    "(\<forall>x. in_range x (arg 4) 1032 \<longrightarrow> mapped s p x) \<and> (\<forall>x. in_range x (arg 4) 1032 \<longrightarrow> mapped s q x) \<longrightarrow>
     (\<forall>r \<in> {1..<int MAX_NPROCESS}. \<forall>x. mapped s r x \<longrightarrow> proc_view (s\<lparr>pmem := m, curr_vm_pid := q\<rparr>) r x =
        (if r = q \<and> in_range x (arg 4) 1032 then proc_view s p (arg 4 + (x - arg 4)) else proc_view s r x))"
    by (rule msgcpy_frame [OF wf assms(2,3) sz])
  note view1 = mp [OF m(2) conjI [OF msg_mapped [OF map(1)] msg_mapped [OF map(2)]]]
  let ?s1 = "s\<lparr>pmem := m, curr_vm_pid := q\<rparr>"
  let ?s2 = "upd_proc w (\<lambda>p. p\<lparr>proc_stat := PROC_RUNNABLE\<rparr>) ?s1"
  have pre1: "yield_pre ?s1"
    using pre wf_kernel_mem [OF wf] assms(3) by (simp add: yield_pre_def only_current_runs_def)
  have pre2: "yield_pre ?s2" using pid by (intro yield_pre_upd [OF pre1]) simp_all
  have step: "rbind (msgcpy p q sc_msg sc_msg sizeof_sys_msg s) (proc_set_runnable (int w + 1)) = Inr ?s2"
    using m(1) w pid by (simp add: sc_fields proc_set_runnable_def proc_set_status_ok)
  have wf2: "wf_kernel ?s2" "only_current_runs ?s2" using pre2 by (simp_all add: yield_pre_def)
  have run_w: "runnable (proc_stat (proc_set ?s2 ! w))" using w(1) ps(1) by (simp add: upd_proc_nth runnable_def)
  then have "next_runnable ?s2 \<noteq> None"
    using next_runnable_None_iff [of ?s2] ps(2) w(1) by auto
  then obtain n where n: "next_runnable ?s2 = Some n" by auto
  obtain s' where y: "proc_yield ?s2 = Inr (if proc_stat (proc_set ?s2 ! n) = PROC_READY then Enter_app else Resume, s')"
    "mapped s' = mapped ?s2" "proc_set s' = yielded ?s2 n"
    "\<forall>q \<in> {1..<int MAX_NPROCESS}. \<forall>a. mapped ?s2 q a \<longrightarrow> proc_view s' q a = proc_view ?s2 q a"
    by (rule proc_yield_ok [OF wf2 n])
  have mp: "mapped ?s2 = mapped s" by (simp add: mapped_def mapping_at_def maps_of_def fun_eq_iff)
  have "proc_view ?s2 = proc_view ?s1" by (rule proc_view_cong) simp_all
  then have v: "proc_view s' r x = (if r = q \<and> in_range x (arg 4) 1032 then proc_view s p x else proc_view s r x)"
    if "r \<in> {1..<int MAX_NPROCESS}" "mapped s r x" for r x
    using view1 y(4) that mp by simp
  have run: "runnable (proc_stat (proc_set s' ! i))" if "i < 16" "runnable (proc_stat (proc_set ?s2 ! i))" for i
    using runnable_yielded [OF wf_kernelD(1) [OF wf2(1)] next_runnable_Some(1) [OF n] that] y(3) by simp
  have still: "proc_set s' ! i = proc_set s ! i" if i: "i < 16" "i \<noteq> w" "\<not> runnable (proc_stat (proc_set s ! i))" for i
  proof -
    have e: "proc_set ?s2 ! i = proc_set s ! i" using i(2) by (simp add: upd_proc_def)
    have "i \<noteq> n" using next_runnable_Some(2) [OF n] i(3) e by auto
    moreover have "demote (proc_stat (proc_set s ! i)) = proc_stat (proc_set s ! i)" using i(3) by (auto simp: demote_def runnable_def)
    ultimately show ?thesis
      using yielded_process [OF wf_kernelD(1) [OF wf2(1)] next_runnable_Some(1) [OF n] i(1)] e y(3) by auto
  qed
  show ?thesis
  proof (rule that)
    show "rbind (rbind (msgcpy p q sc_msg sc_msg sizeof_sys_msg s) (proc_set_runnable (int w + 1))) proc_yield
       = Inr (if proc_stat (proc_set ?s2 ! n) = PROC_READY then Enter_app else Resume, s')"
      using step y(1) by simp
    show "kernel_inv s'" by (rule proc_yield_inv [OF pre2 y(1)])
    show "runnable (proc_stat (proc_set s' ! w))" using run [OF w(1) run_w] .
    show "runnable (proc_stat (proc_set s' ! i))" if "i < 16" "runnable (proc_stat (proc_set s ! i))" for i
      using that run_w w(1) ps(1) by (intro run) (auto simp: upd_proc_nth)
    show "mapped s' = mapped s" using y(2) mp by simp
  qed (use v still in blast)+
qed

lemma sint_small: "0 \<le> v \<Longrightarrow> v < 2 ^ 31 \<Longrightarrow> sint (word_of_int v :: m_uint32) = v"
  by (simp add: sint_sbintrunc' signed_take_bit_int_eq_self)

lemma get_field_same: "0 \<le> v \<Longrightarrow> v < 2 ^ 31 \<Longrightarrow> get_field a (set_field a v s) = v"
  by (simp add: get_field_def load_store_u32 sint_small)

lemma get_field_store:
  assumes "k < 4000" "b < 4000" "length bs \<le> 1024" "k + 4 \<le> b \<or> b + length bs \<le> k"
  shows "get_field (arg k) (store_exec (arg b) bs s) = get_field (arg k) s"
  using load_u32_arg_store [OF assms] by (simp add: get_field_def)

lemma get_field_set:
  "k < 4000 \<Longrightarrow> b < 4000 \<Longrightarrow> k + 4 \<le> b \<or> b + 4 \<le> k \<Longrightarrow>
   get_field (arg k) (set_field (arg b) v s) = get_field (arg k) s"
  unfolding set_field_def by (rule get_field_store) auto

lemma get_field_log [simp]: "get_field a (log_event e s) = get_field a s"
  by (simp add: get_field_def)

lemmas field_simps' = get_field_same get_field_store get_field_set

text \<open>The state in which \<^verbatim>\<open>proc_send\<close> looks for the receiver.\<close>

definition send_state :: "int \<Rightarrow> m_uint8 list \<Rightarrow> 'a kernel_scheme \<Rightarrow> 'a kernel_scheme" where
  "send_state receiver msg s = set_field (arg 4) (curr_pid s) (log_event Msip_clear (set_field (arg 0) 0
     (set_field (arg 1036) 0 (store_exec (arg 12) msg (set_field (arg 8) receiver (set_field (arg 0) 2 s))))))"

lemma proc_syscall_send:
  assumes "sys_send_enter receiver msg s = Some s1" "0 \<le> receiver" "receiver < 2 ^ 31"
  shows "proc_syscall s1 = (let t = send_state receiver msg s in
     rbind (pid2idx receiver) (\<lambda>i. rbind (rassert (proc_pid (proc_set s ! i) = receiver) '''') (\<lambda>_.
       rbind
           (if proc_stat (proc_set s ! i) \<noteq> PROC_WAIT_TO_RECV \<or>
               (from_sender_pid (proc_set s ! i) \<noteq> curr_pid s \<and> from_sender_pid (proc_set s ! i) \<noteq> 0)
            then Inr (upd_proc (proc_curr_idx s)
                   (\<lambda>p. p\<lparr>proc_stat := PROC_WAIT_TO_SEND, to_receiver_pid := receiver\<rparr>) t)
            else rbind (msgcpy (curr_pid s) receiver sc_msg sc_msg sizeof_sys_msg t)
                   (proc_set_runnable receiver))
           proc_yield)))"
proof -
  have s1: "s1 = store_exec (arg 12) msg (set_field (arg 8) receiver (set_field (arg 0) 2 s))"
    and len: "length msg \<le> 1024"
    using assms(1) by (auto simp: sys_send_enter_def sc_fields SYSCALL_MSG_LEN_def split: if_splits)
  have "get_field (arg 0) s1 = 2" using len by (simp add: s1 field_simps')
  moreover have "get_field (arg 8) (send_state receiver msg s) = receiver"
    using len assms(2,3) by (simp add: send_state_def field_simps')
  moreover have "set_field (arg 4) (curr_pid s1) (log_event Msip_clear (set_field (arg 0) 0
      (set_field (arg 1036) 0 s1))) = send_state receiver msg s"
    by (simp add: s1 send_state_def)
  moreover have "proc_set s1 = proc_set s" "proc_curr_idx s1 = proc_curr_idx s"
    "proc_set (send_state receiver msg s) = proc_set s"
    "proc_curr_idx (send_state receiver msg s) = proc_curr_idx s"
    by (simp_all add: s1 send_state_def)
  ultimately show ?thesis
    by (simp add: proc_syscall_def proc_send_def sc_fields Let_def cong: if_cong)
qed

lemma send_state_frame [simp]:
  "proc_set (send_state r msg s) = proc_set s" "proc_curr_idx (send_state r msg s) = proc_curr_idx s"
  "curr_vm_pid (send_state r msg s) = curr_vm_pid s" "mapped (send_state r msg s) = mapped s"
  "yield_pre (send_state r msg s) = yield_pre s" "kernel_inv (send_state r msg s) = kernel_inv s"
  by (simp_all add: send_state_def)

lemma send_state_content:
  assumes "length msg \<le> 1024"
  shows "load_bytes (pmem (send_state r msg s)) sc_content (length msg) = msg"
    "load_u32 (pmem (send_state r msg s)) sc_sender = word_of_int (curr_pid s)"
    "load_u32 (pmem (send_state r msg s)) sc_retval = 0"
proof -
  show "load_bytes (pmem (send_state r msg s)) sc_content (length msg) = msg"
    using assms by (intro nth_equalityI) (simp_all add: send_state_def arg_simps)
  show "load_u32 (pmem (send_state r msg s)) sc_sender = word_of_int (curr_pid s)"
    by (simp add: send_state_def sc_fields load_store_u32)
  have "load_u32 (pmem (send_state r msg s)) (arg 1036) =
      load_u32 (store_u32 (pmem (store_exec (arg 12) msg (set_field (arg 8) r (set_field (arg 0) 2 s)))) (arg 1036) 0) (arg 1036)"
    by (simp add: send_state_def store_u32_def load_u32_arg_store)
  then show "load_u32 (pmem (send_state r msg s)) sc_retval = 0"
    by (simp add: sc_fields load_store_u32)
qed

lemma store_arg_view:
  assumes "wf_mmu t" "curr_vm_pid t \<in> {1..<int MAX_NPROCESS}" "syscall_mapped t (curr_vm_pid t)"
    "b + length bs \<le> 1040" "q \<in> {1..<int MAX_NPROCESS}" "q \<noteq> curr_vm_pid t" "mapped t q x"
  shows "proc_view (store_exec (arg b) bs t) q x = proc_view t q x"
proof -
  have "mapped t (curr_vm_pid t) y" if y: "in_range y (arg b) (length bs)" for y
    using y assms(3,4) by (auto elim!: in_range_argD intro!: syscall_mappedD)
  then show ?thesis using assms by (subst store_exec_view) auto
qed

lemma log_event_view [simp]: "proc_view (log_event e t) = proc_view t"
  by (rule proc_view_cong) (simp_all add: log_event_def)

lemma upd_proc_view [simp]: "proc_view (upd_proc i f t) = proc_view t"
  by (rule proc_view_cong) simp_all

lemma syscall_mapped_store [simp]: "syscall_mapped (store_exec a bs t) = syscall_mapped t"
  "syscall_mapped (log_event e t) = syscall_mapped t"
  by (simp_all add: syscall_mapped_def fun_eq_iff)

lemma send_state_view:
  assumes "kernel_inv s" "syscall_mapped s (curr_pid s)" "length msg \<le> 1024"
    "q \<in> {1..<int MAX_NPROCESS}" "mapped s q x" "q \<noteq> curr_pid s"
  shows "proc_view (send_state r msg s) q x = proc_view s q x"
  using wf_kernelD(2) [OF kernel_invD(2) [OF assms(1)]] kernel_invD(5,8) [OF assms(1)] assms(2-)
  by (simp add: send_state_def set_field_def store_arg_view)

text \<open>The sender's own memory: the arguments that it wrote, and the three fields that the kernel sets.\<close>

lemma send_state_pmem:
  assumes "sys_send_enter r msg s = Some s1" "\<not> in_range x sc_type 4" "\<not> in_range x sc_sender 4" "\<not> in_range x sc_retval 4"
  shows "pmem (send_state r msg s) x = pmem s1 x"
proof -
  have "s1 = store_exec (arg 12) msg (set_field (arg 8) r (set_field (arg 0) 2 s))"
    using assms(1) by (auto simp: sys_send_enter_def sc_fields split: if_splits)
  then show ?thesis using assms(2-4)
    by (simp add: send_state_def set_field_def store_exec_def sc_fields store_bytes_def)
qed

lemma in_syscall:
  assumes "in_range x (arg b) n" "b + n \<le> 1040"
  shows "in_range x SYSCALL_ARG sizeof_syscall"
proof -
  have a0: "SYSCALL_ARG = arg 0" by (simp add: arg_def)
  have le: "b + n \<le> 4096" using assms(2) by simp
  obtain k where k: "x = arg k" "k < b + n" by (rule in_range_argD [OF assms(1) le])
  then show ?thesis unfolding a0 k(1) using assms(2) by (subst in_range_arg) (simp_all add: sizeof_syscall_def)
qed

lemma send_enter_pmem:
  assumes "sys_send_enter r msg s = Some s1" "\<not> in_range x SYSCALL_ARG sizeof_syscall"
  shows "pmem s1 x = pmem s x"
proof -
  have s1: "s1 = store_exec (arg 12) msg (set_field (arg 8) r (set_field (arg 0) 2 s))" and len: "length msg \<le> 1024"
    using assms(1) by (auto simp: sys_send_enter_def sc_fields SYSCALL_MSG_LEN_def split: if_splits)
  have out: "\<not> in_range x (arg b) n" if "b + n \<le> 1040" for b n
    using in_syscall [OF _ that] assms(2) by blast
  show ?thesis using out [of 12 "length msg"] out [of 8 4] out [of 0 4] len
    by (simp add: s1 set_field_def store_exec_def store_bytes_def)
qed

lemma load_bytes_cong: "(\<And>i. i < n \<Longrightarrow> m (a + of_nat i) = m' (a + of_nat i)) \<Longrightarrow> load_bytes m a n = load_bytes m' a n"
  by (simp add: load_bytes_def)

lemma load_u32_cong:
  assumes "\<And>i. i < 4 \<Longrightarrow> m (arg (k + i)) = m' (arg (k + i))"
  shows "load_u32 m (arg k) = load_u32 m' (arg k)"
  using assms [of 0] assms [of 1] assms [of 2] assms [of 3] by (simp add: load_u32_arg)

lemma send_delivers_ok:
  assumes inv: "kernel_inv s" and enter: "sys_send_enter (int j + 1) msg s = Some s1"
    and recv: "j < MAX_NPROCESS" "proc_stat (proc_set s ! j) = PROC_WAIT_TO_RECV"
      "from_sender_pid (proc_set s ! j) \<in> {0, curr_pid s}"
    and map: "syscall_mapped s (curr_pid s)" "syscall_mapped s (int j + 1)"
  shows "\<exists>out s'. proc_syscall s1 = Inr (out, s') \<and> kernel_inv s' \<and>
    load_bytes (proc_view s' (int j + 1)) sc_content (length msg) = msg \<and>
    load_u32 (proc_view s' (int j + 1)) sc_sender = word_of_int (curr_pid s) \<and>
    load_u32 (proc_view s' (curr_pid s)) sc_retval = 0 \<and>
    runnable (proc_stat (proc_set s' ! j)) \<and> runnable (proc_stat (proc_set s' ! proc_curr_idx s)) \<and>
    (\<forall>i < MAX_NPROCESS. i \<noteq> j \<and> \<not> runnable (proc_stat (proc_set s ! i)) \<longrightarrow> proc_set s' ! i = proc_set s ! i) \<and>
    (\<forall>x. mapped s (curr_pid s) x \<and> \<not> in_range x sc_type 4 \<and> \<not> in_range x sc_sender 4 \<and> \<not> in_range x sc_retval 4 \<longrightarrow>
       proc_view s' (curr_pid s) x = proc_view s1 (curr_pid s) x) \<and>
    (\<forall>x. mapped s (curr_pid s) x \<and> \<not> in_range x SYSCALL_ARG sizeof_syscall \<longrightarrow>
       proc_view s' (curr_pid s) x = proc_view s (curr_pid s) x) \<and>
    (\<forall>q \<in> {1..<int MAX_NPROCESS} - {curr_pid s}. \<forall>x. mapped s q x \<and>
       \<not> (q = int j + 1 \<and> in_range x sc_msg sizeof_sys_msg) \<longrightarrow> proc_view s' q x = proc_view s q x)"
proof -
  note inv' = kernel_invD [OF inv]
  let ?t = "send_state (int j + 1) msg s" and ?r = "int j + 1"
  have len: "length msg \<le> 1024"
    using enter by (auto simp: sys_send_enter_def SYSCALL_MSG_LEN_def split: if_splits)
  have j16: "j < 16" using recv(1) by (simp add: MAX_NPROCESS_def)
  have used: "proc_stat (proc_set s ! j) \<noteq> PROC_UNUSED" using recv(2) by simp
  note pj = wf_procsD(3,4) [OF wf_kernelD(1) [OF inv'(2)] j16 used]
  have r: "?r \<in> {1..<int MAX_NPROCESS}" using pj(2) by (simp add: MAX_NPROCESS_def)
  have ne: "?r \<noteq> curr_pid s" using recv(2) inv'(4,7) by auto
  have pid: "pid2idx ?r = Inr j" using j16 by (rule pid2idx_pid)

  obtain out s' where d:
    "rbind (rbind (msgcpy (curr_pid s) ?r sc_msg sc_msg sizeof_sys_msg ?t) (proc_set_runnable ?r)) proc_yield
       = Inr (out, s')"
    "kernel_inv s'" "runnable (proc_stat (proc_set s' ! j))"
    "\<And>i. i < 16 \<Longrightarrow> runnable (proc_stat (proc_set ?t ! i)) \<Longrightarrow> runnable (proc_stat (proc_set s' ! i))"
    "mapped s' = mapped ?t"
    "\<And>q x. q \<in> {1..<int MAX_NPROCESS} \<Longrightarrow> mapped ?t q x \<Longrightarrow> proc_view s' q x =
       (if q = ?r \<and> in_range x (arg 4) 1032 then proc_view ?t (curr_pid s) x else proc_view ?t q x)"
    "\<And>i. i < 16 \<Longrightarrow> i \<noteq> j \<Longrightarrow> \<not> runnable (proc_stat (proc_set ?t ! i)) \<Longrightarrow> proc_set s' ! i = proc_set ?t ! i"
    by (rule deliver_ok [of ?t "curr_pid s" ?r j])
       (use inv'(1,8) r j16 used map in \<open>simp_all add: syscall_mapped_def\<close>)
  have "proc_syscall s1 = Inr (out, s')"
    using d(1) j16 recv(3) by (auto simp: proc_syscall_send [OF enter] Let_def pid pj(1) recv(2))
  moreover have vt: "proc_view ?t (curr_pid s) = pmem ?t"
    using inv'(5) by (intro ext view_arg) simp
  have vr: "proc_view s' ?r (arg k) = pmem ?t (arg k)" if "4 \<le> k" "k < 1036" for k
    using that d(6) [OF r, of "arg k"] syscall_mappedD [OF map(2), of k] by (simp add: vt in_range_arg)
  have "load_bytes (proc_view s' ?r) sc_content (length msg) = load_bytes (pmem ?t) sc_content (length msg)"
    using len vr by (simp add: sc_fields load_bytes_arg)
  then have "load_bytes (proc_view s' ?r) sc_content (length msg) = msg"
    using send_state_content(1) [OF len] by simp
  moreover have "load_u32 (proc_view s' ?r) sc_sender = word_of_int (curr_pid s)"
    using send_state_content(2) [OF len, of ?r s] vr load_u32_cong [of "proc_view s' ?r" 4 "pmem ?t"]
    by (simp add: sc_fields)
  moreover have "load_u32 (proc_view s' (curr_pid s)) sc_retval = 0"
    using send_state_content(3) [OF len, of ?r s] ne vt d(6) [OF inv'(8)] syscall_mappedD [OF map(1)]
      load_u32_cong [of "proc_view s' (curr_pid s)" 1036 "pmem ?t"] by (simp add: sc_fields)
  moreover have "proc_view s' q x = proc_view s q x"
    if q: "q \<in> {1..<int MAX_NPROCESS} - {curr_pid s}" "mapped s q x" "\<not> (q = ?r \<and> in_range x sc_msg sizeof_sys_msg)" for q x
    using d(6) [of q x] q send_state_view [OF inv map(1) len, of q x] by (auto simp: sc_fields)
  moreover have "runnable (proc_stat (proc_set s' ! proc_curr_idx s))"
    using d(4) [of "proc_curr_idx s"] inv'(4,6) by (simp add: runnable_def)
  ultimately have main: "proc_syscall s1 = Inr (out, s')"
    "load_bytes (proc_view s' (int j + 1)) sc_content (length msg) = msg"
    "load_u32 (proc_view s' (int j + 1)) sc_sender = word_of_int (curr_pid s)"
    "load_u32 (proc_view s' (curr_pid s)) sc_retval = 0" "runnable (proc_stat (proc_set s' ! proc_curr_idx s))"
    "\<forall>q \<in> {1..<int MAX_NPROCESS} - {curr_pid s}. \<forall>x. mapped s q x \<and>
       \<not> (q = int j + 1 \<and> in_range x sc_msg sizeof_sys_msg) \<longrightarrow> proc_view s' q x = proc_view s q x" by blast+
  have still: "\<forall>i < MAX_NPROCESS. i \<noteq> j \<and> \<not> runnable (proc_stat (proc_set s ! i)) \<longrightarrow> proc_set s' ! i = proc_set s ! i"
    using d(7) by (simp add: MAX_NPROCESS_def)
  have own: "\<forall>x. mapped s (curr_pid s) x \<and> \<not> in_range x sc_type 4 \<and> \<not> in_range x sc_sender 4 \<and> \<not> in_range x sc_retval 4 \<longrightarrow>
       proc_view s' (curr_pid s) x = proc_view s1 (curr_pid s) x"
    "\<forall>x. mapped s (curr_pid s) x \<and> \<not> in_range x SYSCALL_ARG sizeof_syscall \<longrightarrow> proc_view s' (curr_pid s) x = proc_view s (curr_pid s) x"
  proof -
    have vm: "curr_vm_pid s1 = curr_vm_pid s"
      using enter by (auto simp: sys_send_enter_def split: if_splits)
    have v1: "proc_view s1 (curr_pid s) x = pmem s1 x" "proc_view s (curr_pid s) x = pmem s x" for x
      using inv'(5) vm by (simp_all add: view_arg)
    have vs: "proc_view s' (curr_pid s) x = pmem ?t x" if "mapped s (curr_pid s) x" for x
      using d(6) [OF inv'(8), of x] that ne vt by simp
    show "\<forall>x. mapped s (curr_pid s) x \<and> \<not> in_range x sc_type 4 \<and> \<not> in_range x sc_sender 4 \<and> \<not> in_range x sc_retval 4 \<longrightarrow>
       proc_view s' (curr_pid s) x = proc_view s1 (curr_pid s) x"
      using vs v1(1) send_state_pmem [OF enter] by simp
    have sub: "in_range x SYSCALL_ARG sizeof_syscall" if "in_range x sc_type 4 \<or> in_range x sc_sender 4 \<or> in_range x sc_retval 4" for x
      using that in_syscall [of x 0 4] in_syscall [of x 4 4] in_syscall [of x 1036 4] by (auto simp: sc_fields)
    show "\<forall>x. mapped s (curr_pid s) x \<and> \<not> in_range x SYSCALL_ARG sizeof_syscall \<longrightarrow> proc_view s' (curr_pid s) x = proc_view s (curr_pid s) x"
      unfolding v1 using vs send_state_pmem [OF enter] send_enter_pmem [OF enter] sub by metis
  qed
  show ?thesis by (intro exI [of _ out] exI [of _ s'] conjI main d(2,3) still own)
qed

text \<open>
  C3. A message sent to a process that waits for it is delivered: the system call succeeds,
  the receiver finds the bytes of the message in its receive buffer and the true pid of the
  sender in the sender field, both processes can run and the sender's call returns 0. Of the
  receiver's memory only the message buffer changes. Of the sender's, the kernel changes only the
  type, sender and return value of the system call record, and nothing outside this record has
  changed since before the call. The memory of all other processes is unchanged, and no other
  blocked or unused slot of the process table changes.
\<close>

theorem send_delivers:
  assumes inv: "kernel_inv s" and enter: "sys_send_enter (int j + 1) msg s = Some s1"
    and recv: "j < MAX_NPROCESS" "proc_stat (proc_set s ! j) = PROC_WAIT_TO_RECV"
      "from_sender_pid (proc_set s ! j) \<in> {0, curr_pid s}"
    and map: "syscall_mapped s (curr_pid s)" "syscall_mapped s (int j + 1)"
  shows "\<exists>out s'. proc_syscall s1 = Inr (out, s') \<and> kernel_inv s' \<and>
    load_bytes (proc_view s' (int j + 1)) sc_content (length msg) = msg \<and>
    load_u32 (proc_view s' (int j + 1)) sc_sender = word_of_int (curr_pid s) \<and>
    load_u32 (proc_view s' (curr_pid s)) sc_retval = 0 \<and>
    runnable (proc_stat (proc_set s' ! j)) \<and> runnable (proc_stat (proc_set s' ! proc_curr_idx s)) \<and>
    (\<forall>i < MAX_NPROCESS. i \<noteq> j \<and> \<not> runnable (proc_stat (proc_set s ! i)) \<longrightarrow> proc_set s' ! i = proc_set s ! i) \<and>
    (\<forall>x. mapped s (curr_pid s) x \<and> \<not> in_range x sc_type 4 \<and> \<not> in_range x sc_sender 4 \<and> \<not> in_range x sc_retval 4 \<longrightarrow>
       proc_view s' (curr_pid s) x = proc_view s1 (curr_pid s) x) \<and>
    (\<forall>x. mapped s (curr_pid s) x \<and> \<not> in_range x SYSCALL_ARG sizeof_syscall \<longrightarrow>
       proc_view s' (curr_pid s) x = proc_view s (curr_pid s) x) \<and>
    (\<forall>q \<in> {1..<int MAX_NPROCESS} - {curr_pid s}. \<forall>x. mapped s q x \<and>
       \<not> (q = int j + 1 \<and> in_range x sc_msg sizeof_sys_msg) \<longrightarrow> proc_view s' q x = proc_view s q x)"
  by (rule send_delivers_ok [OF assms])

section \<open>Receiving\<close>

lemma fold_last:
  "(\<forall>i < n. \<not> P i) \<and> fold (\<lambda>i a. if P i then g i else a) [0..<n] d = d \<or>
   (\<exists>k < n. P k \<and> (\<forall>i. k < i \<and> i < n \<longrightarrow> \<not> P i) \<and> fold (\<lambda>i a. if P i then g i else a) [0..<n] d = g k)"
  for n :: nat
  by (induction n) (auto simp: less_Suc_eq)

lemma find_sender_cases:
  assumes "wf_procs s" "find_sender e s = Inr v"
  obtains "v = - 1" "e = 0 \<longrightarrow> (\<forall>i < 16. \<not> waiting_for s i)"
      "e \<noteq> 0 \<longrightarrow> (\<forall>i < 16. e = int i + 1 \<longrightarrow> \<not> waiting_for s i)"
  | k where "k < 15" "v = int k + 1" "waiting_for s k" "e = 0 \<longrightarrow> (\<forall>i. k < i \<and> i < 16 \<longrightarrow> \<not> waiting_for s i)"
      "e \<noteq> 0 \<longrightarrow> e = v"
proof (cases "e = 0")
  case True
  have used: "proc_pid (proc_set s ! k) = int k + 1 \<and> k < 15" if "k < 16" "waiting_for s k" for k
    using wf_procsD(3,4) [OF assms(1), of k] that by (simp add: waiting_for_def)
  have v: "v = fold (\<lambda>i sender. if waiting_for s i then proc_pid (proc_set s ! i) else sender) [0..<16] (- 1)"
    using assms(2) True by (simp add: find_sender_def MAX_NPROCESS_def)
  from fold_last [of 16 "waiting_for s" "\<lambda>i. proc_pid (proc_set s ! i)" "- 1"] show ?thesis
    unfolding v [symmetric]
  proof (elim disjE exE conjE)
    fix k assume k: "k < 16" "waiting_for s k" "\<forall>i. k < i \<and> i < 16 \<longrightarrow> \<not> waiting_for s i" "v = proc_pid (proc_set s ! k)"
    show ?thesis using used [OF k(1,2)] k True by (intro that(2) [of k]) auto
  qed (use True in \<open>intro that(1), auto\<close>)
next
  case False
  then have "1 \<le> e \<and> e \<le> 16 \<and> v = (if waiting_for s (nat (e - 1)) then e else - 1)"
    using assms(2) by (auto simp: find_sender_def pid2idx_def MAX_NPROCESS_def split: if_splits)
  then have i: "nat (e - 1) < 16" "e = int (nat (e - 1)) + 1" "v = (if waiting_for s (nat (e - 1)) then e else - 1)"
    by auto
  define i where "i = nat (e - 1)"
  note i = i [folded i_def]
  show ?thesis
  proof (cases "waiting_for s i")
    case True
    then have "i < 15" using wf_procsD(4) [OF assms(1) i(1)] by (simp add: waiting_for_def)
    then show ?thesis using True i by (intro that(2) [of i]) auto
  qed (use i False in \<open>intro that(1), auto\<close>)
qed

text \<open>The state in which \<^verbatim>\<open>proc_recv\<close> looks for a sender.\<close>

definition recv_state :: "int \<Rightarrow> 'a kernel_scheme \<Rightarrow> 'a kernel_scheme" where
  "recv_state e s = upd_proc (proc_curr_idx s) (\<lambda>p. p\<lparr>from_sender_pid := e\<rparr>)
     (log_event Msip_clear (set_field (arg 0) 0 (set_field (arg 1036) 0 (set_field (arg 4) e (set_field (arg 0) 1 s)))))"

lemma recv_state_frame [simp]:
  "proc_curr_idx (recv_state e s) = proc_curr_idx s" "curr_vm_pid (recv_state e s) = curr_vm_pid s"
  "mapped (recv_state e s) = mapped s" "proc_stack (recv_state e s) = proc_stack s"
  by (simp_all add: recv_state_def)

lemma recv_state_nth:
  assumes "kernel_inv s"
  shows "proc_pid (proc_set (recv_state e s) ! i) = proc_pid (proc_set s ! i)"
    "proc_stat (proc_set (recv_state e s) ! i) = proc_stat (proc_set s ! i)"
    "to_receiver_pid (proc_set (recv_state e s) ! i) = to_receiver_pid (proc_set s ! i)"
  using kernel_invD(6,9) [OF assms] by (auto simp: recv_state_def upd_proc_nth)

lemma recv_state_inv:
  assumes "kernel_inv s"
  shows "kernel_inv (recv_state e s)"
proof -
  note inv = kernel_invD [OF assms]
  have "yield_pre (recv_state e s)"
    unfolding recv_state_def using inv(1,6,7) by (intro yield_pre_upd) simp_all
  then show ?thesis using inv(4,5) by (simp add: kernel_inv_def recv_state_nth [OF assms])
qed

lemma waiting_for_recv_state [simp]: "kernel_inv s \<Longrightarrow> waiting_for (recv_state e s) i = waiting_for s i"
  by (simp add: waiting_for_def recv_state_nth)

lemma proc_syscall_recv:
  assumes "kernel_inv s" "sys_recv_enter sender n s = Inr (Some s1)"
  defines "e \<equiv> if sender > 0 then sender else 0"
  shows "0 \<le> e" "e < int MAX_NPROCESS"
    "proc_syscall s1 = (let t = recv_state e s in
       rbind (find_sender e t) (\<lambda>sender. rbind
         (if sender = - 1
          then Inr (upd_proc (proc_curr_idx s) (\<lambda>p. p\<lparr>proc_stat := PROC_WAIT_TO_RECV\<rparr>) t)
          else rbind (msgcpy sender (curr_pid s) sc_msg sc_msg sizeof_sys_msg t) (proc_set_runnable sender))
         proc_yield))"
proof -
  have s1: "s1 = set_field (arg 4) e (set_field (arg 0) 1 s)" and e: "0 \<le> e" "e < 16"
    using assms(2) by (auto simp: sys_recv_enter_def e_def sc_fields MAX_NPROCESS_def res_simps split: if_splits)
  then show "0 \<le> e" "e < int MAX_NPROCESS" by (simp_all add: MAX_NPROCESS_def)
  have "get_field (arg 0) s1 = 1" by (simp add: s1 field_simps')
  moreover have "get_field (arg 4) (log_event Msip_clear (set_field (arg 0) 0 (set_field (arg 1036) 0 s1))) = e"
    using e by (simp add: s1 field_simps')
  moreover have "upd_proc (proc_curr_idx s1) (\<lambda>p. p\<lparr>from_sender_pid := e\<rparr>)
      (log_event Msip_clear (set_field (arg 0) 0 (set_field (arg 1036) 0 s1))) = recv_state e s"
    by (simp add: s1 recv_state_def)
  moreover have "curr_pid (recv_state e s) = curr_pid s" "proc_curr_idx s1 = proc_curr_idx s"
    using recv_state_nth(1) [OF assms(1)] by (simp_all add: s1)
  ultimately show "proc_syscall s1 = (let t = recv_state e s in
       rbind (find_sender e t) (\<lambda>sender. rbind
         (if sender = - 1
          then Inr (upd_proc (proc_curr_idx s) (\<lambda>p. p\<lparr>proc_stat := PROC_WAIT_TO_RECV\<rparr>) t)
          else rbind (msgcpy sender (curr_pid s) sc_msg sc_msg sizeof_sys_msg t) (proc_set_runnable sender))
         proc_yield))"
    using e by (simp add: proc_syscall_def proc_recv_def sc_fields Let_def MAX_NPROCESS_def cong: if_cong)
qed

lemma recv_state_view:
  assumes "kernel_inv s" "syscall_mapped s (curr_pid s)"
    "q \<in> {1..<int MAX_NPROCESS}" "mapped s q x" "q \<noteq> curr_pid s"
  shows "proc_view (recv_state e s) q x = proc_view s q x"
  using wf_kernelD(2) [OF kernel_invD(2) [OF assms(1)]] kernel_invD(5,8) [OF assms(1)] assms(2-)
  by (simp add: recv_state_def set_field_def store_arg_view)

lemma recv_state_retval: "load_u32 (pmem (recv_state e s)) sc_retval = 0"
  by (simp add: recv_state_def sc_fields store_u32_def load_u32_arg_store)
     (simp add: store_u32_def [symmetric] load_store_u32)

text \<open>
  C18. A receive takes over the message of a process that is blocked sending to the caller:
  of the awaited sender, or of the last one in the process table when the caller waits for
  anybody. The caller finds the sender's whole message in its own buffer, both can run, the
  call returns 0 and the memory of all other processes, the sender included, is unchanged.
\<close>

theorem recv_takes_message:
  assumes inv: "kernel_inv s" and enter: "sys_recv_enter sender n s = Inr (Some s1)"
    and k: "k < MAX_NPROCESS" "waiting_for s k"
      "sender = int k + 1 \<or> sender \<le> 0 \<and> (\<forall>i. k < i \<and> i < MAX_NPROCESS \<longrightarrow> \<not> waiting_for s i)"
    and map: "syscall_mapped s (curr_pid s)" "syscall_mapped s (int k + 1)"
  shows "\<exists>out s'. proc_syscall s1 = Inr (out, s') \<and> kernel_inv s' \<and>
    load_bytes (proc_view s' (curr_pid s)) sc_msg sizeof_sys_msg
      = load_bytes (proc_view s (int k + 1)) sc_msg sizeof_sys_msg \<and>
    load_u32 (proc_view s' (curr_pid s)) sc_retval = 0 \<and>
    runnable (proc_stat (proc_set s' ! k)) \<and> runnable (proc_stat (proc_set s' ! proc_curr_idx s)) \<and>
    (\<forall>q \<in> {1..<int MAX_NPROCESS} - {curr_pid s}. \<forall>x. mapped s q x \<longrightarrow> proc_view s' q x = proc_view s q x)"
proof -
  note inv' = kernel_invD [OF inv]
  define e where "e = (if sender > 0 then sender else 0)"
  let ?t = "recv_state e s" and ?p = "int k + 1"
  note sys = proc_syscall_recv [OF inv enter, folded e_def]
  have k16: "k < 16" using k(1) by (simp add: MAX_NPROCESS_def)
  have used: "proc_stat (proc_set s ! k) \<noteq> PROC_UNUSED" using k(2) by (simp add: waiting_for_def)
  note pk = wf_procsD(3,4) [OF wf_kernelD(1) [OF inv'(2)] k16 used]
  have p: "?p \<in> {1..<int MAX_NPROCESS}" using pk(2) by (simp add: MAX_NPROCESS_def)
  have ne: "?p \<noteq> curr_pid s" using k(2) inv'(4,7) by (auto simp: waiting_for_def)
  have wft: "wf_procs ?t" using wf_kernelD(1) [OF kernel_invD(2) [OF recv_state_inv [OF inv]]] .
  have "find_sender e ?t = Inr ?p"
  proof -
    obtain v where v: "find_sender e ?t = Inr v"
      using sys(1,2) by (cases "e = 0") (simp_all add: find_sender_def pid2idx_def MAX_NPROCESS_def)
    have e: "e = ?p \<or> e = 0 \<and> (\<forall>i. k < i \<and> i < 16 \<longrightarrow> \<not> waiting_for s i)"
      using k(3) by (auto simp: e_def MAX_NPROCESS_def)
    from wft v show ?thesis
    proof (rule find_sender_cases)
      fix i assume i: "i < 15" "v = int i + 1" "waiting_for ?t i"
        "e = 0 \<longrightarrow> (\<forall>j. i < j \<and> j < 16 \<longrightarrow> \<not> waiting_for ?t j)" "e \<noteq> 0 \<longrightarrow> e = v"
      then have "\<not> i < k \<or> e \<noteq> 0" "\<not> k < i \<or> e \<noteq> 0" using k(2) k16 e inv by auto
      with e i(2,5) v show ?thesis by (cases "e = 0") auto
    qed (use k(2) k16 e inv in auto)
  qed
  moreover obtain out s' where d:
    "rbind (rbind (msgcpy ?p (curr_pid s) sc_msg sc_msg sizeof_sys_msg ?t) (proc_set_runnable ?p)) proc_yield
       = Inr (out, s')"
    "kernel_inv s'" "runnable (proc_stat (proc_set s' ! k))"
    "\<And>i. i < 16 \<Longrightarrow> runnable (proc_stat (proc_set ?t ! i)) \<Longrightarrow> runnable (proc_stat (proc_set s' ! i))"
    "mapped s' = mapped ?t"
    "\<And>q x. q \<in> {1..<int MAX_NPROCESS} \<Longrightarrow> mapped ?t q x \<Longrightarrow> proc_view s' q x =
       (if q = curr_pid s \<and> in_range x (arg 4) 1032 then proc_view ?t ?p x else proc_view ?t q x)"
    by (rule deliver_ok [of ?t ?p "curr_pid s" k])
       (use kernel_invD(1) [OF recv_state_inv [OF inv]] inv'(8) p k16 used map in
         \<open>simp_all add: syscall_mapped_def recv_state_nth [OF inv]\<close>)
  ultimately have "proc_syscall s1 = Inr (out, s')" by (simp add: sys(3))
  moreover have "proc_view s' (curr_pid s) (arg i) = proc_view s ?p (arg i)" if "4 \<le> i" "i < 1036" for i
    using that d(6) [OF inv'(8), of "arg i"] syscall_mappedD [OF map(1), of i] syscall_mappedD [OF map(2), of i]
      recv_state_view [OF inv map(1) p _ ne] by (simp add: in_range_arg)
  then have "load_bytes (proc_view s' (curr_pid s)) sc_msg sizeof_sys_msg
      = load_bytes (proc_view s ?p) sc_msg sizeof_sys_msg" by (simp add: sc_fields load_bytes_arg)
  moreover have "proc_view s' (curr_pid s) (arg (1036 + i)) = pmem ?t (arg (1036 + i))" if "i < 4" for i
    using d(6) [OF inv'(8), of "arg (1036 + i)"] syscall_mappedD [OF map(1), of "1036 + i"] that inv'(5)
    by (simp add: in_range_arg view_arg)
  then have "load_u32 (proc_view s' (curr_pid s)) sc_retval = 0"
    using recv_state_retval [of e s] load_u32_cong [of "proc_view s' (curr_pid s)" 1036 "pmem ?t"]
    by (simp add: sc_fields)
  moreover have "proc_view s' q x = proc_view s q x"
    if "q \<in> {1..<int MAX_NPROCESS} - {curr_pid s}" "mapped s q x" for q x
    using that d(6) [of q x] recv_state_view [OF inv map(1), of q x] by auto
  moreover have "runnable (proc_stat (proc_set s' ! proc_curr_idx s))"
    using d(4) [of "proc_curr_idx s"] inv'(4,6) by (simp add: runnable_def recv_state_nth [OF inv])
  ultimately show ?thesis using d(2,3) by blast
qed

section \<open>Every trap keeps the invariant and the contexts of suspended processes\<close>

text \<open>A process that has run, whose stack pointer, program counter and stack copy are valid.\<close>

definition started :: "proc_status \<Rightarrow> bool" where
  "started st \<longleftrightarrow> st \<notin> {PROC_UNUSED, PROC_LOADING, PROC_READY}"

definition ctx_frame :: "'a kernel_scheme \<Rightarrow> 'a kernel_scheme \<Rightarrow> bool" where
  "ctx_frame s s' \<longleftrightarrow> proc_stack s' = proc_stack s \<and>
     (\<forall>i < 16. proc_sp (proc_set s' ! i) = proc_sp (proc_set s ! i) \<and>
        proc_mepc (proc_set s' ! i) = proc_mepc (proc_set s ! i) \<and>
        proc_pid (proc_set s' ! i) = proc_pid (proc_set s ! i) \<and>
        (started (proc_stat (proc_set s ! i)) \<longrightarrow> started (proc_stat (proc_set s' ! i))))"

definition sched_ok :: "'a kernel_scheme \<Rightarrow> yield_outcome \<times> 'a kernel_scheme \<Rightarrow> bool" where
  "sched_ok s r \<longleftrightarrow> kernel_inv (snd r) \<and> ctx_frame s (snd r) \<and>
     (fst r = Enter_app \<longrightarrow> \<not> started (proc_stat (proc_set s ! proc_curr_idx (snd r))))"

lemma ctx_frame_refl: "ctx_frame s s" by (simp add: ctx_frame_def)

lemma ctx_frame_same: "proc_set s' = proc_set s \<Longrightarrow> proc_stack s' = proc_stack s \<Longrightarrow> ctx_frame s s'"
  by (simp add: ctx_frame_def)

lemma ctx_frame_trans: "ctx_frame s t \<Longrightarrow> ctx_frame t u \<Longrightarrow> ctx_frame s u"
  by (simp add: ctx_frame_def)

lemma ctx_frame_upd:
  assumes "\<And>p. proc_sp (f p) = proc_sp p \<and> proc_mepc (f p) = proc_mepc p \<and> proc_pid (f p) = proc_pid p \<and>
      (started (proc_stat p) \<longrightarrow> started (proc_stat (f p)))" "length (proc_set s) = 16"
  shows "ctx_frame s (upd_proc i f s)"
  using assms by (cases "i < 16") (auto simp: ctx_frame_def upd_proc_nth, auto simp: upd_proc_def)

lemma sched_ok_trans:
  assumes "ctx_frame s t" "sched_ok t r"
  shows "sched_ok s r"
proof -
  have "proc_curr_idx (snd r) < 16" using assms(2) kernel_invD(6) [of "snd r"] by (simp add: sched_ok_def)
  with assms show ?thesis by (auto simp: sched_ok_def ctx_frame_def)
qed

lemma yield_sched:
  assumes pre: "yield_pre s" and y: "proc_yield s = Inr r"
  shows "sched_ok s r"
proof -
  have wf: "wf_kernel s" "only_current_runs s" using pre by (simp_all add: yield_pre_def)
  note wfp = wf_kernelD(1) [OF wf(1)]
  obtain n where n: "next_runnable s = Some n" using y by (auto simp: proc_yield_def split: option.splits)
  obtain s' where s': "proc_yield s = Inr (if proc_stat (proc_set s ! n) = PROC_READY then Enter_app else Resume, s')"
    "proc_curr_idx s' = n" "proc_set s' = yielded s n" "proc_stack s' = proc_stack s"
    by (rule proc_yield_ok [OF wf n])
  then have r: "r = (if proc_stat (proc_set s ! n) = PROC_READY then Enter_app else Resume, s')" using y by simp
  have n16: "n < 16" using next_runnable_Some(1) [OF n] .
  have "proc_sp (yielded s n ! i) = proc_sp (proc_set s ! i) \<and> proc_mepc (yielded s n ! i) = proc_mepc (proc_set s ! i)"
    if "i < 16" for i
    using that n16 wf_procsD(1,2) [OF wfp] by (auto simp: yielded_def Let_def nth_list_update)
  then have "ctx_frame s s'"
    using s'(3,4) yielded_nth(1,2) [OF wfp n16] by (auto simp: ctx_frame_def started_def demote_def)
  moreover have "kernel_inv s'" using proc_yield_inv [OF pre s'(1)] .
  ultimately show ?thesis using s'(2) by (simp add: sched_ok_def r started_def)
qed

lemma wait_sched:
  assumes "kernel_inv s" "proc_yield (upd_proc (proc_curr_idx s) f s) = Inr r" "\<And>p. proc_pid (f p) = proc_pid p"
    "\<And>p. proc_sp (f p) = proc_sp p \<and> proc_mepc (f p) = proc_mepc p \<and> started (proc_stat (f p))"
  shows "sched_ok s r"
proof -
  note inv = kernel_invD [OF assms(1)]
  have "yield_pre (upd_proc (proc_curr_idx s) f s)"
    using inv(1,6,7) assms(3) by (intro yield_pre_upd) simp_all
  from sched_ok_trans [OF _ yield_sched [OF this assms(2)]] show ?thesis
    using inv(9) assms(3,4) by (simp add: ctx_frame_upd)
qed

lemma deliver_sched:
  assumes pre: "yield_pre s" and "p \<in> {1..<int MAX_NPROCESS}" "q \<in> {1..<int MAX_NPROCESS}"
    and w: "w < 16" "proc_stat (proc_set s ! w) \<noteq> PROC_UNUSED"
    and r: "rbind (rbind (msgcpy p q sc_msg sc_msg sizeof_sys_msg s) (proc_set_runnable (int w + 1))) proc_yield = Inr r"
  shows "sched_ok s r"
proof -
  have wf: "wf_kernel s" using pre by (simp add: yield_pre_def)
  note ps = wf_procsD [OF wf_kernelD(1) [OF wf]]
  have sz: "0 < (1032 :: nat)" "1032 < PAGE_SIZE" by (simp_all add: PAGE_SIZE_def)
  obtain m where m: "msgcpy p q sc_msg sc_msg 1032 s = Inr (s\<lparr>pmem := m, curr_vm_pid := q\<rparr>)"
    by (rule msgcpy_frame [OF wf assms(2,3) sz])
  let ?s1 = "s\<lparr>pmem := m, curr_vm_pid := q\<rparr>"
  let ?s2 = "upd_proc w (\<lambda>p. p\<lparr>proc_stat := PROC_RUNNABLE\<rparr>) ?s1"
  have "yield_pre ?s1"
    using pre wf_kernel_mem [OF wf] assms(3) by (simp add: yield_pre_def only_current_runs_def)
  then have "yield_pre ?s2" using ps(3,4) [OF w] by (intro yield_pre_upd) simp_all
  moreover have "proc_yield ?s2 = Inr r"
    using r m w ps(3) [OF w] by (simp add: proc_set_runnable_def proc_set_status_ok)
  moreover have "ctx_frame s ?s1" by (rule ctx_frame_same) simp_all
  moreover have "ctx_frame ?s1 ?s2" using ps(1) by (intro ctx_frame_upd) (simp_all add: started_def)
  ultimately show ?thesis by (blast intro: sched_ok_trans yield_sched ctx_frame_trans)
qed

lemma proc_send_sched:
  assumes "kernel_inv s" "proc_send s = Inr r"
  shows "sched_ok s r"
proof -
  let ?t = "set_field sc_sender (curr_pid s) s"
  note inv = kernel_invD [OF assms(1)]
  obtain j where j: "pid2idx (get_field sc_receiver ?t) = Inr j" "proc_pid (proc_set s ! j) = get_field sc_receiver ?t"
    and r: "rbind (if proc_stat (proc_set s ! j) \<noteq> PROC_WAIT_TO_RECV \<or>
               (from_sender_pid (proc_set s ! j) \<noteq> curr_pid s \<and> from_sender_pid (proc_set s ! j) \<noteq> 0)
            then Inr (upd_proc (proc_curr_idx s)
                   (\<lambda>p. p\<lparr>proc_stat := PROC_WAIT_TO_SEND, to_receiver_pid := get_field sc_receiver ?t\<rparr>) ?t)
            else rbind (msgcpy (curr_pid s) (get_field sc_receiver ?t) sc_msg sc_msg sizeof_sys_msg ?t)
                   (proc_set_runnable (get_field sc_receiver ?t))) proc_yield = Inr r"
    using assms(2) by (auto simp: proc_send_def Let_def rbind_Inr_iff [of "pid2idx _"] rbind_Inr_iff [of "rassert _ _"]
        rassert_Inr_iff cong: if_cong)
  have j16: "j < 16" "get_field sc_receiver ?t = int j + 1"
    using j(1) by (auto simp: pid2idx_def MAX_NPROCESS_def split: if_splits)
  have "sched_ok ?t r"
  proof (cases "proc_stat (proc_set s ! j) \<noteq> PROC_WAIT_TO_RECV \<or>
               (from_sender_pid (proc_set s ! j) \<noteq> curr_pid s \<and> from_sender_pid (proc_set s ! j) \<noteq> 0)")
    case True
    with r have y: "proc_yield (upd_proc (proc_curr_idx ?t)
        (\<lambda>p. p\<lparr>proc_stat := PROC_WAIT_TO_SEND, to_receiver_pid := get_field sc_receiver ?t\<rparr>) ?t) = Inr r" by simp
    have "kernel_inv ?t" using assms(1) by simp
    from this y show ?thesis by (rule wait_sched) (simp_all add: started_def)
  next
    case False
    then have "proc_stat (proc_set s ! j) \<noteq> PROC_UNUSED" by auto
    moreover from this have "int j + 1 \<in> {1..<int MAX_NPROCESS}"
      using wf_procsD(4) [OF wf_kernelD(1) [OF inv(2)] j16(1)] by (simp add: MAX_NPROCESS_def)
    moreover note r [unfolded if_not_P [OF False] j16(2)]
    ultimately show ?thesis
      using inv(1,8) j16 by (intro deliver_sched [of ?t "curr_pid s" "int j + 1" j r]) simp_all
  qed
  then show ?thesis by (rule sched_ok_trans [rotated]) (simp add: ctx_frame_same)
qed

lemma proc_recv_sched:
  assumes "kernel_inv s" "proc_recv s = Inr r"
  shows "sched_ok s r"
proof -
  let ?e = "get_field sc_sender s"
  let ?t = "upd_proc (proc_curr_idx s) (\<lambda>p. p\<lparr>from_sender_pid := ?e\<rparr>) s"
  note inv = kernel_invD [OF assms(1)]
  have invt: "kernel_inv ?t"
    using yield_pre_upd [OF inv(1,6), of "\<lambda>p. p\<lparr>from_sender_pid := ?e\<rparr>"] inv(4-7,9)
    by (simp add: kernel_inv_def upd_proc_nth)
  obtain v where v: "find_sender ?e ?t = Inr v"
    and r: "rbind (if v = - 1
          then Inr (upd_proc (proc_curr_idx ?t) (\<lambda>p. p\<lparr>proc_stat := PROC_WAIT_TO_RECV\<rparr>) ?t)
          else rbind (msgcpy v (curr_pid ?t) sc_msg sc_msg sizeof_sys_msg ?t) (proc_set_runnable v)) proc_yield = Inr r"
    using assms(2) unfolding proc_recv_def Let_def rbind_Inr_iff [of "find_sender _ _"] rbind_Inr_iff [of "rassert _ _"]
    by blast
  from wf_kernelD(1) [OF kernel_invD(2) [OF invt]] v have "sched_ok ?t r"
  proof (rule find_sender_cases)
    assume "v = - 1"
    with r have "proc_yield (upd_proc (proc_curr_idx ?t) (\<lambda>p. p\<lparr>proc_stat := PROC_WAIT_TO_RECV\<rparr>) ?t) = Inr r"
      by simp
    with invt show ?thesis by (rule wait_sched) (simp_all add: started_def)
  next
    fix k assume k: "k < 15" "v = int k + 1" "waiting_for ?t k"
    then have "proc_stat (proc_set ?t ! k) \<noteq> PROC_UNUSED" by (simp add: waiting_for_def)
    with k r show ?thesis
      using kernel_invD(1,8) [OF invt]
      by (intro deliver_sched [of ?t v "curr_pid ?t" k r]) (auto simp: MAX_NPROCESS_def)
  qed
  moreover have "ctx_frame s ?t" using inv(9) by (intro ctx_frame_upd) simp_all
  ultimately show ?thesis by (rule sched_ok_trans [rotated])
qed

lemma proc_syscall_sched:
  assumes "kernel_inv s" "proc_syscall s = Inr r"
  shows "sched_ok s r"
proof -
  let ?t = "log_event Msip_clear (set_field sc_type 0 (set_field sc_retval 0 s))"
  have t: "kernel_inv ?t" "yield_pre ?t" using assms(1) kernel_invD(1) [of s] by simp_all
  have "sched_ok ?t r"
    using assms(2) proc_send_sched [OF t(1)] proc_recv_sched [OF t(1)] yield_sched [OF t(2)]
    by (auto simp: proc_syscall_def Let_def split: if_splits)
  then show ?thesis by (rule sched_ok_trans [rotated]) (simp add: ctx_frame_same)
qed

definition stack_bytes :: "addr \<Rightarrow> nat" where
  "stack_bytes sp = nat (sint (APPS_STACK_TOP - sp))"

lemma manage_userstack_save:
  assumes inv: "kernel_inv s" and m: "manage_userstack True s = Inr s'"
  defines "n \<equiv> stack_bytes (proc_sp (curr_proc s))" and "c \<equiv> proc_curr_idx s"
  shows "n \<le> 4096" "sint (APPS_STACK_TOP - proc_sp (curr_proc s)) = int n"
    "s' = s\<lparr>proc_stack := (proc_stack s)[Suc c := load_bytes (pmem s) (proc_sp (curr_proc s)) n @
       drop n (proc_stack s ! Suc c)]\<rparr>" "kernel_inv s'"
proof -
  note inv' = kernel_invD [OF inv]
  have st: "length (proc_stack s) = 16" "\<And>st. st \<in> set (proc_stack s) \<Longrightarrow> length st = 4096"
    using inv'(1) by (auto simp: yield_pre_def MAX_NPROCESS_def PAGE_SIZE_def)
  have i: "nat (curr_pid s) = Suc c" using inv'(7) by (simp add: c_def)
  show n: "n \<le> 4096" "sint (APPS_STACK_TOP - proc_sp (curr_proc s)) = int n" and
    s': "s' = s\<lparr>proc_stack := (proc_stack s)[Suc c := load_bytes (pmem s) (proc_sp (curr_proc s)) n @
       drop n (proc_stack s ! Suc c)]\<rparr>"
    using m by (auto simp: manage_userstack_def n_def stack_bytes_def res_simps Let_def i PAGE_SIZE_def split: if_splits)
  have "length (proc_stack s ! Suc c) = 4096" using inv'(6) st by (auto simp: c_def)
  then have "length st = 4096" if "st \<in> set (proc_stack s')" for st
    using that n(1) st(2) by (auto simp: s' dest!: set_update_subset_insert [THEN subsetD])
  then show "kernel_inv s'"
    using inv st(1) by (simp add: s' kernel_inv_def yield_pre_def MAX_NPROCESS_def PAGE_SIZE_def
        wf_kernel_def wf_procs_def wf_mmu_def maps_of_def alloc_inv_def pages_accounted_def private_pages_def
        used_pages_def only_current_runs_def)
qed

lemma manage_userstack_restore:
  assumes inv: "kernel_inv s" and m: "manage_userstack False s = Inr s'"
  defines "n \<equiv> stack_bytes (proc_sp (curr_proc s))" and "c \<equiv> proc_curr_idx s"
  shows "s' = s\<lparr>pmem := store_bytes (pmem s) (proc_sp (curr_proc s)) (take n (proc_stack s ! Suc c))\<rparr>"
    "kernel_inv s'"
proof -
  have i: "nat (curr_pid s) = Suc c" using kernel_invD(7) [OF inv] by (simp add: c_def)
  show s': "s' = s\<lparr>pmem := store_bytes (pmem s) (proc_sp (curr_proc s)) (take n (proc_stack s ! Suc c))\<rparr>"
    using m by (auto simp: manage_userstack_def n_def stack_bytes_def res_simps Let_def i split: if_splits)
  show "kernel_inv s'"
    using inv by (simp add: s' kernel_inv_def yield_pre_def only_current_runs_def)
qed

text \<open>
  A process that is not running and can be resumed: its slot holds the stack pointer and
  program counter of its last trap, its stack copy the bytes of its stack then.
\<close>

definition suspended :: "nat \<Rightarrow> addr \<Rightarrow> addr \<Rightarrow> m_uint8 list \<Rightarrow> 'a kernel_scheme \<Rightarrow> bool" where
  "suspended i sp mepc stack s \<longleftrightarrow> i < 15 \<and> i \<noteq> proc_curr_idx s \<and> started (proc_stat (proc_set s ! i)) \<and>
     proc_sp (proc_set s ! i) = sp \<and> proc_mepc (proc_set s ! i) = mepc \<and>
     stack_bytes sp = length stack \<and> take (length stack) (proc_stack s ! Suc i) = stack"

lemma intr_sched_cases:
  assumes "kernel_inv s" "intr_entry ctrl_c trap_id s = Inr r"
  shows "kernel_inv (snd r)" "sched_ok s r \<or> (fst r = Resume \<and> proc_curr_idx (snd r) = proc_curr_idx s \<and>
      proc_stack (snd r) = proc_stack s \<and>
      (\<forall>j. j \<noteq> proc_curr_idx s \<longrightarrow> proc_set (snd r) ! j = proc_set s ! j))"
proof -
  note inv = kernel_invD [OF assms(1)]
  have "kernel_inv (upd_proc (proc_curr_idx s) (\<lambda>p. p\<lparr>proc_mepc := a\<rparr>) (log_event e s))" for a e
    using yield_pre_upd [of "log_event e s" "proc_curr_idx s" "\<lambda>p. p\<lparr>proc_mepc := a\<rparr>"] inv
    by (simp add: kernel_inv_def upd_proc_nth)
  then show "kernel_inv (snd r)"
    using assms proc_syscall_sched [OF assms(1)] yield_sched [OF inv(1)]
    by (auto simp: intr_entry_def sched_ok_def split: if_splits)
  show "sched_ok s r \<or> (fst r = Resume \<and> proc_curr_idx (snd r) = proc_curr_idx s \<and>
      proc_stack (snd r) = proc_stack s \<and>
      (\<forall>j. j \<noteq> proc_curr_idx s \<longrightarrow> proc_set (snd r) ! j = proc_set s ! j))"
    using assms(2) proc_syscall_sched [OF assms(1)] yield_sched [OF inv(1)] inv(6,9)
    by (auto simp: intr_entry_def upd_proc_nth split: if_splits)
qed

text \<open>
  C8. Interrupts keep the kernel invariant, whatever the running process has put into its
  system call arguments: if the handler of a timer or software interrupt returns, the
  tables are well-formed, exactly the current process is \<^verbatim>\<open>PROC_RUNNING\<close> and the execution
  memory is its own.
\<close>

theorem intr_entry_inv:
  assumes "kernel_inv s" "intr_entry ctrl_c trap_id s = Inr (out, s')"
  shows "kernel_inv s'"
  using intr_sched_cases(1) [OF assms] by simp

text \<open>The phases of a trap: the context of the running process saved, the handler run.\<close>

lemma trap_handler_phases:
  assumes inv: "kernel_inv s" and t: "trap_handler ctrl_c mcause mepc ksp usp s = Inr (res, s')"
  defines "c \<equiv> proc_curr_idx s" and "stk \<equiv> load_bytes (pmem s) usp (stack_bytes usp)"
  obtains s2 out s3 where "kernel_inv s2" "proc_curr_idx s2 = c" "stack_bytes usp \<le> 4096"
    "proc_sp (curr_proc s2) = usp" "proc_mepc (curr_proc s2) = mepc"
    "\<forall>i. i \<noteq> c \<longrightarrow> proc_set s2 ! i = proc_set s ! i" "\<forall>i. i \<noteq> Suc c \<longrightarrow> proc_stack s2 ! i = proc_stack s ! i"
    "take (stack_bytes usp) (proc_stack s2 ! Suc c) = stk"
    "intr_entry ctrl_c (unat (mcause AND 0x3FF)) s2 = Inr (out, s3)"
    "out = Enter_app \<and> res = At_entry \<and> s' = s3 \<or>
     out = Resume \<and> manage_userstack False s3 = Inr s' \<and>
       res = Back_to (proc_mepc (curr_proc s')) (proc_sp (curr_proc s'))"
proof -
  note inv' = kernel_invD [OF inv]
  let ?f = "\<lambda>p. p\<lparr>proc_sp := usp\<rparr>" and ?g = "\<lambda>p. p\<lparr>proc_mepc := mepc\<rparr>"
  let ?s1 = "upd_proc c ?g (upd_proc c ?f s)"
  have c: "c < 15" "length (proc_set s) = 16" using inv'(6,9) by (simp_all add: c_def)
  have pre: "yield_pre (upd_proc c ?f s)"
    using inv'(1,6,7) unfolding c_def by (intro yield_pre_upd) simp_all
  have "yield_pre ?s1"
    using c inv'(7) by (intro yield_pre_upd [OF pre c(1)]) (simp_all add: upd_proc_nth c_def)
  then have inv1: "kernel_inv ?s1"
    using inv'(4,5) c by (simp add: kernel_inv_def upd_proc_nth c_def)
  obtain s2 out s3 where s2: "manage_userstack True ?s1 = Inr s2"
    and intr: "mcause AND push_bit 31 1 \<noteq> 0" "intr_entry ctrl_c (unat (mcause AND 0x3FF)) s2 = Inr (out, s3)"
    and rest: "(case out of Enter_app \<Rightarrow> Inr (At_entry, s3)
               | Resume \<Rightarrow> rbind (manage_userstack False s3) (\<lambda>s.
                   Inr (Back_to (proc_mepc (curr_proc s)) (proc_sp (curr_proc s)), s))) = Inr (res, s')"
    using t by (auto simp: trap_handler_def ctx_entry_def excp_entry_def res_simps Let_def c_def split: if_splits)
  have sp: "proc_sp (curr_proc ?s1) = usp" "proc_mepc (curr_proc ?s1) = mepc"
    using c by (simp_all add: upd_proc_nth c_def)
  note save = manage_userstack_save [OF inv1 s2, unfolded sp]
  have len: "Suc c < length (proc_stack s)"
    using inv'(1) c(1) by (simp add: yield_pre_def MAX_NPROCESS_def)
  show ?thesis
  proof (rule that [of s2 out s3])
    show "kernel_inv s2" by (rule save(4))
    show "stack_bytes usp \<le> 4096" by (rule save(1))
    show "intr_entry ctrl_c (unat (mcause AND 0x3FF)) s2 = Inr (out, s3)" by (rule intr(2))
    show "take (stack_bytes usp) (proc_stack s2 ! Suc c) = stk"
      using len by (simp add: save(3) stk_def c_def)
    show "out = Enter_app \<and> res = At_entry \<and> s' = s3 \<or>
     out = Resume \<and> manage_userstack False s3 = Inr s' \<and>
       res = Back_to (proc_mepc (curr_proc s')) (proc_sp (curr_proc s'))"
      using rest by (cases out) (auto simp: res_simps)
  qed (use sp c in \<open>simp_all add: save(3) c_def upd_proc_nth\<close>)
qed

lemma suspended_resume:
  assumes "kernel_inv s2" "intr_entry ctrl_c trap_id s2 = Inr (out, s3)"
    and i: "i < 15" "i \<noteq> proc_curr_idx s2 \<or> proc_curr_idx s3 \<noteq> proc_curr_idx s2" "started (proc_stat (proc_set s2 ! i))"
    and ctx: "proc_sp (proc_set s2 ! i) = sp" "proc_mepc (proc_set s2 ! i) = m"
      "stack_bytes sp = length stk" "take (length stk) (proc_stack s2 ! Suc i) = stk"
    and rest: "out = Enter_app \<and> res = At_entry \<and> s' = s3 \<or>
     out = Resume \<and> manage_userstack False s3 = Inr s' \<and>
       res = Back_to (proc_mepc (curr_proc s')) (proc_sp (curr_proc s'))"
  shows "kernel_inv s' \<and> proc_curr_idx s' = proc_curr_idx s3 \<and>
    (if proc_curr_idx s' = i then res = Back_to m sp \<and> load_bytes (pmem s') sp (length stk) = stk
     else suspended i sp m stk s')"
proof -
  note inv3 = intr_sched_cases(1) [OF assms(1,2), simplified]
  have st: "length (proc_stack s3 ! Suc i) = 4096"
    using inv3 i(1) by (auto simp: kernel_inv_def yield_pre_def PAGE_SIZE_def MAX_NPROCESS_def)
  have s3: "proc_stack s3 = proc_stack s2" "proc_sp (proc_set s3 ! i) = sp" "proc_mepc (proc_set s3 ! i) = m"
    "started (proc_stat (proc_set s3 ! i))" "proc_curr_idx s3 = i \<Longrightarrow> out = Resume"
    using intr_sched_cases(2) [OF assms(1,2)] i ctx(1,2)
    by (cases out; auto simp: sched_ok_def ctx_frame_def)+
  show ?thesis
  proof (cases "out = Enter_app")
    case True
    with rest s3 inv3 i(1) ctx(3,4) show ?thesis by (auto simp: suspended_def)
  next
    case False
    then have r: "manage_userstack False s3 = Inr s'" "res = Back_to (proc_mepc (curr_proc s')) (proc_sp (curr_proc s'))"
      using rest by auto
    note restore = manage_userstack_restore [OF inv3 r(1)]
    show ?thesis
    proof (cases "proc_curr_idx s3 = i")
      case True
      have "length stk \<le> 4096" using st s3(1) ctx(4) by (metis length_take min.cobounded1)
      then show ?thesis
        using True restore r(2) s3 ctx(3,4) load_store_bytes [of stk "pmem s3" sp] by simp
    next
      case False
      then show ?thesis
        using restore s3 i(1) ctx(3,4) by (auto simp: suspended_def)
    qed
  qed
qed

text \<open>
  C17. A trap saves the context of the process it interrupts. The handler, if it returns, either
  goes back to that process, or leaves it suspended with the stack pointer and program
  counter of the trap and a copy of its stack.
\<close>

theorem trap_suspends:
  assumes "kernel_inv s" "trap_handler ctrl_c mcause mepc ksp usp s = Inr (res, s')"
  shows "kernel_inv s' \<and> (proc_curr_idx s' \<noteq> proc_curr_idx s \<longrightarrow>
    suspended (proc_curr_idx s) usp mepc (load_bytes (pmem s) usp (stack_bytes usp)) s')"
proof -
  obtain s2 out s3 where 2: "kernel_inv s2" "proc_curr_idx s2 = proc_curr_idx s" "stack_bytes usp \<le> 4096"
    "proc_sp (curr_proc s2) = usp" "proc_mepc (curr_proc s2) = mepc"
    "take (stack_bytes usp) (proc_stack s2 ! Suc (proc_curr_idx s)) = load_bytes (pmem s) usp (stack_bytes usp)"
    and intr: "intr_entry ctrl_c (unat (mcause AND 0x3FF)) s2 = Inr (out, s3)"
    and rest: "out = Enter_app \<and> res = At_entry \<and> s' = s3 \<or>
     out = Resume \<and> manage_userstack False s3 = Inr s' \<and>
       res = Back_to (proc_mepc (curr_proc s')) (proc_sp (curr_proc s'))"
    by (rule trap_handler_phases [OF assms])
  have inv': "kernel_inv s' \<and> proc_curr_idx s' = proc_curr_idx s3"
    using rest intr_sched_cases(1) [OF 2(1) intr] manage_userstack_restore [of s3 s'] by auto
  show ?thesis
  proof (cases "proc_curr_idx s' = proc_curr_idx s")
    case False
    then show ?thesis
      using suspended_resume [OF 2(1) intr _ _ _ _ _ _ _ rest, of "proc_curr_idx s" usp mepc
          "load_bytes (pmem s) usp (stack_bytes usp)"] inv' 2 kernel_invD(4,6) [OF 2(1)]
      by (simp add: started_def)
  qed (use inv' in simp)
qed

text \<open>
  C16. A suspended process keeps its context while others run. A trap of another process that
  returns leaves it suspended with the same context, or resumes it exactly where it was:
  same program counter, same stack pointer, and its stack bytes back in memory.
\<close>

theorem trap_resumes:
  assumes "kernel_inv s" "suspended i sp pc stack s"
    "trap_handler ctrl_c mcause mepc ksp usp s = Inr (res, s')"
  shows "if proc_curr_idx s' = i then res = Back_to pc sp \<and> load_bytes (pmem s') sp (length stack) = stack
    else suspended i sp pc stack s'"
proof -
  have i: "i < 15" "i \<noteq> proc_curr_idx s" "started (proc_stat (proc_set s ! i))"
    using assms(2) by (simp_all add: suspended_def)
  obtain s2 out s3 where 2: "kernel_inv s2" "proc_curr_idx s2 = proc_curr_idx s"
    "\<forall>j. j \<noteq> proc_curr_idx s \<longrightarrow> proc_set s2 ! j = proc_set s ! j"
    "\<forall>j. j \<noteq> Suc (proc_curr_idx s) \<longrightarrow> proc_stack s2 ! j = proc_stack s ! j"
    and intr: "intr_entry ctrl_c (unat (mcause AND 0x3FF)) s2 = Inr (out, s3)"
    and rest: "out = Enter_app \<and> res = At_entry \<and> s' = s3 \<or>
     out = Resume \<and> manage_userstack False s3 = Inr s' \<and>
       res = Back_to (proc_mepc (curr_proc s')) (proc_sp (curr_proc s'))"
    by (rule trap_handler_phases [OF assms(1,3)])
  have "proc_sp (proc_set s2 ! i) = sp" "proc_mepc (proc_set s2 ! i) = pc" "stack_bytes sp = length stack"
    "take (length stack) (proc_stack s2 ! Suc i) = stack" "started (proc_stat (proc_set s2 ! i))"
    using assms(2) 2(3,4) by (simp_all add: suspended_def)
  then show ?thesis
    using suspended_resume [OF 2(1) intr i(1) _ _ _ _ _ _ rest, of sp pc stack] i(2) 2(2) by simp
qed

lemma yielded_to_receiver:
  assumes "wf_procs s" "n < 16" "i < 16"
  shows "to_receiver_pid (yielded s n ! i) = to_receiver_pid (proc_set s ! i)"
  using assms wf_procsD(1,2) [OF assms(1)] by (auto simp: yielded_def Let_def nth_list_update)

text \<open>
  A send to a process that is not waiting for it blocks the sender without losing
  anything: if the scheduler finds another process, the sender is \<^verbatim>\<open>PROC_WAIT_TO_SEND\<close> for
  that receiver, its buffer holds the message under its true pid, as a later receive needs
  it, and no other process's memory changes.
\<close>

theorem send_blocks:
  assumes inv: "kernel_inv s" and enter: "sys_send_enter (int j + 1) msg s = Some s1"
    and recv: "j < MAX_NPROCESS" "proc_pid (proc_set s ! j) = int j + 1"
      "\<not> (proc_stat (proc_set s ! j) = PROC_WAIT_TO_RECV \<and> from_sender_pid (proc_set s ! j) \<in> {0, curr_pid s})"
    and map: "syscall_mapped s (curr_pid s)"
    and ret: "proc_syscall s1 = Inr (out, s')"
  shows "kernel_inv s' \<and> proc_stat (proc_set s' ! proc_curr_idx s) = PROC_WAIT_TO_SEND \<and>
    to_receiver_pid (proc_set s' ! proc_curr_idx s) = int j + 1 \<and>
    load_bytes (proc_view s' (curr_pid s)) sc_content (length msg) = msg \<and>
    load_u32 (proc_view s' (curr_pid s)) sc_sender = word_of_int (curr_pid s) \<and>
    (\<forall>q \<in> {1..<int MAX_NPROCESS} - {curr_pid s}. \<forall>x. mapped s q x \<longrightarrow> proc_view s' q x = proc_view s q x)"
proof -
  note inv' = kernel_invD [OF inv]
  let ?c = "proc_curr_idx s"
  let ?t = "send_state (int j + 1) msg s"
  let ?f = "\<lambda>p. p\<lparr>proc_stat := PROC_WAIT_TO_SEND, to_receiver_pid := int j + 1\<rparr>"
  let ?u = "upd_proc ?c ?f ?t"
  have len: "length msg \<le> 1024"
    using enter by (auto simp: sys_send_enter_def SYSCALL_MSG_LEN_def split: if_splits)
  have j16: "j < 16" using recv(1) by (simp add: MAX_NPROCESS_def)
  have y: "proc_yield ?u = Inr (out, s')"
    using ret recv(3) j16
    by (auto simp: proc_syscall_send [OF enter] Let_def pid2idx_pid recv(2) split: if_splits)
  have pre: "yield_pre ?u" using inv'(1,6,7) by (intro yield_pre_upd) simp_all
  then have wf: "wf_kernel ?u" "only_current_runs ?u" by (simp_all add: yield_pre_def)
  obtain n where n: "next_runnable ?u = Some n" using y by (auto simp: proc_yield_def split: option.splits)
  obtain t where t: "proc_yield ?u = Inr (if proc_stat (proc_set ?u ! n) = PROC_READY then Enter_app else Resume, t)"
    "proc_set t = yielded ?u n" "mapped t = mapped ?u"
    "\<forall>q \<in> {1..<int MAX_NPROCESS}. \<forall>a. mapped ?u q a \<longrightarrow> proc_view t q a = proc_view ?u q a"
    by (rule proc_yield_ok [OF wf n])
  have s': "s' = t" using y t(1) by simp
  have uc: "proc_set ?u ! ?c = ?f (curr_proc s)" using inv'(6,9) by (simp add: upd_proc_nth)
  have nc: "n \<noteq> ?c" using next_runnable_Some(2) [OF n] uc by (auto simp: runnable_def)
  have c16: "?c < 16" using inv'(6) by simp
  note yn = yielded_nth(1) [OF wf_kernelD(1) [OF wf(1)] next_runnable_Some(1) [OF n] c16]
    yielded_to_receiver [OF wf_kernelD(1) [OF wf(1)] next_runnable_Some(1) [OF n] c16]
  have "proc_stat (proc_set s' ! ?c) = PROC_WAIT_TO_SEND \<and> to_receiver_pid (proc_set s' ! ?c) = int j + 1"
    using yn nc uc by (simp add: s' t(2) demote_def)
  moreover have v: "proc_view s' q x = proc_view ?t q x" if "q \<in> {1..<int MAX_NPROCESS}" "mapped s q x" for q x
    using t(4) that by (simp add: s')
  have vc: "proc_view s' (curr_pid s) (arg k) = pmem ?t (arg k)" if "k < 1040" for k
    using v [OF inv'(8), of "arg k"] syscall_mappedD [OF map that] inv'(5) by (simp add: view_arg)
  have "load_bytes (proc_view s' (curr_pid s)) sc_content (length msg) = load_bytes (pmem ?t) sc_content (length msg)"
    using len vc by (simp add: sc_fields load_bytes_arg)
  then have "load_bytes (proc_view s' (curr_pid s)) sc_content (length msg) = msg"
    using send_state_content(1) [OF len] by simp
  moreover have "load_u32 (proc_view s' (curr_pid s)) sc_sender = word_of_int (curr_pid s)"
    using send_state_content(2) [OF len, of "int j + 1" s] vc load_u32_cong [of "proc_view s' (curr_pid s)" 4 "pmem ?t"]
    by (simp add: sc_fields)
  moreover have "proc_view s' q x = proc_view s q x"
    if "q \<in> {1..<int MAX_NPROCESS} - {curr_pid s}" "mapped s q x" for q x
    using that v [of q x] send_state_view [OF inv map len, of q x] by auto
  moreover have "kernel_inv s'" using proc_yield_inv [OF pre y] .
  ultimately show ?thesis by blast
qed

section \<open>Witnesses\<close>

lemma demo_kernel_inv:
  assumes "proc_pid p1 = 1" "proc_pid p2 = 2" "proc_pid p3 = 6" "proc_stat p1 = PROC_RUNNING"
    "proc_stat p2 \<noteq> PROC_RUNNING" "proc_stat p3 \<noteq> PROC_RUNNING"
  shows "kernel_inv (demo_kernel m p1 p2 p3)"
proof -
  have "only_current_runs (demo_kernel m p1 p2 p3)"
    using assms by (auto simp: only_current_runs_def demo_simps)
  moreover have "curr_vm_pid (demo_kernel m p1 p2 p3) = 1" "proc_stack (demo_kernel m p1 p2 p3) = replicate 16 (replicate 4096 0)"
    by (simp_all add: demo_kernel_def)
  ultimately show ?thesis
    using demo_kernel_wf [of p1 p2 p3 m] assms
    by (auto simp: kernel_inv_def yield_pre_def demo_nth MAX_NPROCESS_def PAGE_SIZE_def)
qed

lemma demo_syscall_mapped:
  assumes "q \<in> {1, 2}"
  shows "syscall_mapped (demo_kernel m p1 p2 p3) q"
proof -
  have rows: "app_pages (demo_kernel m p1 p2 p3) = two_rows 0x80601000" by (simp add: demo_kernel_def)
  show ?thesis
    using assms two_rows_maps(1,2) [OF rows]
    by (auto simp: syscall_mapped_def mapped_def mapping_at_def in_range_def sizeof_syscall_def
        SYSCALL_ARG_def PAGE_SIZE_def SYSCALL_MSG_LEN_def)
qed

theorem send_delivers_witness:
  "\<exists>s1 out s'. sys_send_enter 2 [10, 20, 30] (demo_kernel (\<lambda>_. 0) (demo_proc 1 PROC_RUNNING)
       (demo_proc 2 PROC_WAIT_TO_RECV) (demo_proc 6 PROC_UNUSED)) = Some s1 \<and>
     proc_syscall s1 = Inr (out, s') \<and>
     load_bytes (proc_view s' 2) sc_content 3 = [10, 20, 30] \<and> load_u32 (proc_view s' 2) sc_sender = 1"
proof -
  let ?s = "demo_kernel (\<lambda>_. 0) (demo_proc 1 PROC_RUNNING) (demo_proc 2 PROC_WAIT_TO_RECV) (demo_proc 6 PROC_UNUSED)"
  have inv: "kernel_inv ?s" by (rule demo_kernel_inv) (simp_all add: demo_proc_def)
  obtain s1 where s1: "sys_send_enter 2 [10, 20, 30] ?s = Some s1"
    by (simp add: sys_send_enter_def SYSCALL_MSG_LEN_def)
  then have s1': "sys_send_enter (int 1 + 1) [10, 20, 30] ?s = Some s1" by simp
  have "curr_pid ?s = 1" by (simp add: demo_nth demo_proc_def)
  then show ?thesis
    using send_delivers [OF inv s1'] s1 demo_syscall_mapped [of 1] demo_syscall_mapped [of 2]
    by (auto simp: demo_simps numeral_3_eq_3)
qed

theorem recv_takes_message_witness:
  "\<exists>s1 out s'. sys_recv_enter 0 3 (demo_kernel (\<lambda>_. 7) (demo_proc 1 PROC_RUNNING)
       ((demo_proc 2 PROC_WAIT_TO_SEND)\<lparr>to_receiver_pid := 1\<rparr>) (demo_proc 6 PROC_UNUSED)) = Inr (Some s1) \<and>
     proc_syscall s1 = Inr (out, s') \<and> runnable (proc_stat (proc_set s' ! 1))"
proof -
  let ?s = "demo_kernel (\<lambda>_. 7) (demo_proc 1 PROC_RUNNING) ((demo_proc 2 PROC_WAIT_TO_SEND)\<lparr>to_receiver_pid := 1\<rparr>)
    (demo_proc 6 PROC_UNUSED)"
  have inv: "kernel_inv ?s" by (rule demo_kernel_inv) (simp_all add: demo_proc_def)
  obtain s1 where s1: "sys_recv_enter 0 3 ?s = Inr (Some s1)"
    by (simp add: sys_recv_enter_def SYSCALL_MSG_LEN_def)
  have "curr_pid ?s = 1" by (simp add: demo_nth demo_proc_def)
  moreover have "waiting_for ?s 1" "\<forall>i. 1 < i \<and> i < MAX_NPROCESS \<longrightarrow> \<not> waiting_for ?s i"
    by (auto simp: waiting_for_def demo_simps)
  ultimately show ?thesis
    using recv_takes_message [OF inv s1, of 1] s1 demo_syscall_mapped [of 1] demo_syscall_mapped [of 2]
    by (auto simp: MAX_NPROCESS_def)
qed

theorem intr_entry_inv_witness:
  "\<exists>s'. intr_entry False INTR_ID_TIMER (demo_kernel (\<lambda>_. 0) (demo_proc 1 PROC_RUNNING)
      (demo_proc 2 PROC_READY) (demo_proc 6 PROC_UNUSED)) = Inr (Resume, s') \<and> kernel_inv s'"
proof -
  let ?s = "demo_kernel (\<lambda>_. 0) (demo_proc 1 PROC_RUNNING) (demo_proc 2 PROC_READY) (demo_proc 6 PROC_UNUSED)"
  have inv: "kernel_inv ?s" by (rule demo_kernel_inv) (simp_all add: demo_proc_def)
  have "intr_entry False INTR_ID_TIMER ?s = Inr (Resume, log_event Timer_reset ?s)"
    by (simp add: intr_entry_def demo_nth demo_proc_def GPID_SHELL_def)
  with intr_entry_inv [OF inv this] show ?thesis by blast
qed

theorem send_blocks_witness:
  "\<exists>s1 out s'. sys_send_enter 2 [10] (demo_kernel (\<lambda>_. 0) (demo_proc 1 PROC_RUNNING)
       (demo_proc 2 PROC_RUNNABLE) (demo_proc 6 PROC_UNUSED)) = Some s1 \<and>
     proc_syscall s1 = Inr (out, s') \<and> proc_stat (proc_set s' ! 0) = PROC_WAIT_TO_SEND"
proof -
  let ?s = "demo_kernel (\<lambda>_. 0) (demo_proc 1 PROC_RUNNING) (demo_proc 2 PROC_RUNNABLE) (demo_proc 6 PROC_UNUSED)"
  have inv: "kernel_inv ?s" by (rule demo_kernel_inv) (simp_all add: demo_proc_def)
  obtain s1 where s1: "sys_send_enter 2 [10] ?s = Some s1"
    by (simp add: sys_send_enter_def SYSCALL_MSG_LEN_def)
  then have s1': "sys_send_enter (int 1 + 1) [10] ?s = Some s1" by simp
  let ?u = "upd_proc 0 (\<lambda>p. p\<lparr>proc_stat := PROC_WAIT_TO_SEND, to_receiver_pid := 2\<rparr>) (send_state 2 [10] ?s)"
  have u: "proc_syscall s1 = proc_yield ?u"
    by (simp add: proc_syscall_send [OF s1] Let_def pid2idx_def MAX_NPROCESS_def demo_nth demo_proc_def)
  have pre: "yield_pre ?u"
    using kernel_invD(1) [OF inv] by (intro yield_pre_upd) (simp_all add: demo_simps)
  have len: "length (proc_set ?s) = 16" using kernel_invD(9) [OF inv] .
  have "runnable (proc_stat (proc_set ?u ! 1))" using len by (simp add: upd_proc_nth demo_simps)
  then have "next_runnable ?u \<noteq> None" by (subst next_runnable_None_iff) (auto intro!: exI [of _ 1])
  then obtain n where "next_runnable ?u = Some n" by auto
  moreover have "wf_kernel ?u" "only_current_runs ?u" using pre by (simp_all add: yield_pre_def)
  ultimately obtain out s' where y: "proc_yield ?u = Inr (out, s')" by (metis proc_yield_ok)
  have c: "curr_pid ?s = 1" "proc_curr_idx ?s = 0" "proc_pid (proc_set ?s ! 1) = int 1 + 1"
    "proc_stat (proc_set ?s ! 1) \<noteq> PROC_WAIT_TO_RECV" "(1 :: nat) < MAX_NPROCESS"
    by (simp_all add: demo_simps)
  show ?thesis
    using send_blocks [OF inv s1' c(5,3) _ _ u [unfolded y]] demo_syscall_mapped [of 1] c s1 u y by auto
qed

text \<open>Process 1 yields by a system call, and process 2, at index 1, is next.\<close>

definition yield_demo :: "proc_status \<Rightarrow> kernel" where
  "yield_demo st = demo_kernel (store_u32 (\<lambda>_. 0) SYSCALL_ARG 3) (demo_proc 1 PROC_RUNNING) (demo_proc 2 st)
     (demo_proc 6 PROC_UNUSED)"

lemma yield_demo_inv: "st \<noteq> PROC_RUNNING \<Longrightarrow> kernel_inv (yield_demo st)"
  unfolding yield_demo_def by (rule demo_kernel_inv) (simp_all add: demo_proc_def)

lemma yield_demo_trap:
  assumes "st \<in> {PROC_READY, PROC_RUNNABLE}"
  shows "\<exists>res s'. trap_handler False 0x80000003 0x80400100 0x80500000 0x807ffff0 (yield_demo st) = Inr (res, s') \<and>
    proc_curr_idx s' = 1"
proof -
  let ?s = "yield_demo st"
  let ?s1 = "upd_proc 0 (\<lambda>p. p\<lparr>proc_mepc := 0x80400100\<rparr>) (upd_proc 0 (\<lambda>p. p\<lparr>proc_sp := 0x807ffff0\<rparr>) ?s)"
  have s: "proc_curr_idx ?s = 0" "proc_set ?s ! 0 = demo_proc 1 PROC_RUNNING" "proc_set ?s ! 1 = demo_proc 2 st"
    "length (proc_set ?s) = 16" "proc_stack ?s = replicate 16 (replicate 4096 0)"
    by (simp_all add: yield_demo_def demo_nth) (simp_all add: demo_kernel_def)
  have inv: "kernel_inv ?s" using assms by (intro yield_demo_inv) auto
  have pre: "yield_pre (upd_proc 0 (\<lambda>p. p\<lparr>proc_sp := 0x807ffff0\<rparr>) ?s)"
    using kernel_invD(1) [OF inv] s by (intro yield_pre_upd) (simp_all add: demo_proc_def)
  have "yield_pre ?s1" using s by (intro yield_pre_upd [OF pre]) (simp_all add: upd_proc_nth demo_proc_def)
  then have inv1: "kernel_inv ?s1"
    using s kernel_invD(5) [OF inv] by (simp add: kernel_inv_def upd_proc_nth demo_proc_def)
  obtain s2 where s2: "manage_userstack True ?s1 = Inr s2"
    using s by (simp add: manage_userstack_def upd_proc_nth demo_proc_def APPS_STACK_TOP_def PAGE_SIZE_def)
  note save = manage_userstack_save [OF inv1 s2]
  let ?t = "log_event Msip_clear (set_field sc_type 0 (set_field sc_retval 0 s2))"
  have t: "kernel_inv ?t" using save(4) by simp
  have ty: "get_field sc_type s2 = 3"
    by (simp add: save(3) get_field_def yield_demo_def sc_type_def demo_kernel_def upd_proc_def load_store_u32)
  have set2: "proc_set ?t ! 1 = demo_proc 2 st" "proc_curr_idx ?t = 0" using s by (simp_all add: save(3) upd_proc_nth)
  have stat0: "proc_stat (proc_set ?t ! 0) = PROC_RUNNING" using kernel_invD(4) [OF t] set2(2) by simp
  have "runnable (proc_stat (proc_set ?t ! 1))" using assms set2 by (auto simp: demo_proc_def runnable_def)
  then have "scan_from (\<lambda>i. runnable (proc_stat (proc_set ?t ! (i mod 16)))) 1 17 = Some 1"
    unfolding scan_from_Some_iff by auto
  then have n: "next_runnable ?t = Some 1" using set2(2) by (simp add: next_runnable_def MAX_NPROCESS_def)
  obtain s3 where y: "proc_yield ?t = Inr (if proc_stat (proc_set ?t ! 1) = PROC_READY then Enter_app else Resume, s3)"
    "proc_curr_idx s3 = 1" "kernel_inv s3" "proc_set s3 = yielded ?t 1" "proc_stack s3 = proc_stack ?t"
  proof (rule proc_yield_ok [OF kernel_invD(2,3) [OF t] n])
    fix s' assume "proc_yield ?t = Inr (if proc_stat (proc_set ?t ! 1) = PROC_READY then Enter_app else Resume, s')"
      "proc_curr_idx s' = 1" "proc_set s' = yielded ?t 1" "proc_stack s' = proc_stack ?t"
    then show thesis using proc_yield_inv [OF kernel_invD(1) [OF t]] by (intro that [of s']) auto
  qed
  have "yielded ?t 1 ! 1 = (demo_proc 2 st)\<lparr>proc_stat := PROC_RUNNING\<rparr>"
    using set2 kernel_invD(9) [OF t] by (simp add: yielded_def Let_def)
  then have "\<exists>s4. manage_userstack False s3 = Inr s4"
    using y(2,4,5) s(5) by (simp add: manage_userstack_def demo_proc_def APPS_STACK_TOP_def PAGE_SIZE_def save(3))
  then obtain s4 where s4: "manage_userstack False s3 = Inr s4" "proc_curr_idx s4 = 1"
    using manage_userstack_restore(1) [OF y(3)] y(2) by fastforce
  have "intr_entry False 3 s2 = proc_yield ?t"
    using ty set2(2) s by (simp add: intr_entry_def INTR_ID_TIMER_def INTR_ID_SOFT_def proc_syscall_def)
  then have "trap_handler False 0x80000003 0x80400100 0x80500000 0x807ffff0 ?s =
      (if st = PROC_READY then Inr (At_entry, s3) else Inr (Back_to (proc_mepc (curr_proc s4)) (proc_sp (curr_proc s4)), s4))"
    using s2 y(1) s s4 set2(1)
    by (simp add: trap_handler_def ctx_entry_def check_nested_trap_def GRASS_STACK_TOP_def PAGE_SIZE_def demo_proc_def)
  then show ?thesis using y(2) s4(2) by auto
qed

theorem trap_suspends_witness:
  "\<exists>res s'. trap_handler False 0x80000003 0x80400100 0x80500000 0x807ffff0 (yield_demo PROC_READY) = Inr (res, s') \<and>
     suspended 0 0x807ffff0 0x80400100 (load_bytes (pmem (yield_demo PROC_READY)) 0x807ffff0 (stack_bytes 0x807ffff0)) s'"
proof -
  obtain res s' where t: "trap_handler False 0x80000003 0x80400100 0x80500000 0x807ffff0 (yield_demo PROC_READY) = Inr (res, s')"
    "proc_curr_idx s' = 1" using yield_demo_trap [of PROC_READY] by auto
  have "kernel_inv (yield_demo PROC_READY)" by (rule yield_demo_inv) simp
  from trap_suspends [OF this t(1)] t show ?thesis by (auto simp: yield_demo_def)
qed

theorem trap_resumes_witness:
  "\<exists>s'. trap_handler False 0x80000003 0x80400100 0x80500000 0x807ffff0 (yield_demo PROC_RUNNABLE)
      = Inr (Back_to 0x80400000 0x807ff000, s') \<and> proc_curr_idx s' = 1"
proof -
  obtain res s' where t: "trap_handler False 0x80000003 0x80400100 0x80500000 0x807ffff0 (yield_demo PROC_RUNNABLE) = Inr (res, s')"
    "proc_curr_idx s' = 1" using yield_demo_trap [of PROC_RUNNABLE] by auto
  have inv: "kernel_inv (yield_demo PROC_RUNNABLE)" by (rule yield_demo_inv) simp
  have "proc_set (yield_demo PROC_RUNNABLE) ! 1 = demo_proc 2 PROC_RUNNABLE"
    "proc_curr_idx (yield_demo PROC_RUNNABLE) = 0"
    "proc_stack (yield_demo PROC_RUNNABLE) = replicate 16 (replicate 4096 0)"
    by (simp_all add: yield_demo_def demo_nth) (simp add: demo_kernel_def)
  then have "suspended 1 0x807ff000 0x80400000 (replicate 4096 0) (yield_demo PROC_RUNNABLE)"
    by (simp add: suspended_def demo_proc_def started_def stack_bytes_def APPS_STACK_TOP_def)
  from trap_resumes [OF inv this t(1)] t show ?thesis by auto
qed

end
