(* ===== verification/Page_Memory.thy ===== *)
theory Page_Memory
  imports Soft_TLB
begin

text \<open>
  Reading and writing within pages: bytes, and the 32-bit words of page tables. A write at an
  offset of an aligned page is seen at that offset of that page, and nowhere else.
\<close>

section \<open>Addresses within pages\<close>

lemma unat_add_small:
  assumes "unat a + n < 2 ^ 32"
  shows "unat (a + of_nat n :: addr) = unat a + n"
  using assms by (simp add: unat_word_ariths unsigned_of_nat take_bit_eq_mod)

lemma in_page_of: "o' < 4096 \<Longrightarrow> in_range (p + of_nat o') p PAGE_SIZE"
  by (simp add: in_range_def PAGE_SIZE_def unat_of_nat_small)

lemma in_range_within:
  assumes "aligned p" "aligned q" "i + n \<le> 4096" "j < 4096"
  shows "in_range (q + of_nat j) (p + of_nat i) n \<longleftrightarrow> q = p \<and> i \<le> j \<and> j < i + n"
proof
  assume r: "in_range (q + of_nat j) (p + of_nat i) n"
  let ?d = "q + of_nat j - (p + of_nat i)"
  have d: "unat ?d < n" using r by (simp add: in_range_def)
  have x: "q + of_nat j = p + of_nat (i + unat ?d)" by simp
  have "in_range (q + of_nat j) p PAGE_SIZE" using d assms(3) by (subst x, intro in_page_of) simp
  moreover have "in_range (q + of_nat j) q PAGE_SIZE" using assms(4) by (rule in_page_of)
  ultimately have qp: "q = p" using in_two_pages [OF assms(1,2)] by metis
  then have "(of_nat j :: addr) = of_nat (i + unat ?d)" using x by simp
  then have "unat (of_nat j :: addr) = unat (of_nat (i + unat ?d) :: addr)" by simp
  moreover have "unat (of_nat j :: addr) = j" using assms(4) by (intro unat_of_nat_small) simp
  moreover have "unat (of_nat (i + unat ?d) :: addr) = i + unat ?d" using d assms(3) by (intro unat_of_nat_small) simp
  ultimately have "j = i + unat ?d" by simp
  with qp d show "q = p \<and> i \<le> j \<and> j < i + n" by simp
next
  assume h: "q = p \<and> i \<le> j \<and> j < i + n"
  then have "q + of_nat j - (p + of_nat i) = of_nat (j - i)" by (simp add: of_nat_diff)
  moreover have "unat (of_nat (j - i) :: addr) = j - i" using assms(4) by (intro unat_of_nat_small) simp
  ultimately show "in_range (q + of_nat j) (p + of_nat i) n" using h by (simp add: in_range_def less_diff_conv2 add.commute)
qed

lemma store_bytes_page:
  assumes "aligned p" "aligned q" "i + length bs \<le> 4096" "j < 4096"
  shows "store_bytes m (p + of_nat i) bs (q + of_nat j) = (if q = p \<and> i \<le> j \<and> j < i + length bs then bs ! (j - i) else m (q + of_nat j))"
proof (cases "q = p \<and> i \<le> j \<and> j < i + length bs")
  case True
  then have "q + of_nat j - (p + of_nat i) = of_nat (j - i)" by (simp add: of_nat_diff)
  moreover have "unat (of_nat (j - i) :: addr) = j - i" using assms(4) by (intro unat_of_nat_small) simp
  ultimately show ?thesis using True in_range_within [OF assms] by (simp add: store_bytes_def)
next
  case False
  then have "\<not> in_range (q + of_nat j) (p + of_nat i) (length bs)" using in_range_within [OF assms] by blast
  with False show ?thesis by (simp only: store_bytes_def if_False)
qed

lemma memset_page:
  assumes "aligned p" "aligned q" "i + n \<le> 4096" "j < 4096"
  shows "memset m (p + of_nat i) v n (q + of_nat j) = (if q = p \<and> i \<le> j \<and> j < i + n then v else m (q + of_nat j))"
  using in_range_within [OF assms] by (simp add: memset_def)

lemma store_within:
  assumes "i + length bs \<le> 4096" "store_bytes m (p + of_nat i) bs x \<noteq> m x"
  shows "in_range x p PAGE_SIZE"
proof -
  have "in_range x (p + of_nat i) (length bs)" using assms(2) by (auto simp: store_bytes_def split: if_splits)
  then have d: "unat (x - (p + of_nat i)) < length bs" by (simp add: in_range_def)
  have x: "x = p + of_nat (i + unat (x - (p + of_nat i)))" by simp
  show ?thesis by (subst x, rule in_page_of) (use d assms(1) in simp)
qed

lemma memset_within:
  assumes "i + n \<le> 4096" "memset m (p + of_nat i) v n x \<noteq> m x"
  shows "in_range x p PAGE_SIZE"
proof -
  have "in_range x (p + of_nat i) n" using assms(2) by (auto simp: memset_def split: if_splits)
  then have d: "unat (x - (p + of_nat i)) < n" by (simp add: in_range_def)
  have x: "x = p + of_nat (i + unat (x - (p + of_nat i)))" by simp
  show ?thesis by (subst x, rule in_page_of) (use d assms(1) in simp)
qed

section \<open>Words within pages\<close>

lemma load_u32_page:
  "load_u32 m (q + of_nat (4 * k)) = le32 (m (q + of_nat (4 * k))) (m (q + of_nat (4 * k + 1))) (m (q + of_nat (4 * k + 2))) (m (q + of_nat (4 * k + 3)))"
  by (simp add: load_u32_def ac_simps)

lemma load_store_u32_page:
  assumes "aligned p" "aligned q" "j < 1024" "k < 1024"
  shows "load_u32 (store_u32 m (p + of_nat (4 * j)) w) (q + of_nat (4 * k)) = (if q = p \<and> k = j then w else load_u32 m (q + of_nat (4 * k)))"
proof -
  have b: "store_u32 m (p + of_nat (4 * j)) w (q + of_nat (4 * k + c)) = (if q = p \<and> k = j then bytes32 w ! c else m (q + of_nat (4 * k + c)))"
    if "c < 4" for c
  proof -
    have "4 * j + length (bytes32 w) \<le> 4096" "4 * k + c < 4096" using assms(3,4) that by simp_all
    note store_bytes_page [OF assms(1,2) this, of m]
    moreover have "q = p \<and> 4 * j \<le> 4 * k + c \<and> 4 * k + c < 4 * j + length (bytes32 w) \<longleftrightarrow> q = p \<and> k = j" using that by auto
    ultimately show ?thesis unfolding store_u32_def by auto
  qed
  show ?thesis
    unfolding load_u32_page using b [of 0] b [of 1] b [of 2] b [of 3] by (simp add: bytes32_def le32_bytes32)
qed

lemma load_memset_page:
  assumes "aligned p" "aligned q" "k < 1024"
  shows "load_u32 (memset m p 0 PAGE_SIZE) (q + of_nat (4 * k)) = (if q = p then 0 else load_u32 m (q + of_nat (4 * k)))"
proof -
  have b: "memset m p 0 PAGE_SIZE (q + of_nat (4 * k + c)) = (if q = p then 0 else m (q + of_nat (4 * k + c)))" if "c < 4" for c
    using memset_page [OF assms(1,2), of 0 4096 "4 * k + c" m 0] assms(3) that by (auto simp: PAGE_SIZE_def)
  show ?thesis unfolding load_u32_page using b [of 0] b [of 1] b [of 2] b [of 3] by (simp add: le32_def)
qed

end
