(* ===== verification/Elf_Loader.thy ===== *)
theory Elf_Loader
  imports Shell Kernel_IPC Page_Memory
begin

text \<open>
  The loader of executables (library/elf/elf.c): the ELF headers are read from the first block of
  the file, and an application gets four pages for its code and data, a page for its arguments and
  a page for system calls and its stack, mapped with the soft TLB of earth/cpu_mmu.c. The theory
  shows that the new process finds its program and its arguments at the addresses it expects, and
  that no other process notices.
\<close>

section \<open>Definitions\<close>

definition GRASS_ENTRY :: addr where "GRASS_ENTRY = 0x80100000"
definition GRASS_SIZE :: m_uint32 where "GRASS_SIZE = 0x00100000"

text \<open>
  A reader copies the block with a given number to an address. Its result code is never looked at:
  \<open>reader b\<close> are the bytes that it leaves there.
\<close>

type_synonym elf_reader = "m_uint32 \<Rightarrow> m_uint8 list res"

record elf32_header =
  e_ident :: "m_uint8 list"
  e_type :: m_uint16
  e_machine :: m_uint16
  e_version :: m_uint32
  e_entry :: m_uint32
  e_phoff :: m_uint32
  e_shoff :: m_uint32
  e_flags :: m_uint32
  e_ehsize :: m_uint16
  e_phentsize :: m_uint16
  e_phnum :: m_uint16
  e_shentsize :: m_uint16
  e_shnum :: m_uint16
  e_shstrndx :: m_uint16

record elf32_program_header =
  p_type :: m_uint32
  p_offset :: m_uint32
  p_vaddr :: m_uint32
  p_paddr :: m_uint32
  p_filesz :: m_uint32
  p_memsz :: m_uint32
  p_flags :: m_uint32
  p_align :: m_uint32

text \<open>The casts of the buffer to the two structures.\<close>

definition u16_at :: "m_uint8 list \<Rightarrow> nat \<Rightarrow> m_uint16" where
  "u16_at b i = ucast (b ! i) OR push_bit 8 (ucast (b ! (i + 1)))"

definition u32_at :: "m_uint8 list \<Rightarrow> nat \<Rightarrow> m_uint32" where
  "u32_at b i = le32 (b ! i) (b ! (i + 1)) (b ! (i + 2)) (b ! (i + 3))"

definition header_of :: "m_uint8 list \<Rightarrow> elf32_header" where
  "header_of b = \<lparr>e_ident = take 16 b, e_type = u16_at b 16, e_machine = u16_at b 18, e_version = u32_at b 20,
     e_entry = u32_at b 24, e_phoff = u32_at b 28, e_shoff = u32_at b 32, e_flags = u32_at b 36, e_ehsize = u16_at b 40,
     e_phentsize = u16_at b 42, e_phnum = u16_at b 44, e_shentsize = u16_at b 46, e_shnum = u16_at b 48, e_shstrndx = u16_at b 50\<rparr>"

definition pheader_of :: "m_uint8 list \<Rightarrow> nat \<Rightarrow> elf32_program_header" where
  "pheader_of b i = \<lparr>p_type = u32_at b i, p_offset = u32_at b (i + 4), p_vaddr = u32_at b (i + 8), p_paddr = u32_at b (i + 12),
     p_filesz = u32_at b (i + 16), p_memsz = u32_at b (i + 20), p_flags = u32_at b (i + 24), p_align = u32_at b (i + 28)\<rparr>"

definition read_to :: "elf_reader \<Rightarrow> m_uint32 \<Rightarrow> addr \<Rightarrow> 'a mmu_scheme \<Rightarrow> 'a mmu_scheme res" where
  "read_to reader b dst s = rbind (reader b) (\<lambda>bs. Inr (s\<lparr>pmem := store_bytes (pmem s) dst bs\<rparr>))"

text \<open>The number of rounds of \<^verbatim>\<open>for (off = 0; off < p_filesz; off += BLOCK_SIZE)\<close>.\<close>

definition n_rounds :: "m_uint32 \<Rightarrow> nat" where "n_rounds filesz = (unat filesz + 511) div 512"

definition load_grass :: "elf_reader \<Rightarrow> elf32_program_header \<Rightarrow> 'a mmu_scheme \<Rightarrow> 'a mmu_scheme res" where
  "load_grass reader ph s =
     rbind (rfor (\<lambda>i s. read_to reader (p_offset ph div 512 + of_nat i) (GRASS_ENTRY + of_nat (i * 512)) s) [0..<n_rounds (p_filesz ph)] s) (\<lambda>s.
       Inr (s\<lparr>pmem := memset (pmem s) (GRASS_ENTRY + p_filesz ph) 0 (unat (GRASS_SIZE - p_filesz ph))\<rparr>))"

text \<open>The three parts of load_app: the pages for code and data, the program, the arguments and the stack.\<close>

definition app_npages :: nat where "app_npages = APPS_SIZE div PAGE_SIZE"

definition alloc_app_pages :: "int \<Rightarrow> 'a mmu_scheme \<Rightarrow> (addr list \<times> 'a mmu_scheme) res" where
  "alloc_app_pages pid s =
     rfor (\<lambda>i (paddrs, s). rbind (mmu_alloc s) (\<lambda>(p, s).
       rbind (soft_tlb_map pid (APPS_ENTRY + of_nat (i * PAGE_SIZE)) p (s\<lparr>pmem := memset (pmem s) p 0 PAGE_SIZE\<rparr>)) (\<lambda>s.
         Inr (paddrs @ [p], s)))) [0..<app_npages] ([], s)"

definition copy_app_block :: "elf_reader \<Rightarrow> m_uint32 \<Rightarrow> addr list \<Rightarrow> nat \<Rightarrow> int \<times> 'a mmu_scheme \<Rightarrow> (int \<times> 'a mmu_scheme) res" where
  "copy_app_block reader first paddrs i = (\<lambda>(page_idx, s).
     let off = i * 512; page_idx = (if off mod PAGE_SIZE = 0 then page_idx + 1 else page_idx) in
     rbind (if off mod PAGE_SIZE = 0 then rassert (page_idx \<ge> 0 \<and> page_idx < int app_npages) ''app is larger than APPS_SIZE'' else Inr ()) (\<lambda>_.
       rbind (read_to reader (first + of_nat i) (paddrs ! nat page_idx + of_nat (off mod PAGE_SIZE)) s) (\<lambda>s. Inr (page_idx, s))))"

definition copy_app :: "elf_reader \<Rightarrow> elf32_program_header \<Rightarrow> addr list \<Rightarrow> 'a mmu_scheme \<Rightarrow> 'a mmu_scheme res" where
  "copy_app reader ph paddrs s =
     rbind (rfor (copy_app_block reader (p_offset ph div 512) paddrs) [0..<n_rounds (p_filesz ph)] (-1, s)) (\<lambda>(page_idx, s).
       let last_page_filled = unat (p_filesz ph) mod PAGE_SIZE in
       Inr (if last_page_filled \<noteq> 0
            then s\<lparr>pmem := memset (pmem s) (paddrs ! nat page_idx + of_nat last_page_filled) 0 (PAGE_SIZE - last_page_filled)\<rparr>
            else s))"

definition store_args :: "addr \<Rightarrow> nat \<Rightarrow> m_uint8 list list option \<Rightarrow> mem \<Rightarrow> mem res" where
  "store_args paddr n args m =
     (let m = store_u32 m paddr (of_nat n) in
      rbind (case args of None \<Rightarrow> Inr m
             | Some rows \<Rightarrow> if n * CMD_ARG_LEN \<le> length (concat rows)
                 then Inr (store_bytes m (paddr + 4 + 4 * of_nat CMD_NARGS) (take (n * CMD_ARG_LEN) (concat rows))) else Inl Out_of_bounds) (\<lambda>m.
      rfor (\<lambda>i m. Inr (store_u32 m (paddr + 4 + 4 * of_nat i) (APPS_ARG + 4 + 4 * of_nat CMD_NARGS + of_nat (i * CMD_ARG_LEN)))) [0..<n] m))"

definition load_app :: "int \<Rightarrow> elf_reader \<Rightarrow> nat \<Rightarrow> m_uint8 list list option \<Rightarrow> elf32_program_header \<Rightarrow> 'a mmu_scheme \<Rightarrow> 'a mmu_scheme res" where
  "load_app pid reader n args ph s =
     rbind (alloc_app_pages pid s) (\<lambda>(paddrs, s).
     rbind (copy_app reader ph paddrs s) (\<lambda>s.
     rbind (mmu_alloc s) (\<lambda>(paddr, s).
     rbind (soft_tlb_map pid APPS_ARG paddr s) (\<lambda>s.
     rbind (store_args paddr n args (pmem s)) (\<lambda>m.
     rbind (mmu_alloc (s\<lparr>pmem := m\<rparr>)) (\<lambda>(paddr, s).
       soft_tlb_map pid (APPS_ARG + of_nat PAGE_SIZE) paddr s))))))"

definition elf_load :: "int \<Rightarrow> elf_reader \<Rightarrow> nat \<Rightarrow> m_uint8 list list option \<Rightarrow> 'a mmu_scheme \<Rightarrow> 'a mmu_scheme res" where
  "elf_load pid reader n args s =
     rbind (reader 0) (\<lambda>buf.
     rbind (rassert (e_phnum (header_of buf) = 1) ''has more than one program header'') (\<lambda>_.
       if unat (e_phoff (header_of buf)) + 32 > 512 then Inl Out_of_bounds
       else let ph = pheader_of buf (unat (e_phoff (header_of buf))) in
         if p_vaddr ph = GRASS_ENTRY then load_grass reader ph s
         else if p_vaddr ph = APPS_ENTRY then load_app pid reader n args ph s
         else Inl (Fatal ''elf_load: ELF gives invalid p_vaddr'')))"

section \<open>The pages of the new process\<close>

text \<open>
  From the state \<open>s0\<close> the process \<open>pid\<close> was given the pages \<open>ms\<close>, which were free; only they
  may have changed.
\<close>

definition loading :: "'a mmu_scheme \<Rightarrow> int \<Rightarrow> page_mapping list \<Rightarrow> 'a mmu_scheme \<Rightarrow> bool" where
  "loading s0 pid ms s \<longleftrightarrow> wf_mmu s \<and> alloc_inv s \<and> (\<forall>q \<in> {1..<int MAX_NPROCESS}. private_pages s q \<subseteq> used_pages s) \<and>
     set (maps_of s pid) = set ms \<and> length (maps_of s pid) = length ms \<and>
     (\<forall>q \<in> {1..<int MAX_NPROCESS}. q \<noteq> pid \<longrightarrow> maps_of s q = maps_of s0 q) \<and> curr_vm_pid s = curr_vm_pid s0 \<and>
     used_pages s = used_pages s0 \<union> private_addr ` set ms \<and> private_addr ` set ms \<inter> used_pages s0 = {} \<and>
     distinct (map private_addr ms) \<and> private_addr ` set ms \<subseteq> page_pool \<and>
     (\<forall>x. (\<forall>pm \<in> set ms. \<not> in_range x (private_addr pm) PAGE_SIZE) \<longrightarrow> pmem s x = pmem s0 x)"

lemmas loadingD = loading_def [THEN iffD1, THEN conjunct1]
  loading_def [THEN iffD1, THEN conjunct2, THEN conjunct1]
  loading_def [THEN iffD1, THEN conjunct2, THEN conjunct2, THEN conjunct1]

lemma used_pages_pmem [simp]: "used_pages (s\<lparr>pmem := m\<rparr>) = used_pages s" "alloc_inv (s\<lparr>pmem := m\<rparr>) = alloc_inv s"
  by (simp_all add: used_pages_def alloc_inv_def)

lemma private_pages_pmem [simp]: "private_pages (s\<lparr>pmem := m\<rparr>) q = private_pages s q"
  by (simp add: private_pages_def)

lemma loading_start:
  assumes "wf_mmu s" "alloc_inv s" "\<forall>q \<in> {1..<int MAX_NPROCESS}. private_pages s q \<subseteq> used_pages s" "maps_of s pid = []"
  shows "loading s pid [] s"
  using assms by (simp add: loading_def)

lemma loading_write:
  assumes "loading s0 pid ms s" "\<And>x. m x \<noteq> pmem s x \<Longrightarrow> \<exists>pm \<in> set ms. in_range x (private_addr pm) PAGE_SIZE"
  shows "loading s0 pid ms (s\<lparr>pmem := m\<rparr>)"
proof -
  have "m x = pmem s0 x" if "\<forall>pm \<in> set ms. \<not> in_range x (private_addr pm) PAGE_SIZE" for x
    using that assms(1) assms(2) [of x] unfolding loading_def by metis
  with assms(1) show ?thesis unfolding loading_def by (elim conjE, intro conjI) simp_all
qed

lemma loading_alloc:
  assumes l: "loading s0 pid ms s" and pid: "pid \<in> {1..<int MAX_NPROCESS}" and n: "length ms < APPS_NPAGES"
    and free: "card (used_pages s0) + length ms < NPAGES"
    and dst: "aligned dst" "dst \<noteq> 0" "dst \<notin> page_pool" "dst \<notin> exec_addr ` set ms"
  obtains p s1 s2 where "mmu_alloc s = Inr (p, s1)" "s1\<lparr>pmem := memset (pmem s1) p 0 PAGE_SIZE\<rparr> = s1" "soft_tlb_map pid dst p s1 = Inr s2"
    "loading s0 pid (ms @ [\<lparr>private_addr = p, exec_addr = dst\<rparr>]) s2" "pmem s2 = memset (pmem s) p 0 PAGE_SIZE"
proof -
  note L = l [unfolded loading_def]
  have "used_pages s = used_pages s0 \<union> set (map private_addr ms)" using L by simp
  moreover have "card (set (map private_addr ms)) \<le> length ms" by (metis card_length length_map)
  ultimately have "card (used_pages s) < NPAGES" using free card_Un_le [of "used_pages s0" "set (map private_addr ms)"] by simp
  moreover have "card page_pool = NPAGES" unfolding page_pool_def by (simp add: card_image page_addr_inj)
  moreover have "finite (used_pages s)" by (simp add: used_pages_def bits_of_def)
  ultimately have "\<not> page_pool \<subseteq> used_pages s" using card_mono [of "used_pages s" page_pool] by auto
  then obtain p s1 where a: "mmu_alloc s = Inr (p, s1)"
    using pages.alloc_fails [of s True] L unfolding mmu_alloc_def by (cases "pmalloc True s") auto
  note ok = pages.alloc_ok [of s True p s1]
  have okp: "p \<in> page_pool" "p \<notin> used_pages s" "used_pages s1 = insert p (used_pages s)" "alloc_inv s1"
    using ok a L by (simp_all add: mmu_alloc_def)
  obtain bm where s1: "s1 = s\<lparr>bitmap := bm, pmem := memset (pmem s) p 0 PAGE_SIZE\<rparr>"
    using a unfolding mmu_alloc_def by (elim pmalloc_Inr) (auto simp: bitmap_set_def)
  have d4: "dst \<notin> exec_addr ` set (maps_of s pid)" "length (maps_of s pid) < APPS_NPAGES" using dst(4) n L by simp_all
  obtain s2 where s2: "soft_tlb_map pid dst p s1 = Inr s2" "wf_mmu s2" "s2 = s1\<lparr>app_pages := app_pages s2\<rparr>"
    "set (maps_of s2 pid) = insert \<lparr>private_addr = p, exec_addr = dst\<rparr> (set (maps_of s pid))"
    "length (maps_of s2 pid) = Suc (length (maps_of s pid))"
    "\<forall>q \<in> {1..<int MAX_NPROCESS}. q \<noteq> pid \<longrightarrow> maps_of s2 q = maps_of s q"
    "\<forall>q \<in> {1..<int MAX_NPROCESS}. private_pages s2 q \<subseteq> used_pages s2"
    using alloc_and_map [OF loadingD(1,2) [OF l] pid d4(2) loadingD(3) [OF l] dst(1-3) d4(1) a] by (elim exE conjE)
  obtain ap where "ap = app_pages s2" by simp
  with s2(3) have ap: "s2 = s1\<lparr>app_pages := ap\<rparr>" by simp
  have f: "pmem s2 = memset (pmem s) p 0 PAGE_SIZE" "used_pages s2 = insert p (used_pages s)" "alloc_inv s2" "curr_vm_pid s2 = curr_vm_pid s"
    using okp(3,4) by (simp_all add: ap s1 used_pages_def alloc_inv_def)
  have pm: "pmem s2 x = pmem s0 x" if "\<forall>pm \<in> set (ms @ [\<lparr>private_addr = p, exec_addr = dst\<rparr>]). \<not> in_range x (private_addr pm) PAGE_SIZE" for x
    using that L by (simp add: f(1) memset_def)
  have "private_addr ` set (ms @ [\<lparr>private_addr = p, exec_addr = dst\<rparr>]) \<inter> used_pages s0 = {}" "p \<notin> private_addr ` set ms"
    using L okp(2) by auto
  then have "loading s0 pid (ms @ [\<lparr>private_addr = p, exec_addr = dst\<rparr>]) s2"
    unfolding loading_def using L s2(2,4-7) f(2-4) pm okp(1) by auto
  moreover have "s1\<lparr>pmem := memset (pmem s1) p 0 PAGE_SIZE\<rparr> = s1" by (simp add: s1 memset_def cong: if_cong)
  ultimately show thesis using that a s2(1) f(1) by blast
qed

definition page_holds :: "'a mmu_scheme \<Rightarrow> addr list \<Rightarrow> (nat \<Rightarrow> m_uint8) \<Rightarrow> bool" where
  "page_holds s paddrs f \<longleftrightarrow> (\<forall>k < length paddrs. \<forall>j < 4096. pmem s (paddrs ! k + of_nat j) = f (k * 4096 + j))"

definition code_maps :: "addr list \<Rightarrow> page_mapping list" where
  "code_maps paddrs = map (\<lambda>i. \<lparr>private_addr = paddrs ! i, exec_addr = APPS_ENTRY + of_nat (i * PAGE_SIZE)\<rparr>) [0..<length paddrs]"

lemma code_maps_snoc:
  "code_maps (paddrs @ [p]) = code_maps paddrs @ [\<lparr>private_addr = p, exec_addr = APPS_ENTRY + of_nat (length paddrs * PAGE_SIZE)\<rparr>]"
  by (simp add: code_maps_def nth_append)

lemma private_code_maps: "map private_addr (code_maps paddrs) = paddrs"
  by (rule nth_equalityI) (simp_all add: code_maps_def)

lemma private_set_code_maps [simp]: "private_addr ` set (code_maps paddrs) = set paddrs"
  by (metis list.set_map private_code_maps)

lemma code_maps_page:
  assumes "p \<in> set paddrs"
  obtains pm where "pm \<in> set (code_maps paddrs)" "private_addr pm = p"
  using assms private_set_code_maps [of paddrs] by (metis imageE)

lemma loading_paddrs:
  assumes "loading s0 pid (code_maps paddrs) s"
  shows "distinct paddrs" "\<And>p. p \<in> set paddrs \<Longrightarrow> aligned p" "set paddrs \<subseteq> page_pool"
  using assms page_pool_aligned by (auto simp: loading_def private_code_maps)

lemma alloc_app_pages_ok:
  assumes start: "loading s0 pid [] s" and pid: "pid \<in> {1..<int MAX_NPROCESS}" and free: "card (used_pages s0) + 4 \<le> NPAGES"
  obtains paddrs s' where "alloc_app_pages pid s = Inr (paddrs, s')" "length paddrs = 4" "loading s0 pid (code_maps paddrs) s'"
    "page_holds s' paddrs (\<lambda>_. 0)"
proof -
  let ?P = "\<lambda>i (paddrs, s). length paddrs = i \<and> loading s0 pid (code_maps paddrs) s \<and> page_holds s paddrs (\<lambda>_. 0)"
  let ?body = "\<lambda>i (paddrs, s). rbind (mmu_alloc s) (\<lambda>(p, s).
       rbind (soft_tlb_map pid (APPS_ENTRY + of_nat (i * PAGE_SIZE)) p (s\<lparr>pmem := memset (pmem s) p 0 PAGE_SIZE\<rparr>)) (\<lambda>s.
         Inr (paddrs @ [p], s)))"
  have "\<exists>r. rfor ?body [0..<4] ([], s) = Inr r \<and> ?P 4 r"
  proof (rule rfor_upt [where P = ?P])
    show "?P 0 ([], s)" using start by (simp add: code_maps_def page_holds_def)
  next
    fix i r assume i: "i < 4" and P: "?P i r"
    obtain paddrs s where r: "r = (paddrs, s)" by fastforce
    have h: "length paddrs = i" "loading s0 pid (code_maps paddrs) s" "page_holds s paddrs (\<lambda>_. 0)" using P r by auto
    let ?dst = "APPS_ENTRY + of_nat (i * PAGE_SIZE) :: addr"
    have u: "unat (APPS_ENTRY + of_nat (k * PAGE_SIZE)) = 0x80400000 + k * 4096" if "k < 4" for k
      using that unat_add_small [of APPS_ENTRY "k * PAGE_SIZE"] by (simp add: APPS_ENTRY_def PAGE_SIZE_def)
    have d: "aligned ?dst" "?dst \<noteq> 0" "?dst \<notin> page_pool"
      using u [OF i] i by (simp_all only: aligned_def not_page_pool word_unat_eq_iff) auto
    have n: "length (code_maps paddrs) < APPS_NPAGES" "card (used_pages s0) + length (code_maps paddrs) < NPAGES"
      using h(1) i free by (simp_all add: APPS_NPAGES_def APPS_SIZE_def PAGE_SIZE_def code_maps_def)
    have dd: "?dst \<notin> exec_addr ` set (code_maps paddrs)"
    proof
      assume "?dst \<in> exec_addr ` set (code_maps paddrs)"
      then obtain k where "k < i" "?dst = APPS_ENTRY + of_nat (k * PAGE_SIZE)" using h(1) by (auto simp: code_maps_def)
      then show False using u [OF i] u [of k] i by simp
    qed
    obtain p s1 s2 where a: "mmu_alloc s = Inr (p, s1)" "s1\<lparr>pmem := memset (pmem s1) p 0 PAGE_SIZE\<rparr> = s1"
      "soft_tlb_map pid ?dst p s1 = Inr s2" "loading s0 pid (code_maps paddrs @ [\<lparr>private_addr = p, exec_addr = ?dst\<rparr>]) s2"
      "pmem s2 = memset (pmem s) p 0 PAGE_SIZE"
      by (rule loading_alloc [OF h(2) pid n d dd])
    have l: "loading s0 pid (code_maps (paddrs @ [p])) s2" using a(4) h(1) by (simp add: code_maps_snoc)
    have "pmem s2 (q + of_nat j) = 0" if "q \<in> set (paddrs @ [p])" "j < 4096" for q j
    proof -
      have "q = p \<or> pmem s (q + of_nat j) = 0" using h(3) that by (auto simp: page_holds_def in_set_conv_nth)
      then show ?thesis using in_page_of [OF that(2), of q] by (auto simp: a(5) memset_def)
    qed
    then have "page_holds s2 (paddrs @ [p]) (\<lambda>_. 0)" unfolding page_holds_def by (metis nth_mem)
    with l h(1) a show "\<exists>r'. ?body i r = Inr r' \<and> ?P (Suc i) r'" by (simp add: r)
  qed
  then obtain paddrs s' where "rfor ?body [0..<4] ([], s) = Inr (paddrs, s')" "?P 4 (paddrs, s')" by auto
  then show thesis using that by (auto simp: alloc_app_pages_def app_npages_def APPS_SIZE_def PAGE_SIZE_def)
qed

section \<open>Copying the program\<close>

definition file_byte :: "(nat \<Rightarrow> m_uint8 list) \<Rightarrow> nat \<Rightarrow> m_uint8" where
  "file_byte blocks off = blocks (off div 512) ! (off mod 512)"

lemma block_position:
  assumes "j < (4096 :: nat)"
  shows "k = i div 8 \<and> i mod 8 * 512 \<le> j \<and> j < i mod 8 * 512 + 512 \<longleftrightarrow> (k * 4096 + j) div 512 = i"
    "k = i div 8 \<Longrightarrow> i mod 8 * 512 \<le> j \<Longrightarrow> j < i mod 8 * 512 + 512 \<Longrightarrow> (k * 4096 + j) mod 512 = j - i mod 8 * 512"
proof -
  obtain c where c: "c = i mod 8" by simp
  have "c < 8" using c by simp
  have d: "(k * 4096 + j) div 512 = k * 8 + j div 512" "(k * 4096 + j) mod 512 = j mod 512"
    using div_mult_self3 [of 512 "k * 8" j] mod_mult_self3 [of "k * 8" 512 j] by (simp_all add: mult.commute)
  have j: "j div 512 < 8" using assms by simp
  have "k = i div 8 \<and> c = j div 512 \<longleftrightarrow> k * 8 + j div 512 = i"
  proof
    assume "k = i div 8 \<and> c = j div 512"
    then show "k * 8 + j div 512 = i" using c by (metis div_mult_mod_eq)
  qed (use j c in auto)
  moreover have w: "c * 512 \<le> j \<and> j < c * 512 + 512 \<longleftrightarrow> c = j div 512" by (auto simp: div_nat_eqI)
  ultimately show "k = i div 8 \<and> i mod 8 * 512 \<le> j \<and> j < i mod 8 * 512 + 512 \<longleftrightarrow> (k * 4096 + j) div 512 = i"
    unfolding d c [symmetric] by blast
  show "(k * 4096 + j) mod 512 = j - i mod 8 * 512" if "k = i div 8" "i mod 8 * 512 \<le> j" "j < i mod 8 * 512 + 512"
    using that w unfolding d c [symmetric] by (simp add: minus_mult_div_eq_mod [symmetric])
qed

lemma nth_page_eq: "distinct ps \<Longrightarrow> k < length ps \<Longrightarrow> l < length ps \<Longrightarrow> ps ! k = ps ! l \<longleftrightarrow> k = l"
  by (simp add: nth_eq_iff_index_eq)

lemma copy_block_ok:
  assumes l: "loading s0 pid (code_maps paddrs) s" and n: "length paddrs = 4" and i: "i < 32"
    and r: "reader (first + of_nat i) = Inr (blocks i)" "length (blocks i) = 512"
    and h: "page_holds s paddrs (\<lambda>off. if off < i * 512 then file_byte blocks off else 0)"
  shows "\<exists>s'. copy_app_block reader first paddrs i (int ((i + 7) div 8) - 1, s) = Inr (int ((Suc i + 7) div 8) - 1, s') \<and>
    loading s0 pid (code_maps paddrs) s' \<and> page_holds s' paddrs (\<lambda>off. if off < Suc i * 512 then file_byte blocks off else 0)"
proof -
  note P = loading_paddrs [OF l]
  let ?p = "paddrs ! (i div 8)" and ?o = "i mod 8 * 512"
  let ?s = "s\<lparr>pmem := store_bytes (pmem s) (?p + of_nat ?o) (blocks i)\<rparr>"
  have k: "i div 8 < 4" using i by simp
  then have kp: "i div 8 < length paddrs" "?p \<in> set paddrs" using n by simp_all
  have o': "?o + length (blocks i) \<le> 4096" using r(2) mod_less_divisor [of 8 i] by linarith
  have m: "i * 512 mod 4096 = ?o" using mod_mult_mult2 [of i 512 8] by simp
  have z: "i * 512 mod 4096 = 0 \<longleftrightarrow> i mod 8 = 0" unfolding m by simp
  have idx: "(Suc i + 7) div 8 = i div 8 + 1" "(i + 7) div 8 = (if i mod 8 = 0 then i div 8 else i div 8 + 1)" by presburger+
  have step: "copy_app_block reader first paddrs i (int ((i + 7) div 8) - 1, s) = Inr (int ((Suc i + 7) div 8) - 1, ?s)"
    unfolding copy_app_block_def PAGE_SIZE_def Let_def prod.case m idx
    using k r(1) by (cases "i mod 8 = 0") (simp_all add: read_to_def app_npages_def APPS_SIZE_def PAGE_SIZE_def)
  have "\<exists>pm \<in> set (code_maps paddrs). in_range x (private_addr pm) PAGE_SIZE"
    if "store_bytes (pmem s) (?p + of_nat ?o) (blocks i) x \<noteq> pmem s x" for x
  proof -
    obtain pm where "pm \<in> set (code_maps paddrs)" "private_addr pm = ?p" using kp(2) by (rule code_maps_page)
    with store_within [OF o' that] show ?thesis by metis
  qed
  then have l': "loading s0 pid (code_maps paddrs) ?s" by (rule loading_write [OF l])
  have "page_holds ?s paddrs (\<lambda>off. if off < Suc i * 512 then file_byte blocks off else 0)"
    unfolding page_holds_def
  proof (intro allI impI)
    fix kk j assume kk: "kk < length paddrs" and j: "j < (4096 :: nat)"
    let ?x = "kk * 4096 + j"
    have al: "aligned ?p" "aligned (paddrs ! kk)" using P(2) kp(2) kk by simp_all
    have "pmem ?s (paddrs ! kk + of_nat j) =
      (if kk = i div 8 \<and> ?o \<le> j \<and> j < ?o + 512 then blocks i ! (j - ?o) else pmem s (paddrs ! kk + of_nat j))"
      using store_bytes_page [OF al o' j] nth_page_eq [OF P(1) kk kp(1)] r(2) by simp
    also have "\<dots> = (if ?x div 512 = i then file_byte blocks ?x else if ?x < i * 512 then file_byte blocks ?x else 0)"
      using block_position [OF j, of kk i] h kk j by (auto simp: page_holds_def file_byte_def)
    also have "\<dots> = (if ?x < Suc i * 512 then file_byte blocks ?x else 0)"
    proof -
      have "?x div 512 = i \<longleftrightarrow> i * 512 \<le> ?x \<and> ?x < Suc i * 512" by (auto simp: div_nat_eqI)
      then show ?thesis by auto
    qed
    finally show "pmem ?s (paddrs ! kk + of_nat j) = (if ?x < Suc i * 512 then file_byte blocks ?x else 0)" .
  qed
  with step l' show ?thesis by blast
qed

lemma copy_app_ok:
  assumes l: "loading s0 pid (code_maps paddrs) s" and n: "length paddrs = 4" and sz: "unat (p_filesz ph) \<le> 0x4000"
    and r: "\<And>i. i < n_rounds (p_filesz ph) \<Longrightarrow> reader (p_offset ph div 512 + of_nat i) = Inr (blocks i) \<and> length (blocks i) = 512"
    and h: "page_holds s paddrs (\<lambda>_. 0)"
  shows "\<exists>s'. copy_app reader ph paddrs s = Inr s' \<and> loading s0 pid (code_maps paddrs) s' \<and>
    page_holds s' paddrs (\<lambda>off. if off < unat (p_filesz ph) then file_byte blocks off else 0)"
proof -
  let ?n = "n_rounds (p_filesz ph)" and ?f = "unat (p_filesz ph)"
  let ?P = "\<lambda>i (page_idx, s). page_idx = int ((i + 7) div 8) - 1 \<and> loading s0 pid (code_maps paddrs) s \<and>
    page_holds s paddrs (\<lambda>off. if off < i * 512 then file_byte blocks off else 0)"
  have n32: "?n \<le> 32" using sz by (simp add: n_rounds_def)
  have "\<exists>x. rfor (copy_app_block reader (p_offset ph div 512) paddrs) [0..<?n] (-1, s) = Inr x \<and> ?P ?n x"
  proof (rule rfor_upt [where P = ?P])
    show "?P 0 (-1, s)" using l h by simp
  next
    fix i x assume i: "i < ?n" and P: "?P i x"
    obtain page_idx t where x: "x = (page_idx, t)" by fastforce
    with P have t: "page_idx = int ((i + 7) div 8) - 1" "loading s0 pid (code_maps paddrs) t"
      "page_holds t paddrs (\<lambda>off. if off < i * 512 then file_byte blocks off else 0)" by auto
    have "i < 32" using i n32 by simp
    with copy_block_ok [OF t(2) n _ _ _ t(3)] r [OF i] show "\<exists>x'. copy_app_block reader (p_offset ph div 512) paddrs i x = Inr x' \<and> ?P (Suc i) x'"
      unfolding x t(1) by force
  qed
  then obtain t where run: "rfor (copy_app_block reader (p_offset ph div 512) paddrs) [0..<?n] (-1, s) = Inr (int ((?n + 7) div 8) - 1, t)"
    and t: "loading s0 pid (code_maps paddrs) t" "page_holds t paddrs (\<lambda>off. if off < ?n * 512 then file_byte blocks off else 0)" by auto
  have lo: "?f \<le> ?n * 512" "?n * 512 < ?f + 512" by (simp_all add: n_rounds_def)
  note P = loading_paddrs [OF t(1)]
  show ?thesis
  proof (cases "?f mod 4096 = 0")
    case True
    then obtain k where k: "?f = 4096 * k" by (auto simp: mod_eq_0_iff_dvd elim: dvdE)
    then have "?n * 512 = ?f" by (simp add: n_rounds_def)
    with t run True show ?thesis by (simp add: copy_app_def PAGE_SIZE_def)
  next
    case False
    let ?k = "?f div 4096" and ?o = "?f mod 4096"
    obtain c where c: "c = (?o + 511) div 512" by simp
    have "?f + 511 = ?k * 8 * 512 + (?o + 511)" by simp
    then have "?n = ?k * 8 + c" unfolding n_rounds_def c by (metis div_mult_self3 numeral_neq_zero)
    moreover have "1 \<le> c" "c \<le> 8" using False mod_less_divisor [of 4096 ?f] unfolding c by linarith+
    ultimately have idx: "nat (int ((?n + 7) div 8) - 1) = ?k" and up: "?n * 512 \<le> (?k + 1) * 4096" by auto
    have "?k \<noteq> 4"
    proof
      assume "?k = 4"
      then have "?f = 16384 + ?o" using div_mult_mod_eq [of ?f 4096] by linarith
      with sz False show False by linarith
    qed
    moreover have "?k \<le> 4" using div_le_mono [OF sz, of 4096] by simp
    ultimately have k: "?k < length paddrs" using n by linarith
    let ?t = "t\<lparr>pmem := memset (pmem t) (paddrs ! ?k + of_nat ?o) 0 (4096 - ?o)\<rparr>"
    have o': "?o + (4096 - ?o) \<le> 4096" by simp
    have "\<exists>pm \<in> set (code_maps paddrs). in_range x (private_addr pm) PAGE_SIZE"
      if "memset (pmem t) (paddrs ! ?k + of_nat ?o) 0 (4096 - ?o) x \<noteq> pmem t x" for x
    proof -
      obtain pm where "pm \<in> set (code_maps paddrs)" "private_addr pm = paddrs ! ?k" using nth_mem [OF k] by (rule code_maps_page)
      with memset_within [OF o' that] show ?thesis by metis
    qed
    then have l': "loading s0 pid (code_maps paddrs) ?t" by (rule loading_write [OF t(1)])
    have "page_holds ?t paddrs (\<lambda>off. if off < ?f then file_byte blocks off else 0)"
      unfolding page_holds_def
    proof (intro allI impI)
      fix kk j assume kk: "kk < length paddrs" and j: "j < (4096 :: nat)"
      have al: "aligned (paddrs ! ?k)" "aligned (paddrs ! kk)" using P(2) k kk by simp_all
      have "pmem ?t (paddrs ! kk + of_nat j) = (if kk = ?k \<and> ?o \<le> j then 0 else if kk * 4096 + j < ?n * 512 then file_byte blocks (kk * 4096 + j) else 0)"
        using memset_page [OF al o' j] nth_page_eq [OF P(1) kk k] t(2) kk j by (simp add: page_holds_def)
      also have "\<dots> = (if kk * 4096 + j < ?f then file_byte blocks (kk * 4096 + j) else 0)"
      proof -
        obtain K R where f: "?k = K" "?o = R" "?f = K * 4096 + R" "R < 4096" by (metis div_mult_mod_eq mod_less_divisor zero_less_numeral)
        have "kk * 4096 + j < ?f \<longleftrightarrow> \<not> (kk = K \<and> R \<le> j) \<and> kk * 4096 + j < ?n * 512"
        proof (cases kk K rule: linorder_cases)
          case less
          then have "(kk + 1) * 4096 \<le> K * 4096" by simp
          then have "kk * 4096 + j < K * 4096 + R" using j by (simp add: algebra_simps)
          then have "kk * 4096 + j < ?f" unfolding f(3) .
          with lo(1) less show ?thesis by auto
        next
          case equal
          with f(3) lo show ?thesis by auto
        next
          case greater
          then have "(K + 1) * 4096 \<le> kk * 4096" by (intro mult_right_mono) auto
          moreover have "?n * 512 \<le> (K + 1) * 4096" using up f(1) by simp
          ultimately show ?thesis using f(3,4) greater by auto
        qed
        then have "kk * 4096 + j < ?f \<longleftrightarrow> \<not> (kk = ?k \<and> ?o \<le> j) \<and> kk * 4096 + j < ?n * 512" unfolding f(1,2) .
        then show ?thesis by auto
      qed
      finally show "pmem ?t (paddrs ! kk + of_nat j) = (if kk * 4096 + j < ?f then file_byte blocks (kk * 4096 + j) else 0)" .
    qed
    with l' run idx False show ?thesis by (simp add: copy_app_def PAGE_SIZE_def Let_def)
  qed
qed

section \<open>The page of the arguments\<close>

definition arg_addr :: "nat \<Rightarrow> addr" where "arg_addr i = APPS_ARG + 68 + of_nat (i * 32)"

text \<open>The bytes of the page when \<open>k\<close> of the \<open>n\<close> pointers are stored.\<close>

definition arg_byte :: "nat \<Rightarrow> m_uint8 list list option \<Rightarrow> nat \<Rightarrow> nat \<Rightarrow> m_uint8" where
  "arg_byte n args k j =
     (if j < 4 then bytes32 (of_nat n) ! j
      else if j < 4 + 4 * k then bytes32 (arg_addr ((j - 4) div 4)) ! ((j - 4) mod 4)
      else case args of None \<Rightarrow> 0 | Some rows \<Rightarrow> if 68 \<le> j \<and> j < 68 + n * 32 then concat rows ! (j - 68) else 0)"

lemma store_args_ok:
  assumes p: "aligned p" and n: "n \<le> 16" and a: "\<And>rows. args = Some rows \<Longrightarrow> n * 32 \<le> length (concat rows)"
    and z: "\<And>j. j < 4096 \<Longrightarrow> m (p + of_nat j) = 0"
  shows "\<exists>m'. store_args p n args m = Inr m' \<and> (\<forall>j < 4096. m' (p + of_nat j) = arg_byte n args n j) \<and>
    (\<forall>x. m' x \<noteq> m x \<longrightarrow> in_range x p PAGE_SIZE)"
proof -
  let ?m1 = "store_u32 m p (of_nat n)"
  obtain m2 where m2: "(case args of None \<Rightarrow> Inr ?m1 | Some rows \<Rightarrow> if n * CMD_ARG_LEN \<le> length (concat rows)
      then Inr (store_bytes ?m1 (p + 4 + 4 * of_nat CMD_NARGS) (take (n * CMD_ARG_LEN) (concat rows))) else Inl Out_of_bounds) = Inr m2"
    "\<forall>j < 4096. m2 (p + of_nat j) = arg_byte n args 0 j" "\<forall>x. m2 x \<noteq> m x \<longrightarrow> in_range x p PAGE_SIZE"
  proof -
    have s1: "?m1 (p + of_nat j) = (if j < 4 then bytes32 (of_nat n) ! j else 0)" if "j < 4096" for j
      using store_bytes_page [OF p p, of 0 "bytes32 (of_nat n)" j m] that z by (simp add: store_u32_def)
    have w1: "in_range x p PAGE_SIZE" if "?m1 x \<noteq> m x" for x
      using store_within [of 0 "bytes32 (of_nat n)" m p x] that by (simp add: store_u32_def)
    show thesis
    proof (cases args)
      case None
      with s1 w1 show thesis by (intro that [of ?m1]) (simp_all add: arg_byte_def)
    next
      case (Some rows)
      let ?bs = "take (n * 32) (concat rows)"
      let ?m2 = "store_bytes ?m1 (p + of_nat 68) ?bs"
      have len: "length ?bs = n * 32" "68 + length ?bs \<le> 4096" using a [OF Some] n by simp_all
      have "?m2 (p + of_nat j) = arg_byte n args 0 j" if "j < 4096" for j
        using store_bytes_page [OF p p len(2) that, of ?m1] s1 [OF that] len(1) Some by (auto simp: arg_byte_def)
      moreover have "in_range x p PAGE_SIZE" if "?m2 x \<noteq> m x" for x
        using store_within [OF len(2), of ?m1 p x] w1 [of x] that by metis
      ultimately show thesis using a [OF Some] Some
        by (intro that [of ?m2]) (simp_all add: CMD_ARG_LEN_def CMD_NARGS_def add.assoc)
    qed
  qed
  let ?body = "\<lambda>i m. Inr (store_u32 m (p + 4 + 4 * of_nat i) (APPS_ARG + 4 + 4 * of_nat CMD_NARGS + of_nat (i * CMD_ARG_LEN)))"
  let ?P = "\<lambda>k m'. (\<forall>j < 4096. m' (p + of_nat j) = arg_byte n args k j) \<and> (\<forall>x. m' x \<noteq> m x \<longrightarrow> in_range x p PAGE_SIZE)"
  have "\<exists>m'. rfor ?body [0..<n] m2 = Inr m' \<and> ?P n m'"
  proof (rule rfor_upt [where P = ?P])
    show "?P 0 m2" using m2(2,3) by blast
  next
    fix i m' assume i: "i < n" and P: "?P i m'"
    let ?m = "store_bytes m' (p + of_nat (4 + 4 * i)) (bytes32 (arg_addr i))"
    have e: "?body i m' = Inr ?m"
      by (simp add: store_u32_def arg_addr_def CMD_NARGS_def CMD_ARG_LEN_def algebra_simps)
    have o': "4 + 4 * i + length (bytes32 (arg_addr i)) \<le> 4096" using i n by simp
    have "?m (p + of_nat j) = arg_byte n args (Suc i) j" if "j < 4096" for j
    proof -
      have "?m (p + of_nat j) = (if 4 + 4 * i \<le> j \<and> j < 4 + 4 * i + 4 then bytes32 (arg_addr i) ! (j - (4 + 4 * i)) else arg_byte n args i j)"
        using store_bytes_page [OF p p o' that, of m'] P that by simp
      also have "\<dots> = arg_byte n args (Suc i) j"
      proof (cases "4 + 4 * i \<le> j \<and> j < 4 + 4 * i + 4")
        case True
        then obtain c where c: "j = 4 + 4 * i + c" "c < 4" by (metis add_less_cancel_left le_Suc_ex)
        then show ?thesis by (simp add: arg_byte_def)
      next
        case False
        then show ?thesis by (auto simp: arg_byte_def)
      qed
      finally show ?thesis .
    qed
    moreover have "in_range x p PAGE_SIZE" if "?m x \<noteq> m x" for x
      using store_within [OF o', of m' p x] P that by metis
    ultimately show "\<exists>m''. ?body i m' = Inr m'' \<and> ?P (Suc i) m''" unfolding e by blast
  qed
  with m2(1) show ?thesis by (simp add: store_args_def Let_def)
qed

section \<open>What the new process sees\<close>

lemma mapping_at_loading:
  assumes l: "loading s0 pid ms s" and pid: "pid \<in> {1..<int MAX_NPROCESS}" and pm: "pm \<in> set ms" and j: "j < 4096"
  shows "mapping_at s pid (exec_addr pm + of_nat j) = Some pm"
proof -
  have wf: "wf_mmu s" and set: "set (maps_of s pid) = set ms" using l by (simp_all add: loading_def)
  have in_pm: "in_range (exec_addr pm + of_nat j) (exec_addr pm) PAGE_SIZE" using j by (rule in_page_of)
  then have "mapping_at s pid (exec_addr pm + of_nat j) \<noteq> None"
    unfolding mapping_at_def find_None_iff using pm set by blast
  then obtain pm' where pm': "mapping_at s pid (exec_addr pm + of_nat j) = Some pm'" by blast
  note m = mapping_at_Some [OF pm']
  have "aligned (exec_addr pm)" "aligned (exec_addr pm')"
    using wf_mmuD(3) [OF wf pid] pm m(1) set by (auto simp: wf_mapping_def)
  with in_two_pages [of "exec_addr pm'" "exec_addr pm"] m(2) in_pm have "exec_addr pm' = exec_addr pm" by blast
  moreover have "distinct (map exec_addr (maps_of s pid))" by (rule wf_mmuD(5) [OF wf pid])
  ultimately have "pm' = pm" using m(1) pm set by (metis distinct_map inj_on_def)
  with pm' show ?thesis by simp
qed

lemma view_loading:
  assumes l: "loading s0 pid ms s" and pid: "pid \<in> {1..<int MAX_NPROCESS}" "curr_vm_pid s0 \<noteq> pid" and pm: "pm \<in> set ms" and j: "j < 4096"
  shows "proc_view s pid (exec_addr pm + of_nat j) = pmem s (private_addr pm + of_nat j)"
proof -
  have "curr_vm_pid s \<noteq> pid" using l pid(2) by (simp add: loading_def)
  with mapping_at_loading [OF l pid(1) pm j] show ?thesis by (simp add: proc_view_def)
qed

lemma view_others:
  assumes l: "loading s0 pid ms s" and wf: "wf_mmu s0" "\<forall>q \<in> {1..<int MAX_NPROCESS}. private_pages s0 q \<subseteq> used_pages s0"
    and q: "q \<in> {1..<int MAX_NPROCESS}" "q \<noteq> pid" "mapped s0 q a"
  shows "proc_view s q a = proc_view s0 q a"
proof -
  note L = l [unfolded loading_def]
  obtain pm where pm: "mapping_at s0 q a = Some pm" using q(3) by (auto simp: mapped_def)
  note m = mapping_at_Some [OF pm]
  have same: "mapping_at s q a = Some pm" "curr_vm_pid s = curr_vm_pid s0" using L q pm by (simp_all add: mapping_at_def)
  have "\<forall>x. (\<forall>pm \<in> set ms. \<not> in_range x (private_addr pm) PAGE_SIZE) \<longrightarrow> pmem s x = pmem s0 x" using L by simp
  then have keep: "pmem s x = pmem s0 x" if "\<And>p. p \<in> private_addr ` set ms \<Longrightarrow> \<not> in_range x p PAGE_SIZE" for x
    using that by simp
  have pool: "private_addr ` set ms \<subseteq> page_pool" "private_addr ` set ms \<inter> used_pages s0 = {}" using L by simp_all
  have "private_addr pm \<in> used_pages s0" "private_addr pm \<in> page_pool"
    using bspec [OF wf(2) q(1)] m(1) wf_mmuD(3) [OF wf(1) q(1) m(1)] by (auto simp: private_pages_def wf_mapping_def)
  then have other: "\<not> in_range (private_addr pm + (a - exec_addr pm)) p PAGE_SIZE" if "p \<in> private_addr ` set ms" for p
    using in_two_pages [OF page_pool_aligned page_pool_aligned in_page_shift [OF m(2)], of "private_addr pm" p] that pool by blast
  have "\<not> in_range a p PAGE_SIZE" if "p \<in> private_addr ` set ms" for p
    using exec_not_in_pool [OF wf(1) q(1,3)] that pool(1) by blast
  then show ?thesis using keep [of a] keep [of "private_addr pm + (a - exec_addr pm)"] other same pm by (simp add: proc_view_def)
qed

lemma load_u32_bytes:
  assumes "\<And>j. j < 4 \<Longrightarrow> m (a + of_nat j) = bytes32 w ! j"
  shows "load_u32 m a = w"
  using assms [of 0] assms [of 1] assms [of 2] assms [of 3] by (simp add: load_u32_def bytes32_def le32_bytes32)

lemma page_holds_alloc:
  assumes "page_holds s paddrs f" "pmem s' = memset (pmem s) p 0 PAGE_SIZE" "p \<in> page_pool" "p \<notin> set paddrs" "set paddrs \<subseteq> page_pool"
  shows "page_holds s' paddrs f"
proof -
  have "\<not> in_range (paddrs ! k + of_nat j) p PAGE_SIZE" if "k < length paddrs" "j < 4096" for k j
    using in_two_pages [OF page_pool_aligned page_pool_aligned in_page_of [OF that(2)], of "paddrs ! k" p] nth_mem [OF that(1)] assms(3-5) by blast
  then show ?thesis using assms(1) unfolding page_holds_def assms(2) by (simp add: memset_def)
qed

lemma page_holds_write:
  assumes "page_holds s paddrs f" "\<And>x. m x \<noteq> pmem s x \<Longrightarrow> in_range x p PAGE_SIZE" "p \<in> page_pool" "p \<notin> set paddrs" "set paddrs \<subseteq> page_pool"
  shows "page_holds (s\<lparr>pmem := m\<rparr>) paddrs f"
proof -
  have "m (paddrs ! k + of_nat j) = pmem s (paddrs ! k + of_nat j)" if "k < length paddrs" "j < 4096" for k j
    using in_two_pages [OF page_pool_aligned page_pool_aligned in_page_of [OF that(2)], of "paddrs ! k" p] nth_mem [OF that(1)] assms(2-5) by blast
  then show ?thesis using assms(1) by (simp add: page_holds_def)
qed

definition arg_map :: "addr \<Rightarrow> page_mapping" where "arg_map p = \<lparr>private_addr = p, exec_addr = APPS_ARG\<rparr>"
definition stack_map :: "addr \<Rightarrow> page_mapping" where "stack_map p = \<lparr>private_addr = p, exec_addr = APPS_ARG + 4096\<rparr>"

lemma exec_addr_code_maps:
  assumes "length paddrs = 4" "a \<in> exec_addr ` set (code_maps paddrs)"
  shows "unat a < 0x80404000"
proof -
  obtain k where k: "k < 4" "a = APPS_ENTRY + of_nat (k * PAGE_SIZE)" using assms by (auto simp: code_maps_def)
  then show ?thesis using unat_add_small [of APPS_ENTRY "k * PAGE_SIZE"] by (simp add: APPS_ENTRY_def PAGE_SIZE_def)
qed

lemma load_app_ok:
  assumes start: "loading s0 pid [] s0" and pid: "pid \<in> {1..<int MAX_NPROCESS}" and free: "card (used_pages s0) + 6 \<le> NPAGES"
    and sz: "unat (p_filesz ph) \<le> 0x4000"
    and r: "\<And>i. i < n_rounds (p_filesz ph) \<Longrightarrow> reader (p_offset ph div 512 + of_nat i) = Inr (blocks i) \<and> length (blocks i) = 512"
    and n: "n \<le> 16" and a: "\<And>rows. args = Some rows \<Longrightarrow> n * 32 \<le> length (concat rows)"
  obtains paddrs p p' s' where "load_app pid reader n args ph s0 = Inr s'" "length paddrs = 4"
    "loading s0 pid (code_maps paddrs @ [arg_map p, stack_map p']) s'"
    "page_holds s' paddrs (\<lambda>off. if off < unat (p_filesz ph) then file_byte blocks off else 0)"
    "\<forall>j < 4096. pmem s' (p + of_nat j) = arg_byte n args n j"
proof -
  have npages: "APPS_NPAGES = 6" by (simp add: APPS_NPAGES_def APPS_SIZE_def PAGE_SIZE_def)
  let ?f = "\<lambda>off. if off < unat (p_filesz ph) then file_byte blocks off else 0"
  obtain paddrs s1 where 1: "alloc_app_pages pid s0 = Inr (paddrs, s1)" "length paddrs = 4" "loading s0 pid (code_maps paddrs) s1"
    "page_holds s1 paddrs (\<lambda>_. 0)" using alloc_app_pages_ok [OF start pid] free by auto
  obtain s2 where 2: "copy_app reader ph paddrs s1 = Inr s2" "loading s0 pid (code_maps paddrs) s2" "page_holds s2 paddrs ?f"
    using copy_app_ok [where reader = reader and blocks = blocks, OF 1(3,2) sz r 1(4)] by blast
  have lc: "length (code_maps paddrs) = 4" using 1(2) by (simp add: code_maps_def)
  have d: "aligned APPS_ARG" "APPS_ARG \<noteq> 0" "APPS_ARG \<notin> page_pool" by (simp_all add: aligned_def APPS_ARG_def not_page_pool)
  have d': "aligned (APPS_ARG + 4096)" "APPS_ARG + 4096 \<noteq> 0" "APPS_ARG + 4096 \<notin> page_pool" by (simp_all add: aligned_def APPS_ARG_def not_page_pool)
  have e: "APPS_ARG \<notin> exec_addr ` set (code_maps paddrs)" "APPS_ARG + 4096 \<notin> exec_addr ` set (code_maps paddrs @ [arg_map q])" for q
    using exec_addr_code_maps [OF 1(2), of APPS_ARG] exec_addr_code_maps [OF 1(2), of "APPS_ARG + 4096"]
    by (auto simp: APPS_ARG_def arg_map_def)
  obtain p s3 s4 where 3: "mmu_alloc s2 = Inr (p, s3)" "soft_tlb_map pid APPS_ARG p s3 = Inr s4"
    "loading s0 pid (code_maps paddrs @ [arg_map p]) s4" "pmem s4 = memset (pmem s2) p 0 PAGE_SIZE"
    unfolding arg_map_def by (rule loading_alloc [OF 2(2) pid _ _ d e(1)]) (use npages lc free in simp_all)
  have p: "p \<in> page_pool" "p \<notin> set paddrs" "set paddrs \<subseteq> page_pool" "aligned p"
    using 3(3) page_pool_aligned by (auto simp: loading_def private_code_maps arg_map_def)
  have h4: "page_holds s4 paddrs ?f" by (rule page_holds_alloc [OF 2(3) 3(4) p(1-3)])
  have z: "pmem s4 (p + of_nat j) = 0" if "j < 4096" for j using in_page_of [OF that, of p] by (simp add: 3(4) memset_def)
  obtain m where m: "store_args p n args (pmem s4) = Inr m" "\<forall>j < 4096. m (p + of_nat j) = arg_byte n args n j"
    "\<And>x. m x \<noteq> pmem s4 x \<Longrightarrow> in_range x p PAGE_SIZE" using store_args_ok [where m = "pmem s4" and args = args, OF p(4) n a z] by blast
  let ?s5 = "s4\<lparr>pmem := m\<rparr>"
  have l5: "loading s0 pid (code_maps paddrs @ [arg_map p]) ?s5"
    by (rule loading_write [OF 3(3)]) (use m(3) in \<open>auto simp: arg_map_def\<close>)
  have h5: "page_holds ?s5 paddrs ?f" by (rule page_holds_write [OF h4 m(3) p(1-3)])
  obtain p' s6 s7 where 4: "mmu_alloc ?s5 = Inr (p', s6)" "soft_tlb_map pid (APPS_ARG + 4096) p' s6 = Inr s7"
    "loading s0 pid ((code_maps paddrs @ [arg_map p]) @ [stack_map p']) s7" "pmem s7 = memset (pmem ?s5) p' 0 PAGE_SIZE"
    unfolding stack_map_def by (rule loading_alloc [OF l5 pid _ _ d' e(2)]) (use npages lc free in simp_all)
  have p': "p' \<in> page_pool" "p' \<notin> set paddrs" "p' \<noteq> p"
    using 4(3) by (auto simp: loading_def private_code_maps arg_map_def stack_map_def)
  have "page_holds s7 paddrs ?f" by (rule page_holds_alloc [OF h5 4(4) p'(1,2) p(3)])
  moreover have "page_holds s7 [p] (arg_byte n args n)"
    by (rule page_holds_alloc [OF _ 4(4) p'(1)]) (use m(2) p p'(3) in \<open>simp_all add: page_holds_def\<close>)
  moreover have "load_app pid reader n args ph s0 = Inr s7"
    using 1(1) 2(1) 3(1,2) m(1) 4(1,2) by (simp add: load_app_def PAGE_SIZE_def)
  ultimately show thesis using that [of s7 paddrs p p'] 1(2) 4(3) by (simp add: page_holds_def)
qed

lemma length_concat_rows: "\<forall>r \<in> set rows. length r = w \<Longrightarrow> length (concat rows) = length rows * w"
  by (induction rows) auto

lemma nth_concat_rows:
  assumes "\<forall>r \<in> set rows. length r = w" "i < length rows" "j < w"
  shows "concat rows ! (i * w + j) = rows ! i ! j"
  using assms
proof (induction rows arbitrary: i)
  case (Cons r rows)
  then show ?case by (cases i) (auto simp: nth_append add.assoc)
qed simp

lemma elf_load_pages:
  assumes "wf_mmu s" "alloc_inv s" "\<forall>q \<in> {1..<int MAX_NPROCESS}. private_pages s q \<subseteq> used_pages s"
    and "pid \<in> {1..<int MAX_NPROCESS}" "maps_of s pid = []" "curr_vm_pid s \<noteq> pid" "card (used_pages s) + 6 \<le> NPAGES"
    and "reader 0 = Inr buf" "e_phnum (header_of buf) = 1" "unat (e_phoff (header_of buf)) + 32 \<le> 512"
    and "ph = pheader_of buf (unat (e_phoff (header_of buf)))" "p_vaddr ph = APPS_ENTRY" "unat (p_filesz ph) \<le> 0x4000"
    and "\<forall>i < n_rounds (p_filesz ph). reader (p_offset ph div 512 + of_nat i) = Inr (blocks i) \<and> length (blocks i) = 512"
    and "n \<le> 16" and args: "\<And>rows. args = Some rows \<Longrightarrow> n * 32 \<le> length (concat rows)"
  obtains s' ms where "elf_load pid reader n args s = Inr s'" "loading s pid ms s'" "length ms = 6"
    "\<forall>off < 0x4000. proc_view s' pid (APPS_ENTRY + of_nat off) = (if off < unat (p_filesz ph) then file_byte blocks off else 0)"
    "\<forall>j < 4096. proc_view s' pid (APPS_ARG + of_nat j) = arg_byte n args n j"
    "\<forall>off < 0x4000. mapped s' pid (APPS_ENTRY + of_nat off)" "\<forall>j < 4096. mapped s' pid (APPS_ARG + of_nat j)"
    "\<forall>q \<in> {1..<int MAX_NPROCESS}. q \<noteq> pid \<longrightarrow> (\<forall>a. mapped s q a \<longrightarrow> proc_view s' q a = proc_view s q a)"
proof -
  have rd: "reader (p_offset ph div 512 + of_nat i) = Inr (blocks i) \<and> length (blocks i) = 512" if "i < n_rounds (p_filesz ph)" for i
    using assms(14) that by blast
  obtain paddrs p p' s' where s': "load_app pid reader n args ph s = Inr s'" "length paddrs = 4"
    "loading s pid (code_maps paddrs @ [arg_map p, stack_map p']) s'"
    "page_holds s' paddrs (\<lambda>off. if off < unat (p_filesz ph) then file_byte blocks off else 0)"
    "\<forall>j < 4096. pmem s' (p + of_nat j) = arg_byte n args n j"
    by (rule load_app_ok [where reader = reader and blocks = blocks, OF loading_start [OF assms(1-3,5)] assms(4,7,13) rd assms(15) args])
  have load: "elf_load pid reader n args s = Inr s'"
    using assms(8-12) s'(1) by (simp add: elf_load_def APPS_ENTRY_def GRASS_ENTRY_def Let_def)
  note view = view_loading [OF s'(3) assms(4,6)]
  have mapd: "mapped s' pid (exec_addr pm + of_nat j)" if "pm \<in> set (code_maps paddrs @ [arg_map p, stack_map p'])" "j < 4096" for pm j
    using mapping_at_loading [OF s'(3) assms(4) that] by (simp add: mapped_def)
  have code: "proc_view s' pid (APPS_ENTRY + of_nat off) = (if off < unat (p_filesz ph) then file_byte blocks off else 0)"
    "mapped s' pid (APPS_ENTRY + of_nat off)" if "off < 0x4000" for off
  proof -
    let ?k = "off div 4096" and ?j = "off mod 4096"
    have k: "?k < 4" "?j < 4096" using that by auto
    let ?pm = "\<lparr>private_addr = paddrs ! ?k, exec_addr = APPS_ENTRY + of_nat (?k * PAGE_SIZE)\<rparr>"
    have pm: "?pm \<in> set (code_maps paddrs @ [arg_map p, stack_map p'])" using k(1) s'(2) by (auto simp: code_maps_def)
    have "exec_addr ?pm + of_nat ?j = APPS_ENTRY + of_nat (?k * 4096 + ?j)" by (simp only: PAGE_SIZE_def of_nat_add page_mapping.simps add.assoc)
    also have "?k * 4096 + ?j = off" by simp
    finally have a: "exec_addr ?pm + of_nat ?j = APPS_ENTRY + of_nat off" .
    show "mapped s' pid (APPS_ENTRY + of_nat off)" using mapd [OF pm k(2)] unfolding a .
    have "proc_view s' pid (APPS_ENTRY + of_nat off) = pmem s' (paddrs ! ?k + of_nat ?j)"
      using view [OF pm k(2)] unfolding a by (simp only: page_mapping.simps)
    also have "\<dots> = (if ?k * 4096 + ?j < unat (p_filesz ph) then file_byte blocks (?k * 4096 + ?j) else 0)"
      using s'(4) [unfolded page_holds_def, rule_format, of ?k ?j] k s'(2) by simp
    finally show "proc_view s' pid (APPS_ENTRY + of_nat off) = (if off < unat (p_filesz ph) then file_byte blocks off else 0)" by simp
  qed
  have arg: "proc_view s' pid (APPS_ARG + of_nat j) = arg_byte n args n j" "mapped s' pid (APPS_ARG + of_nat j)" if "j < 4096" for j
    using view [of "arg_map p" j] mapd [of "arg_map p" j] s'(5) that by (simp_all add: arg_map_def)
  have others: "proc_view s' q a = proc_view s q a" if "q \<in> {1..<int MAX_NPROCESS}" "q \<noteq> pid" "mapped s q a" for q a
    by (rule view_others [OF s'(3) assms(1,3) that])
  have "length (code_maps paddrs @ [arg_map p, stack_map p']) = 6" using s'(2) by (simp add: code_maps_def)
  from load s'(3) this show thesis by (rule that) (use code arg others in blast)+
qed

lemma elf_load_ok:
  assumes "wf_mmu s" "alloc_inv s" "\<forall>q \<in> {1..<int MAX_NPROCESS}. private_pages s q \<subseteq> used_pages s"
    and "pid \<in> {1..<int MAX_NPROCESS}" "maps_of s pid = []" "curr_vm_pid s \<noteq> pid" "card (used_pages s) + 6 \<le> NPAGES"
    and "reader 0 = Inr buf" "e_phnum (header_of buf) = 1" "unat (e_phoff (header_of buf)) + 32 \<le> 512"
    and "ph = pheader_of buf (unat (e_phoff (header_of buf)))" "p_vaddr ph = APPS_ENTRY" "unat (p_filesz ph) \<le> 0x4000"
    and "\<forall>i < n_rounds (p_filesz ph). reader (p_offset ph div 512 + of_nat i) = Inr (blocks i) \<and> length (blocks i) = 512"
    and "n \<le> 16" "length rows = 16" "\<forall>r \<in> set rows. length r = 32"
  shows "\<exists>s'. elf_load pid reader n (Some rows) s = Inr s' \<and> wf_mmu s' \<and> alloc_inv s' \<and> (\<forall>q \<in> {1..<int MAX_NPROCESS}. private_pages s' q \<subseteq> used_pages s') \<and>
    (\<forall>off < 0x4000. proc_view s' pid (APPS_ENTRY + of_nat off) = (if off < unat (p_filesz ph) then file_byte blocks off else 0)) \<and>
    load_u32 (proc_view s' pid) APPS_ARG = of_nat n \<and>
    (\<forall>i < n. load_u32 (proc_view s' pid) (APPS_ARG + of_nat (4 + 4 * i)) = arg_addr i \<and>
       (\<forall>j < 32. proc_view s' pid (arg_addr i + of_nat j) = rows ! i ! j)) \<and>
    (\<forall>q \<in> {1..<int MAX_NPROCESS}. q \<noteq> pid \<longrightarrow> (\<forall>a. mapped s q a \<longrightarrow> proc_view s' q a = proc_view s q a))"
proof -
  note rows = length_concat_rows [OF assms(17)]
  have args: "n * 32 \<le> length (concat rows')" if "Some rows = Some rows'" for rows' using that rows assms(15,16) by simp
  obtain s' ms where s': "elf_load pid reader n (Some rows) s = Inr s'" "loading s pid ms s'" "length ms = 6"
    "\<forall>off < 0x4000. proc_view s' pid (APPS_ENTRY + of_nat off) = (if off < unat (p_filesz ph) then file_byte blocks off else 0)"
    "\<forall>j < 4096. proc_view s' pid (APPS_ARG + of_nat j) = arg_byte n (Some rows) n j"
    "\<forall>q \<in> {1..<int MAX_NPROCESS}. q \<noteq> pid \<longrightarrow> (\<forall>a. mapped s q a \<longrightarrow> proc_view s' q a = proc_view s q a)"
    by (rule elf_load_pages [OF assms(1-15) args])
  have inv: "wf_mmu s'" "alloc_inv s'" "\<forall>q \<in> {1..<int MAX_NPROCESS}. private_pages s' q \<subseteq> used_pages s'"
    using loadingD [OF s'(2)] by blast+
  note arg = s'(5) [rule_format]
  have argc: "load_u32 (proc_view s' pid) APPS_ARG = of_nat n"
    by (rule load_u32_bytes) (simp add: arg arg_byte_def)
  have argv: "load_u32 (proc_view s' pid) (APPS_ARG + of_nat (4 + 4 * i)) = arg_addr i" if "i < n" for i
  proof (rule load_u32_bytes)
    fix j :: nat assume j: "j < 4"
    have "proc_view s' pid (APPS_ARG + of_nat (4 + 4 * i + j)) = bytes32 (arg_addr i) ! j"
      using j that assms(15) by (subst arg) (simp_all add: arg_byte_def)
    then show "proc_view s' pid (APPS_ARG + of_nat (4 + 4 * i) + of_nat j) = bytes32 (arg_addr i) ! j"
      by (simp only: of_nat_add add.assoc)
  qed
  have row: "proc_view s' pid (arg_addr i + of_nat j) = rows ! i ! j" if "i < n" "j < 32" for i j
  proof -
    have ij: "i * 32 + j < n * 32" using that by linarith
    have e: "arg_addr i + of_nat j = APPS_ARG + of_nat (68 + i * 32 + j)" by (simp add: arg_addr_def)
    have "proc_view s' pid (arg_addr i + of_nat j) = arg_byte n (Some rows) n (68 + i * 32 + j)"
      unfolding e by (rule arg) (use ij assms(15) in simp)
    also have "\<dots> = concat rows ! (i * 32 + j)" using ij assms(15) by (simp add: arg_byte_def)
    also have "\<dots> = rows ! i ! j" using nth_concat_rows [OF assms(17)] that assms(15,16) by simp
    finally show ?thesis .
  qed
  show ?thesis using s'(1,4,6) inv argc argv row by blast
qed

text \<open>
  C7. Loading an application. When the process has no pages yet and six pages are free, elf_load
  succeeds for a file with one program header of at most 16 KB for the address of applications.
  The process then sees the bytes of the file in its code and data area, and zeros behind them; in
  the page of arguments it sees their number, pointers to them, and the arguments themselves; and
  what every other process sees has not changed.
\<close>

theorem elf_load_correct:
  assumes "wf_mmu s" "alloc_inv s" "\<forall>q \<in> {1..<int MAX_NPROCESS}. private_pages s q \<subseteq> used_pages s"
    and "pid \<in> {1..<int MAX_NPROCESS}" "maps_of s pid = []" "curr_vm_pid s \<noteq> pid" "card (used_pages s) + 6 \<le> NPAGES"
    and "reader 0 = Inr buf" "e_phnum (header_of buf) = 1" "unat (e_phoff (header_of buf)) + 32 \<le> 512"
    and "ph = pheader_of buf (unat (e_phoff (header_of buf)))" "p_vaddr ph = APPS_ENTRY" "unat (p_filesz ph) \<le> 0x4000"
    and "\<forall>i < n_rounds (p_filesz ph). reader (p_offset ph div 512 + of_nat i) = Inr (blocks i) \<and> length (blocks i) = 512"
    and "n \<le> 16" "length rows = 16" "\<forall>r \<in> set rows. length r = 32"
  shows "\<exists>s'. elf_load pid reader n (Some rows) s = Inr s' \<and> wf_mmu s' \<and> alloc_inv s' \<and> (\<forall>q \<in> {1..<int MAX_NPROCESS}. private_pages s' q \<subseteq> used_pages s') \<and>
    (\<forall>off < 0x4000. proc_view s' pid (APPS_ENTRY + of_nat off) = (if off < unat (p_filesz ph) then file_byte blocks off else 0)) \<and>
    load_u32 (proc_view s' pid) APPS_ARG = of_nat n \<and>
    (\<forall>i < n. load_u32 (proc_view s' pid) (APPS_ARG + of_nat (4 + 4 * i)) = arg_addr i \<and>
       (\<forall>j < 32. proc_view s' pid (arg_addr i + of_nat j) = rows ! i ! j)) \<and>
    (\<forall>q \<in> {1..<int MAX_NPROCESS}. q \<noteq> pid \<longrightarrow> (\<forall>a. mapped s q a \<longrightarrow> proc_view s' q a = proc_view s q a))"
  by (rule elf_load_ok [OF assms])

text \<open>A file with a header block and a program of 600 bytes, loaded beside two processes.\<close>

definition demo_header :: "m_uint8 list" where
  "demo_header = replicate 28 0 @ [52, 0, 0, 0] @ replicate 12 0 @ [1, 0] @ replicate 6 0 @
     [1, 0, 0, 0, 0, 16, 0, 0, 0, 0, 0x40, 0x80, 0, 0, 0, 0, 0x58, 2, 0, 0] @ replicate 12 0 @ replicate 428 0"

definition demo_reader :: elf_reader where
  "demo_reader b = Inr (if b = 0 then demo_header else replicate 512 9)"

lemma demo_header_fields:
  "e_phnum (header_of demo_header) = 1" "e_phoff (header_of demo_header) = 52"
  "p_vaddr (pheader_of demo_header 52) = APPS_ENTRY" "p_filesz (pheader_of demo_header 52) = 600"
  "p_offset (pheader_of demo_header 52) = 0x1000"
  by (simp_all add: demo_header_def header_of_def pheader_of_def u16_at_def u32_at_def nth_append le32_def APPS_ENTRY_def)

lemma two_pages_used:
  assumes "bitmap s = 3 # replicate 143 0"
  shows "card (used_pages s) + 6 \<le> NPAGES"
proof -
  have "bits_of (bitmap s) NPAGES \<subseteq> {..<8}"
  proof
    fix i assume i: "i \<in> bits_of (bitmap s) NPAGES"
    show "i \<in> {..<8}"
    proof (rule ccontr)
      assume "i \<notin> {..<8}"
      then obtain k where k: "i div 8 = Suc k" by (cases "i div 8") auto
      moreover have "i < 1148" using i by (simp add: bits_of_def NPAGES_eq)
      ultimately have "bitmap s ! (i div 8) = 0" by (auto simp: assms)
      with i show False by (simp add: bits_of_def bit_test_def)
    qed
  qed
  then have "card (used_pages s) \<le> card {..<8 :: nat}"
    unfolding used_pages_def by (meson card_image_le card_mono finite_lessThan finite_subset le_trans)
  then show ?thesis by (simp add: NPAGES_eq)
qed

theorem elf_load_correct_witness:
  "\<exists>s'. elf_load 3 demo_reader 1 (Some (argv_of [string_bytes ''echo''])) two_procs = Inr s' \<and>
     proc_view s' 3 (APPS_ENTRY + 599) = 9 \<and> proc_view s' 3 (APPS_ENTRY + 600) = 0 \<and>
     load_u32 (proc_view s' 3) APPS_ARG = 1 \<and> proc_view s' 2 0x80400000 = 42"
proof -
  let ?rows = "argv_of [string_bytes ''echo'']" and ?ph = "pheader_of demo_header 52"
  have pid: "3 \<in> {1..<int MAX_NPROCESS}" "maps_of two_procs 3 = []" "curr_vm_pid two_procs \<noteq> 3" and free: "card (used_pages two_procs) + 6 \<le> NPAGES"
    using two_procs_maps(3) [of 3] two_pages_used [of two_procs] by (simp_all add: MAX_NPROCESS_def two_procs_def)
  have rows: "length ?rows = 16" "\<forall>r \<in> set ?rows. length r = 32" by (simp_all add: argv_of_def pad_def string_bytes_def)
  have nr: "n_rounds (p_filesz ?ph) = 2" by (simp add: demo_header_fields n_rounds_def)
  have rd: "\<forall>i < n_rounds (p_filesz ?ph). demo_reader (p_offset ?ph div 512 + of_nat i) = Inr (replicate 512 9) \<and> length (replicate 512 (9 :: m_uint8)) = 512"
    unfolding nr by (auto simp: demo_header_fields demo_reader_def less_2_cases_iff)
  have hd: "demo_reader 0 = Inr demo_header" "unat (e_phoff (header_of demo_header)) = 52" by (simp_all add: demo_reader_def demo_header_fields)
  obtain s' where s': "elf_load 3 demo_reader 1 (Some ?rows) two_procs = Inr s'"
    "\<forall>off < 0x4000. proc_view s' 3 (APPS_ENTRY + of_nat off) = (if off < unat (p_filesz ?ph) then file_byte (\<lambda>_. replicate 512 9) off else 0)"
    "load_u32 (proc_view s' 3) APPS_ARG = of_nat 1"
    "\<forall>q \<in> {1..<int MAX_NPROCESS}. q \<noteq> 3 \<longrightarrow> (\<forall>a. mapped two_procs q a \<longrightarrow> proc_view s' q a = proc_view two_procs q a)"
    using elf_load_correct [OF two_procs_wf two_procs_alloc_inv two_procs_used pid free hd(1) demo_header_fields(1) _ _ _ _ rd _ rows, of 1]
    by (auto simp: hd(2) demo_header_fields)
  have "proc_view s' 3 (APPS_ENTRY + 599) = 9" "proc_view s' 3 (APPS_ENTRY + 600) = 0"
    using s'(2) [rule_format, of 599] s'(2) [rule_format, of 600] by (simp_all add: demo_header_fields file_byte_def)
  moreover have "proc_view s' 2 0x80400000 = 42" using s'(4) two_procs_mapped by (simp add: MAX_NPROCESS_def)
  ultimately show ?thesis using s'(1,3) by auto
qed

end
