(* ===== verification/Sys_Proc.thy ===== *)
theory Sys_Proc
  imports Elf_Loader
begin

text \<open>
  The process server (apps/system/sys_proc.c), which starts and ends processes on behalf of the
  shell, and the start of the kernel (grass/grass.c). The theory shows what starting an application
  does to the process table and to the address spaces, from the command the shell sends to the
  program that mkfs put on the disk.
\<close>

section \<open>Definitions\<close>

definition GRASS_EXEC_SEGMENT :: m_uint32 where "GRASS_EXEC_SEGMENT = of_nat (GRASS_EXEC_SIZE div GRASS_NEXEC div BLOCK_SIZE)"
definition GRASS_EXEC_START :: m_uint32 where "GRASS_EXEC_START = of_nat (PAGING_DEV_SIZE div BLOCK_SIZE)"
definition SYS_PROC_EXEC_START :: m_uint32 where "SYS_PROC_EXEC_START = GRASS_EXEC_START + GRASS_EXEC_SEGMENT"
definition SYS_FILE_EXEC_START :: m_uint32 where "SYS_FILE_EXEC_START = GRASS_EXEC_START + GRASS_EXEC_SEGMENT * 2"
definition SYS_DIR_EXEC_START :: m_uint32 where "SYS_DIR_EXEC_START = GRASS_EXEC_START + GRASS_EXEC_SEGMENT * 3"
definition SYS_NET_EXEC_START :: m_uint32 where "SYS_NET_EXEC_START = GRASS_EXEC_START + GRASS_EXEC_SEGMENT * 4"
definition SYS_SHELL_EXEC_START :: m_uint32 where "SYS_SHELL_EXEC_START = GRASS_EXEC_START + GRASS_EXEC_SEGMENT * 5"

text \<open>The globals of the process server, beside the kernel that it works on.\<close>

record sys_proc = kernel +
  app_ino :: int
  app_pid :: int
  shell_waiting :: bool

text \<open>The readers. \<open>old\<close> stands for what the destination holds, where nothing is read.\<close>

definition app_read :: "disk_dev \<Rightarrow> m_uint8 list \<Rightarrow> m_uint8 list \<Rightarrow> int \<Rightarrow> elf_reader" where
  "app_read dev stack old ino off = rbind (file_read dev stack (word_of_int ino) off BLOCK_SIZE old) (\<lambda>(r, blk). Inr blk)"

definition sys_proc_read :: "disk_dev \<Rightarrow> m_uint32 \<Rightarrow> elf_reader" where
  "sys_proc_read dev sys_proc_base b = rbind (earth_disk_read (sys_proc_base + b) 1 dev) (\<lambda>bs. Inr (bytes_of_block (hd bs)))"

text \<open>\<open>argv[argc - 1][0]\<close>\<close>

definition last_arg_char :: "proc_request \<Rightarrow> m_uint8 res" where
  "last_arg_char req = (if 0 < argc req \<and> argc req \<le> CMD_NARGS then Inr (argv req ! (argc req - 1) ! 0) else Inl Out_of_bounds)"

definition app_spawn :: "disk_dev \<Rightarrow> m_uint8 list \<Rightarrow> m_uint8 list \<Rightarrow> proc_request \<Rightarrow> 'a sys_proc_scheme \<Rightarrow> (int \<times> 'a sys_proc_scheme) res" where
  "app_spawn dev stack old req s =
     rbind (dir_lookup dev stack old 0 (string_bytes ''bin/'')) (\<lambda>bin_ino.
     rbind (dir_lookup dev stack old (word_of_int bin_ino) (c_string (argv req ! 0))) (\<lambda>ino.
     let s = s\<lparr>app_ino := ino\<rparr> in
     if ino < 0 then Inr (-1, s)
     else
       rbind (proc_alloc s) (\<lambda>(pid, s).
       let s = s\<lparr>app_pid := pid\<rparr> in
       rbind (last_arg_char req) (\<lambda>c.
       let n = (if c = 38 then argc req - 1 else argc req) in
       rbind (elf_load pid (app_read dev stack old ino) n (Some (argv req)) s) (\<lambda>s.
       rbind (proc_set_ready pid s) (\<lambda>s. Inr (0, s)))))))"

definition sys_spawn :: "disk_dev \<Rightarrow> m_uint32 \<Rightarrow> 'a kernel_scheme \<Rightarrow> 'a kernel_scheme res" where
  "sys_spawn dev base s =
     rbind (proc_alloc s) (\<lambda>(pid, s).
     if pid < 1 \<or> pid > 5 then Inl Out_of_bounds
     else rbind (elf_load pid (sys_proc_read dev base) 0 None s) (proc_set_ready pid))"

text \<open>
  One round of the main loop: the messages sent to the shell, and the new state. The reply to the
  end of a process is the request itself, whose type has the code of an error; the shell does not
  look at it.
\<close>

definition sys_proc_step :: "disk_dev \<Rightarrow> m_uint8 list \<Rightarrow> m_uint8 list \<Rightarrow> int \<Rightarrow> proc_request \<Rightarrow> 'a sys_proc_scheme \<Rightarrow>
    (proc_reply list \<times> 'a sys_proc_scheme) res" where
  "sys_proc_step dev stack old sender req s = (case pr_type req of
     PROC_SPAWN \<Rightarrow> rbind (app_spawn dev stack old req s) (\<lambda>(r, s).
       rbind (last_arg_char req) (\<lambda>c.
         Inr ([if r < 0 then CMD_ERROR else CMD_OK], s\<lparr>shell_waiting := (c \<noteq> 38)\<rparr>)))
   | PROC_SLEEP \<Rightarrow>
       if argc req = 1 \<and> sender \<ge> GPID_USER_START
       then rbind (proc_sleep sender (sint (u32_at (argv req ! 0) 0)) s) (\<lambda>s. Inr ([], s))
       else Inl (Fatal ''sys_proc: invalid sleep'')
   | PROC_EXIT \<Rightarrow> rbind (proc_free sender s) (\<lambda>s.
       Inr (if shell_waiting s \<and> app_pid s = sender then [CMD_ERROR] else [], s))
   | PROC_KILLALL \<Rightarrow> rbind (proc_free (-1) s) (\<lambda>s. Inr ([], s)))"

text \<open>The start of the kernel, up to the jump to the process server.\<close>

definition grass_main :: "disk_dev \<Rightarrow> 'a kernel_scheme \<Rightarrow> 'a kernel_scheme res" where
  "grass_main dev s =
     rbind (elf_load GPID_PROCESS (sys_proc_read dev SYS_PROC_EXEC_START) 0 None s) (\<lambda>s.
     rbind (soft_tlb_switch GPID_PROCESS s) (\<lambda>s.
     rbind (proc_alloc s) (\<lambda>(pid, s). proc_set_running pid s)))"

section \<open>The loader leaves the process table alone\<close>

definition same_procs :: "'a kernel_scheme \<Rightarrow> 'a kernel_scheme \<Rightarrow> bool" where
  "same_procs s s' \<longleftrightarrow> (\<exists>b m a. s' = s\<lparr>bitmap := b, pmem := m, app_pages := a\<rparr>)"

lemma same_procs_refl: "same_procs s s"
proof -
  have "s = s\<lparr>bitmap := bitmap s, pmem := pmem s, app_pages := app_pages s\<rparr>" by simp
  then show ?thesis unfolding same_procs_def by blast
qed

lemma same_procs_trans [trans]: "same_procs s t \<Longrightarrow> same_procs t u \<Longrightarrow> same_procs s u"
  unfolding same_procs_def by force

lemma same_procs_pmem: "same_procs s (s\<lparr>pmem := m\<rparr>)"
proof -
  have "s\<lparr>pmem := m\<rparr> = s\<lparr>bitmap := bitmap s, pmem := m, app_pages := app_pages s\<rparr>" by simp
  then show ?thesis unfolding same_procs_def by blast
qed

lemma same_procs_alloc: "mmu_alloc s = Inr (p, s') \<Longrightarrow> same_procs s s'"
proof -
  assume "mmu_alloc s = Inr (p, s')"
  then obtain i where "s' = (bitmap_set i s)\<lparr>pmem := memset (pmem s) p 0 PAGE_SIZE\<rparr>"
    unfolding mmu_alloc_def by (elim pmalloc_Inr) simp
  then have "s' = s\<lparr>bitmap := bit_set (bitmap s) i, pmem := memset (pmem s) p 0 PAGE_SIZE, app_pages := app_pages s\<rparr>"
    by (simp add: bitmap_set_def)
  then show ?thesis unfolding same_procs_def by blast
qed

lemma same_procs_map: "soft_tlb_map pid dst src s = Inr s' \<Longrightarrow> same_procs s s'"
proof -
  assume "soft_tlb_map pid dst src s = Inr s'"
  then obtain i pm where "s' = set_mapping pid i pm s" by (auto simp: soft_tlb_map_def res_simps split: option.splits)
  then have "s' = s\<lparr>bitmap := bitmap s, pmem := pmem s, app_pages := (app_pages s)[nat pid := (app_pages s ! nat pid)[i := pm]]\<rparr>"
    by (simp add: set_mapping_def)
  then show ?thesis unfolding same_procs_def by blast
qed

lemma same_procs_read: "read_to reader b dst s = Inr s' \<Longrightarrow> same_procs s s'"
  by (auto simp: read_to_def res_simps intro: same_procs_pmem)

lemma same_procs_load_grass: "load_grass reader ph s = Inr s' \<Longrightarrow> same_procs s s'"
proof -
  assume "load_grass reader ph s = Inr s'"
  then obtain t where t: "rfor (\<lambda>i s. read_to reader (p_offset ph div 512 + of_nat i) (GRASS_ENTRY + of_nat (i * 512)) s) [0..<n_rounds (p_filesz ph)] s = Inr t"
    "s' = t\<lparr>pmem := memset (pmem t) (GRASS_ENTRY + p_filesz ph) 0 (unat (GRASS_SIZE - p_filesz ph))\<rparr>"
    by (auto simp: load_grass_def res_simps)
  have "same_procs s t"
    by (rule rfor_inv [OF t(1), where P = "same_procs s"]) (auto intro: same_procs_refl same_procs_trans same_procs_read)
  with t(2) show ?thesis using same_procs_trans same_procs_pmem by blast
qed

lemma same_procs_copy_app: "copy_app reader ph paddrs s = Inr s' \<Longrightarrow> same_procs s s'"
proof -
  assume "copy_app reader ph paddrs s = Inr s'"
  then obtain k t where t: "rfor (copy_app_block reader (p_offset ph div 512) paddrs) [0..<n_rounds (p_filesz ph)] (-1, s) = Inr (k, t)"
    "\<exists>m. s' = t\<lparr>pmem := m\<rparr>"
    by (auto simp: copy_app_def res_simps Let_def split: if_splits) (metis (no_types) mmu.surjective phys.update_convs(2) surjective_pairing)+
  have "same_procs s (snd (k, t))"
    by (rule rfor_inv [OF t(1), where P = "\<lambda>x. same_procs s (snd x)"])
       (auto simp: copy_app_block_def res_simps Let_def same_procs_refl split: if_splits dest!: same_procs_read elim: same_procs_trans)
  with t(2) show ?thesis using same_procs_trans same_procs_pmem by (metis snd_conv)
qed

lemma same_procs_alloc_app_pages: "alloc_app_pages pid s = Inr (paddrs, s') \<Longrightarrow> same_procs s s'"
proof -
  assume a: "alloc_app_pages pid s = Inr (paddrs, s')"
  have "same_procs s (snd (paddrs, s'))"
    by (rule rfor_inv [OF a [unfolded alloc_app_pages_def], where P = "\<lambda>x. same_procs s (snd x)"])
       (auto simp: res_simps same_procs_refl dest!: same_procs_alloc same_procs_map
         elim!: same_procs_trans intro: same_procs_trans [OF same_procs_pmem])
  then show ?thesis by simp
qed

lemma same_procs_load_app: "load_app pid reader n args ph s = Inr s' \<Longrightarrow> same_procs s s'"
proof -
  assume "load_app pid reader n args ph s = Inr s'"
  then obtain paddrs s1 s2 p s3 s4 m p' s5 where
    "alloc_app_pages pid s = Inr (paddrs, s1)" "copy_app reader ph paddrs s1 = Inr s2" "mmu_alloc s2 = Inr (p, s3)"
    "soft_tlb_map pid APPS_ARG p s3 = Inr s4" "mmu_alloc (s4\<lparr>pmem := m\<rparr>) = Inr (p', s5)"
    "soft_tlb_map pid (APPS_ARG + of_nat PAGE_SIZE) p' s5 = Inr s'"
    by (auto simp: load_app_def res_simps)
  note h = same_procs_alloc_app_pages [OF this(1)] same_procs_copy_app [OF this(2)] same_procs_alloc [OF this(3)]
    same_procs_map [OF this(4)] same_procs_pmem [of s4 m] same_procs_alloc [OF this(5)] same_procs_map [OF this(6)]
  show ?thesis using h by (meson same_procs_trans)
qed

lemma same_procs_elf_load: "elf_load pid reader n args s = Inr s' \<Longrightarrow> same_procs s s'"
  by (auto simp: elf_load_def Let_def res_simps split: if_splits intro: same_procs_load_grass same_procs_load_app)

lemma elf_load_frame:
  assumes "elf_load pid reader n args (s :: 'a kernel_scheme) = Inr s'"
  shows "proc_set s' = proc_set s" "proc_curr_idx s' = proc_curr_idx s" "proc_stack s' = proc_stack s"
  using same_procs_elf_load [OF assms] by (auto simp: same_procs_def)

section \<open>Starting an application\<close>

lemma same_mmu:
  assumes "pmem t = pmem s" "curr_vm_pid t = curr_vm_pid s" "app_pages t = app_pages s" "bitmap t = bitmap s"
  shows "wf_mmu t = wf_mmu s" "alloc_inv t = alloc_inv s" "used_pages t = used_pages s" "maps_of t = maps_of s"
    "private_pages t = private_pages s" "curr_vm_pid t = curr_vm_pid s" "mapped t = mapped s" "proc_view t = proc_view s"
    "pages_accounted t = pages_accounted s"
proof -
  show m: "maps_of t = maps_of s" by (rule ext) (simp add: assms maps_of_def)
  show "wf_mmu t = wf_mmu s" "alloc_inv t = alloc_inv s" "used_pages t = used_pages s" "curr_vm_pid t = curr_vm_pid s"
    by (simp_all add: wf_mmu_def alloc_inv_def used_pages_def m assms)
  then show "private_pages t = private_pages s" "mapped t = mapped s" "pages_accounted t = pages_accounted s"
    by (simp_all add: fun_eq_iff private_pages_def mapped_def mapping_at_def pages_accounted_def m)
  show "proc_view t = proc_view s" by (simp add: fun_eq_iff proc_view_def mapping_at_def m assms split: option.splits)
qed

definition executable :: "elf_reader \<Rightarrow> nat \<Rightarrow> (nat \<Rightarrow> m_uint8 list) \<Rightarrow> bool" where
  "executable reader filesz blocks \<longleftrightarrow> (\<exists>buf ph. reader 0 = Inr buf \<and> e_phnum (header_of buf) = 1 \<and> unat (e_phoff (header_of buf)) + 32 \<le> 512 \<and>
     ph = pheader_of buf (unat (e_phoff (header_of buf))) \<and> p_vaddr ph = APPS_ENTRY \<and> unat (p_filesz ph) = filesz \<and>
     (\<forall>i < n_rounds (p_filesz ph). reader (p_offset ph div 512 + of_nat i) = Inr (blocks i) \<and> length (blocks i) = 512))"

lemma spawn_ok:
  fixes s :: "'a sys_proc_scheme"
  assumes wf: "wf_kernel s" and i: "i < 15" "proc_stat (proc_set s ! i) = PROC_UNUSED" "\<forall>j < i. proc_stat (proc_set s ! j) \<noteq> PROC_UNUSED"
    and pages: "maps_of s (int i + 1) = []" "curr_vm_pid s \<noteq> int i + 1" "card (used_pages s) + 6 \<le> NPAGES"
    and bin: "dir_lookup dev stack old 0 (string_bytes ''bin/'') = Inr bin_ino"
    and ino: "dir_lookup dev stack old (word_of_int bin_ino) (c_string (argv req ! 0)) = Inr ino" "0 \<le> ino"
    and elf: "executable (app_read dev stack old ino) filesz blocks" "filesz \<le> 0x4000"
    and req: "pr_type req = PROC_SPAWN" "0 < argc req" "argc req \<le> 16" "length (argv req) = 16" "\<forall>r \<in> set (argv req). length r = 32"
    and n: "n = (if argv req ! (argc req - 1) ! 0 = 38 then argc req - 1 else argc req)"
  shows "\<exists>s'. sys_proc_step dev stack old sender req s = Inr ([CMD_OK], s') \<and> wf_kernel s' \<and>
    proc_set s' = (proc_set s)[i := (proc_set s ! i)\<lparr>proc_pid := int i + 1, proc_stat := PROC_READY\<rparr>] \<and>
    app_pid s' = int i + 1 \<and> (shell_waiting s' \<longleftrightarrow> n = argc req) \<and>
    (\<forall>off < 0x4000. proc_view s' (int i + 1) (APPS_ENTRY + of_nat off) = (if off < filesz then file_byte blocks off else 0)) \<and>
    load_u32 (proc_view s' (int i + 1)) APPS_ARG = of_nat n \<and>
    (\<forall>k < n. load_u32 (proc_view s' (int i + 1)) (APPS_ARG + of_nat (4 + 4 * k)) = arg_addr k \<and>
       (\<forall>j < 32. proc_view s' (int i + 1) (arg_addr k + of_nat j) = argv req ! k ! j)) \<and>
    (\<forall>q \<in> {1..<int MAX_NPROCESS}. q \<noteq> int i + 1 \<longrightarrow> (\<forall>a. mapped s q a \<longrightarrow> proc_view s' q a = proc_view s q a))"
proof -
  let ?pid = "int i + 1"
  let ?f = "\<lambda>p. p\<lparr>proc_pid := ?pid, proc_stat := PROC_LOADING\<rparr>"
  let ?t = "(upd_proc i ?f (s\<lparr>app_ino := ino\<rparr>))\<lparr>app_pid := ?pid\<rparr>"
  note wfD = wf_kernelD [OF wf]
  have eq0: "pmem ?t = pmem s" "curr_vm_pid ?t = curr_vm_pid s" "app_pages ?t = app_pages s" "bitmap ?t = bitmap s"
    by (simp_all add: upd_proc_def)
  note fr = same_mmu [OF eq0]
  have len: "length (proc_set s) = 16" by (rule wf_procsD(1) [OF wfD(1)])
  have alloc: "proc_alloc (s\<lparr>app_ino := ino\<rparr>) = Inr (?pid, upd_proc i ?f (s\<lparr>app_ino := ino\<rparr>))"
    using proc_alloc_Some [of i "s\<lparr>app_ino := ino\<rparr>"] i by simp
  have pid: "?pid \<in> {1..<int MAX_NPROCESS}" using i(1) by (simp add: MAX_NPROCESS_def)
  obtain buf ph where h: "app_read dev stack old ino 0 = Inr buf" "e_phnum (header_of buf) = 1" "unat (e_phoff (header_of buf)) + 32 \<le> 512"
    "ph = pheader_of buf (unat (e_phoff (header_of buf)))" "p_vaddr ph = APPS_ENTRY" "unat (p_filesz ph) = filesz"
    "\<forall>i < n_rounds (p_filesz ph). app_read dev stack old ino (p_offset ph div 512 + of_nat i) = Inr (blocks i) \<and> length (blocks i) = 512"
    using elf(1) unfolding executable_def by blast
  have sz: "unat (p_filesz ph) \<le> 0x4000" "n \<le> 16" using h(6) elf(2) n req(3) by auto
  have acc: "\<forall>q \<in> {1..<int MAX_NPROCESS}. private_pages ?t q \<subseteq> used_pages ?t"
    using wfD(4) by (simp only: pages_accounted_def fr(3,5))
  obtain t' where t': "elf_load ?pid (app_read dev stack old ino) n (Some (argv req)) ?t = Inr t'" "wf_mmu t'" "alloc_inv t'"
    "\<forall>q \<in> {1..<int MAX_NPROCESS}. private_pages t' q \<subseteq> used_pages t'"
    "\<forall>off < 0x4000. proc_view t' ?pid (APPS_ENTRY + of_nat off) = (if off < filesz then file_byte blocks off else 0)"
    "load_u32 (proc_view t' ?pid) APPS_ARG = of_nat n"
    "\<forall>k < n. load_u32 (proc_view t' ?pid) (APPS_ARG + of_nat (4 + 4 * k)) = arg_addr k \<and>
       (\<forall>j < 32. proc_view t' ?pid (arg_addr k + of_nat j) = argv req ! k ! j)"
    "\<forall>q \<in> {1..<int MAX_NPROCESS}. q \<noteq> ?pid \<longrightarrow> (\<forall>a. mapped ?t q a \<longrightarrow> proc_view t' q a = proc_view ?t q a)"
    using elf_load_ok [OF _ _ acc pid _ _ _ h(1-5) sz(1) h(7) sz(2) req(4,5)] wfD(2,3) pages unfolding fr h(6) by blast
  note ef = elf_load_frame [OF t'(1)]
  have pt: "proc_set t' = (proc_set s)[i := ?f (proc_set s ! i)]" using ef(1) by (simp add: upd_proc_def)
  let ?s' = "(upd_proc i (\<lambda>p. p\<lparr>proc_stat := PROC_READY\<rparr>) t')\<lparr>shell_waiting := (argv req ! (argc req - 1) ! 0 \<noteq> 38)\<rparr>"
  have ready: "proc_set_ready ?pid t' = Inr (upd_proc i (\<lambda>p. p\<lparr>proc_stat := PROC_READY\<rparr>) t')"
    unfolding proc_set_ready_def using i(1) len pt by (intro proc_set_status_ok) simp_all
  have lc: "last_arg_char req = Inr (argv req ! (argc req - 1) ! 0)" using req(2,3) by (simp add: last_arg_char_def CMD_NARGS_def)
  have "app_spawn dev stack old req s = Inr (0, upd_proc i (\<lambda>p. p\<lparr>proc_stat := PROC_READY\<rparr>) t')"
    using bin ino alloc lc t'(1) ready by (simp add: app_spawn_def Let_def n)
  then have step: "sys_proc_step dev stack old sender req s = Inr ([CMD_OK], ?s')"
    using req(1) lc by (simp add: sys_proc_step_def)
  have ps: "proc_set ?s' = (proc_set s)[i := (proc_set s ! i)\<lparr>proc_pid := ?pid, proc_stat := PROC_READY\<rparr>]"
    using pt i(1) len by (simp add: upd_proc_def)
  have eq: "pmem ?s' = pmem t'" "curr_vm_pid ?s' = curr_vm_pid t'" "app_pages ?s' = app_pages t'" "bitmap ?s' = bitmap t'"
    by (simp_all add: upd_proc_def)
  note fr' = same_mmu [OF eq]
  have "wf_mmu ?s'" "alloc_inv ?s'" "pages_accounted ?s'" unfolding fr' using t'(2-4) by (simp_all add: pages_accounted_def)
  moreover have "wf_procs ?s'"
    unfolding wf_procs_def ps using wfD(1) i(1) ef(2) by (auto simp: wf_procs_def nth_list_update MAX_NPROCESS_def upd_proc_def)
  ultimately have wf': "wf_kernel ?s'" by (simp add: wf_kernel_def)
  have ap: "app_pid ?s' = ?pid" using same_procs_elf_load [OF t'(1)] by (auto simp: same_procs_def upd_proc_def)
  have sw: "shell_waiting ?s' \<longleftrightarrow> n = argc req" using n req(2) by auto
  note v = t'(5-8) [folded fr'(8), unfolded fr(7,8)]
  show ?thesis by (intro exI [of _ ?s'] conjI) (rule step wf' ps ap sw v)+
qed

text \<open>
  C6. Starting an application. When the first free slot of the process table is one of the first
  15, its pid has no pages, six pages are free, the directory server knows the command in /bin and
  its file is an executable of at most 16 KB, the process server answers the shell with success;
  the process of that slot is ready to run, and no other slot has changed; the new process sees
  the bytes of the file followed by zeros, and the arguments of the command, without the
  final \<^verbatim>\<open>&\<close>; what all other processes see is as before; and the server remembers whether the
  shell waits for the process.
\<close>

theorem spawn_correct:
  fixes s :: "'a sys_proc_scheme"
  assumes "wf_kernel s" "i < 15" "proc_stat (proc_set s ! i) = PROC_UNUSED" "\<forall>j < i. proc_stat (proc_set s ! j) \<noteq> PROC_UNUSED"
    and "maps_of s (int i + 1) = []" "curr_vm_pid s \<noteq> int i + 1" "card (used_pages s) + 6 \<le> NPAGES"
    and "dir_lookup dev stack old 0 (string_bytes ''bin/'') = Inr bin_ino"
    and "dir_lookup dev stack old (word_of_int bin_ino) (c_string (argv req ! 0)) = Inr ino" "0 \<le> ino"
    and "executable (app_read dev stack old ino) filesz blocks" "filesz \<le> 0x4000"
    and "pr_type req = PROC_SPAWN" "0 < argc req" "argc req \<le> 16" "length (argv req) = 16" "\<forall>r \<in> set (argv req). length r = 32"
    and "n = (if argv req ! (argc req - 1) ! 0 = 38 then argc req - 1 else argc req)"
  shows "\<exists>s'. sys_proc_step dev stack old sender req s = Inr ([CMD_OK], s') \<and> wf_kernel s' \<and>
    proc_set s' = (proc_set s)[i := (proc_set s ! i)\<lparr>proc_pid := int i + 1, proc_stat := PROC_READY\<rparr>] \<and>
    app_pid s' = int i + 1 \<and> (shell_waiting s' \<longleftrightarrow> n = argc req) \<and>
    (\<forall>off < 0x4000. proc_view s' (int i + 1) (APPS_ENTRY + of_nat off) = (if off < filesz then file_byte blocks off else 0)) \<and>
    load_u32 (proc_view s' (int i + 1)) APPS_ARG = of_nat n \<and>
    (\<forall>k < n. load_u32 (proc_view s' (int i + 1)) (APPS_ARG + of_nat (4 + 4 * k)) = arg_addr k \<and>
       (\<forall>j < 32. proc_view s' (int i + 1) (arg_addr k + of_nat j) = argv req ! k ! j)) \<and>
    (\<forall>q \<in> {1..<int MAX_NPROCESS}. q \<noteq> int i + 1 \<longrightarrow> (\<forall>a. mapped s q a \<longrightarrow> proc_view s' q a = proc_view s q a))"
  by (rule spawn_ok [OF assms])

text \<open>A command that is not in /bin is answered with an error, and nothing else happens.\<close>

theorem spawn_unknown:
  assumes "dir_lookup dev stack old 0 (string_bytes ''bin/'') = Inr bin_ino"
    and "dir_lookup dev stack old (word_of_int bin_ino) (c_string (argv req ! 0)) = Inr ino" "ino < 0"
    and "pr_type req = PROC_SPAWN" "0 < argc req" "argc req \<le> 16"
  shows "sys_proc_step dev stack old sender req s =
    Inr ([CMD_ERROR], s\<lparr>app_ino := ino, shell_waiting := (argv req ! (argc req - 1) ! 0 \<noteq> 38)\<rparr>)"
  using assms by (simp add: sys_proc_step_def app_spawn_def last_arg_char_def CMD_NARGS_def Let_def)

section \<open>From the disk image to the process\<close>

text \<open>The directory /bin of mkfs, and an image in which all binaries are the same small program.\<close>

definition bin_entries :: "dir_entry list" where
  "bin_entries = map (\<lambda>(nm, a, ds, b). (string_bytes nm, a, string_bytes ds, b))
     [(''./'', 2, ''6'', 1), (''../'', 2, ''0'', 1), (''echo'', 2, ''7'', 1), (''cat'', 2, ''8'', 1), (''ls'', 2, ''9'', 1), (''cd'', 1, ''10'', 1),
      (''pwd'', 1, ''11'', 1), (''clock'', 1, ''12'', 1), (''crash1'', 1, ''13'', 1), (''crash2'', 1, ''14'', 1), (''ult'', 1, ''15'', 1),
      (''memloop'', 0, ''16'', 1), (''helloworld'', 0, ''17'', 1), (''loop'', 0, ''18'', 1), (''crash3'', 0, ''19'', 1), (''append'', 0, ''20'', 1),
      (''fstest'', 0, ''21'', 1), (''macb_test'', 0, ''22'', 1), (''http'', 0, ''23'', 0)]"

lemma bin_entries_text: "dir_text bin_entries = string_bytes (contents ! 6)"
  by (simp add: bin_entries_def contents_def string_bytes_def blank_def numeral_eq_Suc)

lemma bin_entries_wf: "wf_dir bin_entries"
  by (simp add: bin_entries_def is_name_def string_bytes_def blank_def isdigit_def)

definition demo_elf :: "m_uint8 list" where
  "demo_elf = (take 56 demo_header @ [0, 2, 0, 0] @ drop 60 demo_header) @ replicate 600 9"

lemma length_demo_elf [simp]: "length demo_elf = 1112"
  by (simp add: demo_elf_def demo_header_def)

definition demo_sys :: sys_proc where
  "demo_sys = \<lparr>bitmap = 3 # replicate 143 0, pmem = (\<lambda>_. 7), app_pages = two_rows 0x80400000, curr_vm_pid = 1,
     proc_set = [demo_proc 1 PROC_RUNNING, demo_proc 2 PROC_WAIT_TO_RECV] @ replicate 14 (demo_proc 0 PROC_UNUSED),
     proc_curr_idx = 0, proc_stack = [], klog = [], app_ino = 0, app_pid = 0, shell_waiting = False\<rparr>"

lemma demo_sys_nth: "i < 16 \<Longrightarrow> proc_set demo_sys ! i =
    (if i = 0 then demo_proc 1 PROC_RUNNING else if i = 1 then demo_proc 2 PROC_WAIT_TO_RECV else demo_proc 0 PROC_UNUSED)"
  by (simp add: demo_sys_def nth_append nth_Cons')

lemma demo_sys_wf: "wf_kernel demo_sys"
proof -
  have rows: "app_pages demo_sys = two_rows 0x80400000" "bitmap demo_sys = 3 # replicate 143 0" by (simp_all add: demo_sys_def)
  have "wf_mmu demo_sys"
    by (rule two_rows_wf [OF rows(1)]) (simp_all add: aligned_def not_page_pool, simp add: demo_sys_def MAX_NPROCESS_def)
  moreover have "wf_procs demo_sys"
    by (auto simp: wf_procs_def MAX_NPROCESS_def demo_sys_nth demo_proc_def) (simp_all add: demo_sys_def)
  moreover have "alloc_inv demo_sys" by (simp add: alloc_inv_def rows(2) ROUNDUP_def NPAGES_eq)
  moreover have "pages_accounted demo_sys" using two_rows_used [OF rows] by (simp add: pages_accounted_def)
  ultimately show ?thesis by (simp add: wf_kernel_def)
qed

text \<open>Lookups and reads in an image of mkfs, behind the first 4096 blocks of the ROM.\<close>

definition rom_of :: "block list \<Rightarrow> disk_dev" where
  "rom_of fs = \<lparr>dtype = FLASH_ROM, rom = replicate 4096 null_block @ fs, spi = (\<lambda>_. 0)\<rparr>"

lemma rom_of_simps: "dtype (rom_of fs) = FLASH_ROM" "rom (rom_of fs) = replicate 4096 null_block @ fs"
  by (simp_all add: rom_of_def)

lemma image_lookup:
  assumes fs: "td_inv ram_inv ram_files 0 4096 fs" "td_files ram_files 0 4096 fs ino = Some bs" "content_ok elf s bs" "ino < FS_ROOT_INODE"
    and s: "s ! 0 \<noteq> CHR ''#''" "dir_text es = string_bytes s" "wf_dir es" "length s < 512" "length old = 512"
    and nm: "is_name name" "\<not> (\<forall>c \<in> set name. isdigit c)" "length name < 32" "length name \<le> length s" "dir_map es name = Some v"
  shows "dir_lookup (rom_of fs) stack old ino name = Inr v"
proof -
  have "length bs = 1" "concat (map bytes_of_block bs) = string_bytes s @ replicate (512 - length s) 0"
    using fs(3) s(1) by (simp_all add: content_ok_def n_blocks_def)
  then obtain b where b: "bs = [b]" "bytes_of_block b = dir_text es @ replicate (512 - length (dir_text es)) 0"
    using s(2) by (cases bs) (auto simp: string_bytes_def)
  have l: "length (dir_text es) = length s" using s(2) by (simp add: string_bytes_def)
  show ?thesis
    using dir_lookup_ok [OF rom_of_simps _ fs(1) fs(2) [unfolded b(1)] fs(4) s(5) b(2) _ s(3) nm(1,2), of stack] l s(4) nm(3-5)
    by (simp add: DIR_NAME_SIZE_def)
qed

lemma image_read:
  assumes "td_inv ram_inv ram_files 0 4096 fs" "td_files ram_files 0 4096 fs (word_of_int ino) = Some bs" "unat off < length bs"
    and "word_of_int ino < FS_ROOT_INODE" "length old = 512"
  shows "app_read (rom_of fs) stack old ino off = Inr (bytes_of_block (bs ! unat off))" "length (bytes_of_block (bs ! unat off)) = 512"
proof -
  show b: "length (bytes_of_block (bs ! unat off)) = 512"
    using td_files_block [OF assms(1-3)] by (simp add: length_bytes_of_block)
  show "app_read (rom_of fs) stack old ino off = Inr (bytes_of_block (bs ! unat off))"
    using rom_read [OF rom_of_simps _ assms(1), of "word_of_int ino" off] b assms(2-5)
    by (simp add: app_read_def file_read_def file_query_def sys_file_step_def treedisk_init_def FILE_READ_def FILE_WRITE_def
        FILE_OK_def FILE_ERROR_def BLOCK_SIZE_def)
qed

lemma demo_elf_fields:
  "e_phnum (header_of (take 512 demo_elf)) = 1" "e_phoff (header_of (take 512 demo_elf)) = 52"
  "p_vaddr (pheader_of (take 512 demo_elf) 52) = APPS_ENTRY" "p_filesz (pheader_of (take 512 demo_elf) 52) = 600"
  "p_offset (pheader_of (take 512 demo_elf) 52) = 0x200"
  by (simp_all add: demo_elf_def demo_header_def header_of_def pheader_of_def u16_at_def u32_at_def nth_append le32_def APPS_ENTRY_def)

lemma image_executable:
  assumes fs: "td_inv ram_inv ram_files 0 4096 fs" "td_files ram_files 0 4096 fs (word_of_int ino) = Some bs"
    and c: "content_ok (\<lambda>_. demo_elf) s bs" "s ! 0 = CHR ''#''" and i: "word_of_int ino < FS_ROOT_INODE" "length old = 512"
  shows "executable (app_read (rom_of fs) stack old ino) 600 (\<lambda>k. bytes_of_block (bs ! (k + 1)))" "bytes_of_block (bs ! 1) ! 0 = 9"
proof -
  have lb: "length bs = 3" "take 1112 (concat (map bytes_of_block bs)) = demo_elf" using c by (simp_all add: content_ok_def n_blocks_def)
  note rd = image_read [OF fs _ i]
  obtain x y z where bs: "bs = [x, y, z]" using lb(1) by (auto simp: length_Suc_conv numeral_eq_Suc)
  have l: "length (bytes_of_block x) = 512" "length (bytes_of_block y) = 512" "length (bytes_of_block z) = 512"
    using rd(2) [of 0] rd(2) [of 1] rd(2) [of 2] by (simp_all add: bs)
  have d: "demo_elf = bytes_of_block x @ bytes_of_block y @ take 88 (bytes_of_block z)" using lb(2) l by (simp add: bs)
  have x: "bytes_of_block x = take 512 demo_elf" unfolding d using l(1) by (subst take_append) simp
  have "demo_elf ! 512 = 9" by (simp add: demo_elf_def demo_header_def nth_append)
  then show "bytes_of_block (bs ! 1) ! 0 = 9" unfolding d using l by (simp add: bs nth_append)
  have "app_read (rom_of fs) stack old ino 0 = Inr (take 512 demo_elf)" using rd(1) [of 0 stack] by (simp add: bs x)
  moreover have "app_read (rom_of fs) stack old ino (1 + of_nat k) = Inr (bytes_of_block (bs ! (k + 1))) \<and> length (bytes_of_block (bs ! (k + 1))) = 512"
    if "k < 2" for k
    using that rd(1) [of 1 stack] rd(1) [of 2 stack] rd(2) [of 1] rd(2) [of 2] by (auto simp: less_2_cases_iff bs)
  ultimately show "executable (app_read (rom_of fs) stack old ino) 600 (\<lambda>k. bytes_of_block (bs ! (k + 1)))"
    unfolding executable_def by (intro exI [of _ "take 512 demo_elf"] exI [of _ "pheader_of (take 512 demo_elf) 52"]) (simp add: demo_elf_fields n_rounds_def)
qed

definition echo_request :: proc_request where
  "echo_request = \<lparr>pr_type = PROC_SPAWN, argc = 2, argv = argv_of [string_bytes ''echo'', string_bytes ''hi'']\<rparr>"

theorem spawn_correct_witness:
  "\<exists>fs s'. mkfs (\<lambda>_. demo_elf) (replicate 131072 0) blank_fs = Inr fs \<and>
     sys_proc_step (rom_of fs) [] (replicate 512 0) GPID_SHELL echo_request demo_sys = Inr ([CMD_OK], s') \<and>
     proc_stat (proc_set s' ! 2) = PROC_READY \<and> shell_waiting s' \<and> proc_view s' 3 APPS_ENTRY = 9 \<and> load_u32 (proc_view s' 3) APPS_ARG = 2"
proof -
  let ?old = "replicate 512 (0 :: m_uint8)"
  have "sum_list (map (n_blocks (\<lambda>_. demo_elf)) contents) \<le> 372" by (simp add: contents_def n_blocks_def)
  then obtain fs where fs: "mkfs (\<lambda>_. demo_elf) (replicate 131072 0) blank_fs = Inr fs" "td_inv ram_inv ram_files 0 4096 fs"
    "\<forall>ino < NINODE. \<exists>bs. td_files ram_files 0 4096 fs (of_nat ino) = Some bs \<and> content_ok (\<lambda>_. demo_elf) (contents ! ino) bs"
    using mkfs_ok [of "replicate 131072 0" "\<lambda>_. demo_elf"] by force
  have inode: "\<exists>bs. td_files ram_files 0 4096 fs (of_nat ino) = Some bs \<and> content_ok (\<lambda>_. demo_elf) (contents ! ino) bs" if "ino < 25" for ino
    using fs(3) that by (simp add: NINODE_def)
  obtain b0 b6 b7 where b: "td_files ram_files 0 4096 fs 0 = Some b0" "content_ok (\<lambda>_. demo_elf) (contents ! 0) b0"
    "td_files ram_files 0 4096 fs 6 = Some b6" "content_ok (\<lambda>_. demo_elf) (contents ! 6) b6"
    "td_files ram_files 0 4096 fs 7 = Some b7" "content_ok (\<lambda>_. demo_elf) (contents ! 7) b7"
    using inode [of 0] inode [of 6] inode [of 7] by auto
  have bin: "dir_lookup (rom_of fs) [] ?old 0 (string_bytes ''bin/'') = Inr 6"
    by (rule image_lookup [OF fs(2) b(1,2) _ _ root_entries_text root_entries_wf])
       (simp_all add: FS_ROOT_INODE_def contents_def is_name_def string_bytes_def blank_def isdigit_def dir_map_def root_entries_def)
  have "dir_lookup (rom_of fs) [] ?old 6 (string_bytes ''echo'') = Inr 7"
    by (rule image_lookup [OF fs(2) b(3,4) _ _ bin_entries_text bin_entries_wf])
       (simp_all add: FS_ROOT_INODE_def contents_def is_name_def string_bytes_def blank_def isdigit_def dir_map_def bin_entries_def)
  moreover have "c_string (argv echo_request ! 0) = string_bytes ''echo''"
    by (simp add: echo_request_def argv_of_def pad_def, rule c_string_zeros) (simp add: string_bytes_def)
  ultimately have ino: "dir_lookup (rom_of fs) [] ?old (word_of_int 6) (c_string (argv echo_request ! 0)) = Inr 7" by simp
  have exe: "executable (app_read (rom_of fs) [] ?old 7) 600 (\<lambda>k. bytes_of_block (b7 ! (k + 1)))" "bytes_of_block (b7 ! 1) ! 0 = 9"
    using image_executable(1) [where fs = fs and ino = 7 and bs = b7 and s = "contents ! 7" and old = ?old and stack = "[]"]
      image_executable(2) [where fs = fs and ino = 7 and bs = b7 and s = "contents ! 7" and old = ?old] fs(2) b(5,6)
    by (simp_all add: FS_ROOT_INODE_def contents_def)
  have slot: "proc_stat (proc_set demo_sys ! 2) = PROC_UNUSED" "\<forall>j < 2. proc_stat (proc_set demo_sys ! j) \<noteq> PROC_UNUSED"
    "maps_of demo_sys (int 2 + 1) = []" "curr_vm_pid demo_sys \<noteq> int 2 + 1" "card (used_pages demo_sys) + 6 \<le> NPAGES"
    using two_rows_maps(3) [of demo_sys "0x80400000" 3] two_pages_used [of demo_sys]
    by (auto simp: demo_sys_nth demo_proc_def MAX_NPROCESS_def) (simp_all add: demo_sys_def)
  have req: "pr_type echo_request = PROC_SPAWN" "0 < argc echo_request" "argc echo_request \<le> 16" "length (argv echo_request) = 16"
    "\<forall>r \<in> set (argv echo_request). length r = 32" "2 = (if argv echo_request ! (argc echo_request - 1) ! 0 = 38 then argc echo_request - 1 else argc echo_request)"
    by (simp_all add: echo_request_def argv_of_def pad_def string_bytes_def)
  obtain s' where s': "sys_proc_step (rom_of fs) [] ?old GPID_SHELL echo_request demo_sys = Inr ([CMD_OK], s')"
    "proc_set s' = (proc_set demo_sys)[2 := (proc_set demo_sys ! 2)\<lparr>proc_pid := int 2 + 1, proc_stat := PROC_READY\<rparr>]"
    "shell_waiting s' \<longleftrightarrow> 2 = argc echo_request"
    "\<forall>off < 0x4000. proc_view s' (int 2 + 1) (APPS_ENTRY + of_nat off) = (if off < 600 then file_byte (\<lambda>k. bytes_of_block (b7 ! (k + 1))) off else 0)"
    "load_u32 (proc_view s' (int 2 + 1)) APPS_ARG = of_nat 2"
    using spawn_correct [OF demo_sys_wf _ slot bin ino _ exe(1) _ req, of GPID_SHELL] by auto
  have "length (proc_set demo_sys) = 16" by (simp add: demo_sys_def)
  then have "proc_stat (proc_set s' ! 2) = PROC_READY" using s'(2) by simp
  moreover have "proc_view s' 3 APPS_ENTRY = 9" using s'(4) [rule_format, of 0] exe(2) by (simp add: file_byte_def)
  moreover have "shell_waiting s'" using s'(3) by (simp add: echo_request_def)
  ultimately show ?thesis using fs(1) s'(1,5) by auto
qed

end
