(* ===== verification/Boot.thy ===== *)
theory Boot
  imports Sys_Proc
begin

text \<open>
  From the disk image to the running system: the start of the earth layer (earth/earth.c) loads the
  kernel, the kernel (grass/grass.c) loads the process server, and the process server
  (apps/system/sys_proc.c) loads the other servers and the shell, each from its segment of the image
  that tools/mkfs.c wrote. The theory shows that every one of them is the binary of that name in the
  build directory, and that the invariant of the kernel holds from the first process on.
\<close>

section \<open>Definitions\<close>

definition grass_read :: "disk_dev \<Rightarrow> elf_reader" where
  "grass_read dev b = rbind (earth_disk_read (GRASS_EXEC_START + b) 1 dev) (\<lambda>bs. Inr (bytes_of_block (hd bs)))"

text \<open>All cores but the first loop forever. The initialisation of the devices is not part of the model.\<close>

definition earth_main :: "m_uint32 \<Rightarrow> disk_dev \<Rightarrow> 'a mmu_scheme \<Rightarrow> 'a mmu_scheme res" where
  "earth_main core_id dev s = (if core_id \<noteq> 0 then Inl Diverges else elf_load 0 (grass_read dev) 0 None s)"

definition GPID_FILE :: int where "GPID_FILE = 2"
definition GPID_DIR :: int where "GPID_DIR = 3"
definition GPID_NET :: int where "GPID_NET = 4"

text \<open>
  The start of the process server. It waits for the report of each server but the shell: \<open>await p\<close> is
  what happens in the system until the message of process \<open>p\<close> arrives.
\<close>

definition sys_proc_start :: "disk_dev \<Rightarrow> (int \<Rightarrow> 'a kernel_scheme \<Rightarrow> 'a kernel_scheme res) \<Rightarrow> 'a kernel_scheme \<Rightarrow> 'a kernel_scheme res" where
  "sys_proc_start dev await s =
     rbind (sys_spawn dev SYS_FILE_EXEC_START s) (\<lambda>s.
     rbind (await GPID_FILE s) (\<lambda>s.
     rbind (sys_spawn dev SYS_DIR_EXEC_START s) (\<lambda>s.
     rbind (await GPID_DIR s) (\<lambda>s.
     rbind (sys_spawn dev SYS_NET_EXEC_START s) (\<lambda>s.
     rbind (await GPID_NET s) (\<lambda>s.
       sys_spawn dev SYS_SHELL_EXEC_START s))))))"

section \<open>The segments of the image\<close>

text \<open>The image as the blocks of the ROM.\<close>

definition image_blocks :: "m_uint8 list \<Rightarrow> block list" where
  "image_blocks img = map (\<lambda>i. block_of_bytes (take 512 (drop (i * 512) img))) [0..<length img div 512]"

lemma exec_size_eq: "exec_size = 131072"
  by (simp add: exec_size_def GRASS_EXEC_SIZE_def GRASS_NEXEC_def)

lemma kernel_segments_nth:
  assumes "kernel_segments elf fs = Inr segs"
  shows "length segs = length fs * 131072 \<and> (\<forall>k < length fs. 0 < length (elf (fs ! k)) \<and> length (elf (fs ! k)) \<le> 131072 \<and>
    take 131072 (drop (k * 131072) segs) = elf (fs ! k) @ replicate (131072 - length (elf (fs ! k))) 0)"
  using assms
proof (induction fs arbitrary: segs)
  case (Cons f fs)
  then obtain seg rest where h: "kernel_segment (elf f) = Inr seg" "kernel_segments elf fs = Inr rest" "segs = seg @ rest"
    by (auto simp: res_simps)
  then have seg: "seg = elf f @ replicate (131072 - length (elf f)) 0" "0 < length (elf f)" "length (elf f) \<le> 131072"
    by (auto simp: kernel_segment_def exec_size_eq split: if_splits)
  then have l: "length seg = 131072" by simp
  note IH = Cons.IH [OF h(2)]
  have "0 < length (elf ((f # fs) ! k)) \<and> length (elf ((f # fs) ! k)) \<le> 131072 \<and>
    take 131072 (drop (k * 131072) segs) = elf ((f # fs) ! k) @ replicate (131072 - length (elf ((f # fs) ! k))) 0"
    if "k < length (f # fs)" for k
  proof (cases k)
    case 0
    then show ?thesis using seg l h(3) by simp
  next
    case (Suc m)
    then have "drop (k * 131072) segs = drop (m * 131072) rest" using l h(3) by simp
    then show ?thesis using IH that Suc by simp
  qed
  with IH l h(3) show ?case by simp
qed simp

text \<open>A block of segment \<open>k\<close>, read through the disk driver.\<close>

lemma image_segment:
  assumes img: "mkfs_main elf buf rwfs fs = Inr img" and rw: "length rwfs = 1048576"
    and dev: "dtype dev = FLASH_ROM" "rom dev = image_blocks img" and k: "k < 6" and b: "b < 256"
  shows "sys_proc_read dev (GRASS_EXEC_START + GRASS_EXEC_SEGMENT * of_nat k) (of_nat b) =
    Inr (take 512 (drop (b * 512) (elf (kernel_processes ! k) @ replicate (131072 - length (elf (kernel_processes ! k))) 0)))"
proof -
  obtain fs' segs where s: "kernel_segments elf kernel_processes = Inr segs"
    "img = rwfs @ segs @ replicate 262144 0 @ concat (map bytes_of_block fs')"
    using img by (auto simp: mkfs_main_def res_simps kernel_processes_def exec_size_eq GRASS_NEXEC_def)
  have n: "length kernel_processes = 6" by (simp add: kernel_processes_def)
  note seg = kernel_segments_nth [OF s(1), unfolded n]
  let ?i = "2048 + k * 256 + b"
  have "(GRASS_EXEC_START + GRASS_EXEC_SEGMENT * of_nat k + of_nat b) * of_nat BLOCK_SIZE = (of_nat (?i * 512) :: m_uint32)"
    by (simp add: GRASS_EXEC_START_def GRASS_EXEC_SEGMENT_def PAGING_DEV_SIZE_def GRASS_EXEC_SIZE_def GRASS_NEXEC_def BLOCK_SIZE_def algebra_simps)
  moreover have "unat (of_nat (?i * 512) :: m_uint32) = ?i * 512"
    by (subst unat_of_nat) (use k b in \<open>simp add: take_bit_nat_eq_self\<close>)
  ultimately have i: "unat ((GRASS_EXEC_START + GRASS_EXEC_SEGMENT * of_nat k + of_nat b) * of_nat BLOCK_SIZE) div BLOCK_SIZE = ?i"
    by (simp add: BLOCK_SIZE_def)
  have len: "length segs = 786432" using seg by simp
  have "?i < length img div 512" using k b len rw s(2) by simp
  then have il: "?i < length (rom dev)" and ib: "rom dev ! ?i = block_of_bytes (take 512 (drop (?i * 512) img))"
    by (simp_all add: dev(2) image_blocks_def)
  have "take 512 (drop (?i * 512) img) = take 512 (drop (k * 131072 + b * 512) segs)"
  proof -
    have "drop (?i * 512) img = drop (k * 131072 + b * 512) (segs @ replicate 262144 0 @ concat (map bytes_of_block fs'))"
      using rw s(2) by (simp add: mult.commute)
    then show ?thesis using k b len by simp
  qed
  also have "\<dots> = take 512 (drop (b * 512) (take 131072 (drop (k * 131072) segs)))"
    using b by (simp add: drop_take min_def add.commute)
  finally have bytes: "take 512 (drop (?i * 512) img) = take 512 (drop (b * 512) (elf (kernel_processes ! k) @ replicate (131072 - length (elf (kernel_processes ! k))) 0))"
    using seg k by simp
  have "length (take 512 (drop (?i * 512) img)) = 512" using k b len rw s(2) by simp
  then have "bytes_of_block (rom dev ! ?i) = take 512 (drop (?i * 512) img)" unfolding ib by (rule bytes_of_block_of_bytes)
  moreover have "sys_proc_read dev (GRASS_EXEC_START + GRASS_EXEC_SEGMENT * of_nat k) (of_nat b) = Inr (bytes_of_block (rom dev ! ?i))"
    using il i dev(1) by (simp add: sys_proc_read_def earth_disk_read_def Let_def hd_drop_conv_nth)
  ultimately show ?thesis by (simp only: bytes)
qed


section \<open>Programs\<close>

text \<open>
  An executable for the address \<open>vaddr\<close>: a file with one program header, whose program starts at a
  block boundary of the file and is \<open>code\<close>.
\<close>

definition elf_file :: "addr \<Rightarrow> m_uint8 list \<Rightarrow> m_uint8 list \<Rightarrow> bool" where
  "elf_file vaddr file code \<longleftrightarrow> (\<exists>buf ph. buf = take 512 (file @ replicate 512 0) \<and> e_phnum (header_of buf) = 1 \<and>
     unat (e_phoff (header_of buf)) + 32 \<le> 512 \<and> ph = pheader_of buf (unat (e_phoff (header_of buf))) \<and> p_vaddr ph = vaddr \<and>
     unat (p_offset ph) mod 512 = 0 \<and> unat (p_offset ph) + unat (p_filesz ph) \<le> length file \<and>
     code = take (unat (p_filesz ph)) (drop (unat (p_offset ph)) file))"

lemma take_padded: "n \<le> 131072 \<Longrightarrow> length f \<le> 131072 \<Longrightarrow> take n (f @ replicate (131072 - length f) 0) = take n (f @ replicate n 0)"
  by (cases "n \<le> length f") (simp_all add: min_def)

lemma nth_block: "a + 512 \<le> length xs \<Longrightarrow> j < 512 \<Longrightarrow> take 512 (drop a xs) ! j = xs ! (a + j)"
  by simp

lemma elf_file_blocks:
  assumes app: "elf_file vaddr file code" and len: "length file \<le> 131072"
    and r: "\<And>b. b < 256 \<Longrightarrow> reader (of_nat b) = Inr (take 512 (drop (b * 512) (file @ replicate (131072 - length file) 0)))"
  obtains buf ph blocks where "reader 0 = Inr buf" "e_phnum (header_of buf) = 1" "unat (e_phoff (header_of buf)) + 32 \<le> 512"
    "ph = pheader_of buf (unat (e_phoff (header_of buf)))" "p_vaddr ph = vaddr" "unat (p_filesz ph) = length code" "length code \<le> 131072"
    "\<forall>i < n_rounds (p_filesz ph). reader (p_offset ph div 512 + of_nat i) = Inr (blocks i) \<and> length (blocks i) = 512"
    "\<forall>off < length code. file_byte blocks off = code ! off"
proof -
  let ?pad = "file @ replicate (131072 - length file) 0"
  obtain buf ph where h: "buf = take 512 (file @ replicate 512 0)" "e_phnum (header_of buf) = 1" "unat (e_phoff (header_of buf)) + 32 \<le> 512"
    "ph = pheader_of buf (unat (e_phoff (header_of buf)))" "p_vaddr ph = vaddr" "unat (p_offset ph) mod 512 = 0"
    "unat (p_offset ph) + unat (p_filesz ph) \<le> length file" "code = take (unat (p_filesz ph)) (drop (unat (p_offset ph)) file)"
    using app [unfolded elf_file_def] by (elim exE conjE) (rule that; assumption)
  define q where "q = unat (p_offset ph) div 512"
  have q: "unat (p_offset ph) = q * 512" unfolding q_def using h(6) div_mult_mod_eq [of "unat (p_offset ph)" 512] by linarith
  have lc: "length code = unat (p_filesz ph)" using h(7,8) by simp
  have buf: "reader 0 = Inr buf" using r [of 0] take_padded [of 512 "file"] len h(1) by simp
  define blocks where "blocks i = take 512 (drop ((q + i) * 512) ?pad)" for i
  have pl: "length ?pad = 131072" using len by simp
  have small: "(q + i) * 512 + 512 \<le> 131072" "q + i < 256" if "i < n_rounds (p_filesz ph)" for i
  proof -
    have "i * 512 < length code" using that unfolding lc n_rounds_def by linarith
    then have "q * 512 + i * 512 < 256 * 512" using h(7) len lc q by linarith
    then show "q + i < 256" by linarith
    then have "(q + i + 1) * 512 \<le> 256 * 512" by (intro mult_le_mono1) simp
    then show "(q + i) * 512 + 512 \<le> 131072" by simp
  qed
  have pq: "p_offset ph div 512 = of_nat q"
  proof -
    have "unat (p_offset ph div 512) = q" using q by (simp add: unat_div)
    then show ?thesis using word_of_nat_eq_iff by (metis of_nat_unat ucast_id)
  qed
  have rd: "\<forall>i < n_rounds (p_filesz ph). reader (p_offset ph div 512 + of_nat i) = Inr (blocks i) \<and> length (blocks i) = 512"
  proof (intro allI impI conjI)
    fix i assume i: "i < n_rounds (p_filesz ph)"
    show "reader (p_offset ph div 512 + of_nat i) = Inr (blocks i)" using r [OF small(2) [OF i]] by (simp only: pq blocks_def of_nat_add)
    show "length (blocks i) = 512" unfolding blocks_def length_take length_drop pl using small(1) [OF i] by simp
  qed
  have fb: "\<forall>off < length code. file_byte blocks off = code ! off"
  proof (intro allI impI)
    fix off assume that: "off < length code"
    have "off div 512 < n_rounds (p_filesz ph)" using that unfolding lc n_rounds_def by linarith
    note sm = small(1) [OF this]
    have "file_byte blocks off = ?pad ! ((q + off div 512) * 512 + off mod 512)"
      unfolding file_byte_def blocks_def by (rule nth_block) (use sm pl in linarith, simp)
    also have "(q + off div 512) * 512 + off mod 512 = q * 512 + off" by simp
    also have "?pad ! (q * 512 + off) = file ! (q * 512 + off)" using that h(7) lc q by (simp add: nth_append)
    also have "\<dots> = code ! off" using that h(7,8) q lc by simp
    finally show "file_byte blocks off = code ! off" .
  qed
  show thesis by (rule that [of buf ph blocks]) (use h(7) len lc in linarith | rule buf h(2-5) lc [symmetric] rd fb)+
qed

lemma app_file_executable:
  assumes "elf_file APPS_ENTRY file code" "length file \<le> 131072"
    and "\<And>b. b < 256 \<Longrightarrow> reader (of_nat b) = Inr (take 512 (drop (b * 512) (file @ replicate (131072 - length file) 0)))"
  obtains blocks where "executable reader (length code) blocks" "\<forall>off < length code. file_byte blocks off = code ! off"
proof -
  obtain buf ph blocks where h: "reader 0 = Inr buf" "e_phnum (header_of buf) = 1" "unat (e_phoff (header_of buf)) + 32 \<le> 512"
    "ph = pheader_of buf (unat (e_phoff (header_of buf)))" "p_vaddr ph = APPS_ENTRY" "unat (p_filesz ph) = length code" "length code \<le> 131072"
    "\<forall>i < n_rounds (p_filesz ph). reader (p_offset ph div 512 + of_nat i) = Inr (blocks i) \<and> length (blocks i) = 512"
    "\<forall>off < length code. file_byte blocks off = code ! off"
    by (rule elf_file_blocks [OF assms])
  have "executable reader (length code) blocks"
    unfolding executable_def by (intro exI [of _ buf] exI [of _ ph] conjI) (rule h)+
  then show thesis using h(9) by (rule that)
qed

section \<open>Loading a server\<close>

lemma bytes32_zero: "j < 4 \<Longrightarrow> bytes32 0 ! j = 0"
  by (auto simp: bytes32_def less_Suc_eq numeral_eq_Suc)

lemma load_server:
  fixes s :: "'a kernel_scheme"
  assumes mmu: "wf_mmu s" "alloc_inv s" "pages_accounted s" and pid: "pid \<in> {1..<int MAX_NPROCESS}"
    and pages: "maps_of s pid = []" "curr_vm_pid s \<noteq> pid" "card (used_pages s) + 6 \<le> NPAGES"
    and elf: "executable reader filesz blocks" "filesz \<le> 0x4000"
  obtains s' where "elf_load pid reader 0 None s = Inr s'" "wf_mmu s'" "alloc_inv s'" "pages_accounted s'" "same_procs s s'"
    "\<forall>off < 0x4000. mapped s' pid (APPS_ENTRY + of_nat off) \<and>
       proc_view s' pid (APPS_ENTRY + of_nat off) = (if off < filesz then file_byte blocks off else 0)"
    "\<forall>j < 4096. mapped s' pid (APPS_ARG + of_nat j) \<and> proc_view s' pid (APPS_ARG + of_nat j) = 0"
    "\<forall>q \<in> {1..<int MAX_NPROCESS}. q \<noteq> pid \<longrightarrow> maps_of s' q = maps_of s q \<and> (\<forall>a. mapped s q a \<longrightarrow> proc_view s' q a = proc_view s q a)"
    "card (used_pages s') \<le> card (used_pages s) + 6"
proof -
  obtain buf ph where h: "reader 0 = Inr buf" "e_phnum (header_of buf) = 1" "unat (e_phoff (header_of buf)) + 32 \<le> 512"
    "ph = pheader_of buf (unat (e_phoff (header_of buf)))" "p_vaddr ph = APPS_ENTRY" "unat (p_filesz ph) = filesz"
    "\<forall>i < n_rounds (p_filesz ph). reader (p_offset ph div 512 + of_nat i) = Inr (blocks i) \<and> length (blocks i) = 512"
    using elf(1) [unfolded executable_def] by (elim exE conjE) (rule that; assumption)
  have sz: "unat (p_filesz ph) \<le> 0x4000" using h(6) elf(2) by simp
  obtain s' ms where s': "elf_load pid reader 0 None s = Inr s'" "loading s pid ms s'" "length ms = 6"
    "\<forall>off < 0x4000. proc_view s' pid (APPS_ENTRY + of_nat off) = (if off < unat (p_filesz ph) then file_byte blocks off else 0)"
    "\<forall>j < 4096. proc_view s' pid (APPS_ARG + of_nat j) = arg_byte 0 None 0 j"
    "\<forall>off < 0x4000. mapped s' pid (APPS_ENTRY + of_nat off)" "\<forall>j < 4096. mapped s' pid (APPS_ARG + of_nat j)"
    "\<forall>q \<in> {1..<int MAX_NPROCESS}. q \<noteq> pid \<longrightarrow> (\<forall>a. mapped s q a \<longrightarrow> proc_view s' q a = proc_view s q a)"
    by (rule elf_load_pages [OF mmu(1,2) mmu(3) [unfolded pages_accounted_def] pid pages h(1-5) sz h(7), where n = 0 and args = None]) simp_all
  show thesis
  proof (rule that [OF s'(1)])
    show "wf_mmu s'" "alloc_inv s'" "pages_accounted s'" using loadingD [OF s'(2)] by (simp_all add: pages_accounted_def)
    show "same_procs s s'" by (rule same_procs_elf_load [OF s'(1)])
    have "arg_byte 0 None 0 j = 0" for j by (simp add: arg_byte_def bytes32_zero)
    then show "\<forall>j < 4096. mapped s' pid (APPS_ARG + of_nat j) \<and> proc_view s' pid (APPS_ARG + of_nat j) = 0" using s'(5,7) by simp
    have "card (used_pages s') \<le> card (used_pages s) + card (private_addr ` set ms)"
      using s'(2) by (simp add: loading_def card_Un_le)
    also have "card (private_addr ` set ms) \<le> 6" using card_image_le [of "set ms" private_addr] card_length [of ms] s'(3) by simp
    finally show "card (used_pages s') \<le> card (used_pages s) + 6" by simp
    show "\<forall>q \<in> {1..<int MAX_NPROCESS}. q \<noteq> pid \<longrightarrow> maps_of s' q = maps_of s q \<and> (\<forall>a. mapped s q a \<longrightarrow> proc_view s' q a = proc_view s q a)"
      using s'(2,8) by (simp add: loading_def)
  qed (use s'(4,6) h(6) in simp)
qed

lemma sys_spawn_ok:
  fixes s :: "'a kernel_scheme"
  assumes inv: "kernel_inv s" and i: "i < 5" "proc_stat (proc_set s ! i) = PROC_UNUSED" "\<forall>j < i. proc_stat (proc_set s ! j) \<noteq> PROC_UNUSED"
    and pages: "maps_of s (int i + 1) = []" "card (used_pages s) + 6 \<le> NPAGES"
    and elf: "executable (sys_proc_read dev base) filesz blocks" "filesz \<le> 0x4000"
  shows "\<exists>s'. sys_spawn dev base s = Inr s' \<and> kernel_inv s' \<and> proc_curr_idx s' = proc_curr_idx s \<and>
    proc_set s' = (proc_set s)[i := (proc_set s ! i)\<lparr>proc_pid := int i + 1, proc_stat := PROC_READY\<rparr>] \<and>
    (\<forall>off < 0x4000. proc_view s' (int i + 1) (APPS_ENTRY + of_nat off) = (if off < filesz then file_byte blocks off else 0)) \<and>
    (\<forall>q \<in> {1..<int MAX_NPROCESS}. q \<noteq> int i + 1 \<longrightarrow> maps_of s' q = maps_of s q \<and> (\<forall>a. mapped s q a \<longrightarrow> proc_view s' q a = proc_view s q a)) \<and>
    card (used_pages s') \<le> card (used_pages s) + 6"
proof -
  let ?pid = "int i + 1"
  let ?f = "\<lambda>p. p\<lparr>proc_pid := ?pid, proc_stat := PROC_LOADING\<rparr>"
  let ?t = "upd_proc i ?f s"
  note kD = kernel_invD [OF inv] and wfD = wf_kernelD [OF kernel_invD(2) [OF inv]]
  have eq0: "pmem ?t = pmem s" "curr_vm_pid ?t = curr_vm_pid s" "app_pages ?t = app_pages s" "bitmap ?t = bitmap s" by (simp_all add: upd_proc_def)
  note fr = same_mmu [OF eq0]
  have ne: "proc_curr_idx s \<noteq> i" using kD(4) i(2) by auto
  have cur: "curr_vm_pid s \<noteq> ?pid" using kD(5,7) ne by simp
  have alloc: "proc_alloc s = Inr (?pid, ?t)" using proc_alloc_Some [of i s] i by simp
  have pid: "?pid \<in> {1..<int MAX_NPROCESS}" using i(1) by (simp add: MAX_NPROCESS_def)
  obtain t' where t': "elf_load ?pid (sys_proc_read dev base) 0 None ?t = Inr t'" "wf_mmu t'" "alloc_inv t'" "pages_accounted t'" "same_procs ?t t'"
    "\<forall>off < 0x4000. mapped t' ?pid (APPS_ENTRY + of_nat off) \<and>
       proc_view t' ?pid (APPS_ENTRY + of_nat off) = (if off < filesz then file_byte blocks off else 0)"
    "\<forall>q \<in> {1..<int MAX_NPROCESS}. q \<noteq> ?pid \<longrightarrow> maps_of t' q = maps_of ?t q \<and> (\<forall>a. mapped ?t q a \<longrightarrow> proc_view t' q a = proc_view ?t q a)"
    "card (used_pages t') \<le> card (used_pages ?t) + 6"
    by (rule load_server [where s = ?t, OF _ _ _ pid _ _ _ elf]) (use wfD(2-4) pages cur in \<open>simp_all add: fr\<close>)
  have pt: "proc_set t' = (proc_set s)[i := ?f (proc_set s ! i)]" and ct: "proc_curr_idx t' = proc_curr_idx s" "proc_stack t' = proc_stack s"
    "curr_vm_pid t' = curr_vm_pid s"
    using t'(5) by (auto simp: same_procs_def upd_proc_def)
  let ?s' = "upd_proc i (\<lambda>p. p\<lparr>proc_stat := PROC_READY\<rparr>) t'"
  have ready: "proc_set_ready ?pid t' = Inr ?s'"
    unfolding proc_set_ready_def using i(1) kD(9) pt by (intro proc_set_status_ok) simp_all
  have run: "sys_spawn dev base s = Inr ?s'" using alloc t'(1) ready i(1) by (simp add: sys_spawn_def)
  have ps: "proc_set ?s' = (proc_set s)[i := (proc_set s ! i)\<lparr>proc_pid := ?pid, proc_stat := PROC_READY\<rparr>]"
    using pt i(1) kD(9) by (simp add: upd_proc_def)
  have eq: "pmem ?s' = pmem t'" "curr_vm_pid ?s' = curr_vm_pid t'" "app_pages ?s' = app_pages t'" "bitmap ?s' = bitmap t'" by (simp_all add: upd_proc_def)
  note fr' = same_mmu [OF eq]
  have cs: "proc_curr_idx ?s' = proc_curr_idx s" "proc_stack ?s' = proc_stack s" using ct by (simp_all add: upd_proc_def)
  have "wf_procs ?s'"
    unfolding wf_procs_def ps cs using wfD(1) i(1) by (auto simp: wf_procs_def nth_list_update MAX_NPROCESS_def)
  then have wf': "wf_kernel ?s'" using t'(2-4) by (simp add: wf_kernel_def fr')
  have "only_current_runs ?s'"
    unfolding only_current_runs_def ps cs using kD(3,9) i(1) by (auto simp: only_current_runs_def nth_list_update MAX_NPROCESS_def split: if_splits)
  then have "yield_pre ?s'" using kD(1) wf' by (simp add: yield_pre_def ct)
  moreover have "curr_proc ?s' = curr_proc s" unfolding ps cs using ne by simp
  ultimately have "kernel_inv ?s'" using kD(4,5) ct(3) by (simp add: kernel_inv_def fr')
  with run ps cs t'(6-8) show ?thesis by (intro exI [of _ ?s']) (simp add: fr fr')
qed

section \<open>The first process\<close>

text \<open>The kernel before its start: nothing is allocated and no process exists.\<close>

definition fresh_kernel :: "'a kernel_scheme \<Rightarrow> bool" where
  "fresh_kernel s \<longleftrightarrow> bitmap s = replicate 144 0 \<and> app_pages s = replicate 16 (replicate 6 \<lparr>private_addr = 0, exec_addr = 0\<rparr>) \<and>
     curr_vm_pid s = -1 \<and> length (proc_set s) = 16 \<and> (\<forall>p \<in> set (proc_set s). proc_stat p = PROC_UNUSED) \<and> proc_curr_idx s = 0 \<and>
     proc_stack s = replicate 16 (replicate 4096 0)"

lemma fresh_kernel_mmu:
  assumes "fresh_kernel s"
  shows "wf_mmu s" "alloc_inv s" "pages_accounted s" "used_pages s = {}" "p \<in> {1..<int MAX_NPROCESS} \<Longrightarrow> maps_of s p = []"
proof -
  have m: "maps_of s p = []" if "p \<in> {1..<int MAX_NPROCESS}" for p
    using assms that by (auto simp: fresh_kernel_def maps_of_def MAX_NPROCESS_def nat_less_iff)
  then show "p \<in> {1..<int MAX_NPROCESS} \<Longrightarrow> maps_of s p = []" .
  show "wf_mmu s" unfolding wf_mmu_def using assms by (auto simp: m fresh_kernel_def MAX_NPROCESS_def APPS_NPAGES_def APPS_SIZE_def PAGE_SIZE_def)
  show "alloc_inv s" using assms by (simp add: fresh_kernel_def alloc_inv_def ROUNDUP_def NPAGES_eq)
  have "bits_of (bitmap s) NPAGES = {}" using assms by (auto simp: fresh_kernel_def bits_of_def bit_test_def NPAGES_eq)
  then show "used_pages s = {}" by (simp add: used_pages_def)
  then show "pages_accounted s" using m by (auto simp: pages_accounted_def private_pages_def)
qed

lemma grass_main_ok:
  fixes s :: "'a kernel_scheme"
  assumes fresh: "fresh_kernel s" and elf: "executable (sys_proc_read dev SYS_PROC_EXEC_START) filesz blocks" "filesz \<le> 0x4000"
  shows "\<exists>s'. grass_main dev s = Inr s' \<and> kernel_inv s' \<and> curr_pid s' = GPID_PROCESS \<and>
    (\<forall>i. 0 < i \<and> i < MAX_NPROCESS \<longrightarrow> proc_stat (proc_set s' ! i) = PROC_UNUSED) \<and>
    (\<forall>q. 1 < q \<and> q < int MAX_NPROCESS \<longrightarrow> maps_of s' q = []) \<and>
    (\<forall>off < 0x4000. pmem s' (APPS_ENTRY + of_nat off) = (if off < filesz then file_byte blocks off else 0)) \<and>
    load_u32 (pmem s') APPS_ARG = 0 \<and> card (used_pages s') \<le> 6"
proof -
  note m = fresh_kernel_mmu [OF fresh]
  have pid: "1 \<in> {1..<int MAX_NPROCESS}" by (simp add: MAX_NPROCESS_def)
  have cur: "curr_vm_pid s \<noteq> 1" using fresh by (simp add: fresh_kernel_def)
  obtain t where t: "elf_load 1 (sys_proc_read dev SYS_PROC_EXEC_START) 0 None s = Inr t" "wf_mmu t" "alloc_inv t" "pages_accounted t" "same_procs s t"
    "\<forall>off < 0x4000. mapped t 1 (APPS_ENTRY + of_nat off) \<and> proc_view t 1 (APPS_ENTRY + of_nat off) = (if off < filesz then file_byte blocks off else 0)"
    "\<forall>j < 4096. mapped t 1 (APPS_ARG + of_nat j) \<and> proc_view t 1 (APPS_ARG + of_nat j) = 0"
    "\<forall>q \<in> {1..<int MAX_NPROCESS}. q \<noteq> 1 \<longrightarrow> maps_of t q = maps_of s q \<and> (\<forall>a. mapped s q a \<longrightarrow> proc_view t q a = proc_view s q a)"
    "card (used_pages t) \<le> card (used_pages s) + 6"
    by (rule load_server [OF m(1-3) pid m(5) [OF pid] cur _ elf]) (simp_all add: m(4) NPAGES_eq)
  have pt: "proc_set t = proc_set s" "proc_curr_idx t = 0" "proc_stack t = replicate 16 (replicate 4096 0)" "curr_vm_pid t = -1"
    using t(5) fresh by (auto simp: same_procs_def fresh_kernel_def)
  obtain mem where u: "soft_tlb_switch 1 t = Inr (t\<lparr>pmem := mem, curr_vm_pid := 1\<rparr>)"
    using soft_tlb_switch_eq [OF t(2) pid] pt(4) by simp
  let ?u = "t\<lparr>pmem := mem, curr_vm_pid := 1\<rparr>"
  have view: "pmem ?u a = proc_view t 1 a" if "mapped t 1 a" for a
  proof -
    have "proc_view ?u 1 a = proc_view t 1 a" by (rule soft_tlb_switch_view [OF t(2) pid u pid]) (use that in \<open>simp add: mapped_def\<close>)
    then show ?thesis by (simp add: proc_view_def split: option.splits)
  qed
  have unused: "proc_stat (proc_set s ! i) = PROC_UNUSED" if "i < 16" for i using fresh that by (simp add: fresh_kernel_def)
  have len: "length (proc_set s) = 16" using fresh by (simp add: fresh_kernel_def)
  let ?v = "upd_proc 0 (\<lambda>p. p\<lparr>proc_pid := 1, proc_stat := PROC_LOADING\<rparr>) ?u"
  have alloc: "proc_alloc ?u = Inr (1, ?v)" using proc_alloc_Some [of 0 ?u] unused [of 0] by (simp add: pt(1))
  let ?s' = "upd_proc 0 (\<lambda>p. p\<lparr>proc_stat := PROC_RUNNING\<rparr>) ?v"
  have run: "proc_set_running 1 ?v = Inr ?s'"
    using proc_set_status_ok [of 0 ?v PROC_RUNNING] len by (simp add: proc_set_running_def upd_proc_def pt(1))
  have main: "grass_main dev s = Inr ?s'" using t(1) u alloc run by (simp add: grass_main_def GPID_PROCESS_def)
  have ps: "proc_set ?s' = (proc_set s)[0 := (proc_set s ! 0)\<lparr>proc_pid := 1, proc_stat := PROC_RUNNING\<rparr>]"
    using len by (simp add: upd_proc_def pt(1))
  have cs: "proc_curr_idx ?s' = 0" "proc_stack ?s' = replicate 16 (replicate 4096 0)" "curr_vm_pid ?s' = 1" "pmem ?s' = pmem ?u"
    using pt by (simp_all add: upd_proc_def)
  have eq: "pmem ?s' = pmem ?u" "curr_vm_pid ?s' = curr_vm_pid ?u" "app_pages ?s' = app_pages ?u" "bitmap ?s' = bitmap ?u" by (simp_all add: upd_proc_def)
  note fr = same_mmu [OF eq]
  have us: "used_pages ?u = used_pages t" "private_pages ?u = private_pages t" "alloc_inv ?u = alloc_inv t" "maps_of ?u = maps_of t"
    by (simp_all add: used_pages_def alloc_inv_def private_pages_def fun_eq_iff maps_of_def)
  have "wf_mmu ?u" using wf_mmu_curr [of "t\<lparr>pmem := mem\<rparr>" 1] t(2) by (simp add: MAX_NPROCESS_def)
  moreover have "pages_accounted ?u" using t(4) by (simp add: pages_accounted_def us)
  moreover have "wf_procs ?s'" unfolding wf_procs_def ps cs using len unused by (auto simp: MAX_NPROCESS_def nth_list_update)
  ultimately have "wf_kernel ?s'" using t(3) by (simp add: wf_kernel_def fr us)
  moreover have "only_current_runs ?s'" unfolding only_current_runs_def ps cs using len unused by (auto simp: MAX_NPROCESS_def nth_list_update)
  moreover have c: "curr_proc ?s' = (proc_set s ! 0)\<lparr>proc_pid := 1, proc_stat := PROC_RUNNING\<rparr>" unfolding ps cs using len by simp
  ultimately have "kernel_inv ?s'" by (simp add: kernel_inv_def yield_pre_def cs pt MAX_NPROCESS_def PAGE_SIZE_def)
  moreover have "\<forall>i. 0 < i \<and> i < MAX_NPROCESS \<longrightarrow> proc_stat (proc_set ?s' ! i) = PROC_UNUSED"
    unfolding ps using unused by (simp add: MAX_NPROCESS_def)
  moreover have "\<forall>q. 1 < q \<and> q < int MAX_NPROCESS \<longrightarrow> maps_of ?s' q = []" using t(8) m(5) by (simp add: fr us)
  moreover have "load_u32 (pmem ?s') APPS_ARG = 0"
  proof (rule load_u32_bytes)
    fix j :: nat assume j: "j < 4"
    then have "pmem ?u (APPS_ARG + of_nat j) = 0" using view [of "APPS_ARG + of_nat j"] t(7) by simp
    then show "pmem ?s' (APPS_ARG + of_nat j) = bytes32 0 ! j" unfolding cs(4) bytes32_zero [OF j] .
  qed
  ultimately show ?thesis
    using main c view t(6,9) m(4) by (intro exI [of _ ?s']) (simp add: GPID_PROCESS_def fr us cs(4))
qed

section \<open>The kernel\<close>

lemma offset_range:
  assumes "i + n \<le> 2 ^ 32"
  shows "in_range x (a + of_nat i) n \<longleftrightarrow> i \<le> unat (x - a) \<and> unat (x - a) < i + n"
    "in_range x (a + of_nat i) n \<Longrightarrow> unat (x - (a + of_nat i)) = unat (x - a) - i"
proof -
  define d where "d = x - a"
  have e: "x - (a + of_nat i) = d - of_nat i" by (simp add: d_def)
  have d: "unat d < 2 ^ 32" using unsigned_less [of d, where ?'a = nat] by simp
  have sub: "unat (d - of_nat i) = (if i \<le> unat d then unat d - i else unat d + (2 ^ 32 - i))" if "0 < n"
  proof -
    have "unat (of_nat i :: addr) = i" using assms that by (simp add: unsigned_of_nat take_bit_eq_mod)
    then show ?thesis using assms by (simp add: unat_sub_if' word_le_nat_alt)
  qed
  show r: "in_range x (a + of_nat i) n \<longleftrightarrow> i \<le> unat (x - a) \<and> unat (x - a) < i + n"
  proof (cases "0 < n")
    case True
    then show ?thesis using sub assms d unfolding in_range_def e d_def [symmetric] by (auto split: if_splits)
  qed (simp add: in_range_def)
  assume "in_range x (a + of_nat i) n"
  then show "unat (x - (a + of_nat i)) = unat (x - a) - i" using r sub unfolding e d_def [symmetric] by (auto simp: in_range_def)
qed

lemma load_grass_ok:
  fixes s :: "'a mmu_scheme"
  assumes sz: "unat (p_filesz ph) \<le> 131072"
    and r: "\<forall>i < n_rounds (p_filesz ph). reader (p_offset ph div 512 + of_nat i) = Inr (blocks i) \<and> length (blocks i) = 512"
  shows "\<exists>m. load_grass reader ph s = Inr (s\<lparr>pmem := m\<rparr>) \<and> (\<forall>x. m x =
    (if unat (x - GRASS_ENTRY) < unat (p_filesz ph) then file_byte blocks (unat (x - GRASS_ENTRY))
     else if unat (x - GRASS_ENTRY) < 0x100000 then 0 else pmem s x))"
proof -
  let ?n = "n_rounds (p_filesz ph)" and ?d = "\<lambda>x. unat (x - GRASS_ENTRY)"
  let ?P = "\<lambda>i t. \<exists>m. t = s\<lparr>pmem := m\<rparr> \<and> (\<forall>x. m x = (if ?d x < i * 512 then file_byte blocks (?d x) else pmem s x))"
  have n: "?n \<le> 256" "unat (p_filesz ph) \<le> ?n * 512" using sz unfolding n_rounds_def by linarith+
  have "\<exists>t. rfor (\<lambda>i s. read_to reader (p_offset ph div 512 + of_nat i) (GRASS_ENTRY + of_nat (i * 512)) s) [0..<?n] s = Inr t \<and> ?P ?n t"
  proof (rule rfor_upt [where P = ?P])
    show "?P 0 s" by (intro exI [of _ "pmem s"]) simp
  next
    fix i t assume i: "i < ?n" and "?P i t"
    then obtain m where m: "t = s\<lparr>pmem := m\<rparr>" "\<forall>x. m x = (if ?d x < i * 512 then file_byte blocks (?d x) else pmem s x)" by blast
    note b = r [rule_format, OF i]
    let ?m = "store_bytes m (GRASS_ENTRY + of_nat (i * 512)) (blocks i)"
    have "i * 512 + 512 \<le> 2 ^ 32" using i n(1) by simp
    note o = offset_range [OF this, of _ GRASS_ENTRY]
    have "?m x = (if ?d x < Suc i * 512 then file_byte blocks (?d x) else pmem s x)" for x
    proof (cases "in_range x (GRASS_ENTRY + of_nat (i * 512)) 512")
      case True
      then obtain j where j: "?d x = i * 512 + j" "j < 512" using o(1) by (metis add_less_cancel_left le_Suc_ex)
      then have "?m x = blocks i ! j" using True o(2) b by (simp add: store_bytes_def)
      then show ?thesis using j by (simp add: file_byte_def)
    next
      case False
      then show ?thesis using o(1) [of x] m(2) b by (auto simp: store_bytes_def)
    qed
    moreover have "read_to reader (p_offset ph div 512 + of_nat i) (GRASS_ENTRY + of_nat (i * 512)) t = Inr (s\<lparr>pmem := ?m\<rparr>)"
      using b m(1) by (simp add: read_to_def)
    ultimately show "\<exists>t'. read_to reader (p_offset ph div 512 + of_nat i) (GRASS_ENTRY + of_nat (i * 512)) t = Inr t' \<and> ?P (Suc i) t'" by blast
  qed
  then obtain m where m: "rfor (\<lambda>i s. read_to reader (p_offset ph div 512 + of_nat i) (GRASS_ENTRY + of_nat (i * 512)) s) [0..<?n] s = Inr (s\<lparr>pmem := m\<rparr>)"
    "\<forall>x. m x = (if ?d x < ?n * 512 then file_byte blocks (?d x) else pmem s x)" by blast
  have le: "p_filesz ph \<le> GRASS_SIZE" using sz by (simp add: word_le_nat_alt GRASS_SIZE_def)
  have g: "unat (GRASS_SIZE - p_filesz ph) = 0x100000 - unat (p_filesz ph)" using unat_sub [OF le] by (simp add: GRASS_SIZE_def)
  have e: "GRASS_ENTRY + p_filesz ph = GRASS_ENTRY + of_nat (unat (p_filesz ph))" by simp
  have "unat (p_filesz ph) + (0x100000 - unat (p_filesz ph)) \<le> 2 ^ 32" using sz by simp
  note o = offset_range(1) [OF this, of _ GRASS_ENTRY]
  let ?m = "memset m (GRASS_ENTRY + p_filesz ph) 0 (unat (GRASS_SIZE - p_filesz ph))"
  have "?m x = (if ?d x < unat (p_filesz ph) then file_byte blocks (?d x) else if ?d x < 0x100000 then 0 else pmem s x)" for x
    unfolding memset_def g e o using m(2) n sz by auto
  moreover have "load_grass reader ph s = Inr (s\<lparr>pmem := ?m\<rparr>)" using m(1) by (simp add: load_grass_def)
  ultimately show ?thesis by blast
qed

section \<open>Booting from the image\<close>

definition boot_disk :: "(string \<Rightarrow> m_uint8 list) \<Rightarrow> disk_dev \<Rightarrow> bool" where
  "boot_disk elf dev \<longleftrightarrow> (\<exists>buf rwfs fs img. mkfs_main elf buf rwfs fs = Inr img \<and> length rwfs = 1048576 \<and>
     dtype dev = FLASH_ROM \<and> rom dev = image_blocks img)"

lemma boot_disk_segment:
  assumes "boot_disk elf dev" "k < 6"
  shows "length (elf (kernel_processes ! k)) \<le> 131072"
    "b < 256 \<Longrightarrow> sys_proc_read dev (GRASS_EXEC_START + GRASS_EXEC_SEGMENT * of_nat k) (of_nat b) =
      Inr (take 512 (drop (b * 512) (elf (kernel_processes ! k) @ replicate (131072 - length (elf (kernel_processes ! k))) 0)))"
proof -
  obtain buf rwfs fs img where i: "mkfs_main elf buf rwfs fs = Inr img" "length rwfs = 1048576" "dtype dev = FLASH_ROM" "rom dev = image_blocks img"
    using assms(1) unfolding boot_disk_def by blast
  obtain segs where "kernel_segments elf kernel_processes = Inr segs" using i(1) by (auto simp: mkfs_main_def res_simps)
  from kernel_segments_nth [OF this] show "length (elf (kernel_processes ! k)) \<le> 131072" using assms(2) by (simp add: kernel_processes_def)
  show "b < 256 \<Longrightarrow> sys_proc_read dev (GRASS_EXEC_START + GRASS_EXEC_SEGMENT * of_nat k) (of_nat b) =
      Inr (take 512 (drop (b * 512) (elf (kernel_processes ! k) @ replicate (131072 - length (elf (kernel_processes ! k))) 0)))"
    by (rule image_segment [OF i assms(2)])
qed

lemma boot_disk_executable:
  assumes "boot_disk elf dev" "k < 6" "elf_file APPS_ENTRY (elf (kernel_processes ! k)) code"
  obtains blocks where "executable (sys_proc_read dev (GRASS_EXEC_START + GRASS_EXEC_SEGMENT * of_nat k)) (length code) blocks"
    "\<forall>off < length code. file_byte blocks off = code ! off"
  by (rule app_file_executable [OF assms(3) boot_disk_segment [OF assms(1,2)]])

lemma earth_main_ok:
  fixes s :: "'a mmu_scheme"
  assumes dev: "boot_disk elf dev" and elf: "elf_file GRASS_ENTRY (elf ''../build/release/grass.elf'') code"
  shows "\<exists>m. earth_main 0 dev s = Inr (s\<lparr>pmem := m\<rparr>) \<and> (\<forall>x. m x =
    (if unat (x - GRASS_ENTRY) < length code then code ! unat (x - GRASS_ENTRY) else if unat (x - GRASS_ENTRY) < 0x100000 then 0 else pmem s x))"
proof -
  have g: "kernel_processes ! 0 = ''../build/release/grass.elf''" by (simp add: kernel_processes_def)
  have read: "grass_read dev = sys_proc_read dev (GRASS_EXEC_START + GRASS_EXEC_SEGMENT * of_nat 0)"
    by (simp add: fun_eq_iff grass_read_def sys_proc_read_def)
  have z: "0 < (6 :: nat)" by simp
  note seg = boot_disk_segment [OF dev z, folded read]
  obtain buf ph blocks where h: "grass_read dev 0 = Inr buf" "e_phnum (header_of buf) = 1" "unat (e_phoff (header_of buf)) + 32 \<le> 512"
    "ph = pheader_of buf (unat (e_phoff (header_of buf)))" "p_vaddr ph = GRASS_ENTRY" "unat (p_filesz ph) = length code" "length code \<le> 131072"
    "\<forall>i < n_rounds (p_filesz ph). grass_read dev (p_offset ph div 512 + of_nat i) = Inr (blocks i) \<and> length (blocks i) = 512"
    "\<forall>off < length code. file_byte blocks off = code ! off"
    by (rule elf_file_blocks [OF elf [folded g] seg])
  have sz: "unat (p_filesz ph) \<le> 131072" using h(6,7) by simp
  obtain m where m: "load_grass (grass_read dev) ph s = Inr (s\<lparr>pmem := m\<rparr>)"
    "\<forall>x. m x = (if unat (x - GRASS_ENTRY) < length code then file_byte blocks (unat (x - GRASS_ENTRY))
       else if unat (x - GRASS_ENTRY) < 0x100000 then 0 else pmem s x)"
    using load_grass_ok [OF sz h(8)] unfolding h(6) by blast
  have "earth_main 0 dev s = Inr (s\<lparr>pmem := m\<rparr>)"
    using h(1-5) m(1) by (simp add: earth_main_def elf_load_def Let_def)
  then show ?thesis using m(2) h(9) by auto
qed

text \<open>
  C12. Booting. On a disk image made by mkfs the earth layer loads the program of grass.elf to the
  place of the kernel, with zeros behind it, and changes nothing else; and the kernel, from its initial
  state, starts the process server: the invariant of the kernel holds, process 1 runs, it has the
  program of sys_proc.elf with zeros behind it and no arguments, and there is no other process.
\<close>

theorem boot_correct:
  fixes s :: "'a kernel_scheme"
  assumes "boot_disk elf dev" and "elf_file GRASS_ENTRY (elf ''../build/release/grass.elf'') kcode"
    and "elf_file APPS_ENTRY (elf ''../build/release/sys_proc.elf'') code" "length code \<le> 0x4000" and "fresh_kernel s"
  shows "\<exists>m s'. earth_main 0 dev s = Inr (s\<lparr>pmem := m\<rparr>) \<and>
    (\<forall>x. m x = (if unat (x - GRASS_ENTRY) < length kcode then kcode ! unat (x - GRASS_ENTRY) else if unat (x - GRASS_ENTRY) < 0x100000 then 0 else pmem s x)) \<and>
    grass_main dev (s\<lparr>pmem := m\<rparr>) = Inr s' \<and> kernel_inv s' \<and> curr_pid s' = GPID_PROCESS \<and>
    (\<forall>i. 0 < i \<and> i < MAX_NPROCESS \<longrightarrow> proc_stat (proc_set s' ! i) = PROC_UNUSED) \<and>
    (\<forall>off < 0x4000. pmem s' (APPS_ENTRY + of_nat off) = (if off < length code then code ! off else 0)) \<and>
    load_u32 (pmem s') APPS_ARG = 0"
proof -
  obtain m where m: "earth_main 0 dev s = Inr (s\<lparr>pmem := m\<rparr>)"
    "\<forall>x. m x = (if unat (x - GRASS_ENTRY) < length kcode then kcode ! unat (x - GRASS_ENTRY) else if unat (x - GRASS_ENTRY) < 0x100000 then 0 else pmem s x)"
    using earth_main_ok [OF assms(1,2), of s] by blast
  have k: "kernel_processes ! 1 = ''../build/release/sys_proc.elf''" by (simp add: kernel_processes_def)
  have base: "SYS_PROC_EXEC_START = GRASS_EXEC_START + GRASS_EXEC_SEGMENT * of_nat 1" by (simp add: SYS_PROC_EXEC_START_def)
  have one: "1 < (6 :: nat)" by simp
  obtain blocks where b: "executable (sys_proc_read dev SYS_PROC_EXEC_START) (length code) blocks" "\<forall>off < length code. file_byte blocks off = code ! off"
    unfolding base by (rule boot_disk_executable [OF assms(1) one assms(3) [folded k]])
  have "fresh_kernel (s\<lparr>pmem := m\<rparr>)" using assms(5) by (simp add: fresh_kernel_def)
  from grass_main_ok [OF this b(1) assms(4)] m b(2) show ?thesis by auto
qed

text \<open>
  Starting a server. When a server is started from its segment of the image while the process
  server runs, the process in the first free slot is ready to run the program of that segment: it
  sees the bytes of the program and zeros behind them. The invariant of the kernel is kept, the
  other processes see what they saw before, and at most six pages are taken.
\<close>

theorem sys_spawn_correct:
  fixes s :: "'a kernel_scheme"
  assumes "boot_disk elf dev" "k < 6" "elf_file APPS_ENTRY (elf (kernel_processes ! k)) code" "length code \<le> 0x4000"
    and "kernel_inv s" "i < 5" "proc_stat (proc_set s ! i) = PROC_UNUSED" "\<forall>j < i. proc_stat (proc_set s ! j) \<noteq> PROC_UNUSED"
    and "maps_of s (int i + 1) = []" "card (used_pages s) + 6 \<le> NPAGES"
  shows "\<exists>s'. sys_spawn dev (GRASS_EXEC_START + GRASS_EXEC_SEGMENT * of_nat k) s = Inr s' \<and> kernel_inv s' \<and>
    proc_set s' = (proc_set s)[i := (proc_set s ! i)\<lparr>proc_pid := int i + 1, proc_stat := PROC_READY\<rparr>] \<and>
    (\<forall>off < 0x4000. proc_view s' (int i + 1) (APPS_ENTRY + of_nat off) = (if off < length code then code ! off else 0)) \<and>
    (\<forall>q \<in> {1..<int MAX_NPROCESS}. q \<noteq> int i + 1 \<longrightarrow> (\<forall>a. mapped s q a \<longrightarrow> proc_view s' q a = proc_view s q a)) \<and>
    card (used_pages s') \<le> card (used_pages s) + 6"
proof -
  obtain blocks where b: "executable (sys_proc_read dev (GRASS_EXEC_START + GRASS_EXEC_SEGMENT * of_nat k)) (length code) blocks"
    "\<forall>off < length code. file_byte blocks off = code ! off"
    by (rule boot_disk_executable [OF assms(1-3)])
  show ?thesis using sys_spawn_ok [OF assms(5-10) b(1) assms(4)] b(2) by auto
qed

section \<open>All servers\<close>

text \<open>
  What the process server relies on while it waits for a report: the system comes back to it, with
  the same processes and the same pages.
\<close>

definition comes_back :: "('a kernel_scheme \<Rightarrow> 'a kernel_scheme res) \<Rightarrow> bool" where
  "comes_back f \<longleftrightarrow> (\<forall>s. kernel_inv s \<longrightarrow> (\<exists>s'. f s = Inr s' \<and> kernel_inv s' \<and> proc_curr_idx s' = proc_curr_idx s \<and>
     (\<forall>i < MAX_NPROCESS. proc_stat (proc_set s' ! i) = PROC_UNUSED \<longleftrightarrow> proc_stat (proc_set s ! i) = PROC_UNUSED) \<and>
     (\<forall>q \<in> {1..<int MAX_NPROCESS}. maps_of s' q = maps_of s q) \<and> used_pages s' = used_pages s))"

text \<open>The kernel with exactly the first \<open>n\<close> processes, of six pages each.\<close>

definition servers_up :: "nat \<Rightarrow> 'a kernel_scheme \<Rightarrow> bool" where
  "servers_up n s \<longleftrightarrow> kernel_inv s \<and> (\<forall>i < MAX_NPROCESS. proc_stat (proc_set s ! i) = PROC_UNUSED \<longleftrightarrow> n \<le> i) \<and>
     (\<forall>q \<in> {int n + 1..<int MAX_NPROCESS}. maps_of s q = []) \<and> card (used_pages s) \<le> 6 * n"

lemma servers_up_spawn:
  assumes "boot_disk elf dev" "k < 6" "elf_file APPS_ENTRY (elf (kernel_processes ! k)) code" "length code \<le> 0x4000"
    and "base = GRASS_EXEC_START + GRASS_EXEC_SEGMENT * of_nat k" and up: "servers_up n s" "n < 5"
  obtains s' where "sys_spawn dev base s = Inr s'" "servers_up (Suc n) s'"
    "\<forall>off < 0x4000. proc_view s' (int n + 1) (APPS_ENTRY + of_nat off) = (if off < length code then code ! off else 0)"
proof -
  obtain blocks where b: "executable (sys_proc_read dev base) (length code) blocks" "\<forall>off < length code. file_byte blocks off = code ! off"
    unfolding assms(5) by (rule boot_disk_executable [OF assms(1-3)])
  have u: "kernel_inv s" "proc_stat (proc_set s ! n) = PROC_UNUSED" "\<forall>j < n. proc_stat (proc_set s ! j) \<noteq> PROC_UNUSED"
    "maps_of s (int n + 1) = []" "card (used_pages s) + 6 \<le> NPAGES"
    using up by (auto simp: servers_up_def MAX_NPROCESS_def NPAGES_eq)
  obtain s' where s': "sys_spawn dev base s = Inr s'" "kernel_inv s'"
    "proc_set s' = (proc_set s)[n := (proc_set s ! n)\<lparr>proc_pid := int n + 1, proc_stat := PROC_READY\<rparr>]"
    "\<forall>off < 0x4000. proc_view s' (int n + 1) (APPS_ENTRY + of_nat off) = (if off < length code then file_byte blocks off else 0)"
    "\<forall>q \<in> {1..<int MAX_NPROCESS}. q \<noteq> int n + 1 \<longrightarrow> maps_of s' q = maps_of s q" "card (used_pages s') \<le> card (used_pages s) + 6"
    using sys_spawn_ok [OF u(1) up(2) u(2-5) b(1) assms(4)] by auto
  have "servers_up (Suc n) s'"
    unfolding servers_up_def s'(3) using s'(2,5,6) up kernel_invD(9) [OF u(1)]
    by (auto simp: servers_up_def nth_list_update MAX_NPROCESS_def)
  then show thesis using s'(1,4) b(2) that by auto
qed

lemma servers_up_await:
  assumes "comes_back f" "servers_up n s"
  obtains s' where "f s = Inr s'" "servers_up n s'"
proof -
  obtain s' where "f s = Inr s'" "kernel_inv s'"
    "\<forall>i < MAX_NPROCESS. proc_stat (proc_set s' ! i) = PROC_UNUSED \<longleftrightarrow> proc_stat (proc_set s ! i) = PROC_UNUSED"
    "\<forall>q \<in> {1..<int MAX_NPROCESS}. maps_of s' q = maps_of s q" "used_pages s' = used_pages s"
    using assms unfolding comes_back_def servers_up_def by blast
  moreover from this have "servers_up n s'" using assms(2) by (simp add: servers_up_def)
  ultimately show thesis using that by blast
qed

text \<open>
  From the state in which the kernel hands over to the process server, all four remaining processes
  are started, and the shell has its program.
\<close>

theorem servers_start:
  assumes dev: "boot_disk elf dev" and up: "servers_up 1 s" and await: "\<And>p. comes_back (await p)"
    and elf: "\<And>k. k \<in> {2..5} \<Longrightarrow> elf_file APPS_ENTRY (elf (kernel_processes ! k)) (code k) \<and> length (code k) \<le> 0x4000"
  shows "\<exists>s'. sys_proc_start dev await s = Inr s' \<and> servers_up 5 s' \<and>
    (\<forall>off < 0x4000. proc_view s' 5 (APPS_ENTRY + of_nat off) = (if off < length (code 5) then code 5 ! off else 0))"
proof -
  have e: "elf_file APPS_ENTRY (elf (kernel_processes ! k)) (code k)" "length (code k) \<le> 0x4000" if "k \<in> {2..5}" for k
    using elf [OF that] by auto
  obtain s1 where s1: "sys_spawn dev SYS_FILE_EXEC_START s = Inr s1" "servers_up 2 s1"
    using servers_up_spawn [OF dev _ e, of 2 SYS_FILE_EXEC_START 1 s] up by (auto simp: SYS_FILE_EXEC_START_def numeral_2_eq_2)
  obtain s2 where s2: "await GPID_FILE s1 = Inr s2" "servers_up 2 s2" by (rule servers_up_await [OF await s1(2)])
  obtain s3 where s3: "sys_spawn dev SYS_DIR_EXEC_START s2 = Inr s3" "servers_up 3 s3"
    using servers_up_spawn [OF dev _ e, of 3 SYS_DIR_EXEC_START 2 s2] s2(2) by (auto simp: SYS_DIR_EXEC_START_def numeral_3_eq_3)
  obtain s4 where s4: "await GPID_DIR s3 = Inr s4" "servers_up 3 s4" by (rule servers_up_await [OF await s3(2)])
  obtain s5 where s5: "sys_spawn dev SYS_NET_EXEC_START s4 = Inr s5" "servers_up 4 s5"
    using servers_up_spawn [OF dev _ e, of 4 SYS_NET_EXEC_START 3 s4] s4(2) by (auto simp: SYS_NET_EXEC_START_def)
  obtain s6 where s6: "await GPID_NET s5 = Inr s6" "servers_up 4 s6" by (rule servers_up_await [OF await s5(2)])
  obtain s7 where s7: "sys_spawn dev SYS_SHELL_EXEC_START s6 = Inr s7" "servers_up 5 s7"
    "\<forall>off < 0x4000. proc_view s7 5 (APPS_ENTRY + of_nat off) = (if off < length (code 5) then code 5 ! off else 0)"
    using servers_up_spawn [OF dev _ e, of 5 SYS_SHELL_EXEC_START 4 s6] s6(2) by (auto simp: SYS_SHELL_EXEC_START_def)
  show ?thesis using s1(1) s2(1) s3(1) s4(1) s5(1) s6(1) s7 by (simp add: sys_proc_start_def)
qed

section \<open>A concrete image\<close>

definition demo_grass :: "m_uint8 list" where
  "demo_grass = take 60 demo_elf @ [0, 0, 0x10, 0x80] @ drop 64 demo_elf"

definition demo_files :: "string \<Rightarrow> m_uint8 list" where
  "demo_files f = (if f = ''../build/release/grass.elf'' then demo_grass else demo_elf)"

definition boot_kernel :: kernel where
  "boot_kernel = \<lparr>bitmap = replicate 144 0, pmem = (\<lambda>_. 0), app_pages = replicate 16 (replicate 6 \<lparr>private_addr = 0, exec_addr = 0\<rparr>),
     curr_vm_pid = -1, proc_set = replicate 16 (demo_proc 0 PROC_UNUSED), proc_curr_idx = 0,
     proc_stack = replicate 16 (replicate 4096 0), klog = []\<rparr>"

lemma boot_kernel_fresh: "fresh_kernel boot_kernel"
  by (simp add: fresh_kernel_def boot_kernel_def demo_proc_def)

lemma demo_elf_file: "elf_file APPS_ENTRY demo_elf (replicate 600 9)"
  unfolding elf_file_def
proof (intro exI conjI)
  have b: "take 512 (demo_elf @ replicate 512 0) = take 512 demo_elf" by simp
  show "e_phnum (header_of (take 512 (demo_elf @ replicate 512 0))) = 1" unfolding b by (rule demo_elf_fields)
  show "unat (e_phoff (header_of (take 512 (demo_elf @ replicate 512 0)))) + 32 \<le> 512" unfolding b by (simp add: demo_elf_fields)
  let ?ph = "pheader_of (take 512 (demo_elf @ replicate 512 0)) (unat (e_phoff (header_of (take 512 (demo_elf @ replicate 512 0)))))"
  have ph: "?ph = pheader_of (take 512 demo_elf) 52" unfolding b demo_elf_fields by simp
  show "p_vaddr ?ph = APPS_ENTRY" "unat (p_offset ?ph) mod 512 = 0" "unat (p_offset ?ph) + unat (p_filesz ?ph) \<le> length demo_elf"
    unfolding ph demo_elf_fields by simp_all
  show "replicate 600 9 = take (unat (p_filesz ?ph)) (drop (unat (p_offset ?ph)) demo_elf)"
    unfolding ph demo_elf_fields by (simp add: demo_elf_def demo_header_def)
qed (rule refl)+

lemma demo_grass_fields:
  "e_phnum (header_of (take 512 demo_grass)) = 1" "e_phoff (header_of (take 512 demo_grass)) = 52"
  "p_vaddr (pheader_of (take 512 demo_grass) 52) = GRASS_ENTRY" "p_filesz (pheader_of (take 512 demo_grass) 52) = 600"
  "p_offset (pheader_of (take 512 demo_grass) 52) = 0x200"
  by (simp_all add: demo_grass_def demo_elf_def demo_header_def header_of_def pheader_of_def u16_at_def u32_at_def nth_append le32_def GRASS_ENTRY_def)

lemma length_demo_grass: "length demo_grass = 1112"
  by (simp add: demo_grass_def)

lemma demo_grass_file: "elf_file GRASS_ENTRY demo_grass (replicate 600 9)"
  unfolding elf_file_def
proof (intro exI conjI)
  have b: "take 512 (demo_grass @ replicate 512 0) = take 512 demo_grass" using length_demo_grass by simp
  show "e_phnum (header_of (take 512 (demo_grass @ replicate 512 0))) = 1" unfolding b by (rule demo_grass_fields)
  show "unat (e_phoff (header_of (take 512 (demo_grass @ replicate 512 0)))) + 32 \<le> 512" unfolding b by (simp add: demo_grass_fields)
  let ?ph = "pheader_of (take 512 (demo_grass @ replicate 512 0)) (unat (e_phoff (header_of (take 512 (demo_grass @ replicate 512 0)))))"
  have ph: "?ph = pheader_of (take 512 demo_grass) 52" unfolding b demo_grass_fields by simp
  show "p_vaddr ?ph = GRASS_ENTRY" "unat (p_offset ?ph) mod 512 = 0" "unat (p_offset ?ph) + unat (p_filesz ?ph) \<le> length demo_grass"
    unfolding ph demo_grass_fields using length_demo_grass by simp_all
  show "replicate 600 9 = take (unat (p_filesz ?ph)) (drop (unat (p_offset ?ph)) demo_grass)"
    unfolding ph demo_grass_fields by (simp add: demo_grass_def demo_elf_def demo_header_def)
qed (rule refl)+

lemma demo_image: "\<exists>img. mkfs_main demo_files (replicate 131072 0) (replicate 1048576 0) blank_fs = Inr img"
proof -
  have l: "length (demo_files f) = 1112" for f by (simp add: demo_files_def length_demo_grass)
  have "sum_list (map (n_blocks demo_files) contents) \<le> 372" by (simp add: contents_def n_blocks_def l)
  then obtain fs where fs: "mkfs demo_files (replicate 131072 0) blank_fs = Inr fs"
    using mkfs_ok [of "replicate 131072 0" demo_files] l by force
  have "\<exists>segs. kernel_segments demo_files fs = Inr segs" for fs
    by (induction fs) (auto simp: kernel_segment_def l exec_size_eq res_simps)
  then obtain segs where "kernel_segments demo_files kernel_processes = Inr segs" by blast
  with fs show ?thesis by (simp add: mkfs_main_def)
qed

definition boot_dev :: "m_uint8 list \<Rightarrow> disk_dev" where
  "boot_dev img = \<lparr>dtype = FLASH_ROM, rom = image_blocks img, spi = (\<lambda>_. 0)\<rparr>"

lemma boot_dev_disk: "mkfs_main demo_files (replicate 131072 0) (replicate 1048576 0) blank_fs = Inr img \<Longrightarrow> boot_disk demo_files (boot_dev img)"
  unfolding boot_disk_def by (intro exI conjI, assumption) (simp_all add: boot_dev_def)

theorem boot_correct_witness:
  "\<exists>img m s'. mkfs_main demo_files (replicate 131072 0) (replicate 1048576 0) blank_fs = Inr img \<and>
     earth_main 0 (boot_dev img) boot_kernel = Inr (boot_kernel\<lparr>pmem := m\<rparr>) \<and> m GRASS_ENTRY = 9 \<and>
     grass_main (boot_dev img) (boot_kernel\<lparr>pmem := m\<rparr>) = Inr s' \<and> kernel_inv s' \<and> pmem s' APPS_ENTRY = 9"
proof -
  obtain img where img: "mkfs_main demo_files (replicate 131072 0) (replicate 1048576 0) blank_fs = Inr img" using demo_image by blast
  have f: "elf_file GRASS_ENTRY (demo_files ''../build/release/grass.elf'') (replicate 600 9)"
    "elf_file APPS_ENTRY (demo_files ''../build/release/sys_proc.elf'') (replicate 600 9)"
    by (simp_all add: demo_files_def demo_grass_file demo_elf_file)
  obtain m s' where h: "earth_main 0 (boot_dev img) boot_kernel = Inr (boot_kernel\<lparr>pmem := m\<rparr>)"
    "\<forall>x. m x = (if unat (x - GRASS_ENTRY) < length (replicate 600 (9 :: m_uint8)) then replicate 600 9 ! unat (x - GRASS_ENTRY)
       else if unat (x - GRASS_ENTRY) < 0x100000 then 0 else pmem boot_kernel x)"
    "grass_main (boot_dev img) (boot_kernel\<lparr>pmem := m\<rparr>) = Inr s'" "kernel_inv s'"
    "\<forall>off < 0x4000. pmem s' (APPS_ENTRY + of_nat off) = (if off < length (replicate 600 (9 :: m_uint8)) then replicate 600 9 ! off else 0)"
    using boot_correct [OF boot_dev_disk [OF img] f _ boot_kernel_fresh] by auto
  have "m GRASS_ENTRY = 9" using h(2) [rule_format, of GRASS_ENTRY] by simp
  moreover have "pmem s' APPS_ENTRY = 9" using h(5) [rule_format, of 0] by simp
  ultimately show ?thesis using img h(1,3,4) by blast
qed

theorem sys_spawn_correct_witness:
  "\<exists>img s'. mkfs_main demo_files (replicate 131072 0) (replicate 1048576 0) blank_fs = Inr img \<and>
     sys_spawn (boot_dev img) SYS_FILE_EXEC_START (demo_kernel (\<lambda>_. 0) (demo_proc 1 PROC_RUNNING) (demo_proc 2 PROC_READY) (demo_proc 6 PROC_READY)) = Inr s' \<and>
     proc_stat (proc_set s' ! 2) = PROC_READY \<and> proc_view s' 3 APPS_ENTRY = 9"
proof -
  let ?s = "demo_kernel (\<lambda>_. 0) (demo_proc 1 PROC_RUNNING) (demo_proc 2 PROC_READY) (demo_proc 6 PROC_READY)"
  obtain img where img: "mkfs_main demo_files (replicate 131072 0) (replicate 1048576 0) blank_fs = Inr img" using demo_image by blast
  have inv: "kernel_inv ?s" by (rule demo_kernel_inv) (simp_all add: demo_proc_def)
  have f: "elf_file APPS_ENTRY (demo_files (kernel_processes ! 2)) (replicate 600 9)"
    by (simp add: demo_files_def kernel_processes_def demo_elf_file)
  have slot: "proc_stat (proc_set ?s ! 2) = PROC_UNUSED" "\<forall>j < 2. proc_stat (proc_set ?s ! j) \<noteq> PROC_UNUSED"
    by (auto simp: demo_nth demo_proc_def)
  have pages: "maps_of ?s (int 2 + 1) = []" "card (used_pages ?s) + 6 \<le> NPAGES"
    using two_rows_maps(3) [of ?s "0x80601000" 3] two_pages_used [of ?s] by (simp_all add: demo_kernel_def MAX_NPROCESS_def)
  obtain s' where s': "sys_spawn (boot_dev img) (GRASS_EXEC_START + GRASS_EXEC_SEGMENT * of_nat 2) ?s = Inr s'"
    "proc_set s' = (proc_set ?s)[2 := (proc_set ?s ! 2)\<lparr>proc_pid := int 2 + 1, proc_stat := PROC_READY\<rparr>]"
    "\<forall>off < 0x4000. proc_view s' (int 2 + 1) (APPS_ENTRY + of_nat off) = (if off < length (replicate 600 (9 :: m_uint8)) then replicate 600 9 ! off else 0)"
    using sys_spawn_correct [OF boot_dev_disk [OF img] _ f _ inv _ slot pages] by auto
  have "length (proc_set ?s) = 16" by (simp add: demo_kernel_def)
  then have "proc_stat (proc_set s' ! 2) = PROC_READY" using s'(2) by simp
  moreover have "proc_view s' 3 APPS_ENTRY = 9" using s'(3) [rule_format, of 0] by simp
  ultimately show ?thesis using img s'(1) by (auto simp: SYS_FILE_EXEC_START_def)
qed

end
