(* ===== verification/Kernel_Runs.thy ===== *)
theory Kernel_Runs
  imports Boot
begin

text \<open>
  All runs of the system from the first process on, as a step relation. A step is a computation of
  the running process, a trap, or one of the calls by which the process server (sys_proc.c, with the
  loader elf.c) starts and ends processes; as the server itself waits for other servers while it
  loads a program, these calls are steps of their own, with any other steps between them. The theory
  shows that the invariant of the kernel holds in every state of every run, and that the whole
  operations of the process server are runs.
\<close>

section \<open>Steps\<close>

text \<open>
  The addresses at which load_app maps the pages of a process, in this order. The page that comes
  next is the one at the number of pages the process already has.
\<close>

definition app_addrs :: "addr list" where
  "app_addrs = map (\<lambda>i. APPS_ENTRY + of_nat (i * PAGE_SIZE)) [0..<4] @ [APPS_ARG, APPS_ARG + of_nat PAGE_SIZE]"

text \<open>
  The running process may change memory and, when it is a server, its variables (\<open>more\<close>). The
  process server allocates a process, gives it a page, makes it ready, or ends another process or all
  user processes. The last slot of the table is left out, as its process has no row in the tables of
  the pages (see \<open>sixteenth_process_out_of_bounds\<close> in \<open>Process_Table\<close>).
\<close>

inductive kstep :: "'a kernel_scheme \<Rightarrow> 'a kernel_scheme \<Rightarrow> bool" where
  compute: "kstep s (kernel.more_update (\<lambda>_. x) (s\<lparr>pmem := m\<rparr>))"
| trap: "trap_handler ctrl_c mcause mepc ksp usp s = Inr (res, s') \<Longrightarrow> kstep s s'"
| alloc: "curr_pid s = GPID_PROCESS \<Longrightarrow> proc_alloc s = Inr (pid, s') \<Longrightarrow> pid < int MAX_NPROCESS \<Longrightarrow> kstep s s'"
| page: "curr_pid s = GPID_PROCESS \<Longrightarrow> i < MAX_NPROCESS \<Longrightarrow> proc_stat (proc_set s ! i) = PROC_LOADING \<Longrightarrow>
    mmu_alloc s = Inr (p, s1) \<Longrightarrow> length (maps_of s (int i + 1)) < length app_addrs \<Longrightarrow>
    soft_tlb_map (int i + 1) (app_addrs ! length (maps_of s (int i + 1))) p s1 = Inr s' \<Longrightarrow> kstep s s'"
| ready: "curr_pid s = GPID_PROCESS \<Longrightarrow> i < MAX_NPROCESS \<Longrightarrow> proc_stat (proc_set s ! i) = PROC_LOADING \<Longrightarrow>
    proc_set_ready (int i + 1) s = Inr s' \<Longrightarrow> kstep s s'"
| free: "curr_pid s = GPID_PROCESS \<Longrightarrow> pid \<noteq> GPID_PROCESS \<Longrightarrow> proc_free pid s = Inr s' \<Longrightarrow> kstep s s'"

section \<open>What traps leave alone\<close>

definition unstarted :: "proc_status \<Rightarrow> bool" where
  "unstarted st \<longleftrightarrow> st = PROC_UNUSED \<or> st = PROC_LOADING"

lemma unstarted_simps [simp]:
  "unstarted PROC_UNUSED" "unstarted PROC_LOADING" "\<not> unstarted PROC_READY" "\<not> unstarted PROC_RUNNING" "\<not> unstarted PROC_RUNNABLE"
  "\<not> unstarted PROC_WAIT_TO_SEND" "\<not> unstarted PROC_WAIT_TO_RECV"
  by (simp_all add: unstarted_def)

definition keeps :: "'a kernel_scheme \<Rightarrow> 'a kernel_scheme \<Rightarrow> bool" where
  "keeps s s' \<longleftrightarrow> app_pages s' = app_pages s \<and>
     (\<forall>i. unstarted (proc_stat (proc_set s' ! i)) \<longrightarrow> proc_stat (proc_set s' ! i) = proc_stat (proc_set s ! i))"

lemma keeps_refl [intro, simp]: "keeps s s"
  by (simp add: keeps_def)

lemma keeps_trans [trans]: "keeps s t \<Longrightarrow> keeps t u \<Longrightarrow> keeps s u"
  by (simp add: keeps_def)

lemma keeps_same: "app_pages s' = app_pages s \<Longrightarrow> proc_set s' = proc_set s \<Longrightarrow> keeps s s'"
  by (simp add: keeps_def)

lemma keeps_upd:
  assumes "\<And>p. unstarted (proc_stat (f p)) \<Longrightarrow> proc_stat (f p) = proc_stat p"
  shows "keeps s (upd_proc i f s)"
proof -
  have "proc_stat (((proc_set s)[i := f (proc_set s ! i)]) ! j) = proc_stat (proc_set s ! j)"
    if "unstarted (proc_stat (((proc_set s)[i := f (proc_set s ! i)]) ! j))" for j
    using assms that by (cases "i < length (proc_set s)"; cases "i = j") (simp_all add: list_update_beyond)
  then show ?thesis by (simp add: keeps_def upd_proc_def)
qed

lemma keeps_status: "proc_set_status pid st s = Inr s' \<Longrightarrow> \<not> unstarted st \<Longrightarrow> keeps s s'"
  by (auto simp: proc_set_status_def res_simps intro!: keeps_upd)

lemma memcopy_helper_frame:
  assumes "memcopy_helper pid b (s :: 'a kernel_scheme) = Inr s'"
  shows "app_pages s' = app_pages s \<and> proc_set s' = proc_set s"
  using assms unfolding memcopy_helper_def rbind_Inr_iff
  by (elim exE conjE, elim rfor_inv [where P = "\<lambda>t. app_pages t = app_pages s \<and> proc_set t = proc_set s"])
     (auto simp: res_simps Let_def split: if_splits)

lemma keeps_memcopy: "memcopy_helper pid b s = Inr s' \<Longrightarrow> keeps s s'"
  by (rule keeps_same) (simp_all add: memcopy_helper_frame)

lemma keeps_switch: "soft_tlb_switch pid (s :: 'a kernel_scheme) = Inr s' \<Longrightarrow> keeps s s'"
proof (cases "pid = curr_vm_pid s")
  case False
  assume "soft_tlb_switch pid s = Inr s'"
  then obtain t u where h: "(if curr_vm_pid s > 0 then memcopy_helper (curr_vm_pid s) False s else Inr s) = Inr t"
    "memcopy_helper pid True t = Inr u" "s' = u\<lparr>curr_vm_pid := pid\<rparr>"
    using False by (auto simp: soft_tlb_switch_def rbind_Inr_iff simp del: if_split)
  have "keeps s t" using h(1) keeps_memcopy by (cases "curr_vm_pid s > 0") auto
  also note keeps_memcopy [OF h(2)]
  also have "keeps u s'" unfolding h(3) by (rule keeps_same) simp_all
  finally show ?thesis .
qed (simp add: soft_tlb_switch_def)

lemma keeps_yield: "proc_yield s = Inr (out, s') \<Longrightarrow> keeps s s'"
proof -
  assume "proc_yield s = Inr (out, s')"
  then obtain n s1 s2 where n: "(if curr_status s = PROC_RUNNING then proc_set_runnable (curr_pid s) s else Inr s) = Inr s1"
    "soft_tlb_switch (curr_pid (s1\<lparr>proc_curr_idx := n\<rparr>)) (s1\<lparr>proc_curr_idx := n\<rparr>) = Inr s2"
    "proc_set_running (curr_pid (log_event Timer_reset s2)) (log_event Timer_reset s2) = Inr s'"
    by (auto simp: proc_yield_def Let_def res_simps split: option.splits if_splits)
  have "keeps s s1" using n(1) by (auto simp: proc_set_runnable_def split: if_splits dest: keeps_status)
  also have "keeps s1 (s1\<lparr>proc_curr_idx := n\<rparr>)" by (rule keeps_same) simp_all
  also have "keeps (s1\<lparr>proc_curr_idx := n\<rparr>) s2" by (rule keeps_switch [OF n(2)])
  also have "keeps s2 (log_event Timer_reset s2)" by (rule keeps_same) (simp_all add: log_event_def)
  also have "keeps (log_event Timer_reset s2) s'" using n(3) by (simp add: proc_set_running_def keeps_status)
  finally show ?thesis .
qed

lemma keeps_msgcpy: "msgcpy p q a b n s = Inr s' \<Longrightarrow> keeps s s'"
proof -
  assume "msgcpy p q a b n s = Inr s'"
  then obtain s1 s2 bs where h: "soft_tlb_switch p s = Inr s1" "soft_tlb_switch q s1 = Inr s2" "s' = store_exec b bs s2"
    by (auto simp: msgcpy_def Let_def res_simps)
  note keeps_switch [OF h(1)]
  also note keeps_switch [OF h(2)]
  also have "keeps s2 s'" unfolding h(3) by (rule keeps_same) (simp_all add: store_exec_def)
  finally show ?thesis .
qed

lemma keeps_set_field: "keeps s (set_field a v s)"
  by (rule keeps_same) (simp_all add: set_field_def store_exec_def)

lemma keeps_deliver:
  assumes "rbind (if c then Inr (upd_proc i f s) else rbind (msgcpy p q a b n s) (proc_set_runnable r)) proc_yield = Inr (out, s')"
    and "\<And>p. \<not> unstarted (proc_stat (f p))"
  shows "keeps s s'"
proof -
  obtain t where t: "(if c then Inr (upd_proc i f s) else rbind (msgcpy p q a b n s) (proc_set_runnable r)) = Inr t" "proc_yield t = Inr (out, s')"
    using assms(1) by (auto simp: rbind_Inr_iff)
  have "keeps s t"
  proof (cases c)
    case True
    then show ?thesis using t(1) assms(2) keeps_upd [of f s i] by simp
  next
    case False
    then obtain u where "msgcpy p q a b n s = Inr u" "proc_set_runnable r u = Inr t" using t(1) by (auto simp: rbind_Inr_iff)
    then have "keeps s u" "keeps u t" using keeps_msgcpy keeps_status [of r PROC_RUNNABLE u t] by (simp_all add: proc_set_runnable_def)
    then show ?thesis by (rule keeps_trans)
  qed
  then show ?thesis using keeps_yield [OF t(2)] by (rule keeps_trans)
qed

lemma keeps_syscall: "proc_syscall s = Inr (out, s') \<Longrightarrow> keeps s s'"
proof -
  let ?t = "log_event Msip_clear (set_field sc_type 0 (set_field sc_retval 0 s))"
  assume a: "proc_syscall s = Inr (out, s')"
  have t: "keeps s ?t" by (rule keeps_same) (simp_all add: log_event_def set_field_def store_exec_def)
  have send: "keeps u s'" if "proc_send u = Inr (out, s')" for u
  proof -
    let ?u = "set_field sc_sender (curr_pid u) u"
    have "keeps ?u s'"
      using that unfolding proc_send_def Let_def rbind_Inr_iff [of "pid2idx _"] rbind_Inr_iff [of "rassert _ _"]
      by (elim exE conjE) (erule keeps_deliver, simp)
    then show ?thesis using keeps_set_field keeps_trans by blast
  qed
  have recv: "keeps u s'" if "proc_recv u = Inr (out, s')" for u
  proof -
    let ?e = "get_field sc_sender u"
    let ?u = "upd_proc (proc_curr_idx u) (\<lambda>p. p\<lparr>from_sender_pid := ?e\<rparr>) u"
    have "keeps ?u s'"
      using that unfolding proc_recv_def Let_def rbind_Inr_iff [of "find_sender _ _"] rbind_Inr_iff [of "rassert _ _"]
      by (elim exE conjE) (erule keeps_deliver, simp)
    moreover have "keeps u ?u" by (rule keeps_upd) simp
    ultimately show ?thesis using keeps_trans by blast
  qed
  have "keeps ?t s'" using a send recv keeps_yield by (auto simp: proc_syscall_def Let_def split: if_splits)
  with t show ?thesis by (rule keeps_trans)
qed

lemma keeps_log: "keeps s (log_event e s)"
  by (rule keeps_same) (simp_all add: log_event_def)

lemma keeps_intr: "intr_entry c k s = Inr (out, s') \<Longrightarrow> keeps s s'"
  unfolding intr_entry_def
  by (auto split: if_splits dest: keeps_syscall keeps_yield intro: keeps_log intro!: keeps_trans [OF keeps_log keeps_upd])

lemma keeps_userstack: "manage_userstack b s = Inr s' \<Longrightarrow> keeps s s'"
  by (rule keeps_same) (auto simp: manage_userstack_def Let_def res_simps split: if_splits)

lemma keeps_trap: "trap_handler c mcause mepc ksp usp s = Inr (res, s') \<Longrightarrow> keeps s s'"
proof -
  let ?s = "upd_proc (proc_curr_idx s) (\<lambda>p. p\<lparr>proc_sp := usp\<rparr>) s"
  let ?t = "upd_proc (proc_curr_idx ?s) (\<lambda>p. p\<lparr>proc_mepc := mepc\<rparr>) ?s"
  assume a: "trap_handler c mcause mepc ksp usp s = Inr (res, s')"
  then obtain s2 out s3 where h: "manage_userstack True ?t = Inr s2" "intr_entry c (unat (mcause AND 0x3FF)) s2 = Inr (out, s3)"
    and r: "(case out of Enter_app \<Rightarrow> Inr (At_entry, s3)
               | Resume \<Rightarrow> rbind (manage_userstack False s3) (\<lambda>s.
                   Inr (Back_to (proc_mepc (curr_proc s)) (proc_sp (curr_proc s)), s))) = Inr (res, s')"
    by (auto simp: trap_handler_def ctx_entry_def excp_entry_def res_simps Let_def split: if_splits)
  have rest: "s' = s3 \<or> manage_userstack False s3 = Inr s'" using r by (cases out) (auto simp: res_simps)
  have "keeps s ?s" "keeps ?s ?t" by (rule keeps_upd, simp)+
  then have "keeps s s3" using keeps_userstack [OF h(1)] keeps_intr [OF h(2)] by (blast intro: keeps_trans)
  then show ?thesis using rest keeps_userstack by (blast intro: keeps_trans)
qed

section \<open>The invariant of a run\<close>

text \<open>
  A slot without a process has no pages, and a process that is being loaded has the first pages of
  \<open>app_addrs\<close>.
\<close>

definition slot_pages :: "'a kernel_scheme \<Rightarrow> nat \<Rightarrow> bool" where
  "slot_pages s i \<longleftrightarrow> (proc_stat (proc_set s ! i) = PROC_UNUSED \<longrightarrow> maps_of s (int i + 1) = []) \<and>
     (unstarted (proc_stat (proc_set s ! i)) \<longrightarrow>
        exec_addr ` set (maps_of s (int i + 1)) = set (take (length (maps_of s (int i + 1))) app_addrs))"

definition run_inv :: "'a kernel_scheme \<Rightarrow> bool" where
  "run_inv s \<longleftrightarrow> kernel_inv s \<and> (\<forall>i < 15. slot_pages s i)"

lemma run_invD: "run_inv s \<Longrightarrow> kernel_inv s" "run_inv s \<Longrightarrow> i < 15 \<Longrightarrow> slot_pages s i"
  by (simp_all add: run_inv_def)

lemma slot_pages_same:
  assumes "slot_pages s i" "proc_stat (proc_set s' ! i) = proc_stat (proc_set s ! i)" "maps_of s' (int i + 1) = maps_of s (int i + 1)"
  shows "slot_pages s' i"
  using assms by (simp add: slot_pages_def)

lemma slot_pages_keeps: "keeps s s' \<Longrightarrow> slot_pages s i \<Longrightarrow> slot_pages s' i"
  by (auto simp: keeps_def slot_pages_def maps_of_def)

lemma kernel_inv_mmu:
  assumes "kernel_inv s" "wf_mmu s'" "alloc_inv s'" "pages_accounted s'"
    and "proc_set s' = proc_set s" "proc_curr_idx s' = proc_curr_idx s" "proc_stack s' = proc_stack s" "curr_vm_pid s' = curr_vm_pid s"
  shows "kernel_inv s'"
  using assms by (simp add: kernel_inv_def yield_pre_def wf_kernel_def wf_procs_def only_current_runs_def)

lemma kernel_inv_upd:
  assumes "kernel_inv s" "i < 15" "i \<noteq> proc_curr_idx s" "proc_pid (f (proc_set s ! i)) = int i + 1 \<or> proc_stat (f (proc_set s ! i)) = PROC_UNUSED"
    "proc_stat (f (proc_set s ! i)) \<noteq> PROC_RUNNING"
  shows "kernel_inv (upd_proc i f s)"
proof -
  note k = kernel_invD [OF assms(1)]
  have "yield_pre (upd_proc i f s)" using k(1) assms(2) by (rule yield_pre_upd) (use assms in simp_all)
  moreover have "proc_set (upd_proc i f s) ! proc_curr_idx s = proc_set s ! proc_curr_idx s" using assms(3) by (simp add: upd_proc_def)
  ultimately show ?thesis using k(4,5) by (simp add: kernel_inv_def upd_proc_def)
qed

subsection \<open>Computation and traps\<close>

lemma compute_inv: "run_inv s \<Longrightarrow> run_inv (kernel.more_update (\<lambda>_. x) (s\<lparr>pmem := m\<rparr>))"
proof -
  let ?s' = "kernel.more_update (\<lambda>_. x) (s\<lparr>pmem := m\<rparr>)"
  assume a: "run_inv s"
  have "wf_kernel ?s' = wf_kernel s"
    by (simp add: wf_kernel_def wf_procs_def wf_mmu_def maps_of_def alloc_inv_def pages_accounted_def private_pages_def used_pages_def)
  then have "kernel_inv ?s'" using run_invD(1) [OF a] by (simp add: kernel_inv_def yield_pre_def only_current_runs_def)
  moreover have "maps_of ?s' = maps_of s" by (simp add: fun_eq_iff maps_of_def)
  ultimately show ?thesis using a by (simp add: run_inv_def slot_pages_def)
qed

lemma trap_inv: "run_inv s \<Longrightarrow> trap_handler c mcause mepc ksp usp s = Inr (res, s') \<Longrightarrow> run_inv s'"
proof -
  assume a: "run_inv s" and t: "trap_handler c mcause mepc ksp usp s = Inr (res, s')"
  obtain s2 out s3 where h: "kernel_inv s2" "intr_entry c (unat (mcause AND 0x3FF)) s2 = Inr (out, s3)"
    "out = Enter_app \<and> res = At_entry \<and> s' = s3 \<or> out = Resume \<and> manage_userstack False s3 = Inr s' \<and>
       res = Back_to (proc_mepc (curr_proc s')) (proc_sp (curr_proc s'))"
    by (rule trap_handler_phases [OF run_invD(1) [OF a] t])
  have "kernel_inv s3" using intr_sched_cases(1) [OF h(1,2)] by simp
  then have "kernel_inv s'" using h(3) manage_userstack_restore(2) by blast
  then show ?thesis using slot_pages_keeps [OF keeps_trap [OF t]] a by (simp add: run_inv_def)
qed

subsection \<open>The process server\<close>

lemma used_slot:
  assumes "kernel_inv s" "i < MAX_NPROCESS" "proc_stat (proc_set s ! i) \<noteq> PROC_UNUSED"
  shows "i < 15" "proc_pid (proc_set s ! i) = int i + 1" "int i + 1 \<in> {1..<int MAX_NPROCESS}"
proof -
  note w = wf_procsD [OF wf_kernelD(1) [OF kernel_invD(2) [OF assms(1)]]]
  show "i < 15" "proc_pid (proc_set s ! i) = int i + 1" using w(3,4) [of i] assms(2,3) by (simp_all add: MAX_NPROCESS_def)
  then show "int i + 1 \<in> {1..<int MAX_NPROCESS}" by (simp add: MAX_NPROCESS_def)
qed

lemma not_current: "kernel_inv s \<Longrightarrow> proc_stat (proc_set s ! i) \<noteq> PROC_RUNNING \<Longrightarrow> i \<noteq> proc_curr_idx s"
  using kernel_invD(4) by blast

lemma upd_slots:
  assumes "run_inv s" "i < 15" "kernel_inv (upd_proc i f s)" "slot_pages (upd_proc i f s) i"
  shows "run_inv (upd_proc i f s)"
proof -
  have "slot_pages (upd_proc i f s) j" if "j < 15" for j
  proof (cases "j = i")
    case False
    then have "proc_stat (proc_set (upd_proc i f s) ! j) = proc_stat (proc_set s ! j)" by (simp add: upd_proc_def)
    moreover have "maps_of (upd_proc i f s) (int j + 1) = maps_of s (int j + 1)" by (simp add: maps_of_def upd_proc_def)
    ultimately show ?thesis by (rule slot_pages_same [OF run_invD(2) [OF assms(1) that]])
  qed (use assms(4) in simp)
  then show ?thesis using assms(3) by (simp add: run_inv_def)
qed

lemma alloc_Inr:
  assumes "proc_alloc s = Inr (pid, s')" "pid < int MAX_NPROCESS"
  obtains i where "i < 15" "pid = int i + 1" "proc_stat (proc_set s ! i) = PROC_UNUSED"
    "s' = upd_proc i (\<lambda>p. p\<lparr>proc_pid := int i + 1, proc_stat := PROC_LOADING\<rparr>) s"
proof (cases "scan_from (\<lambda>i. proc_stat (proc_set s ! i) = PROC_UNUSED) 0 MAX_NPROCESS")
  case None
  then show thesis using assms(1) by (simp add: proc_alloc_def)
next
  case (Some i)
  then have i: "i < 16" "proc_stat (proc_set s ! i) = PROC_UNUSED" by (simp_all add: scan_from_Some_iff MAX_NPROCESS_def)
  then have "pid = int i + 1" "s' = upd_proc i (\<lambda>p. p\<lparr>proc_pid := int i + 1, proc_stat := PROC_LOADING\<rparr>) s"
    using assms(1) Some by (auto simp: proc_alloc_def idx2pid_def proc_on_arrive_def MAX_NPROCESS_def Let_def)
  with i assms(2) show thesis by (intro that [of i]) (simp_all add: MAX_NPROCESS_def)
qed

lemma alloc_inv_step: "run_inv s \<Longrightarrow> proc_alloc s = Inr (pid, s') \<Longrightarrow> pid < int MAX_NPROCESS \<Longrightarrow> run_inv s'"
proof -
  assume a: "run_inv s" "proc_alloc s = Inr (pid, s')" "pid < int MAX_NPROCESS"
  obtain i where i: "i < 15" "proc_stat (proc_set s ! i) = PROC_UNUSED"
    and s': "s' = upd_proc i (\<lambda>p. p\<lparr>proc_pid := int i + 1, proc_stat := PROC_LOADING\<rparr>) s"
    by (rule alloc_Inr [OF a(2,3)])
  note k = run_invD(1) [OF a(1)]
  have m: "maps_of s (int i + 1) = []" using run_invD(2) [OF a(1) i(1)] i(2) by (simp add: slot_pages_def)
  show ?thesis unfolding s'
  proof (rule upd_slots [OF a(1) i(1)])
    show "kernel_inv (upd_proc i (\<lambda>p. p\<lparr>proc_pid := int i + 1, proc_stat := PROC_LOADING\<rparr>) s)"
      using not_current [OF k, of i] i(2) by (intro kernel_inv_upd [OF k i(1)]) simp_all
    show "slot_pages (upd_proc i (\<lambda>p. p\<lparr>proc_pid := int i + 1, proc_stat := PROC_LOADING\<rparr>) s) i"
      using i(1) kernel_invD(9) [OF k] m by (simp add: slot_pages_def upd_proc_def maps_of_def)
  qed
qed

lemma ready_inv_step:
  assumes a: "run_inv s" and i: "i < MAX_NPROCESS" "proc_stat (proc_set s ! i) = PROC_LOADING" and r: "proc_set_ready (int i + 1) s = Inr s'"
  shows "run_inv s'"
proof -
  note k = run_invD(1) [OF a]
  note u = used_slot [OF k i(1)]
  have s': "s' = upd_proc i (\<lambda>p. p\<lparr>proc_stat := PROC_READY\<rparr>) s"
    using r proc_set_status_ok [of i s PROC_READY] u i by (simp add: proc_set_ready_def)
  have i15: "i < 15" using u(1) i(2) by simp
  show ?thesis unfolding s'
  proof (rule upd_slots [OF a i15])
    show "kernel_inv (upd_proc i (\<lambda>p. p\<lparr>proc_stat := PROC_READY\<rparr>) s)"
      using not_current [OF k, of i] i(2) u(2) by (intro kernel_inv_upd [OF k i15]) simp_all
    show "slot_pages (upd_proc i (\<lambda>p. p\<lparr>proc_stat := PROC_READY\<rparr>) s) i"
      using i15 kernel_invD(9) [OF k] by (simp add: slot_pages_def upd_proc_def)
  qed
qed

lemma app_addrs_eq: "app_addrs = [0x80400000, 0x80401000, 0x80402000, 0x80403000, 0x80600000, 0x80601000]"
  by (simp add: app_addrs_def upt_rec APPS_ENTRY_def APPS_ARG_def PAGE_SIZE_def)

lemma app_addrs: "length app_addrs = 6" "distinct app_addrs" "\<forall>a \<in> set app_addrs. aligned a \<and> a \<noteq> 0 \<and> a \<notin> page_pool"
  by (simp_all add: app_addrs_eq aligned_def not_page_pool)

lemma mmu_alloc_frame:
  assumes "mmu_alloc (s :: 'a kernel_scheme) = Inr (p, s1)"
  shows "proc_set s1 = proc_set s" "proc_curr_idx s1 = proc_curr_idx s" "proc_stack s1 = proc_stack s" "curr_vm_pid s1 = curr_vm_pid s"
    "s1\<lparr>pmem := memset (pmem s1) p 0 PAGE_SIZE\<rparr> = s1"
proof -
  obtain bm where s1: "s1 = s\<lparr>bitmap := bm, pmem := memset (pmem s) p 0 PAGE_SIZE\<rparr>"
    using assms unfolding mmu_alloc_def by (elim pmalloc_Inr) (auto simp: bitmap_set_def)
  show "proc_set s1 = proc_set s" "proc_curr_idx s1 = proc_curr_idx s" "proc_stack s1 = proc_stack s" "curr_vm_pid s1 = curr_vm_pid s"
    "s1\<lparr>pmem := memset (pmem s1) p 0 PAGE_SIZE\<rparr> = s1"
    by (simp_all add: s1 memset_def cong: if_cong)
qed

lemma page_step:
  assumes a: "run_inv s" and i: "i < MAX_NPROCESS" "proc_stat (proc_set s ! i) = PROC_LOADING"
    and al: "mmu_alloc s = Inr (p, s1)" and n: "n = length (maps_of s (int i + 1))" "n < length app_addrs"
    and mp: "soft_tlb_map (int i + 1) (app_addrs ! n) p s1 = Inr s'"
  shows "run_inv s'" "proc_set s' = proc_set s" "length (maps_of s' (int i + 1)) = Suc n" "proc_curr_idx s' = proc_curr_idx s"
proof -
  let ?pid = "int i + 1"
  note k = run_invD(1) [OF a]
  note w = wf_kernelD [OF kernel_invD(2) [OF k]]
  note u = used_slot [OF k i(1)]
  have pid: "?pid \<in> {1..<int MAX_NPROCESS}" "i < 15" using u i(2) by simp_all
  have e: "exec_addr ` set (maps_of s ?pid) = set (take n app_addrs)" using run_invD(2) [OF a pid(2)] i(2) n(1) by (simp add: slot_pages_def)
  have "app_addrs ! n \<notin> set (take n app_addrs)" using app_addrs(2) n(2) by (auto simp: in_set_conv_nth nth_eq_iff_index_eq)
  then have d: "aligned (app_addrs ! n)" "app_addrs ! n \<noteq> 0" "app_addrs ! n \<notin> page_pool" "app_addrs ! n \<notin> exec_addr ` set (maps_of s ?pid)"
    using app_addrs(3) n(2) unfolding e by simp_all
  have len: "length (maps_of s ?pid) < APPS_NPAGES" using n app_addrs(1) by (simp add: APPS_NPAGES_def APPS_SIZE_def PAGE_SIZE_def)
  obtain s2 where s2: "soft_tlb_map ?pid (app_addrs ! n) p s1 = Inr s2" "wf_mmu s2" "s2 = s1\<lparr>app_pages := app_pages s2\<rparr>"
    "set (maps_of s2 ?pid) = insert \<lparr>private_addr = p, exec_addr = app_addrs ! n\<rparr> (set (maps_of s ?pid))"
    "length (maps_of s2 ?pid) = Suc (length (maps_of s ?pid))"
    "\<forall>q \<in> {1..<int MAX_NPROCESS}. q \<noteq> ?pid \<longrightarrow> maps_of s2 q = maps_of s q"
    "\<forall>q \<in> {1..<int MAX_NPROCESS}. private_pages s2 q \<subseteq> used_pages s2"
    using alloc_and_map [OF w(2,3) pid(1) len w(4) [unfolded pages_accounted_def] d al] by (elim exE conjE)
  have s': "s' = s2" using mp s2(1) by simp
  obtain ap where ap: "s' = s1\<lparr>app_pages := ap\<rparr>" using s2(3) s' by blast
  note f = mmu_alloc_frame(1-4) [OF al]
  show ps: "proc_set s' = proc_set s" and ci: "proc_curr_idx s' = proc_curr_idx s" using f by (simp_all add: ap)
  show l: "length (maps_of s' ?pid) = Suc n" using s2(5) n(1) s' by simp
  have "alloc_inv s1" using pages.alloc_ok [OF w(3) al [unfolded mmu_alloc_def]] by simp
  then have "alloc_inv s'" by (simp add: ap alloc_inv_def)
  then have ki: "kernel_inv s'" using s2(2,7) f unfolding s' [symmetric]
    by (intro kernel_inv_mmu [OF k]) (simp_all add: pages_accounted_def ap)
  have "slot_pages s' j" if "j < 15" for j
  proof (cases "j = i")
    case True
    have "exec_addr ` set (maps_of s' ?pid) = set (take (Suc n) app_addrs)"
      using s2(4) e n(2) unfolding s' by (simp add: take_Suc_conv_app_nth)
    then show ?thesis using True i(2) l by (simp add: slot_pages_def ps)
  next
    case False
    have "maps_of s' (int j + 1) = maps_of s (int j + 1)" using s2(6) that False unfolding s' by (simp add: MAX_NPROCESS_def)
    moreover have "proc_stat (proc_set s' ! j) = proc_stat (proc_set s ! j)" by (simp add: ps)
    ultimately show ?thesis using slot_pages_same [OF run_invD(2) [OF a that]] by blast
  qed
  with ki show "run_inv s'" by (simp add: run_inv_def)
qed

lemma run_inv_log [simp]: "run_inv (log_event e s) = run_inv s"
  by (simp add: run_inv_def slot_pages_def log_event_def maps_of_def kernel_inv_def yield_pre_def wf_kernel_def wf_procs_def
      only_current_runs_def wf_mmu_def alloc_inv_def pages_accounted_def private_pages_def used_pages_def)

lemma free_slot:
  assumes a: "run_inv s" and i: "i < 15" "i \<noteq> proc_curr_idx s" and f: "soft_tlb_free (int i + 1) s = Inr t"
  shows "run_inv (upd_proc i (\<lambda>p. p\<lparr>proc_stat := PROC_UNUSED\<rparr>) t)"
proof -
  note k = run_invD(1) [OF a]
  note w = wf_kernelD [OF kernel_invD(2) [OF k]] and fr = soft_tlb_free_frame [OF f]
  have pid: "int i + 1 \<in> {1..<int MAX_NPROCESS}" using i(1) by (simp add: MAX_NPROCESS_def)
  have t: "wf_mmu t" "alloc_inv t" "pages_accounted t" "maps_of t (int i + 1) = []"
    "\<And>q. q \<in> {1..<int MAX_NPROCESS} \<Longrightarrow> q \<noteq> int i + 1 \<Longrightarrow> maps_of t q = maps_of s q"
    using soft_tlb_free_accounted [OF w(2-4) pid] f by auto
  have kt: "kernel_inv t" by (rule kernel_inv_mmu [OF k t(1-3) fr(1,2,4,3)])
  have "slot_pages t j" if j: "j < 15" for j
  proof (cases "j = i")
    case False
    then have "maps_of t (int j + 1) = maps_of s (int j + 1)" using j by (intro t(5)) (simp_all add: MAX_NPROCESS_def)
    moreover have "proc_stat (proc_set t ! j) = proc_stat (proc_set s ! j)" by (simp add: fr)
    ultimately show ?thesis using slot_pages_same [OF run_invD(2) [OF a j]] by blast
  qed (simp add: slot_pages_def t(4))
  with kt have rt: "run_inv t" by (simp add: run_inv_def)
  have ne: "i \<noteq> proc_curr_idx t" using i(2) fr by simp
  show ?thesis
  proof (rule upd_slots [OF rt i(1)])
    show "kernel_inv (upd_proc i (\<lambda>p. p\<lparr>proc_stat := PROC_UNUSED\<rparr>) t)" by (rule kernel_inv_upd [OF kt i(1) ne]) simp_all
    have "maps_of (upd_proc i (\<lambda>p. p\<lparr>proc_stat := PROC_UNUSED\<rparr>) t) (int i + 1) = []" using t(4) by (simp add: maps_of_def upd_proc_def)
    then show "slot_pages (upd_proc i (\<lambda>p. p\<lparr>proc_stat := PROC_UNUSED\<rparr>) t) i" by (simp add: slot_pages_def)
  qed
qed

lemma stop_Inr: "proc_on_stop pid s = Inr s' \<Longrightarrow> s' = log_event (Info ''proc finished'') s"
  by (auto simp: proc_on_stop_def res_simps)

lemma soft_tlb_free_pid: "soft_tlb_free pid s = Inr t \<Longrightarrow> length (app_pages s) = MAX_NPROCESS \<Longrightarrow> 0 < pid \<and> pid < int MAX_NPROCESS"
proof -
  assume f: "soft_tlb_free pid s = Inr t" and l: "length (app_pages s) = MAX_NPROCESS"
  have "[0..<APPS_NPAGES] = 0 # [1..<6]" by (simp add: APPS_NPAGES_def APPS_SIZE_def PAGE_SIZE_def upt_rec)
  then obtain x where "0 < pid" "app_row pid s = Inr x" using f by (auto simp: soft_tlb_free_def res_simps)
  with l show ?thesis by (auto simp: app_row_def split: if_splits)
qed

lemma free_inv_step:
  assumes a: "run_inv s" and c: "curr_pid s = GPID_PROCESS" and pid: "pid \<noteq> GPID_PROCESS" and f: "proc_free pid s = Inr s'"
  shows "run_inv s'"
proof (cases "pid = -1")
  case False
  note k = run_invD(1) [OF a]
  obtain t u where t: "soft_tlb_free pid s = Inr t" "proc_set_status pid PROC_UNUSED t = Inr u" "proc_on_stop pid u = Inr s'"
    using f False by (auto simp: proc_free_def rbind_Inr_iff)
  have "length (app_pages s) = MAX_NPROCESS" using wf_kernelD(2) [OF kernel_invD(2) [OF k]] by (simp add: wf_mmu_def)
  then have p: "0 < pid" "pid < int MAX_NPROCESS" using soft_tlb_free_pid [OF t(1)] by auto
  define i where "i = nat (pid - 1)"
  have i: "pid = int i + 1" "i < 15" using p by (simp_all add: i_def MAX_NPROCESS_def)
  have u: "u = upd_proc i (\<lambda>p. p\<lparr>proc_stat := PROC_UNUSED\<rparr>) t"
    using t(2) i by (auto simp: proc_set_status_def res_simps pid2idx_pid)
  have "i \<noteq> proc_curr_idx s" using pid c kernel_invD(7) [OF k] i(1) by auto
  then have "run_inv u" using free_slot [OF a i(2) _ t(1) [unfolded i(1)]] u by simp
  then show ?thesis using stop_Inr [OF t(3)] by simp
next
  case True
  let ?P = "\<lambda>s. run_inv s \<and> curr_pid s = GPID_PROCESS"
  let ?body = "\<lambda>i s. let p = proc_set s ! i
            in if proc_pid p \<ge> GPID_USER_START \<and> proc_stat p \<noteq> PROC_UNUSED
               then rbind (soft_tlb_free (proc_pid p) s) (\<lambda>s.
                    proc_on_stop (proc_pid p) (upd_proc i (\<lambda>p. p\<lparr>proc_stat := PROC_UNUSED\<rparr>) s))
               else Inr s"
  have "rfor ?body [0..<MAX_NPROCESS] s = Inr s'" using f True by (simp add: proc_free_def)
  then have "?P s'"
  proof (rule rfor_inv [where P = ?P])
    show "?P s" using a c by simp
  next
    fix i s s' assume "i \<in> set [0..<MAX_NPROCESS]" and P: "?P s" and b: "?body i s = Inr s'"
    then have i: "i < MAX_NPROCESS" by simp
    show "?P s'"
    proof (cases "proc_pid (proc_set s ! i) \<ge> GPID_USER_START \<and> proc_stat (proc_set s ! i) \<noteq> PROC_UNUSED")
      case True
      note k = run_invD(1) [OF conjunct1 [OF P]]
      note u = used_slot [OF k i conjunct2 [OF True]]
      obtain t where t: "soft_tlb_free (int i + 1) s = Inr t"
        "proc_on_stop (int i + 1) (upd_proc i (\<lambda>p. p\<lparr>proc_stat := PROC_UNUSED\<rparr>) t) = Inr s'"
        using b True u(2) by (auto simp: Let_def rbind_Inr_iff)
      have ne: "i \<noteq> proc_curr_idx s" using True P by (auto simp: GPID_USER_START_def GPID_PROCESS_def)
      have "run_inv (upd_proc i (\<lambda>p. p\<lparr>proc_stat := PROC_UNUSED\<rparr>) t)" using free_slot [OF _ u(1) ne t(1)] P by simp
      moreover have "curr_pid s' = curr_pid s"
        using stop_Inr [OF t(2)] soft_tlb_free_frame [OF t(1)] ne by (simp add: log_event_def upd_proc_def)
      ultimately show ?thesis using stop_Inr [OF t(2)] P by simp
    qed (use b P in \<open>auto simp: Let_def\<close>)
  qed
  then show ?thesis by simp
qed

subsection \<open>All runs\<close>

lemma kstep_inv: "kstep s s' \<Longrightarrow> run_inv s \<Longrightarrow> run_inv s'"
  by (induction rule: kstep.induct)
     (blast intro: compute_inv trap_inv alloc_inv_step page_step(1) [OF _ _ _ _ refl] ready_inv_step free_inv_step)+

lemma kruns_inv: "kstep\<^sup>*\<^sup>* s s' \<Longrightarrow> run_inv s \<Longrightarrow> run_inv s'"
  by (induction rule: rtranclp_induct) (auto intro: kstep_inv)

section \<open>Operations as runs\<close>

lemma rfor_upt_inv:
  assumes "rfor body [0..<n] s = Inr s'" "P 0 s"
    and "\<And>i s s'. i < n \<Longrightarrow> P i s \<Longrightarrow> body i s = Inr s' \<Longrightarrow> P (Suc i) s'"
  shows "P n s'"
  using assms(1,3)
proof (induction n arbitrary: s')
  case 0
  with assms(2) show ?case by simp
next
  case (Suc n)
  then obtain t where t: "rfor body [0..<n] s = Inr t" "body n t = Inr s'" by (auto simp: rfor_append rbind_Inr_iff)
  have "P n t" by (rule Suc.IH [OF t(1)]) (use Suc.prems(2) in simp)
  then show ?case using Suc.prems(2) t(2) by blast
qed

lemma compute_mem: "kstep s (s\<lparr>pmem := m\<rparr>)"
proof -
  have "s\<lparr>pmem := m\<rparr> = kernel.more_update (\<lambda>_. kernel.more s) (s\<lparr>pmem := m\<rparr>)" by simp
  then show ?thesis by (metis compute)
qed

lemma compute_more: "kernel.truncate s' = kernel.truncate s \<Longrightarrow> kstep s s'"
proof -
  assume "kernel.truncate s' = kernel.truncate s"
  then have "s' = kernel.more_update (\<lambda>_. kernel.more s') (s\<lparr>pmem := pmem s\<rparr>)" by (cases s; cases s') (simp add: kernel.truncate_def)
  then show ?thesis by (metis compute)
qed

text \<open>What the loader has done so far, from the state \<open>s\<close>, in which the process in slot \<open>i\<close> has no page.\<close>

definition loads :: "'a kernel_scheme \<Rightarrow> nat \<Rightarrow> nat \<Rightarrow> 'a kernel_scheme \<Rightarrow> bool" where
  "loads s i n t \<longleftrightarrow> kstep\<^sup>*\<^sup>* s t \<and> run_inv t \<and> proc_set t = proc_set s \<and> proc_curr_idx t = proc_curr_idx s \<and>
     length (maps_of t (int i + 1)) = n"

lemma loads_mem: "loads s i n t \<Longrightarrow> loads s i n (t\<lparr>pmem := m\<rparr>)"
  using compute_mem [of t m] kstep_inv [OF compute_mem [of t m]]
  by (auto simp: loads_def maps_of_def intro: rtranclp.rtrancl_into_rtrancl)

lemma loads_page:
  assumes l: "loads s i n t" and s: "curr_pid s = GPID_PROCESS" "i < MAX_NPROCESS" "proc_stat (proc_set s ! i) = PROC_LOADING"
    and n: "n < length app_addrs" and al: "mmu_alloc t = Inr (p, t1)" and mp: "soft_tlb_map (int i + 1) (app_addrs ! n) p t1 = Inr t'"
  shows "loads s i (Suc n) t'"
proof -
  have t: "run_inv t" "curr_pid t = GPID_PROCESS" "proc_stat (proc_set t ! i) = PROC_LOADING" "n = length (maps_of t (int i + 1))"
    using l s by (simp_all add: loads_def)
  have "kstep t t'" using kstep.page [OF t(2) s(2) t(3) al] n mp t(4) by simp
  moreover note page_step [OF t(1) s(2) t(3) al t(4) n mp]
  ultimately show ?thesis using l by (auto simp: loads_def intro: rtranclp.rtrancl_into_rtrancl)
qed

lemma copy_app_mem: "copy_app reader ph paddrs s = Inr s' \<Longrightarrow> \<exists>m. s' = s\<lparr>pmem := m\<rparr>"
proof -
  assume "copy_app reader ph paddrs s = Inr s'"
  then obtain k t where t: "rfor (copy_app_block reader (p_offset ph div 512) paddrs) [0..<n_rounds (p_filesz ph)] (-1, s) = Inr (k, t)"
    "\<exists>m. s' = t\<lparr>pmem := m\<rparr>"
    by (auto simp: copy_app_def res_simps Let_def split: if_splits) (metis (no_types) mmu.surjective phys.update_convs(2) surjective_pairing)+
  have "\<exists>m. snd (k, t) = s\<lparr>pmem := m\<rparr>"
    using t(1)
  proof (rule rfor_inv [where P = "\<lambda>x. \<exists>m. snd x = s\<lparr>pmem := m\<rparr>"])
    have "s = s\<lparr>pmem := pmem s\<rparr>" by simp
    then show "\<exists>m. snd (- 1, s) = s\<lparr>pmem := m\<rparr>" by (metis snd_conv)
  qed (auto simp: copy_app_block_def read_to_def res_simps Let_def split: if_splits)
  with t(2) show ?thesis by auto
qed

lemma load_grass_mem: "load_grass reader ph s = Inr s' \<Longrightarrow> \<exists>m. s' = s\<lparr>pmem := m\<rparr>"
proof -
  assume "load_grass reader ph s = Inr s'"
  then obtain t where t: "rfor (\<lambda>i s. read_to reader (p_offset ph div 512 + of_nat i) (GRASS_ENTRY + of_nat (i * 512)) s) [0..<n_rounds (p_filesz ph)] s = Inr t"
    "s' = t\<lparr>pmem := memset (pmem t) (GRASS_ENTRY + p_filesz ph) 0 (unat (GRASS_SIZE - p_filesz ph))\<rparr>"
    by (auto simp: load_grass_def res_simps)
  have "\<exists>m. t = s\<lparr>pmem := m\<rparr>"
    using t(1)
  proof (rule rfor_inv [where P = "\<lambda>x. \<exists>m. x = s\<lparr>pmem := m\<rparr>"])
    show "\<exists>m. s = s\<lparr>pmem := m\<rparr>" by (rule exI [of _ "pmem s"]) simp
  qed (auto simp: read_to_def res_simps)
  with t(2) show ?thesis by auto
qed

lemma app_addrs_nth: "n < 4 \<Longrightarrow> app_addrs ! n = APPS_ENTRY + of_nat (n * PAGE_SIZE)" "app_addrs ! 4 = APPS_ARG" "app_addrs ! 5 = APPS_ARG + of_nat PAGE_SIZE"
  by (simp_all add: app_addrs_def nth_append)

lemma elf_load_loads:
  assumes l: "loads s i 0 s" and s: "curr_pid s = GPID_PROCESS" "i < MAX_NPROCESS" "proc_stat (proc_set s ! i) = PROC_LOADING"
    and e: "elf_load (int i + 1) reader n args s = Inr s'"
  shows "\<exists>k. loads s i k s'"
proof -
  note page = loads_page [OF _ s]
  have app: "loads s i 6 s'" if a: "load_app (int i + 1) reader n args ph s = Inr s'" for ph
  proof -
    obtain paddrs s1 s2 p s3 s4 m p' s5 where h:
      "alloc_app_pages (int i + 1) s = Inr (paddrs, s1)" "copy_app reader ph paddrs s1 = Inr s2" "mmu_alloc s2 = Inr (p, s3)"
      "soft_tlb_map (int i + 1) APPS_ARG p s3 = Inr s4" "mmu_alloc (s4\<lparr>pmem := m\<rparr>) = Inr (p', s5)"
      "soft_tlb_map (int i + 1) (APPS_ARG + of_nat PAGE_SIZE) p' s5 = Inr s'"
      using a by (auto simp: load_app_def rbind_Inr_iff)
    have "loads s i 4 (snd (paddrs, s1))"
    proof (rule rfor_upt_inv [where P = "\<lambda>n x. loads s i n (snd x)"])
      show "rfor (\<lambda>k (paddrs, s). rbind (mmu_alloc s) (\<lambda>(p, s).
          rbind (soft_tlb_map (int i + 1) (APPS_ENTRY + of_nat (k * PAGE_SIZE)) p (s\<lparr>pmem := memset (pmem s) p 0 PAGE_SIZE\<rparr>)) (\<lambda>s.
            Inr (paddrs @ [p], s)))) [0..<4] ([], s) = Inr (paddrs, s1)"
        using h(1) by (simp add: alloc_app_pages_def app_npages_def APPS_SIZE_def PAGE_SIZE_def)
    next
      fix k x x' assume k: "k < 4" "loads s i k (snd x)" and b: "(case x of (paddrs, s) \<Rightarrow> rbind (mmu_alloc s) (\<lambda>(p, s).
          rbind (soft_tlb_map (int i + 1) (APPS_ENTRY + of_nat (k * PAGE_SIZE)) p (s\<lparr>pmem := memset (pmem s) p 0 PAGE_SIZE\<rparr>)) (\<lambda>s.
            Inr (paddrs @ [p], s)))) = Inr x'"
      obtain ps t where x: "x = (ps, t)" by fastforce
      obtain q t1 t2 where q: "mmu_alloc t = Inr (q, t1)" "x' = (ps @ [q], t2)"
        "soft_tlb_map (int i + 1) (APPS_ENTRY + of_nat (k * PAGE_SIZE)) q (t1\<lparr>pmem := memset (pmem t1) q 0 PAGE_SIZE\<rparr>) = Inr t2"
        using b x by (auto simp: rbind_Inr_iff)
      have "soft_tlb_map (int i + 1) (app_addrs ! k) q t1 = Inr t2"
        using q(3) k(1) mmu_alloc_frame(5) [OF q(1)] by (simp add: app_addrs_nth(1))
      with page [OF _ _ q(1), of k t2] k x show "loads s i (Suc k) (snd x')" by (simp add: q(2) app_addrs(1))
    qed (simp add: l)
    then have "loads s i 4 s2" using copy_app_mem [OF h(2)] loads_mem by auto
    with page [OF _ _ h(3), of 4 s4] h(4) have "loads s i 5 s4" by (simp add: app_addrs_nth app_addrs(1))
    then have "loads s i 5 (s4\<lparr>pmem := m\<rparr>)" by (rule loads_mem)
    with page [OF _ _ h(5), of 5 s'] h(6) show ?thesis by (simp add: app_addrs_nth app_addrs(1))
  qed
  obtain buf where "(let ph = pheader_of buf (unat (e_phoff (header_of buf))) in
         if p_vaddr ph = GRASS_ENTRY then load_grass reader ph s
         else if p_vaddr ph = APPS_ENTRY then load_app (int i + 1) reader n args ph s
         else Inl (Fatal ''elf_load: ELF gives invalid p_vaddr'')) = Inr s'"
    using e by (auto simp: elf_load_def rbind_Inr_iff split: if_splits)
  then consider ph where "load_grass reader ph s = Inr s'" | ph where "load_app (int i + 1) reader n args ph s = Inr s'"
    by (auto simp: Let_def split: if_splits)
  then show ?thesis
  proof cases
    case 1
    then show ?thesis using load_grass_mem loads_mem [OF l] by blast
  qed (use app in blast)
qed

text \<open>Allocate, load, make ready: the part that app_spawn and sys_spawn share.\<close>

lemma spawn_runs:
  assumes a: "run_inv s" "curr_pid s = GPID_PROCESS" and al: "proc_alloc s = Inr (pid, s1)" "pid < int MAX_NPROCESS"
    and eq: "kernel.truncate s2 = kernel.truncate s1" and e: "elf_load pid reader n args s2 = Inr s3" and r: "proc_set_ready pid s3 = Inr s'"
  shows "kstep\<^sup>*\<^sup>* s s'"
proof -
  obtain i where i: "i < 15" "pid = int i + 1" "proc_stat (proc_set s ! i) = PROC_UNUSED"
    "s1 = upd_proc i (\<lambda>p. p\<lparr>proc_pid := int i + 1, proc_stat := PROC_LOADING\<rparr>) s" by (rule alloc_Inr [OF al])
  note k = run_invD(1) [OF a(1)]
  have st: "kstep s s1" using kstep.alloc [OF a(2) al] .
  moreover have st2: "kstep s1 s2" by (rule compute_more [OF eq])
  ultimately have r2: "run_inv s2" "kstep\<^sup>*\<^sup>* s s2" using kstep_inv a(1) by (blast intro: converse_rtranclp_into_rtranclp)+
  have f: "proc_set s2 = proc_set s1" "proc_curr_idx s2 = proc_curr_idx s1" "maps_of s2 (int i + 1) = maps_of s1 (int i + 1)"
    using eq by (cases s1; cases s2; simp add: kernel.truncate_def maps_of_def)+
  have ne: "i \<noteq> proc_curr_idx s" using not_current [OF k, of i] i(3) by simp
  have c2: "curr_pid s2 = GPID_PROCESS" "proc_stat (proc_set s2 ! i) = PROC_LOADING" "i < MAX_NPROCESS"
    using a(2) ne i(1,4) kernel_invD(9) [OF k] by (simp_all add: f upd_proc_def MAX_NPROCESS_def)
  have "maps_of s2 (int i + 1) = []"
    using run_invD(2) [OF a(1) i(1)] i(3) unfolding f(3) by (simp add: slot_pages_def i(4) maps_of_def upd_proc_def)
  then have "loads s2 i 0 s2" using r2(1) by (simp add: loads_def)
  from elf_load_loads [OF this c2(1,3,2) e [unfolded i(2)]] obtain m where m: "loads s2 i m s3" by blast
  then have "kstep s3 s'" using kstep.ready [of s3 i s'] c2 r i(2) by (simp add: loads_def)
  with m r2(2) show ?thesis by (auto simp: loads_def intro: rtranclp.rtrancl_into_rtrancl rtranclp_trans)
qed

lemma sys_spawn_runs: "run_inv s \<Longrightarrow> curr_pid s = GPID_PROCESS \<Longrightarrow> sys_spawn dev base s = Inr s' \<Longrightarrow> kstep\<^sup>*\<^sup>* s s'"
proof -
  assume a: "run_inv s" "curr_pid s = GPID_PROCESS" "sys_spawn dev base s = Inr s'"
  obtain pid s1 s2 where h: "proc_alloc s = Inr (pid, s1)" "\<not> (pid < 1 \<or> pid > 5)" "elf_load pid (sys_proc_read dev base) 0 None s1 = Inr s2" "proc_set_ready pid s2 = Inr s'"
    using a(3) by (auto simp: sys_spawn_def rbind_Inr_iff split: if_splits)
  have "pid < int MAX_NPROCESS" using h(2) by (simp add: MAX_NPROCESS_def)
  then show ?thesis using spawn_runs [OF a(1,2) h(1) _ refl h(3,4)] by simp
qed

lemma app_spawn_runs:
  fixes s :: "'a sys_proc_scheme"
  assumes a: "run_inv s" "curr_pid s = GPID_PROCESS" and i: "i < 15" "proc_stat (proc_set s ! i) = PROC_UNUSED"
    and sp: "app_spawn dev stack old req s = Inr (r, s')"
  shows "kstep\<^sup>*\<^sup>* s s'"
proof -
  obtain ino where ino: "(let s = s\<lparr>app_ino := ino\<rparr> in
     if ino < 0 then Inr (-1, s)
     else rbind (proc_alloc s) (\<lambda>(pid, s).
       let s = s\<lparr>app_pid := pid\<rparr> in
       rbind (last_arg_char req) (\<lambda>c.
       let n = (if c = 38 then argc req - 1 else argc req) in
       rbind (elf_load pid (app_read dev stack old ino) n (Some (argv req)) s) (\<lambda>s.
       rbind (proc_set_ready pid s) (\<lambda>s. Inr (0, s)))))) = Inr (r, s')"
    using sp unfolding app_spawn_def rbind_Inr_iff [of "dir_lookup _ _ _ _ _"] by blast
  let ?s = "s\<lparr>app_ino := ino\<rparr>"
  have st: "kstep s ?s" by (rule compute_more) (cases s, simp add: kernel.truncate_def)
  show ?thesis
  proof (cases "ino < 0")
    case True
    then show ?thesis using ino st by (simp add: Let_def)
  next
    case False
    then obtain pid s1 n s3 where h: "proc_alloc ?s = Inr (pid, s1)"
      "elf_load pid (app_read dev stack old ino) n (Some (argv req)) (s1\<lparr>app_pid := pid\<rparr>) = Inr s3" "proc_set_ready pid s3 = Inr s'"
      using ino by (auto simp: Let_def rbind_Inr_iff)
    have "run_inv ?s" using kstep_inv [OF st a(1)] .
    moreover have "pid < int MAX_NPROCESS"
    proof -
      obtain j where j: "j \<le> i" "proc_stat (proc_set ?s ! j) = PROC_UNUSED" "\<forall>l < j. proc_stat (proc_set ?s ! l) \<noteq> PROC_UNUSED"
        using ex_least_nat_le [of "\<lambda>j. proc_stat (proc_set ?s ! j) = PROC_UNUSED" i] i(2) by auto
      then show ?thesis using proc_alloc_Some [of j ?s] h(1) i(1) by (simp add: MAX_NPROCESS_def)
    qed
    moreover have "kernel.truncate (s1\<lparr>app_pid := pid\<rparr>) = kernel.truncate s1" by (cases s1) (simp add: kernel.truncate_def)
    ultimately have "kstep\<^sup>*\<^sup>* ?s s'" using spawn_runs [of ?s pid s1] h a(2) by simp
    with st show ?thesis by (rule converse_rtranclp_into_rtranclp)
  qed
qed

lemma sys_proc_step_runs_ok:
  fixes s :: "'a sys_proc_scheme"
  assumes a: "run_inv s" "curr_pid s = GPID_PROCESS" and i: "i < 15" "proc_stat (proc_set s ! i) = PROC_UNUSED"
    and sender: "sender \<noteq> GPID_PROCESS" and st: "sys_proc_step dev stack old sender req s = Inr (rs, s')"
  shows "kstep\<^sup>*\<^sup>* s s'"
proof (cases "pr_type req")
  case PROC_SPAWN
  then obtain r s1 b where h: "app_spawn dev stack old req s = Inr (r, s1)" "s' = s1\<lparr>shell_waiting := b\<rparr>"
    using st by (auto simp: sys_proc_step_def rbind_Inr_iff)
  have "kstep s1 s'" unfolding h(2) by (rule compute_more) (cases s1, simp add: kernel.truncate_def)
  with app_spawn_runs [OF a i h(1)] show ?thesis by (rule rtranclp.rtrancl_into_rtrancl)
next
  case PROC_SLEEP
  then show ?thesis using st by (auto simp: sys_proc_step_def proc_sleep_def proc_on_sleep_def rbind_Inr_iff split: if_splits)
next
  case PROC_EXIT
  then have "proc_free sender s = Inr s'" using st by (auto simp: sys_proc_step_def rbind_Inr_iff)
  then show ?thesis using kstep.free [OF a(2) sender] by blast
next
  case PROC_KILLALL
  then have "proc_free (-1) s = Inr s'" using st by (auto simp: sys_proc_step_def rbind_Inr_iff)
  then show ?thesis using kstep.free [OF a(2), of "-1" s'] by (simp add: GPID_PROCESS_def)
qed

section \<open>Results\<close>

lemma booted_run_inv:
  assumes "kernel_inv s" "curr_pid s = GPID_PROCESS" "\<forall>i. 0 < i \<and> i < MAX_NPROCESS \<longrightarrow> proc_stat (proc_set s ! i) = PROC_UNUSED"
    and "\<forall>q. 1 < q \<and> q < int MAX_NPROCESS \<longrightarrow> maps_of s q = []"
  shows "run_inv s"
proof -
  have "slot_pages s i" if "i < 15" for i
  proof (cases i)
    case 0
    have "proc_curr_idx s = 0" using assms(2) kernel_invD(7) [OF assms(1)] by (simp add: GPID_PROCESS_def)
    then show ?thesis using kernel_invD(4) [OF assms(1)] 0 by (simp add: slot_pages_def)
  next
    case (Suc k)
    then have "maps_of s (int i + 1) = []" using assms(4) that by (simp add: MAX_NPROCESS_def)
    then show ?thesis by (simp add: slot_pages_def)
  qed
  with assms(1) show ?thesis by (simp add: run_inv_def)
qed

lemma grass_main_run_inv:
  assumes "boot_disk elf dev" "elf_file APPS_ENTRY (elf ''../build/release/sys_proc.elf'') code" "length code \<le> 0x4000" "fresh_kernel s"
  obtains s1 where "grass_main dev s = Inr s1" "run_inv s1" "curr_pid s1 = GPID_PROCESS" "maps_of s1 2 = []" "card (used_pages s1) \<le> 6"
    "\<forall>i. 0 < i \<and> i < MAX_NPROCESS \<longrightarrow> proc_stat (proc_set s1 ! i) = PROC_UNUSED"
proof -
  have k: "kernel_processes ! 1 = ''../build/release/sys_proc.elf''" by (simp add: kernel_processes_def)
  have base: "SYS_PROC_EXEC_START = GRASS_EXEC_START + GRASS_EXEC_SEGMENT * of_nat 1" by (simp add: SYS_PROC_EXEC_START_def)
  have one: "1 < (6 :: nat)" by simp
  obtain blocks where b: "executable (sys_proc_read dev SYS_PROC_EXEC_START) (length code) blocks"
    unfolding base by (rule boot_disk_executable [OF assms(1) one assms(2) [folded k]])
  obtain s1 where s1: "grass_main dev s = Inr s1" "kernel_inv s1" "curr_pid s1 = GPID_PROCESS"
    "\<forall>i. 0 < i \<and> i < MAX_NPROCESS \<longrightarrow> proc_stat (proc_set s1 ! i) = PROC_UNUSED"
    "\<forall>q. 1 < q \<and> q < int MAX_NPROCESS \<longrightarrow> maps_of s1 q = []" "card (used_pages s1) \<le> 6"
    using grass_main_ok [OF assms(4) b assms(3)] by (elim exE conjE) (rule that; assumption)
  have "maps_of s1 2 = []" using s1(5) by (simp add: MAX_NPROCESS_def)
  then show thesis using s1 booted_run_inv [OF s1(2-5)] by (intro that [of s1]) simp_all
qed

text \<open>
  C4. All runs. When the kernel was started from an image of mkfs, its invariant holds in every
  state of every run: whatever the processes do in memory, whatever system calls they make, in
  whatever order traps come and processes are started and ended. Exactly the current process is
  running and the execution memory is its own, every process has its own pages, which the allocator
  knows as used, and a slot without a process has no pages left.
\<close>

theorem all_runs_keep_invariant:
  assumes "boot_disk elf dev" "elf_file APPS_ENTRY (elf ''../build/release/sys_proc.elf'') code" "length code \<le> 0x4000" "fresh_kernel s"
    and "grass_main dev s = Inr s1" "kstep\<^sup>*\<^sup>* s1 s2"
  shows "kernel_inv s2 \<and> (\<forall>i < 15. proc_stat (proc_set s2 ! i) = PROC_UNUSED \<longrightarrow> maps_of s2 (int i + 1) = [])"
proof -
  have "run_inv s1" using grass_main_run_inv [OF assms(1-4)] assms(5) by (metis sum.inject(2))
  from kruns_inv [OF assms(6) this] show ?thesis by (simp add: run_inv_def slot_pages_def)
qed

text \<open>
  C13. The requests to the process server are runs. When a slot of the first 15 is free, whatever
  request another process sends, the whole answer of the process server is a run of single steps, and
  so keeps the invariant: starting an application with the lookup of its name, the allocation of its
  process, the loading of each page and its release to the scheduler, or the end of one process or of
  all user processes.
\<close>

theorem sys_proc_step_runs:
  fixes s :: "'a sys_proc_scheme"
  assumes "run_inv s" "curr_pid s = GPID_PROCESS" "i < 15" "proc_stat (proc_set s ! i) = PROC_UNUSED"
    and "sender \<noteq> GPID_PROCESS" "sys_proc_step dev stack old sender req s = Inr (rs, s')"
  shows "kstep\<^sup>*\<^sup>* s s' \<and> run_inv s'"
  using sys_proc_step_runs_ok [OF assms] kruns_inv [OF _ assms(1)] by blast

theorem all_runs_keep_invariant_witness:
  "\<exists>img s1 s2. mkfs_main demo_files (replicate 131072 0) (replicate 1048576 0) blank_fs = Inr img \<and>
     grass_main (boot_dev img) boot_kernel = Inr s1 \<and> sys_spawn (boot_dev img) SYS_FILE_EXEC_START s1 = Inr s2 \<and>
     kernel_inv s2 \<and> proc_stat (proc_set s2 ! 1) = PROC_READY"
proof -
  obtain img where img: "mkfs_main demo_files (replicate 131072 0) (replicate 1048576 0) blank_fs = Inr img" using demo_image by blast
  note d = boot_dev_disk [OF img]
  have f: "elf_file APPS_ENTRY (demo_files ''../build/release/sys_proc.elf'') (replicate 600 9)" "elf_file APPS_ENTRY (demo_files (kernel_processes ! 2)) (replicate 600 9)"
    by (simp_all add: demo_files_def kernel_processes_def demo_elf_file)
  have l: "length (replicate 600 (9 :: m_uint8)) \<le> 0x4000" by simp
  obtain s1 where s1: "grass_main (boot_dev img) boot_kernel = Inr s1" "run_inv s1" "curr_pid s1 = GPID_PROCESS" "maps_of s1 2 = []" "card (used_pages s1) \<le> 6"
    "\<forall>i. 0 < i \<and> i < MAX_NPROCESS \<longrightarrow> proc_stat (proc_set s1 ! i) = PROC_UNUSED"
    by (rule grass_main_run_inv [OF d f(1) l boot_kernel_fresh])
  note k = run_invD(1) [OF s1(2)]
  have "proc_curr_idx s1 = 0" using s1(3) kernel_invD(7) [OF k] by (simp add: GPID_PROCESS_def)
  then have slot: "proc_stat (proc_set s1 ! 1) = PROC_UNUSED" "\<forall>j < 1. proc_stat (proc_set s1 ! j) \<noteq> PROC_UNUSED"
    using s1(6) kernel_invD(4) [OF k] by (simp_all add: MAX_NPROCESS_def)
  have pages: "maps_of s1 (int 1 + 1) = []" "card (used_pages s1) + 6 \<le> NPAGES" using s1(4,5) by (simp_all add: NPAGES_eq)
  have two: "2 < (6 :: nat)" "1 < (5 :: nat)" by simp_all
  obtain blocks where b: "executable (sys_proc_read (boot_dev img) (GRASS_EXEC_START + GRASS_EXEC_SEGMENT * of_nat 2)) (length (replicate 600 (9 :: m_uint8))) blocks"
    by (rule boot_disk_executable [OF d two(1) f(2)])
  have base: "SYS_FILE_EXEC_START = GRASS_EXEC_START + GRASS_EXEC_SEGMENT * of_nat 2" by (simp add: SYS_FILE_EXEC_START_def)
  obtain s2 where s2: "sys_spawn (boot_dev img) SYS_FILE_EXEC_START s1 = Inr s2"
    "proc_set s2 = (proc_set s1)[1 := (proc_set s1 ! 1)\<lparr>proc_pid := int 1 + 1, proc_stat := PROC_READY\<rparr>]"
    using sys_spawn_ok [OF k two(2) slot pages b l] unfolding base by auto
  have sp: "proc_stat (proc_set s2 ! 1) = PROC_READY" using s2(2) kernel_invD(9) [OF k] by simp
  have "kernel_inv s2"
    using all_runs_keep_invariant [OF d f(1) l boot_kernel_fresh s1(1) sys_spawn_runs [OF s1(2,3) s2(1)]] by simp
  show ?thesis using img s1(1) s2(1) \<open>kernel_inv s2\<close> sp by blast
qed

definition demo_run :: sys_proc where
  "demo_run = demo_sys\<lparr>proc_stack := replicate 16 (replicate 4096 0)\<rparr>"

lemma demo_run_inv: "run_inv demo_run" "curr_pid demo_run = GPID_PROCESS"
proof -
  have rows: "app_pages demo_run = two_rows 0x80400000" by (simp add: demo_run_def demo_sys_def)
  have nth: "proc_set demo_run ! i = proc_set demo_sys ! i" "proc_curr_idx demo_run = 0" "curr_vm_pid demo_run = 1"
    "proc_stack demo_run = replicate 16 (replicate 4096 0)" for i
    by (simp_all add: demo_run_def) (simp_all add: demo_sys_def)
  have "wf_kernel demo_run"
    using demo_sys_wf by (simp add: demo_run_def wf_kernel_def wf_procs_def alloc_inv_def pages_accounted_def private_pages_def used_pages_def)
  moreover have "only_current_runs demo_run"
    by (auto simp: only_current_runs_def nth demo_sys_nth demo_proc_def MAX_NPROCESS_def split: if_splits)
  ultimately have "kernel_inv demo_run"
    by (simp add: kernel_inv_def yield_pre_def nth demo_sys_nth demo_proc_def MAX_NPROCESS_def PAGE_SIZE_def)
  moreover have "slot_pages demo_run i" if "i < 15" for i
  proof (cases "i < 2")
    case True
    then show ?thesis by (auto simp: slot_pages_def nth demo_sys_nth demo_proc_def unstarted_def)
  next
    case False
    then have "maps_of demo_run (int i + 1) = []" using that two_rows_maps(3) [OF rows, of "int i + 1"] by (simp add: MAX_NPROCESS_def)
    then show ?thesis by (simp add: slot_pages_def)
  qed
  ultimately show "run_inv demo_run" by (simp add: run_inv_def)
  show "curr_pid demo_run = GPID_PROCESS" by (simp add: nth demo_sys_nth demo_proc_def GPID_PROCESS_def)
qed

text \<open>Process 2 ends.\<close>

theorem sys_proc_step_runs_witness:
  "\<exists>rs s'. sys_proc_step (boot_dev []) [] [] 2 \<lparr>pr_type = PROC_EXIT, argc = 0, argv = []\<rparr> demo_run = Inr (rs, s') \<and>
     kstep\<^sup>*\<^sup>* demo_run s' \<and> kernel_inv s' \<and> proc_stat (proc_set s' ! 1) = PROC_UNUSED"
proof -
  let ?req = "\<lparr>pr_type = PROC_EXIT, argc = 0, argv = []\<rparr>"
  note w = wf_kernelD [OF kernel_invD(2) [OF run_invD(1) [OF demo_run_inv(1)]]]
  have nth: "proc_set demo_run ! i = proc_set demo_sys ! i" for i by (simp add: demo_run_def)
  have two: "2 \<in> {1..<int MAX_NPROCESS}" by (simp add: MAX_NPROCESS_def)
  obtain t where t: "soft_tlb_free 2 demo_run = Inr t" using soft_tlb_free_accounted [OF w(2-4) two] by blast
  note fr = soft_tlb_free_frame [OF t]
  let ?u = "upd_proc 1 (\<lambda>p. p\<lparr>proc_stat := PROC_UNUSED\<rparr>) t"
  have len: "length (proc_set t) = 16" using kernel_invD(9) [OF run_invD(1) [OF demo_run_inv(1)]] fr by simp
  have "proc_set_status 2 PROC_UNUSED t = Inr ?u"
    using proc_set_status_ok [of 1 t PROC_UNUSED] by (simp add: fr nth demo_sys_nth demo_proc_def)
  moreover have "proc_on_stop 2 ?u = Inr (log_event (Info ''proc finished'') ?u)"
    using len pid2idx_pid [of 1] by (simp add: proc_on_stop_def upd_proc_nth)
  ultimately have free: "proc_free 2 demo_run = Inr (log_event (Info ''proc finished'') ?u)" using t by (simp add: proc_free_def)
  let ?s' = "log_event (Info ''proc finished'') ?u"
  obtain rs where step: "sys_proc_step (boot_dev []) [] [] 2 ?req demo_run = Inr (rs, ?s')" using free by (simp add: sys_proc_step_def)
  have slot: "proc_stat (proc_set demo_run ! 2) = PROC_UNUSED" by (simp add: nth demo_sys_nth demo_proc_def)
  have "kstep\<^sup>*\<^sup>* demo_run ?s' \<and> run_inv ?s'"
    by (rule sys_proc_step_runs [OF demo_run_inv _ slot _ step]) (simp_all add: GPID_PROCESS_def)
  moreover have "proc_stat (proc_set ?s' ! 1) = PROC_UNUSED" using len by (simp add: log_event_def upd_proc_def)
  ultimately show ?thesis using step run_invD(1) by blast
qed

end
