(* ===== verification/Process_Exit.thy ===== *)
theory Process_Exit
  imports Kernel_Runs
begin

text \<open>
  The calls sys_exit and sys_sleep (grass/syscall.c), by which a process asks the process server, and
  the main loop of the process server (apps/system/sys_proc.c) from the bytes of a message on. The theory
  shows that the request of a process reaches the server as it was meant, and that a process that exits
  is gone when the server has taken its message.
\<close>

section \<open>Definitions\<close>

text \<open>The bytes of a struct \<^verbatim>\<open>proc_request\<close>.\<close>

definition request_code :: "proc_request_type \<Rightarrow> m_uint32" where
  "request_code t = (case t of PROC_SPAWN \<Rightarrow> 0 | PROC_EXIT \<Rightarrow> 1 | PROC_SLEEP \<Rightarrow> 2 | PROC_KILLALL \<Rightarrow> 3)"

definition request_bytes :: "proc_request \<Rightarrow> m_uint8 list" where
  "request_bytes req = bytes32 (request_code (pr_type req)) @ bytes32 (of_nat (argc req)) @ concat (argv req)"

text \<open>The request in a buffer; the default case of the switch is fatal. A negative \<open>argc\<close> is a large number here.\<close>

definition request_of :: "m_uint8 list \<Rightarrow> proc_request res" where
  "request_of b =
     (let mk = (\<lambda>t. \<lparr>pr_type = t, argc = unat (u32_at b 4), argv = map (\<lambda>i. take CMD_ARG_LEN (drop (8 + i * CMD_ARG_LEN) b)) [0..<CMD_NARGS]\<rparr>) in
      if u32_at b 0 = 0 then Inr (mk PROC_SPAWN)
      else if u32_at b 0 = 1 then Inr (mk PROC_EXIT)
      else if u32_at b 0 = 2 then Inr (mk PROC_SLEEP)
      else if u32_at b 0 = 3 then Inr (mk PROC_KILLALL)
      else Inl (Fatal ''sys_proc: invalid request''))"

text \<open>
  sys_exit and sys_sleep up to the trap. The fields they do not set hold what was on the stack, \<open>rest\<close>.
\<close>

definition sys_exit_enter :: "m_uint8 list \<Rightarrow> 'a kernel_scheme \<Rightarrow> 'a kernel_scheme option" where
  "sys_exit_enter rest s = sys_send_enter GPID_PROCESS (bytes32 (request_code PROC_EXIT) @ rest) s"

definition sys_sleep_enter :: "m_uint8 list \<Rightarrow> m_uint32 \<Rightarrow> 'a kernel_scheme \<Rightarrow> 'a kernel_scheme option" where
  "sys_sleep_enter rest time_units s =
     sys_send_enter GPID_PROCESS (bytes32 (request_code PROC_SLEEP) @ bytes32 1 @ bytes32 time_units @ rest) s"

text \<open>A round of the main loop of the process server, from the return of sys_recv on.\<close>

definition sys_proc_round :: "disk_dev \<Rightarrow> m_uint8 list \<Rightarrow> m_uint8 list \<Rightarrow> 'a sys_proc_scheme \<Rightarrow> (proc_reply list \<times> 'a sys_proc_scheme) res" where
  "sys_proc_round dev stack old s = (case sys_recv_exit SYSCALL_MSG_LEN s of (buf, sender, _) \<Rightarrow>
     rbind (request_of buf) (\<lambda>req. sys_proc_step dev stack old sender req s))"

section \<open>Requests as bytes\<close>

lemma u32_at_bytes32: "u32_at (bytes32 w @ bs) 0 = w"
  by (simp add: u32_at_def bytes32_def le32_bytes32)

lemma u32_at_skip: "u32_at (bytes32 w @ bs) (4 + i) = u32_at bs i"
  by (simp add: u32_at_def bytes32_def add.commute)

text \<open>What the shell or a process puts into a request is what the server takes out of it.\<close>

theorem request_roundtrip:
  assumes "length (argv req) = 16" "\<forall>r \<in> set (argv req). length r = 32" "argc req < 2 ^ 32"
  shows "request_of (request_bytes req @ tail) = Inr req"
proof -
  let ?b = "request_bytes req @ tail"
  have u: "u32_at ?b 0 = request_code (pr_type req)" "u32_at ?b 4 = of_nat (argc req)"
    using u32_at_skip [of "request_code (pr_type req)" _ 0] by (simp_all add: request_bytes_def u32_at_bytes32)
  have a: "unat (of_nat (argc req) :: m_uint32) = argc req" using assms(3) by (simp add: unat_of_nat take_bit_nat_eq_self)
  have "drop 8 ?b = concat (argv req) @ tail" by (simp add: request_bytes_def)
  then have d: "drop (8 + i * 32) ?b = drop (i * 32) (concat (argv req) @ tail)" for i using drop_drop [of "i * 32" 8 ?b] by (simp add: add.commute)
  have "take 32 (drop (8 + i * 32) ?b) = argv req ! i" if i: "i < 16" for i
  proof (rule nth_equalityI)
    have lc: "length (concat (argv req)) = 512" using length_concat_rows [OF assms(2)] assms(1) by simp
    have li: "length (argv req ! i) = 32" using assms(1,2) i by simp
    show "length (take 32 (drop (8 + i * 32) ?b)) = length (argv req ! i)" unfolding d using lc li i by simp
    fix j assume "j < length (take 32 (drop (8 + i * 32) ?b))"
    then have j: "j < 32" by simp
    have "i * 32 + j < 512" using i j by linarith
    moreover have "concat (argv req) ! (i * 32 + j) = argv req ! i ! j" using nth_concat_rows [OF assms(2)] i j assms(1) by simp
    ultimately show "take 32 (drop (8 + i * 32) ?b) ! j = argv req ! i ! j" unfolding d using j lc by (simp add: nth_append)
  qed
  then have "map (\<lambda>i. take 32 (drop (8 + i * 32) ?b)) [0..<16] = argv req" using assms(1) by (intro nth_equalityI) (simp_all del: upt_rec_numeral)
  then show ?thesis using u a
    by (cases "pr_type req") (simp_all add: request_of_def Let_def request_code_def CMD_ARG_LEN_def CMD_NARGS_def del: upt_rec_numeral)
qed

section \<open>Ending a process\<close>

lemma soft_tlb_free_more:
  assumes "soft_tlb_free p s = Inr s'"
  shows "kernel.more s' = kernel.more s"
  using assms unfolding soft_tlb_free_def rbind_Inr_iff
proof (elim exE conjE)
  assume "rfor (\<lambda>i s. rbind (app_row p s) (\<lambda>pages.
           if private_addr (pages ! i) \<noteq> 0
           then rbind (pfree (private_addr (pages ! i)) s)
                  (\<lambda>s. Inr (set_mapping p i \<lparr>private_addr = 0, exec_addr = 0\<rparr> s))
           else Inr s)) [0..<APPS_NPAGES] s = Inr s'"
  then show ?thesis
    by (rule rfor_inv [where P = "\<lambda>t. kernel.more t = kernel.more s"])
       (auto simp: res_simps pfree_def bitmap_clear_def set_mapping_def split: if_splits)
qed

lemma server_state_more:
  "kernel.more t' = kernel.more t \<Longrightarrow> shell_waiting t' = shell_waiting t \<and> app_pid t' = app_pid t"
  for t t' :: "'a sys_proc_scheme"
  by (cases t; cases t') simp

text \<open>
  The process in slot \<open>i\<close> has ended, and nothing else: its slot is unused, its pages are unmapped and
  free; all other slots, mappings and pages, the memory and the running process are as before.
\<close>

definition ended :: "nat \<Rightarrow> 'a kernel_scheme \<Rightarrow> 'a kernel_scheme \<Rightarrow> bool" where
  "ended i t t' \<longleftrightarrow> proc_set t' = (proc_set t)[i := (proc_set t ! i)\<lparr>proc_stat := PROC_UNUSED\<rparr>] \<and>
     maps_of t' (int i + 1) = [] \<and>
     (\<forall>q \<in> {1..<int MAX_NPROCESS}. q \<noteq> int i + 1 \<longrightarrow> maps_of t' q = maps_of t q) \<and>
     used_pages t' = used_pages t - private_pages t (int i + 1) \<and>
     pmem t' = pmem t \<and> curr_vm_pid t' = curr_vm_pid t \<and> proc_curr_idx t' = proc_curr_idx t \<and> proc_stack t' = proc_stack t"

lemma proc_free_ok:
  assumes wf: "wf_kernel s" and i: "i < 16" "proc_stat (proc_set s ! i) \<noteq> PROC_UNUSED"
  obtains s' where "proc_free (int i + 1) s = Inr s'" "ended i s s'" "kernel.more s' = kernel.more s"
proof -
  note ps = wf_procsD [OF wf_kernelD(1) [OF wf]]
  have pid: "proc_pid (proc_set s ! i) = int i + 1" using ps(3) [OF i] .
  obtain s' where s': "rbind (soft_tlb_free (int i + 1) s) (\<lambda>t. proc_on_stop (int i + 1) (upd_proc i (\<lambda>p. p\<lparr>proc_stat := PROC_UNUSED\<rparr>) t)) = Inr s'"
    and e: "ended i s s'"
    using kill_slot [OF wf i, unfolded pid] unfolding ended_def by metis
  obtain t where t: "soft_tlb_free (int i + 1) s = Inr t" using s' by (auto simp: rbind_Inr_iff)
  have "proc_set_status (int i + 1) PROC_UNUSED t = Inr (upd_proc i (\<lambda>p. p\<lparr>proc_stat := PROC_UNUSED\<rparr>) t)"
    using i(1) pid soft_tlb_free_frame [OF t] by (intro proc_set_status_ok) simp_all
  then have "proc_free (int i + 1) s = Inr s'" using s' t by (simp add: proc_free_def)
  moreover have "kernel.more s' = kernel.more t"
    using s' t by (auto simp: proc_on_stop_def rbind_Inr_iff upd_proc_def log_event_def split: if_splits)
  then have "kernel.more s' = kernel.more s" using soft_tlb_free_more [OF t] by simp
  ultimately show thesis using e by (intro that)
qed

lemma exit_round:
  fixes t :: "'a sys_proc_scheme"
  assumes t: "run_inv t" "curr_pid t = GPID_PROCESS" and i: "i < 15" "int i + 1 \<noteq> GPID_PROCESS" "proc_stat (proc_set t ! i) \<noteq> PROC_UNUSED"
    and msg: "u32_at (load_bytes (pmem t) sc_content SYSCALL_MSG_LEN) 0 = request_code PROC_EXIT" "get_field sc_sender t = int i + 1"
  shows "\<exists>t'. sys_proc_round dev stack old t = Inr (if shell_waiting t \<and> app_pid t = int i + 1 then [CMD_ERROR] else [], t') \<and>
    run_inv t' \<and> ended i t t'"
proof -
  have i16: "i < 16" using i(1) by simp
  obtain t' where t': "proc_free (int i + 1) t = Inr t'" "ended i t t'" "kernel.more t' = kernel.more t"
    by (rule proc_free_ok [OF kernel_invD(2) [OF run_invD(1) [OF t(1)]] i16 i(3)])
  have "run_inv t'" by (rule free_inv_step [OF t i(2) t'(1)])
  moreover have "sys_proc_round dev stack old t = Inr (if shell_waiting t \<and> app_pid t = int i + 1 then [CMD_ERROR] else [], t')"
    using msg t'(1) server_state_more [OF t'(3)]
    by (simp add: sys_proc_round_def sys_recv_exit_def request_of_def Let_def request_code_def sys_proc_step_def)
  ultimately show ?thesis using t'(2) by blast
qed

text \<open>
  C14. A process that exits is gone. When the process server waits for requests, the call of sys_exit
  succeeds and keeps the invariant; and as soon as the server runs with this message, whatever happened
  before, the round of its loop ends the process that has called sys_exit and no other: its slot is
  unused, it has no pages, exactly its pages are free again, and the slots, mappings and memory of
  all other processes stay as they were. The shell gets a reply if it waits for this process, and the
  invariant holds.
\<close>

theorem exit_ends_process:
  fixes s :: "'a sys_proc_scheme"
  assumes s: "run_inv s" "curr_pid s \<noteq> GPID_PROCESS" and enter: "sys_exit_enter rest s = Some s1" "length rest = 516"
    and server: "proc_stat (proc_set s ! 0) = PROC_WAIT_TO_RECV" "from_sender_pid (proc_set s ! 0) \<in> {0, curr_pid s}"
    and map: "syscall_mapped s (curr_pid s)" "syscall_mapped s GPID_PROCESS"
  shows "\<exists>out s'. proc_syscall s1 = Inr (out, s') \<and> run_inv s' \<and>
    (\<forall>t :: 'a sys_proc_scheme. run_inv t \<and> curr_pid t = GPID_PROCESS \<and> proc_stat (proc_set t ! proc_curr_idx s) \<noteq> PROC_UNUSED \<and>
       (\<forall>k < sizeof_sys_msg. pmem t (sc_msg + of_nat k) = proc_view s' GPID_PROCESS (sc_msg + of_nat k)) \<longrightarrow>
       (\<exists>t'. sys_proc_round dev stack old t = Inr (if shell_waiting t \<and> app_pid t = curr_pid s then [CMD_ERROR] else [], t') \<and>
          run_inv t' \<and>
          proc_set t' = (proc_set t)[proc_curr_idx s := (proc_set t ! proc_curr_idx s)\<lparr>proc_stat := PROC_UNUSED\<rparr>] \<and>
          maps_of t' (curr_pid s) = [] \<and>
          (\<forall>q \<in> {1..<int MAX_NPROCESS}. q \<noteq> curr_pid s \<longrightarrow> maps_of t' q = maps_of t q) \<and>
          used_pages t' = used_pages t - private_pages t (curr_pid s) \<and>
          pmem t' = pmem t \<and> curr_vm_pid t' = curr_vm_pid t \<and> proc_curr_idx t' = proc_curr_idx t \<and> proc_stack t' = proc_stack t))"
proof -
  note k = run_invD(1) [OF s(1)]
  note kD = kernel_invD [OF k]
  let ?msg = "bytes32 (request_code PROC_EXIT) @ rest" and ?p = "curr_pid s"
  have one: "GPID_PROCESS = int 0 + 1" by (simp add: GPID_PROCESS_def)
  have e: "sys_send_enter (int 0 + 1) ?msg s = Some s1" using enter(1) by (simp add: sys_exit_enter_def GPID_PROCESS_def)
  obtain out s' where s': "proc_syscall s1 = Inr (out, s')" "kernel_inv s'" "load_bytes (proc_view s' (int 0 + 1)) sc_content (length ?msg) = ?msg"
    "load_u32 (proc_view s' (int 0 + 1)) sc_sender = word_of_int ?p"
    using send_delivers_ok [OF k e _ server(1,2) map(1) map(2) [unfolded one]] by (auto simp: MAX_NPROCESS_def)
  have "keeps s s1" using enter(1)
    by (intro keeps_same) (auto simp: sys_exit_enter_def sys_send_enter_def set_field_def store_exec_def split: if_splits)
  then have "keeps s s'" using keeps_syscall [OF s'(1)] by (rule keeps_trans)
  then have "slot_pages s' i" if "i < 15" for i using slot_pages_keeps run_invD(2) [OF s(1) that] by blast
  then have ri: "run_inv s'" using s'(2) by (simp add: run_inv_def)
  have round: "\<exists>t'. sys_proc_round dev stack old t = Inr (if shell_waiting t \<and> app_pid t = ?p then [CMD_ERROR] else [], t') \<and>
      run_inv t' \<and> ended (proc_curr_idx s) t t'"
    if t: "run_inv t" "curr_pid t = GPID_PROCESS" "proc_stat (proc_set t ! proc_curr_idx s) \<noteq> PROC_UNUSED"
      "\<forall>k < sizeof_sys_msg. pmem t (sc_msg + of_nat k) = proc_view s' GPID_PROCESS (sc_msg + of_nat k)" for t :: "'a sys_proc_scheme"
  proof -
    let ?v = "proc_view s' GPID_PROCESS"
    have m: "pmem t (sc_content + of_nat j) = ?msg ! j" if "j < 520" for j
    proof -
      have "8 + j < sizeof_sys_msg" using that by simp
      then have "pmem t (sc_msg + of_nat (8 + j)) = ?v (sc_msg + of_nat (8 + j))" using t(4) by blast
      then have "pmem t (sc_content + of_nat j) = ?v (sc_content + of_nat j)" by (simp add: sc_content_def add.assoc)
      also have "\<dots> = load_bytes ?v sc_content (length ?msg) ! j" using that enter(2) by (simp add: nth_load_bytes)
      finally show ?thesis using s'(3) by (simp only: one)
    qed
    have "u32_at (load_bytes (pmem t) sc_content SYSCALL_MSG_LEN) 0 = u32_at ?msg 0"
      using m [of 0] m [of 1] m [of 2] m [of 3] by (simp add: u32_at_def nth_load_bytes SYSCALL_MSG_LEN_def numeral_2_eq_2)
    then have ty: "u32_at (load_bytes (pmem t) sc_content SYSCALL_MSG_LEN) 0 = request_code PROC_EXIT" by (simp only: u32_at_bytes32)
    have "load_u32 (pmem t) sc_sender = load_u32 ?v sc_sender"
      using t(4) [rule_format, of 0] t(4) [rule_format, of 1] t(4) [rule_format, of 2] t(4) [rule_format, of 3] by (simp add: load_u32_def sc_sender_def)
    then have "get_field sc_sender t = sint (word_of_int ?p :: m_uint32)" using s'(4) by (simp only: get_field_def one)
    then have se: "get_field sc_sender t = int (proc_curr_idx s) + 1" using sint_small [of ?p] kD(7,8) by (simp add: MAX_NPROCESS_def)
    show ?thesis using exit_round [OF t(1,2) kD(6) _ t(3) ty se] s(2) unfolding kD(7) by blast
  qed
  show ?thesis using s'(1) ri round [unfolded ended_def kD(7) [symmetric]] by blast
qed

section \<open>A concrete exit\<close>

definition demo_exit :: sys_proc where
  "demo_exit = demo_run\<lparr>app_pages := two_rows 0x80601000, proc_curr_idx := 1, curr_vm_pid := 2,
     proc_set := [demo_proc 1 PROC_WAIT_TO_RECV, demo_proc 2 PROC_RUNNING] @ replicate 14 (demo_proc 0 PROC_UNUSED)\<rparr>"

lemma demo_exit_nth: "i < 16 \<Longrightarrow> proc_set demo_exit ! i =
    (if i = 0 then demo_proc 1 PROC_WAIT_TO_RECV else if i = 1 then demo_proc 2 PROC_RUNNING else demo_proc 0 PROC_UNUSED)"
  by (simp add: demo_exit_def nth_append nth_Cons')

lemma demo_exit_inv: "run_inv demo_exit"
proof -
  have rows: "app_pages demo_exit = two_rows 0x80601000" "bitmap demo_exit = 3 # replicate 143 0"
    by (simp_all add: demo_exit_def demo_run_def demo_sys_def)
  have fr: "proc_curr_idx demo_exit = 1" "curr_vm_pid demo_exit = 2" "length (proc_set demo_exit) = 16" "proc_stack demo_exit = replicate 16 (replicate 4096 0)"
    by (simp_all add: demo_exit_def demo_run_def)
  have "wf_mmu demo_exit"
    by (rule two_rows_wf [OF rows(1)]) (simp_all add: aligned_def not_page_pool fr MAX_NPROCESS_def)
  moreover have "wf_procs demo_exit" by (auto simp: wf_procs_def MAX_NPROCESS_def demo_exit_nth demo_proc_def fr)
  moreover have "alloc_inv demo_exit" by (simp add: alloc_inv_def rows(2) ROUNDUP_def NPAGES_eq)
  moreover have "pages_accounted demo_exit" using two_rows_used [OF rows] by (simp add: pages_accounted_def)
  moreover have "only_current_runs demo_exit"
    by (auto simp: only_current_runs_def fr demo_exit_nth demo_proc_def MAX_NPROCESS_def split: if_splits)
  ultimately have "kernel_inv demo_exit"
    by (simp add: kernel_inv_def yield_pre_def wf_kernel_def fr demo_exit_nth demo_proc_def MAX_NPROCESS_def PAGE_SIZE_def)
  moreover have "slot_pages demo_exit i" if "i < 15" for i
  proof (cases "i < 2")
    case True
    then show ?thesis by (auto simp: slot_pages_def demo_exit_nth demo_proc_def unstarted_def)
  next
    case False
    then have "maps_of demo_exit (int i + 1) = []" using that two_rows_maps(3) [OF rows(1), of "int i + 1"] by (simp add: MAX_NPROCESS_def)
    then show ?thesis by (simp add: slot_pages_def)
  qed
  ultimately show ?thesis by (simp add: run_inv_def)
qed

text \<open>Process 2 exits, and the process server then runs in the state \<open>demo_run\<close> with the message.\<close>

theorem exit_ends_process_witness:
  "\<exists>s1 out s' rs t'. sys_exit_enter (replicate 516 0) demo_exit = Some s1 \<and> proc_syscall s1 = Inr (out, s') \<and>
     sys_proc_round (boot_dev []) [] [] (demo_run\<lparr>pmem := proc_view s' GPID_PROCESS\<rparr>) = Inr (rs, t') \<and>
     kernel_inv t' \<and> proc_stat (proc_set t' ! 1) = PROC_UNUSED"
proof -
  have c: "curr_pid demo_exit = 2" "proc_curr_idx demo_exit = 1" "app_pages demo_exit = two_rows 0x80601000"
    by (simp_all add: demo_exit_def demo_proc_def)
  have ne: "curr_pid demo_exit \<noteq> GPID_PROCESS" using c(1) by (simp add: GPID_PROCESS_def)
  obtain s1 where s1: "sys_exit_enter (replicate 516 0) demo_exit = Some s1" by (simp add: sys_exit_enter_def sys_send_enter_def SYSCALL_MSG_LEN_def)
  have sv: "proc_stat (proc_set demo_exit ! 0) = PROC_WAIT_TO_RECV" "from_sender_pid (proc_set demo_exit ! 0) \<in> {0, curr_pid demo_exit}"
    by (simp_all add: demo_exit_nth demo_proc_def)
  have m: "syscall_mapped demo_exit (curr_pid demo_exit)" "syscall_mapped demo_exit GPID_PROCESS"
    unfolding c(1) GPID_PROCESS_def using two_rows_maps(1,2) [OF c(3)]
    by (auto simp: syscall_mapped_def mapped_def mapping_at_def in_range_def sizeof_syscall_def sizeof_sys_msg_def
        SYSCALL_ARG_def PAGE_SIZE_def SYSCALL_MSG_LEN_def)
  have l: "length (replicate 516 (0 :: m_uint8)) = 516" by simp
  obtain out s' where s': "proc_syscall s1 = Inr (out, s')"
    "\<And>t :: sys_proc. run_inv t \<and> curr_pid t = GPID_PROCESS \<and> proc_stat (proc_set t ! proc_curr_idx demo_exit) \<noteq> PROC_UNUSED \<and>
       (\<forall>k < sizeof_sys_msg. pmem t (sc_msg + of_nat k) = proc_view s' GPID_PROCESS (sc_msg + of_nat k)) \<Longrightarrow>
       \<exists>rs t'. sys_proc_round (boot_dev []) [] [] t = Inr (rs, t') \<and> run_inv t' \<and>
          proc_set t' = (proc_set t)[proc_curr_idx demo_exit := (proc_set t ! proc_curr_idx demo_exit)\<lparr>proc_stat := PROC_UNUSED\<rparr>]"
    using exit_ends_process [OF demo_exit_inv ne s1 l sv m, of "boot_dev []" "[]" "[]"]
    by (elim exE conjE) (rule that, assumption, drule spec, drule mp, assumption, elim exE conjE, intro exI conjI, assumption+)
  let ?t = "demo_run\<lparr>pmem := proc_view s' GPID_PROCESS\<rparr>"
  have "run_inv ?t" using kstep_inv [OF compute_mem demo_run_inv(1)] .
  moreover have "proc_stat (proc_set ?t ! proc_curr_idx demo_exit) \<noteq> PROC_UNUSED" by (simp add: c(2) demo_run_def demo_sys_nth demo_proc_def)
  moreover have "curr_pid ?t = GPID_PROCESS" using demo_run_inv(2) by simp
  moreover have "\<forall>k < sizeof_sys_msg. pmem ?t (sc_msg + of_nat k) = proc_view s' GPID_PROCESS (sc_msg + of_nat k)" by simp
  ultimately obtain rs t' where "sys_proc_round (boot_dev []) [] [] ?t = Inr (rs, t')" "run_inv t'"
    "proc_set t' = (proc_set ?t)[1 := (proc_set ?t ! 1)\<lparr>proc_stat := PROC_UNUSED\<rparr>]"
    using s'(2) [of ?t] unfolding c(2) by blast
  moreover have "length (proc_set ?t) = 16" by (simp add: demo_run_def demo_sys_def)
  ultimately show ?thesis using s1 s'(1) run_invD(1) by (intro exI conjI) (assumption+, simp)
qed

end
