(* ===== verification/Rwfs.thy ===== *)
theory Rwfs
  imports Boot
begin

text \<open>
  The read-write file system: its image, which tools/mkfs.c (mkrwfs) writes at the start of the disk,
  and the functions of library/file/fs.c that allocate blocks and look up paths in it. The functions of
  fs_rw.c are exercises that end in FATAL; load_inode, which the lookup calls, returns a null pointer
  there, and is an argument of the model. The theory shows that the lookup resolves every path in the
  directories of the image as it should, for every load_inode that does what its comment asks for.
\<close>

section \<open>Making the image\<close>

text \<open>The array \<^verbatim>\<open>rwfs\<close>, as a function of the index, with the writes of the code to it.\<close>

type_synonym rwfs = "nat \<Rightarrow> m_uint8"

definition put :: "nat \<Rightarrow> m_uint8 list \<Rightarrow> rwfs \<Rightarrow> rwfs" where
  "put a bs f = (\<lambda>i. if a \<le> i \<and> i < a + length bs then bs ! (i - a) else f i)"

definition put32 :: "nat \<Rightarrow> m_uint32 \<Rightarrow> rwfs \<Rightarrow> rwfs" where
  "put32 a w = put a (bytes32 w)"

definition strcpy :: "nat \<Rightarrow> string \<Rightarrow> rwfs \<Rightarrow> rwfs" where
  "strcpy a s = put a (string_bytes s @ [0])"

definition RWFS_SIZE :: nat where "RWFS_SIZE = BLOCK_SIZE * 2048"
definition NUM_PTRS :: nat where "NUM_PTRS = 10"
definition INODEARR_BLOCK_START :: nat where "INODEARR_BLOCK_START = 2"
definition DATA_BLOCK_START :: nat where "DATA_BLOCK_START = 12"

definition MODE_F :: m_uint32 where "MODE_F = push_bit 31 1"
definition MODE_D :: m_uint32 where "MODE_D = push_bit 30 1"
definition MODE_UALL :: m_uint32 where "MODE_UALL = push_bit 1 1 OR push_bit 2 1"
definition MODE_SALL :: m_uint32 where "MODE_SALL = push_bit 4 1 OR push_bit 5 1"
definition MODE_ALL :: m_uint32 where "MODE_ALL = MODE_UALL OR MODE_SALL"

text \<open>Inodes and directory entries, and the offsets of their fields.\<close>

record fs_inode =
  fi_mode :: m_uint32
  fi_size :: m_uint32
  fi_pads :: "m_uint32 list"
  fi_ptrs :: "m_uint32 list"
  indirect_ptr :: m_uint32

definition sizeof_inode :: nat where "sizeof_inode = 64"
definition sizeof_dirent :: nat where "sizeof_dirent = 32"
definition NUM_DIRENT_BLOCK :: nat where "NUM_DIRENT_BLOCK = BLOCK_SIZE div sizeof_dirent"

definition inode_of :: "m_uint8 list \<Rightarrow> nat \<Rightarrow> fs_inode" where
  "inode_of b a = \<lparr>fi_mode = u32_at b a, fi_size = u32_at b (a + 4), fi_pads = map (\<lambda>i. u32_at b (a + 8 + 4 * i)) [0..<3],
     fi_ptrs = map (\<lambda>i. u32_at b (a + 20 + 4 * i)) [0..<NUM_PTRS],
     indirect_ptr = u32_at b (a + 60)\<rparr>"

definition inode_addr :: "nat \<Rightarrow> nat" where "inode_addr ino = INODEARR_BLOCK_START * BLOCK_SIZE + ino * sizeof_inode"
definition set_mode :: "nat \<Rightarrow> m_uint32 \<Rightarrow> rwfs \<Rightarrow> rwfs" where "set_mode ino = put32 (inode_addr ino)"
definition set_size :: "nat \<Rightarrow> m_uint32 \<Rightarrow> rwfs \<Rightarrow> rwfs" where "set_size ino = put32 (inode_addr ino + 4)"
definition set_pad0 :: "nat \<Rightarrow> m_uint32 \<Rightarrow> rwfs \<Rightarrow> rwfs" where "set_pad0 ino = put32 (inode_addr ino + 8)"
definition set_ptr :: "nat \<Rightarrow> nat \<Rightarrow> m_uint32 \<Rightarrow> rwfs \<Rightarrow> rwfs" where "set_ptr ino i = put32 (inode_addr ino + 20 + 4 * i)"
definition set_indirect :: "nat \<Rightarrow> m_uint32 \<Rightarrow> rwfs \<Rightarrow> rwfs" where "set_indirect ino = put32 (inode_addr ino + 60)"

text \<open>\<open>valid\<close> is the lowest bit of the first word of an entry, \<open>inum\<close> the other bits.\<close>

definition mk_entry :: "nat \<Rightarrow> nat \<Rightarrow> nat \<Rightarrow> string \<Rightarrow> rwfs \<Rightarrow> rwfs" where
  "mk_entry entries i inum name f =
     strcpy (entries + i * sizeof_dirent + 4) name (put32 (entries + i * sizeof_dirent) (1 OR push_bit 1 (of_nat inum)) f)"

definition mk_super :: "rwfs \<Rightarrow> rwfs" where
  "mk_super f = put32 4 (of_nat (RWFS_SIZE div BLOCK_SIZE)) (put32 0 0x6640 f)"

definition mk_bitmap :: "rwfs \<Rightarrow> rwfs" where
  "mk_bitmap f = fold (\<lambda>i f. f(BLOCK_SIZE + i div 8 := f (BLOCK_SIZE + i div 8) OR push_bit (i mod 8) 1)) [0..<27] f"

definition mk_root :: "rwfs \<Rightarrow> rwfs" where
  "mk_root f =
     (let blk = DATA_BLOCK_START; entries = BLOCK_SIZE * blk;
          f = set_mode 0 (MODE_D OR MODE_ALL) f;
          f = set_pad0 0 0xdeadbeef f;
          f = set_ptr 0 0 (of_nat blk) f;
          f = mk_entry entries 0 0 ''.'' f;
          f = mk_entry entries 1 (6640 - 100) ''..'' f;
          f = mk_entry entries 2 1 ''file1.txt'' f;
          f = mk_entry entries 3 2 ''dir1'' f
      in set_size 0 (of_nat (4 * sizeof_dirent)) f)"

definition mk_dir1 :: "rwfs \<Rightarrow> rwfs" where
  "mk_dir1 f =
     (let blk = DATA_BLOCK_START + 2; entries = BLOCK_SIZE * blk;
          f = set_mode 2 (MODE_D OR MODE_ALL) f;
          f = set_pad0 2 0xdeadbeef f;
          f = set_ptr 2 0 (of_nat blk) f;
          f = mk_entry entries 0 2 ''.'' f;
          f = mk_entry entries 1 0 ''..'' f;
          f = mk_entry entries 2 3 ''file2.txt'' f
      in set_size 2 (of_nat (3 * sizeof_dirent)) f)"

definition mk_file1 :: "rwfs \<Rightarrow> rwfs" where
  "mk_file1 f =
     (let blk = DATA_BLOCK_START + 1;
          f = set_mode 1 (MODE_F OR MODE_ALL) f;
          f = set_pad0 1 0xdeadbeef f;
          f = set_ptr 1 0 (of_nat blk) f;
          f = strcpy (BLOCK_SIZE * blk) ''hello world'' f
      in set_size 1 (of_nat (length ''hello world'')) f)"

definition mk_file2 :: "rwfs \<Rightarrow> rwfs" where
  "mk_file2 f =
     (let indirect_blk = DATA_BLOCK_START + 3; data_blks = map (\<lambda>i. DATA_BLOCK_START + 4 + i) [0..<11];
          f = set_mode 3 (MODE_F OR MODE_ALL) f;
          f = set_pad0 3 0xdeadbeef f;
          f = set_indirect 3 (of_nat indirect_blk) f;
          f = fold (\<lambda>i. set_ptr 3 i (of_nat (data_blks ! i))) [0..<NUM_PTRS] f;
          f = put32 (BLOCK_SIZE * indirect_blk) (of_nat (data_blks ! 10)) f;
          fsz = BLOCK_SIZE * 11;
          start = BLOCK_SIZE * data_blks ! 0;
          f = fold (\<lambda>i. put (start + i * 17) (string_bytes ''0123456789abcdef,'')) [0..<fsz div 17] f
      in set_size 3 (of_nat fsz) f)"

definition mkrwfs :: "rwfs \<Rightarrow> rwfs" where
  "mkrwfs f = mk_file2 (mk_file1 (mk_dir1 (mk_root (mk_bitmap (mk_super f)))))"

definition rwfs_bytes :: "rwfs \<Rightarrow> m_uint8 list" where
  "rwfs_bytes f = map f [0..<RWFS_SIZE]"

section \<open>Blocks\<close>

text \<open>The variable \<^verbatim>\<open>fs\<close>: the number of blocks, the copy of the bitmap and a buffer.\<close>

record fs_struct =
  super_blk_id :: int
  total_blks :: int
  avail_blks :: int
  fs_bitmap :: "m_uint8 list"
  buffer_blk_id :: int
  buffer_cache :: "m_uint8 list"

definition block_read :: "m_uint32 \<Rightarrow> disk_dev \<Rightarrow> m_uint8 list res" where
  "block_read block_no dev = rbind (earth_disk_read block_no 1 dev) (\<lambda>bs. Inr (bytes_of_block (hd bs)))"

definition block_write :: "m_uint32 \<Rightarrow> m_uint8 list \<Rightarrow> disk_dev \<Rightarrow> disk_dev res" where
  "block_write block_no src dev = earth_disk_write block_no 1 [block_of_bytes src] dev"

definition alloc_block :: "fs_struct \<Rightarrow> (int \<times> fs_struct) res" where
  "alloc_block fs =
     (case scan_from (\<lambda>i. length (fs_bitmap fs) \<le> i div 8 \<or> bit_test (fs_bitmap fs) i = 0) 0 (nat (total_blks fs)) of
        None \<Rightarrow> Inl (Fatal ''fs.c: alloc_block runs out of blocks'')
      | Some i \<Rightarrow> if length (fs_bitmap fs) \<le> i div 8 then Inl Out_of_bounds
          else Inr (int i, fs\<lparr>fs_bitmap := bit_set (fs_bitmap fs) i\<rparr>))"

definition free_block :: "int \<Rightarrow> fs_struct \<Rightarrow> disk_dev \<Rightarrow> (fs_struct \<times> disk_dev) res" where
  "free_block blk_id fs dev =
     (if blk_id < 0 \<or> length (fs_bitmap fs) \<le> nat blk_id div 8 then Inl Out_of_bounds
      else rbind (block_write (word_of_int blk_id) (replicate 512 0) dev) (\<lambda>dev.
        Inr (fs\<lparr>fs_bitmap := bit_clear (fs_bitmap fs) (nat blk_id)\<rparr>, dev)))"

section \<open>Paths\<close>

text \<open>
  \<open>strcmp (a, t) = 0\<close>, where \<open>a\<close> is what the array holds from the name on: the comparison ends at the
  first difference, and leaves the array when there is none before its end.
\<close>

definition str_equal :: "m_uint8 list \<Rightarrow> m_uint8 list \<Rightarrow> bool res" where
  "str_equal a t = (if length a \<le> length t \<and> take (length a) t = a then Inl Out_of_bounds
     else Inr (take (length t + 1) a = t @ [0]))"

fun lookup_entries :: "m_uint8 list \<Rightarrow> m_uint8 list \<Rightarrow> nat list \<Rightarrow> int res" where
  "lookup_entries b token [] = Inr (-1)"
| "lookup_entries b token (i # is) =
     (let w = u32_at b (i * sizeof_dirent) in
      if w AND 1 = 1
      then rbind (str_equal (drop (i * sizeof_dirent + 4) b) token) (\<lambda>eq.
        if eq then Inr (sint (drop_bit 1 w + 100)) else lookup_entries b token is)
      else lookup_entries b token is)"

definition lookup_name :: "disk_dev \<Rightarrow> fs_inode \<Rightarrow> m_uint8 list \<Rightarrow> int res" where
  "lookup_name dev inode token = rbind (block_read (fi_ptrs inode ! 0) dev) (\<lambda>b. lookup_entries b token [0..<NUM_DIRENT_BLOCK])"

text \<open>\<open>load\<close> stands for load_inode; \<open>None\<close> is a null pointer, which the code follows.\<close>

function lookup_path :: "(int \<Rightarrow> fs_inode option res) \<Rightarrow> disk_dev \<Rightarrow> int \<Rightarrow> m_uint8 list \<Rightarrow> int res" where
  "lookup_path load dev inum s = (case strtok 47 s of None \<Rightarrow> Inr inum
     | Some (token, rest) \<Rightarrow> rbind (load inum) (\<lambda>p. case p of None \<Rightarrow> Inl Out_of_bounds
         | Some inode \<Rightarrow> if fi_mode inode AND MODE_D \<noteq> 0
             then rbind (lookup_name dev inode token) (\<lambda>n. if n < 0 then Inr n else lookup_path load dev n rest)
             else Inr (-1)))"
  by pat_completeness auto
termination
proof (relation "measure (\<lambda>(_, _, _, s). length s)")
  fix load dev inum s p token rest q inode and n :: int
  assume "strtok 47 s = Some p" "(token, rest) = p"
  then have "strtok 47 s = Some (token, rest)" by simp
  then show "((load :: int \<Rightarrow> fs_inode option res, dev :: disk_dev, n, rest), load, dev, inum, s) \<in> measure (\<lambda>(_, _, _, s). length s)"
    by (simp add: strtok_shorter)
qed simp

declare lookup_path.simps [simp del]

definition fs_dir_lookup :: "(int \<Rightarrow> fs_inode option res) \<Rightarrow> disk_dev \<Rightarrow> int \<Rightarrow> m_uint8 list \<Rightarrow> int res" where
  "fs_dir_lookup load dev ino path = lookup_path load dev ino (c_string path)"

section \<open>The exercises of fs\_rw.c\<close>

definition fs_init :: "m_uint32 \<Rightarrow> fs_struct \<Rightarrow> fs_struct res" where
  "fs_init super_blk fs = Inl (Fatal ''fs_init is not implemented'')"

definition load_inode :: "int \<Rightarrow> fs_inode option res" where
  "load_inode ino = Inr None"

definition flush_inode :: "fs_struct \<Rightarrow> fs_struct" where
  "flush_inode fs = fs"

definition fs_read :: "int \<Rightarrow> int \<Rightarrow> int \<Rightarrow> m_uint8 list res" where
  "fs_read ino offset len = rbind (rassert (len \<le> int BLOCK_SIZE) '''') (\<lambda>_. Inl (Fatal ''fs_read is not implemented''))"

definition fs_fsize :: "int \<Rightarrow> int res" where
  "fs_fsize ino = Inl (Fatal ''fs_fsize is not implemented'')"

definition fs_write :: "int \<Rightarrow> int \<Rightarrow> int \<Rightarrow> m_uint8 list \<Rightarrow> int res" where
  "fs_write ino offset len buf = Inl (Fatal ''fs_write is not implemented'')"

section \<open>Resolving paths\<close>

text \<open>The names of a path: its parts between slashes, without the empty ones.\<close>

fun components :: "m_uint8 list \<Rightarrow> m_uint8 list list" where
  "components [] = [[]]"
| "components (c # s) = (if c = 47 then [] # components s else (c # hd (components s)) # tl (components s))"

definition path_names :: "m_uint8 list \<Rightarrow> m_uint8 list list" where
  "path_names s = filter (\<lambda>n. n \<noteq> []) (components s)"

datatype rw_node = Rw_file | Rw_dir "m_uint8 list \<rightharpoonup> int"

text \<open>\<open>None\<close> when the path leads to an inode that the tree does not have, and goes on from there.\<close>

fun resolve :: "(int \<rightharpoonup> rw_node) \<Rightarrow> int \<Rightarrow> m_uint8 list list \<Rightarrow> int option" where
  "resolve t ino [] = Some ino"
| "resolve t ino (n # ns) = (case t ino of None \<Rightarrow> None | Some Rw_file \<Rightarrow> Some (-1)
     | Some (Rw_dir d) \<Rightarrow> (case d n of None \<Rightarrow> Some (-1) | Some j \<Rightarrow> resolve t j ns))"

definition tree_on :: "(int \<Rightarrow> fs_inode option res) \<Rightarrow> disk_dev \<Rightarrow> (int \<rightharpoonup> rw_node) \<Rightarrow> bool" where
  "tree_on load dev t \<longleftrightarrow> (\<forall>ino node. t ino = Some node \<longrightarrow> (\<exists>inode. load ino = Inr (Some inode) \<and> (case node of
     Rw_file \<Rightarrow> fi_mode inode AND MODE_D = 0
   | Rw_dir d \<Rightarrow> fi_mode inode AND MODE_D \<noteq> 0 \<and> (\<forall>n. 0 \<notin> set n \<longrightarrow>
       lookup_name dev inode n = Inr (case d n of None \<Rightarrow> -1 | Some j \<Rightarrow> j) \<and> (\<forall>j. d n = Some j \<longrightarrow> 0 \<le> j)))))"

lemma components_split:
  "components s = (if 47 \<in> set s then takeWhile (\<lambda>c. c \<noteq> 47) s # components (drop 1 (dropWhile (\<lambda>c. c \<noteq> 47) s)) else [s])"
  by (induction s) auto

lemma path_names_slashes: "path_names (dropWhile (\<lambda>c. c = 47) s) = path_names s"
  by (induction s) (simp_all add: path_names_def)

lemma path_names_first:
  assumes "takeWhile (\<lambda>c. c \<noteq> 47) t \<noteq> []"
  shows "path_names t = takeWhile (\<lambda>c. c \<noteq> 47) t # path_names (drop 1 (dropWhile (\<lambda>c. c \<noteq> 47) t))"
proof (cases "47 \<in> set t")
  case True
  then have "components t = takeWhile (\<lambda>c. c \<noteq> 47) t # components (drop 1 (dropWhile (\<lambda>c. c \<noteq> 47) t))" using components_split [of t] by presburger
  then show ?thesis using assms by (simp only: path_names_def filter.simps if_True not_False_eq_True)
next
  case False
  then have t: "takeWhile (\<lambda>c. c \<noteq> 47) t = t" "dropWhile (\<lambda>c. c \<noteq> 47) t = []" by (auto simp: takeWhile_eq_all_conv dropWhile_eq_Nil_conv)
  have "components t = [t]" using False components_split [of t] by presburger
  then show ?thesis using assms unfolding t path_names_def by simp
qed

lemma path_names_token:
  "path_names s = (case strtok 47 s of None \<Rightarrow> [] | Some (token, rest) \<Rightarrow> token # path_names rest)"
proof -
  define t where "t = dropWhile (\<lambda>c. c = 47) s"
  have p: "path_names s = path_names t" by (simp add: t_def path_names_slashes)
  have st: "strtok 47 s = (if t = [] then None else Some (takeWhile (\<lambda>c. c \<noteq> 47) t, drop 1 (dropWhile (\<lambda>c. c \<noteq> 47) t)))"
    by (simp only: strtok_def t_def Let_def)
  show ?thesis
  proof (cases "t = []")
    case True
    then show ?thesis unfolding p st by (simp add: path_names_def)
  next
    case False
    then have "hd t \<noteq> 47" unfolding t_def by (rule hd_dropWhile)
    then have "takeWhile (\<lambda>c. c \<noteq> 47) t \<noteq> []" using False by (cases t) simp_all
    then show ?thesis unfolding p st using False path_names_first [of t] by simp
  qed
qed

lemma strtok_set: "strtok 47 s = Some (token, rest) \<Longrightarrow> set token \<subseteq> set s \<and> set rest \<subseteq> set s"
proof -
  assume "strtok 47 s = Some (token, rest)"
  then have "token = takeWhile (\<lambda>c. c \<noteq> 47) (dropWhile (\<lambda>c. c = 47) s)" "rest = drop 1 (dropWhile (\<lambda>c. c \<noteq> 47) (dropWhile (\<lambda>c. c = 47) s))"
    by (simp_all add: strtok_def Let_def split: if_splits)
  then show ?thesis by (auto dest!: set_takeWhileD in_set_dropD set_dropWhileD)
qed

lemma lookup_path_resolve:
  assumes "tree_on load dev t" "0 \<notin> set s" "resolve t ino (path_names s) = Some r"
  shows "lookup_path load dev ino s = Inr r"
  using assms
proof (induction load dev ino s rule: lookup_path.induct)
  case (1 load dev ino s)
  show ?case
  proof (cases "strtok 47 s")
    case None
    then show ?thesis using 1(4) path_names_token [of s] by (subst lookup_path.simps) simp
  next
    case (Some p)
    then obtain token rest where st: "strtok 47 s = Some (token, rest)" by (cases p) simp
    have p: "path_names s = token # path_names rest" using path_names_token [of s] st by simp
    have z: "0 \<notin> set token" "0 \<notin> set rest" using strtok_set [OF st] 1(3) by auto
    obtain node where node: "t ino = Some node" using 1(4) p by (cases "t ino") simp_all
    then obtain inode where i: "load ino = Inr (Some inode)" and n: "case node of
         Rw_file \<Rightarrow> fi_mode inode AND MODE_D = 0
       | Rw_dir d \<Rightarrow> fi_mode inode AND MODE_D \<noteq> 0 \<and> (\<forall>n. 0 \<notin> set n \<longrightarrow>
           lookup_name dev inode n = Inr (case d n of None \<Rightarrow> -1 | Some j \<Rightarrow> j) \<and> (\<forall>j. d n = Some j \<longrightarrow> 0 \<le> j))"
      using 1(2) unfolding tree_on_def by blast
    show ?thesis
    proof (cases node)
      case Rw_file
      then show ?thesis using i n st 1(4) p node by (subst lookup_path.simps) simp
    next
      case (Rw_dir d)
      then have m: "fi_mode inode AND MODE_D \<noteq> 0" and l: "lookup_name dev inode token = Inr (case d token of None \<Rightarrow> -1 | Some j \<Rightarrow> j)"
        "\<forall>j. d token = Some j \<longrightarrow> 0 \<le> j" using n z(1) by auto
      show ?thesis
      proof (cases "d token")
        case None
        then show ?thesis using i m l(1) st 1(4) p node Rw_dir by (subst lookup_path.simps) simp
      next
        case (Some j)
        have "0 \<le> j" using l(2) Some by simp
        moreover have "resolve t j (path_names rest) = Some r" using 1(4) p node Rw_dir Some by simp
        then have "lookup_path load dev j rest = Inr r"
          using 1(1) [OF st refl m, of j] 1(2) z(2) \<open>0 \<le> j\<close> by simp
        ultimately show ?thesis using i m l(1) st Some by (subst lookup_path.simps) simp
      qed
    qed
  qed
qed

section \<open>A directory block\<close>

lemma str_equal_c_string:
  assumes "0 \<notin> set t" "0 \<in> set a"
  shows "str_equal a t = Inr (c_string a = t)"
proof -
  obtain r where a: "a = c_string a @ 0 # r"
  proof -
    have "dropWhile (\<lambda>c. c \<noteq> 0) a \<noteq> []" using assms(2) by (auto simp: dropWhile_eq_Nil_conv)
    then obtain x r where x: "dropWhile (\<lambda>c. c \<noteq> 0) a = x # r" by (cases "dropWhile (\<lambda>c. c \<noteq> 0) a") auto
    then have "x = 0" using hd_dropWhile [of "\<lambda>c. c \<noteq> 0" a] by simp
    then have "a = c_string a @ 0 # r" using takeWhile_dropWhile_id [of "\<lambda>c. c \<noteq> 0" a] x by (simp add: c_string_def)
    then show thesis by (rule that)
  qed
  have z: "0 \<notin> set (c_string a)" by (auto simp: c_string_def dest: set_takeWhileD)
  have "\<not> (length a \<le> length t \<and> take (length a) t = a)" using assms by (metis in_set_takeD)
  moreover have "take (length t + 1) a = t @ [0] \<longleftrightarrow> c_string a = t"
  proof
    assume "take (length t + 1) a = t @ [0]"
    then have "a = t @ 0 # drop (length t + 1) a" by (metis append_take_drop_id append_Cons append_Nil append_assoc)
    then obtain r' where r': "a = t @ 0 # r'" by blast
    show "c_string a = t" unfolding c_string_def r' using assms(1) by (induction t) auto
  next
    assume "c_string a = t"
    then have "a = t @ 0 # r" using a by simp
    then show "take (length t + 1) a = t @ [0]" by simp
  qed
  ultimately show ?thesis by (simp add: str_equal_def)
qed

text \<open>The block \<open>b\<close> holds the entries \<open>es\<close>, of names and inode numbers, and no others.\<close>

definition dir_block :: "m_uint8 list \<Rightarrow> (m_uint8 list \<times> nat) list \<Rightarrow> bool" where
  "dir_block b es \<longleftrightarrow> length es \<le> 16 \<and> (\<forall>i < 16. if i < length es
     then u32_at b (i * 32) = 1 OR push_bit 1 (of_nat (snd (es ! i))) \<and> snd (es ! i) < 2 ^ 30 \<and>
       0 \<in> set (drop (i * 32 + 4) b) \<and> c_string (drop (i * 32 + 4) b) = fst (es ! i)
     else u32_at b (i * 32) = 0)"

lemma entry_word:
  assumes "n < 2 ^ 30"
  shows "(1 OR push_bit 1 (of_nat n :: m_uint32)) AND 1 = 1" "sint (drop_bit 1 (1 OR push_bit 1 (of_nat n :: m_uint32)) + 100) = int n + 100"
proof -
  show "(1 OR push_bit 1 (of_nat n :: m_uint32)) AND 1 = 1" by (rule bit_eqI) (auto simp: bit_simps)
  have u: "unat (of_nat n :: m_uint32) = n" using assms by (simp add: unat_of_nat take_bit_nat_eq_self)
  have "drop_bit 1 (1 OR push_bit 1 (of_nat n :: m_uint32)) = of_nat n"
  proof (rule bit_eqI)
    fix k assume "possible_bit TYPE(32 word) k"
    then have k: "k < 32" by (simp add: possible_bit_word)
    have "\<not> bit (of_nat n :: m_uint32) 31"
    proof
      assume "bit (of_nat n :: m_uint32) 31"
      then have "bit (unat (of_nat n :: m_uint32)) 31" by (simp add: bit_unsigned_iff)
      then have "bit n 31" unfolding u .
      then have "2 ^ 31 \<le> n" by (metis bit_iff_odd div_less dvd_0_right not_less)
      then show False using assms by simp
    qed
    then show "bit (drop_bit 1 (1 OR push_bit 1 (of_nat n :: m_uint32))) k = bit (of_nat n :: m_uint32) k"
      using k by (cases "k = 31") (auto simp only: bit_drop_bit_eq comp_def bit_or_iff bit_push_bit_iff bit_1_iff possible_bit_word, auto)
  qed
  moreover have "sint (of_nat n + 100 :: m_uint32) = int n + 100"
  proof -
    have "(of_nat n + 100 :: m_uint32) = word_of_int (int n + 100)" by simp
    then show ?thesis using assms sint_small [of "int n + 100"] by simp
  qed
  ultimately show "sint (drop_bit 1 (1 OR push_bit 1 (of_nat n :: m_uint32)) + 100) = int n + 100" by simp
qed

lemma lookup_dir_block:
  assumes b: "dir_block b es" and t: "0 \<notin> set t"
  shows "lookup_entries b t [0..<16] = Inr (case map_of es t of None \<Rightarrow> -1 | Some n \<Rightarrow> int n + 100)"
proof -
  have "lookup_entries b t [k..<16] = Inr (case map_of (drop k es) t of None \<Rightarrow> -1 | Some n \<Rightarrow> int n + 100)" if "k \<le> 16" for k
    using that
  proof (induction "16 - k" arbitrary: k)
    case 0
    then show ?case using b by (simp add: dir_block_def)
  next
    case (Suc m)
    then have k: "k < 16" "[k..<16] = k # [Suc k..<16]" by (simp_all add: upt_rec)
    have IH: "lookup_entries b t [Suc k..<16] = Inr (case map_of (drop (Suc k) es) t of None \<Rightarrow> -1 | Some n \<Rightarrow> int n + 100)"
      using Suc.hyps(1) [of "Suc k"] Suc.hyps(2) k(1) by simp
    show ?case
    proof (cases "k < length es")
      case True
      obtain nm n where e: "es ! k = (nm, n)" by fastforce
      have h: "u32_at b (k * 32) = 1 OR push_bit 1 (of_nat n)" "n < 2 ^ 30" "0 \<in> set (drop (k * 32 + 4) b)" "c_string (drop (k * 32 + 4) b) = nm"
        using b [unfolded dir_block_def, THEN conjunct2, rule_format, OF k(1)] True e by simp_all
      have d: "drop k es = (nm, n) # drop (Suc k) es" using True e by (metis Cons_nth_drop_Suc)
      show ?thesis
        unfolding k(2) d using IH entry_word [OF h(2)] str_equal_c_string [OF t h(3)] h(1,4)
        by (simp add: Let_def sizeof_dirent_def)
    next
      case False
      then have "u32_at b (k * 32) = 0" using b k(1) unfolding dir_block_def by presburger
      then show ?thesis unfolding k(2) using IH False by (simp add: Let_def sizeof_dirent_def)
    qed
  qed
  from this [of 0] show ?thesis by simp
qed

section \<open>Reading the image\<close>

definition get32 :: "rwfs \<Rightarrow> nat \<Rightarrow> m_uint32" where
  "get32 f a = le32 (f a) (f (a + 1)) (f (a + 2)) (f (a + 3))"

lemma get32_put: "a + 4 \<le> b \<or> b + length bs \<le> a \<Longrightarrow> get32 (put b bs f) a = get32 f a"
  by (auto simp: get32_def put_def)

lemma get32_other: "a + 4 \<le> b \<or> b + 4 \<le> a \<Longrightarrow> get32 (put32 b w f) a = get32 f a"
  by (simp add: put32_def get32_put)

lemma get32_same [simp]: "get32 (put32 a w f) a = w"
  by (simp add: get32_def put32_def put_def bytes32_def le32_bytes32)

lemma length_string_bytes [simp]: "length (string_bytes s) = length s"
  by (simp add: string_bytes_def)

lemma get32_strcpy: "a + 4 \<le> b \<or> b + length s + 1 \<le> a \<Longrightarrow> get32 (strcpy b s f) a = get32 f a"
  by (auto simp: strcpy_def get32_put)

lemma u32_at_image: "j + 4 \<le> 512 \<Longrightarrow> u32_at (map f [a..<a + 512]) j = get32 f (a + j)"
  by (simp add: u32_at_def get32_def add.assoc)

lemma c_string_at:
  assumes s: "\<And>k. k < length s \<Longrightarrow> f (a + k) = s ! k" "0 \<notin> set s" and z: "f (a + length s) = 0" and b: "a + length s < b"
  shows "c_string (map f [a..<b]) = s" "0 \<in> set (map f [a..<b])"
proof -
  have "[a..<b] = [a..<a + length s] @ (a + length s) # [Suc (a + length s)..<b]"
    using b upt_add_eq_append [of a "a + length s" "b - (a + length s)"] upt_conv_Cons [of "a + length s" b] by simp
  moreover have "map f [a..<a + length s] = s" by (rule nth_equalityI) (simp_all add: s(1))
  ultimately have e: "map f [a..<b] = s @ 0 # map f [Suc (a + length s)..<b]" using z by simp
  show "0 \<in> set (map f [a..<b])" unfolding e by simp
  show "c_string (map f [a..<b]) = s" unfolding e c_string_def using s(2) by (simp add: takeWhile_append)
qed

definition has_entry :: "rwfs \<Rightarrow> nat \<Rightarrow> nat \<Rightarrow> nat \<Rightarrow> string \<Rightarrow> bool" where
  "has_entry f base i inum name \<longleftrightarrow> get32 f (base + i * 32) = 1 OR push_bit 1 (of_nat inum) \<and>
     (\<forall>k < length name. f (base + i * 32 + 4 + k) = string_bytes name ! k) \<and> f (base + i * 32 + 4 + length name) = 0"

lemma has_entry_new: "length name < 28 \<Longrightarrow> has_entry (mk_entry base i inum name f) base i inum name"
  unfolding has_entry_def mk_entry_def sizeof_dirent_def
  by (simp add: get32_strcpy) (simp add: strcpy_def put_def nth_append)

lemma mk_entry_other: "x < base + i * 32 \<or> base + i * 32 + 32 \<le> x \<Longrightarrow> length name < 28 \<Longrightarrow> mk_entry base i inum name f x = f x"
  by (auto simp: mk_entry_def strcpy_def put32_def put_def sizeof_dirent_def)

lemma has_entry_other:
  assumes "has_entry f base j inum name" "length name < 28" "\<And>k. k < 32 \<Longrightarrow> g (base + j * 32 + k) = f (base + j * 32 + k)"
  shows "has_entry g base j inum name"
proof -
  have "g (base + j * 32) = f (base + j * 32)" using assms(3) [of 0] by simp
  moreover have "g (base + j * 32 + 4 + k) = f (base + j * 32 + 4 + k)" if "k < 28" for k
    using assms(3) [of "4 + k"] that by (simp add: add.assoc)
  ultimately show ?thesis
    using assms(1,2) assms(3) [of 1] assms(3) [of 2] assms(3) [of 3] by (simp add: has_entry_def get32_def)
qed

lemma has_entry_old:
  assumes "has_entry f base j inum name" "length name < 28" "i \<noteq> j" "length name' < 28"
  shows "has_entry (mk_entry base i inum' name' f) base j inum name"
proof (rule has_entry_other [OF assms(1,2)])
  fix k :: nat assume "k < 32"
  then have "base + j * 32 + k < base + i * 32 \<or> base + i * 32 + 32 \<le> base + j * 32 + k" using assms(3) by linarith
  then show "mk_entry base i inum' name' f (base + j * 32 + k) = f (base + j * 32 + k)" using assms(4) by (rule mk_entry_other)
qed

lemma dir_block_image:
  assumes len: "length es \<le> 16"
    and ok: "\<forall>(n, m) \<in> set es. length n < 28 \<and> 0 \<notin> set (string_bytes n) \<and> m < 2 ^ 30"
    and es: "\<And>i. i < length es \<Longrightarrow> has_entry f base i (snd (es ! i)) (fst (es ! i))"
    and rest: "\<And>i. length es \<le> i \<Longrightarrow> i < 16 \<Longrightarrow> get32 f (base + i * 32) = 0"
  shows "dir_block (map f [base..<base + 512]) (map (\<lambda>(n, i). (string_bytes n, i)) es)"
  unfolding dir_block_def
proof (intro conjI allI impI)
  fix i :: nat assume i: "i < 16"
  have u: "u32_at (map f [base..<base + 512]) (i * 32) = get32 f (base + i * 32)" using i by (intro u32_at_image) simp
  have d: "drop (i * 32 + 4) (map f [base..<base + 512]) = map f [base + i * 32 + 4..<base + 512]"
    by (simp add: drop_map add.assoc)
  show "if i < length (map (\<lambda>(n, i). (string_bytes n, i)) es)
     then u32_at (map f [base..<base + 512]) (i * 32) = 1 OR push_bit 1 (of_nat (snd (map (\<lambda>(n, i). (string_bytes n, i)) es ! i))) \<and>
       snd (map (\<lambda>(n, i). (string_bytes n, i)) es ! i) < 2 ^ 30 \<and> 0 \<in> set (drop (i * 32 + 4) (map f [base..<base + 512])) \<and>
       c_string (drop (i * 32 + 4) (map f [base..<base + 512])) = fst (map (\<lambda>(n, i). (string_bytes n, i)) es ! i)
     else u32_at (map f [base..<base + 512]) (i * 32) = 0"
  proof (cases "i < length es")
    case True
    obtain n m where e: "es ! i = (n, m)" by fastforce
    have h: "has_entry f base i m n" "length n < 28" "0 \<notin> set (string_bytes n)" "m < 2 ^ 30" using es [OF True] ok nth_mem [OF True] e by auto
    note c = c_string_at [of "string_bytes n" f "base + i * 32 + 4" "base + 512"]
    have "c_string (map f [base + i * 32 + 4..<base + 512]) = string_bytes n" "0 \<in> set (map f [base + i * 32 + 4..<base + 512])"
      using h i by (intro c; simp add: has_entry_def)+
    then show ?thesis using True e h u d by (simp add: has_entry_def)
  qed (use rest [of i] i u in simp)
qed (use len in simp)

lemmas rw_consts = BLOCK_SIZE_def DATA_BLOCK_START_def INODEARR_BLOCK_START_def RWFS_SIZE_def NUM_PTRS_def sizeof_inode_def sizeof_dirent_def inode_addr_def

lemma put_other: "x < a \<or> a + length bs \<le> x \<Longrightarrow> put a bs f x = f x"
  by (auto simp: put_def)

lemma put32_other: "x < a \<or> a + 4 \<le> x \<Longrightarrow> put32 a w f x = f x"
  by (auto simp: put32_def put_other)

lemma strcpy_other: "x < a \<or> a + length s + 1 \<le> x \<Longrightarrow> strcpy a s f x = f x"
  by (auto simp: strcpy_def put_other)

lemma inode_other:
  assumes "x < inode_addr ino \<or> inode_addr ino + 64 \<le> x"
  shows "set_mode ino w f x = f x" "set_size ino w f x = f x" "set_pad0 ino w f x = f x" "set_indirect ino w f x = f x"
    "i < 10 \<Longrightarrow> set_ptr ino i w f x = f x"
  using assms by (auto simp: set_mode_def set_size_def set_pad0_def set_indirect_def set_ptr_def put32_other)

lemma fold_other: "(\<And>i f. i \<in> set is \<Longrightarrow> F i f x = f x) \<Longrightarrow> fold F is f x = (f x :: m_uint8)"
  by (induction "is" arbitrary: f) simp_all

text \<open>Each part of the image is written by one function only.\<close>

lemma mk_super_other: "8 \<le> x \<Longrightarrow> mk_super f x = f x"
  by (simp add: mk_super_def put32_other)

lemma mk_bitmap_other: "x < 512 \<or> 516 \<le> x \<Longrightarrow> mk_bitmap f x = f x"
  unfolding mk_bitmap_def by (rule fold_other) (auto simp: BLOCK_SIZE_def)

lemma mk_root_other: "x < 1024 \<or> 1088 \<le> x \<and> x < 6144 \<or> 6656 \<le> x \<Longrightarrow> mk_root f x = f x"
  by (auto simp: mk_root_def Let_def rw_consts inode_other mk_entry_other)

lemma mk_dir1_other: "x < 1152 \<or> 1216 \<le> x \<and> x < 7168 \<or> 7680 \<le> x \<Longrightarrow> mk_dir1 f x = f x"
  by (auto simp: mk_dir1_def Let_def rw_consts inode_other mk_entry_other)

lemma mk_file1_other: "x < 1088 \<or> 1152 \<le> x \<and> x < 6656 \<or> 7168 \<le> x \<Longrightarrow> mk_file1 f x = f x"
  by (auto simp: mk_file1_def Let_def rw_consts inode_other strcpy_other)

lemma mk_file2_other: "x < 1216 \<or> 1280 \<le> x \<and> x < 7680 \<Longrightarrow> mk_file2 f x = f x"
proof -
  assume x: "x < 1216 \<or> 1280 \<le> x \<and> x < 7680"
  then have "x < inode_addr 3 \<or> inode_addr 3 + 64 \<le> x" by (auto simp: rw_consts)
  note i = inode_other [OF this]
  have "fold (\<lambda>i. put (8192 + i * 17) (string_bytes ''0123456789abcdef,'')) [0..<331] f x = f x" for f
    using x by (intro fold_other put_other) auto
  moreover have "fold (\<lambda>i. set_ptr 3 i (of_nat (map (\<lambda>i. DATA_BLOCK_START + 4 + i) [0..<11] ! i))) [0..<NUM_PTRS] f x = f x" for f
    by (intro fold_other i(5)) (simp add: NUM_PTRS_def)
  moreover have "x < 7680" using x by auto
  ultimately show ?thesis using i(1-4) by (simp add: mk_file2_def Let_def rw_consts put32_other del: upt_Suc)
qed

lemma root_block: "6144 \<le> x \<Longrightarrow> x < 6656 \<Longrightarrow> mkrwfs f x =
    mk_entry 6144 3 2 ''dir1'' (mk_entry 6144 2 1 ''file1.txt'' (mk_entry 6144 1 6540 ''..'' (mk_entry 6144 0 0 ''.'' f))) x"
proof -
  assume x: "6144 \<le> x" "x < 6656"
  let ?e = "\<lambda>f. mk_entry 6144 3 2 ''dir1'' (mk_entry 6144 2 1 ''file1.txt'' (mk_entry 6144 1 6540 ''..'' (mk_entry 6144 0 0 ''.'' f)))"
  have "mkrwfs f x = mk_root (mk_bitmap (mk_super f)) x" using x by (simp add: mkrwfs_def mk_file2_other mk_file1_other mk_dir1_other)
  also have "\<dots> = ?e (set_ptr 0 0 12 (set_pad0 0 0xdeadbeef (set_mode 0 (MODE_D OR MODE_ALL) (mk_bitmap (mk_super f))))) x"
    using x by (simp add: mk_root_def Let_def rw_consts inode_other)
  also have "\<dots> = ?e f x"
    using x by (simp add: mk_entry_def strcpy_def put32_def put_def sizeof_dirent_def inode_other rw_consts mk_bitmap_other mk_super_other)
  finally show ?thesis .
qed

lemma dir1_block: "7168 \<le> x \<Longrightarrow> x < 7680 \<Longrightarrow> mkrwfs f x =
    mk_entry 7168 2 3 ''file2.txt'' (mk_entry 7168 1 0 ''..'' (mk_entry 7168 0 2 ''.'' f)) x"
proof -
  assume x: "7168 \<le> x" "x < 7680"
  let ?g = "mk_root (mk_bitmap (mk_super f))" and ?e = "\<lambda>f. mk_entry 7168 2 3 ''file2.txt'' (mk_entry 7168 1 0 ''..'' (mk_entry 7168 0 2 ''.'' f))"
  have "mkrwfs f x = mk_dir1 ?g x" using x by (simp add: mkrwfs_def mk_file2_other mk_file1_other)
  also have "\<dots> = ?e (set_ptr 2 0 14 (set_pad0 2 0xdeadbeef (set_mode 2 (MODE_D OR MODE_ALL) ?g))) x"
    using x by (simp add: mk_dir1_def Let_def rw_consts inode_other)
  also have "\<dots> = ?e f x"
    using x by (simp add: mk_entry_def strcpy_def put32_def put_def sizeof_dirent_def inode_other rw_consts mk_root_other mk_bitmap_other mk_super_other)
  finally show ?thesis .
qed

definition rw_root_entries :: "(string \<times> nat) list" where
  "rw_root_entries = [(''.'', 0), (''..'', 6540), (''file1.txt'', 1), (''dir1'', 2)]"

definition rw_dir1_entries :: "(string \<times> nat) list" where
  "rw_dir1_entries = [(''.'', 2), (''..'', 0), (''file2.txt'', 3)]"

definition entry_map :: "(string \<times> nat) list \<Rightarrow> m_uint8 list \<rightharpoonup> int" where
  "entry_map es n = map_option (\<lambda>i. int i + 100) (map_of (map (\<lambda>(n, i). (string_bytes n, i)) es) n)"

lemmas entry_rules = has_entry_old has_entry_new

lemma entry_cong:
  assumes "has_entry f base i m n" "length n < 28" "\<And>x. base \<le> x \<Longrightarrow> x < base + 512 \<Longrightarrow> g x = f x" "i < 16"
  shows "has_entry g base i m n"
  using assms(4) by (intro has_entry_other [OF assms(1,2)] assms(3)) auto

lemma rw_entries_ok:
  "\<forall>(n, m) \<in> set rw_root_entries. length n < 28 \<and> 0 \<notin> set (string_bytes n) \<and> m < 2 ^ 30"
  "\<forall>(n, m) \<in> set rw_dir1_entries. length n < 28 \<and> 0 \<notin> set (string_bytes n) \<and> m < 2 ^ 30"
  by (simp_all add: rw_root_entries_def rw_dir1_entries_def string_bytes_def)

lemma root_dir_block: "dir_block (map (mkrwfs (\<lambda>_. 0)) [6144..<6144 + 512]) (map (\<lambda>(n, i). (string_bytes n, i)) rw_root_entries)"
proof (rule dir_block_image [OF _ rw_entries_ok(1)])
  fix i assume i: "i < length rw_root_entries"
  then have "i < 4" by (simp add: rw_root_entries_def)
  then consider "i = 0" | "i = 1" | "i = 2" | "i = 3" by linarith
  then show "has_entry (mkrwfs (\<lambda>_. 0)) 6144 i (snd (rw_root_entries ! i)) (fst (rw_root_entries ! i))"
    by cases (rule entry_cong [OF _ _ root_block]; simp add: rw_root_entries_def entry_rules)+
next
  fix i assume "length rw_root_entries \<le> i" "i < 16"
  then have "mkrwfs (\<lambda>_. 0) (6144 + i * 32 + k) = 0" if "k < 4" for k
    using that root_block [of "6144 + i * 32 + k"] by (simp add: rw_root_entries_def mk_entry_other)
  from this [of 0] this [of 1] this [of 2] this [of 3] show "get32 (mkrwfs (\<lambda>_. 0)) (6144 + i * 32) = 0" by (simp add: get32_def le32_def)
qed (simp add: rw_root_entries_def)

lemma dir1_dir_block: "dir_block (map (mkrwfs (\<lambda>_. 0)) [7168..<7168 + 512]) (map (\<lambda>(n, i). (string_bytes n, i)) rw_dir1_entries)"
proof (rule dir_block_image [OF _ rw_entries_ok(2)])
  fix i assume i: "i < length rw_dir1_entries"
  then have "i < 3" by (simp add: rw_dir1_entries_def)
  then consider "i = 0" | "i = 1" | "i = 2" by linarith
  then show "has_entry (mkrwfs (\<lambda>_. 0)) 7168 i (snd (rw_dir1_entries ! i)) (fst (rw_dir1_entries ! i))"
    by cases (rule entry_cong [OF _ _ dir1_block]; simp add: rw_dir1_entries_def entry_rules)+
next
  fix i assume "length rw_dir1_entries \<le> i" "i < 16"
  then have "mkrwfs (\<lambda>_. 0) (7168 + i * 32 + k) = 0" if "k < 4" for k
    using that dir1_block [of "7168 + i * 32 + k"] by (simp add: rw_dir1_entries_def mk_entry_other)
  from this [of 0] this [of 1] this [of 2] this [of 3] show "get32 (mkrwfs (\<lambda>_. 0)) (7168 + i * 32) = 0" by (simp add: get32_def le32_def)
qed (simp add: rw_dir1_entries_def)

section \<open>The inodes of the image\<close>

lemma get32_cong: "(\<And>k. k < 4 \<Longrightarrow> g (a + k) = f (a + k)) \<Longrightarrow> get32 g a = get32 f a"
proof -
  assume h: "\<And>k. k < 4 \<Longrightarrow> g (a + k) = f (a + k)"
  show ?thesis using h [of 0] h [of 1] h [of 2] h [of 3] by (simp add: get32_def)
qed

lemma get32_entry: "a + 4 \<le> base + i * 32 \<or> base + i * 32 + 32 \<le> a \<Longrightarrow> length name < 28 \<Longrightarrow> get32 (mk_entry base i inum name f) a = get32 f a"
  by (rule get32_cong) (auto intro: mk_entry_other)

lemmas inode_simps = set_mode_def set_size_def set_pad0_def set_ptr_def set_indirect_def get32_other get32_strcpy get32_entry Let_def rw_consts

lemma rw_inodes:
  "get32 (mkrwfs f) 1024 = MODE_D OR MODE_ALL" "get32 (mkrwfs f) 1044 = 12" "get32 (mkrwfs f) 1152 = MODE_D OR MODE_ALL"
  "get32 (mkrwfs f) 1172 = 14" "get32 (mkrwfs f) 1088 = MODE_F OR MODE_ALL" "get32 (mkrwfs f) 1216 = MODE_F OR MODE_ALL"
proof -
  have r: "get32 (mkrwfs f) a = get32 (mk_root (mk_bitmap (mk_super f))) a" if "a + 4 \<le> 1088" for a
    using that by (intro get32_cong) (simp add: mkrwfs_def mk_file2_other mk_file1_other mk_dir1_other)
  have d: "get32 (mkrwfs f) a = get32 (mk_dir1 (mk_root (mk_bitmap (mk_super f)))) a" if "1152 \<le> a" "a + 4 \<le> 1216" for a
    using that by (intro get32_cong) (simp add: mkrwfs_def mk_file2_other mk_file1_other)
  have f1: "get32 (mkrwfs f) 1088 = get32 (mk_file1 (mk_dir1 (mk_root (mk_bitmap (mk_super f))))) 1088"
    by (intro get32_cong) (simp add: mkrwfs_def mk_file2_other)
  show "get32 (mkrwfs f) 1024 = MODE_D OR MODE_ALL" "get32 (mkrwfs f) 1044 = 12" by (simp_all add: r mk_root_def inode_simps)
  show "get32 (mkrwfs f) 1152 = MODE_D OR MODE_ALL" "get32 (mkrwfs f) 1172 = 14" by (simp_all add: d mk_dir1_def inode_simps)
  show "get32 (mkrwfs f) 1088 = MODE_F OR MODE_ALL" by (simp add: f1 mk_file1_def inode_simps)
  have "fold (\<lambda>i. put (8192 + i * 17) (string_bytes ''0123456789abcdef,'')) [0..<331] g (1216 + k) = g (1216 + k)" if "k < 4" for g k
    using that by (intro fold_other put_other) auto
  then have t: "get32 (fold (\<lambda>i. put (8192 + i * 17) (string_bytes ''0123456789abcdef,'')) [0..<331] g) 1216 = get32 g 1216" for g by (intro get32_cong) simp
  have "fold (\<lambda>i. put32 (1236 + 4 * i) (h i)) [0..<10] g (1216 + k) = g (1216 + k)" if "k < 4" for g h k
    using that by (intro fold_other) (auto simp: put32_other)
  then have p: "get32 (fold (\<lambda>i. put32 (1236 + 4 * i) (h i)) [0..<10] g) 1216 = get32 g 1216" for g h by (intro get32_cong) simp
  show "get32 (mkrwfs f) 1216 = MODE_F OR MODE_ALL"
    by (simp add: mkrwfs_def mk_file2_def inode_simps t p del: upt_Suc)
qed

lemma modes: "MODE_D \<noteq> 0" "(MODE_F OR MODE_ALL) AND MODE_D = 0"
  by (simp_all add: MODE_D_def MODE_ALL_def MODE_F_def MODE_UALL_def MODE_SALL_def)

section \<open>Looking up paths in the image\<close>

text \<open>What the comment of load_inode asks for: the inode, from the array of inodes on the disk.\<close>

definition loads_inodes :: "(int \<Rightarrow> fs_inode option res) \<Rightarrow> disk_dev \<Rightarrow> bool" where
  "loads_inodes load dev \<longleftrightarrow> (\<forall>i < 80. \<forall>b. block_read (of_nat (INODEARR_BLOCK_START + i div 8)) dev = Inr b \<longrightarrow>
     load (int i + 100) = Inr (Some (inode_of b (i mod 8 * sizeof_inode))))"

definition rw_tree :: "int \<rightharpoonup> rw_node" where
  "rw_tree = [100 \<mapsto> Rw_dir (entry_map rw_root_entries), 101 \<mapsto> Rw_file, 102 \<mapsto> Rw_dir (entry_map rw_dir1_entries), 103 \<mapsto> Rw_file]"

lemma image_rwfs_block:
  assumes img: "mkfs_main elf buf (rwfs_bytes f) fs = Inr img" and dev: "dtype dev = FLASH_ROM" "rom dev = image_blocks img" and k: "k < 2048"
  shows "block_read (of_nat k) dev = Inr (map f [k * 512..<k * 512 + 512])"
proof -
  have l: "length (rwfs_bytes f) = 1048576" by (simp add: rwfs_bytes_def RWFS_SIZE_def BLOCK_SIZE_def)
  obtain rest where s: "img = rwfs_bytes f @ rest" using img by (auto simp: mkfs_main_def res_simps)
  have "unat (of_nat (k * 512) :: m_uint32) = k * 512" by (subst unat_of_nat) (use k in \<open>simp add: take_bit_nat_eq_self\<close>)
  then have i: "unat ((of_nat k :: m_uint32) * of_nat BLOCK_SIZE) div BLOCK_SIZE = k" by (simp add: BLOCK_SIZE_def)
  have kl: "k < length img div 512" using s l k by simp
  then have "rom dev ! k = block_of_bytes (take 512 (drop (k * 512) img))" "k < length (rom dev)" by (simp_all add: dev(2) image_blocks_def)
  moreover have "take 512 (drop (k * 512) img) = map f [k * 512..<k * 512 + 512]"
  proof -
    have "take 512 (drop (k * 512) img) = take 512 (drop (k * 512) (rwfs_bytes f))" using s l k by simp
    also have "\<dots> = map f (take 512 (drop (k * 512) [0..<1048576]))" by (simp add: rwfs_bytes_def RWFS_SIZE_def BLOCK_SIZE_def drop_map take_map)
    also have "take 512 (drop (k * 512) [0..<1048576]) = [k * 512..<k * 512 + 512]" using k by (simp add: take_upt)
    finally show ?thesis .
  qed
  ultimately show ?thesis
    using i dev(1) by (simp add: block_read_def earth_disk_read_def Let_def hd_drop_conv_nth bytes_of_block_of_bytes)
qed

lemma lookup_name_block:
  assumes "block_read (fi_ptrs inode ! 0) dev = Inr b" "dir_block b (map (\<lambda>(n, i). (string_bytes n, i)) es)" "0 \<notin> set n"
  shows "lookup_name dev inode n = Inr (case entry_map es n of None \<Rightarrow> -1 | Some j \<Rightarrow> j)"
proof -
  have "NUM_DIRENT_BLOCK = 16" by (simp add: NUM_DIRENT_BLOCK_def BLOCK_SIZE_def sizeof_dirent_def)
  then have "lookup_name dev inode n = lookup_entries b n [0..<16]" using assms(1) by (simp add: lookup_name_def del: upt_rec_numeral lookup_entries.simps)
  then show ?thesis
    unfolding lookup_dir_block [OF assms(2,3)] entry_map_def by (cases "map_of (map (\<lambda>(n, i). (string_bytes n, i)) es) n") simp_all
qed

lemma image_rw_tree:
  assumes img: "mkfs_main elf buf (rwfs_bytes (mkrwfs (\<lambda>_. 0))) fs = Inr img" and dev: "dtype dev = FLASH_ROM" "rom dev = image_blocks img"
    and load: "loads_inodes load dev"
  shows "tree_on load dev rw_tree"
proof -
  let ?f = "mkrwfs (\<lambda>_. 0)"
  have e: "(2 :: nat) * 512 = 1024" "(12 :: nat) * 512 = 6144" "(14 :: nat) * 512 = 7168" by simp_all
  define b r d where "b = map ?f [1024..<1024 + 512]" and "r = map ?f [6144..<6144 + 512]" and "d = map ?f [7168..<7168 + 512]"
  have blk: "block_read (of_nat 2) dev = Inr b" "block_read (of_nat 12) dev = Inr r" "block_read (of_nat 14) dev = Inr d"
    unfolding b_def r_def d_def using image_rwfs_block [OF img dev, of 2, unfolded e] image_rwfs_block [OF img dev, of 12, unfolded e]
      image_rwfs_block [OF img dev, of 14, unfolded e] by simp_all
  have l: "load (int i + 100) = Inr (Some (inode_of b (i * 64)))" if "i < 4" for i
    using load [unfolded loads_inodes_def, rule_format, of i b] that blk(1) by (simp add: INODEARR_BLOCK_START_def sizeof_inode_def)
  have u: "u32_at b j = get32 ?f (1024 + j)" if "j + 4 \<le> 512" for j unfolding b_def using that by (rule u32_at_image)
  have ptr: "fi_ptrs (inode_of b a) ! 0 = get32 ?f (1024 + a + 20)" if "a < 256" for a
    using that u [of "a + 20"] by (simp add: inode_of_def NUM_PTRS_def add.assoc)
  have root: "lookup_name dev (inode_of b 0) n = Inr (case entry_map rw_root_entries n of None \<Rightarrow> -1 | Some j \<Rightarrow> j)" if "0 \<notin> set n" for n
    by (rule lookup_name_block [OF _ root_dir_block [folded r_def] that]) (use blk(2) ptr [of 0] in \<open>simp add: rw_inodes\<close>)
  have dir1: "lookup_name dev (inode_of b 128) n = Inr (case entry_map rw_dir1_entries n of None \<Rightarrow> -1 | Some j \<Rightarrow> j)" if "0 \<notin> set n" for n
    by (rule lookup_name_block [OF _ dir1_dir_block [folded d_def] that]) (use blk(3) ptr [of 128] in \<open>simp add: rw_inodes\<close>)
  have mode: "fi_mode (inode_of b a) = get32 ?f (1024 + a)" if "a < 256" for a using that u [of a] by (simp add: inode_of_def)
  have pos: "0 \<le> j" if "entry_map es n = Some j" for es n j using that by (auto simp: entry_map_def)
  show ?thesis
    unfolding tree_on_def
  proof (intro allI impI)
    fix ino node assume t: "rw_tree ino = Some node"
    consider "ino = 100" "node = Rw_dir (entry_map rw_root_entries)" | "ino = 101" "node = Rw_file"
      | "ino = 102" "node = Rw_dir (entry_map rw_dir1_entries)" | "ino = 103" "node = Rw_file"
      using t by (auto simp: rw_tree_def split: if_splits)
    then show "\<exists>inode. load ino = Inr (Some inode) \<and> (case node of Rw_file \<Rightarrow> fi_mode inode AND MODE_D = 0
        | Rw_dir d \<Rightarrow> fi_mode inode AND MODE_D \<noteq> 0 \<and> (\<forall>n. 0 \<notin> set n \<longrightarrow>
          lookup_name dev inode n = Inr (case d n of None \<Rightarrow> -1 | Some j \<Rightarrow> j) \<and> (\<forall>j. d n = Some j \<longrightarrow> 0 \<le> j)))"
    proof cases
      case 1
      then show ?thesis using l [of 0] mode [of 0] root pos by (simp add: rw_inodes modes)
    next
      case 2
      then show ?thesis using l [of 1] mode [of 64] by (simp add: rw_inodes modes)
    next
      case 3
      then show ?thesis using l [of 2] mode [of 128] dir1 pos by (simp add: rw_inodes modes)
    next
      case 4
      then show ?thesis using l [of 3] mode [of 192] by (simp add: rw_inodes modes)
    qed
  qed
qed

lemma c_string_no_zero: "0 \<notin> set (c_string p)"
  by (auto simp: c_string_def dest: set_takeWhileD)

text \<open>
  C24. Lookup in the read-write file system. On the disk image, with the file system that mkrwfs
  writes, and with every load_inode that returns the inodes of the disk, fs_dir_lookup resolves every
  path as the directories of the image say, name by name, whatever slashes there are between the
  names: it returns the inode of the file or directory, or -1 when a name does not exist or when the
  path goes on behind a file.
\<close>

theorem rwfs_lookup_correct:
  assumes "mkfs_main elf buf (rwfs_bytes (mkrwfs (\<lambda>_. 0))) fs = Inr img" "dtype dev = FLASH_ROM" "rom dev = image_blocks img"
    and "loads_inodes load dev" "resolve rw_tree ino (path_names (c_string path)) = Some r"
  shows "fs_dir_lookup load dev ino path = Inr r"
  unfolding fs_dir_lookup_def by (rule lookup_path_resolve [OF image_rw_tree [OF assms(1-4)] c_string_no_zero assms(5)])

text \<open>With the load_inode of the sources, every lookup of a name follows a null pointer.\<close>

theorem rwfs_lookup_unfinished:
  assumes "path_names (c_string path) \<noteq> []"
  shows "fs_dir_lookup load_inode dev ino path = Inl Out_of_bounds"
proof -
  obtain token rest where "strtok 47 (c_string path) = Some (token, rest)"
    using assms path_names_token [of "c_string path"] by (cases "strtok 47 (c_string path)") auto
  then show ?thesis unfolding fs_dir_lookup_def by (subst lookup_path.simps) (simp add: load_inode_def)
qed

text \<open>A block is allocated where none was, or the file system is full.\<close>

theorem alloc_block_correct:
  assumes "length (fs_bitmap fs) = 512" "0 \<le> total_blks fs" "total_blks fs \<le> 4096"
  shows "case alloc_block fs of
     Inr (b, fs') \<Rightarrow> 0 \<le> b \<and> b < total_blks fs \<and> nat b \<notin> bits_of (fs_bitmap fs) 4096 \<and>
       bits_of (fs_bitmap fs') 4096 = insert (nat b) (bits_of (fs_bitmap fs) 4096) \<and> total_blks fs' = total_blks fs
   | Inl e \<Rightarrow> e = Fatal ''fs.c: alloc_block runs out of blocks'' \<and> {..<nat (total_blks fs)} \<subseteq> bits_of (fs_bitmap fs) 4096"
proof (cases "scan_from (\<lambda>i. length (fs_bitmap fs) \<le> i div 8 \<or> bit_test (fs_bitmap fs) i = 0) 0 (nat (total_blks fs))")
  case None
  then have "bit_test (fs_bitmap fs) i \<noteq> 0" if "i < nat (total_blks fs)" for i using that by (simp add: scan_from_None_iff)
  with None show ?thesis using assms(3) by (auto simp: alloc_block_def bits_of_def)
next
  case (Some i)
  then have i: "i < nat (total_blks fs)" "length (fs_bitmap fs) \<le> i div 8 \<or> bit_test (fs_bitmap fs) i = 0" by (simp_all add: scan_from_Some_iff)
  then have "i < 4096" using assms(3) by linarith
  then have i8: "i div 8 < length (fs_bitmap fs)" using assms(1) by (simp add: div_less_iff_less_mult)
  then have "alloc_block fs = Inr (int i, fs\<lparr>fs_bitmap := bit_set (fs_bitmap fs) i\<rparr>)" using Some by (simp add: alloc_block_def)
  then show ?thesis using i i8 \<open>i < 4096\<close> bits_of_bit_set [OF \<open>i < 4096\<close> i8] by (auto simp: bits_of_def)
qed

text \<open>The contents of the two files: a text, and a pattern that fills its eleven blocks up to the last five bytes.\<close>

lemma fold_pattern:
  assumes "length h = 17"
  shows "fold (\<lambda>i. put (a + i * 17) h) [0..<n] f (a + k) = (if k < n * 17 then h ! (k mod 17) else f (a + k))"
proof (induction n)
  case (Suc n)
  show ?case
  proof (cases "n * 17 \<le> k \<and> k < n * 17 + 17")
    case True
    then obtain j where j: "k = n * 17 + j" "j < 17" by (metis add_less_cancel_left le_Suc_ex)
    then show ?thesis using assms by (simp add: put_def)
  next
    case False
    then show ?thesis using Suc assms by (auto simp: put_def)
  qed
qed simp

theorem rwfs_files:
  shows "c_string (map (mkrwfs (\<lambda>_. 0)) [6656..<7168]) = string_bytes ''hello world''"
    "k < 5627 \<Longrightarrow> mkrwfs (\<lambda>_. 0) (8192 + k) = string_bytes ''0123456789abcdef,'' ! (k mod 17)"
proof -
  let ?h = "string_bytes ''hello world''" and ?F = "mkrwfs (\<lambda>_. 0)"
  have f1: "?F (6656 + j) = (?h @ [0]) ! j" if "j < 12" for j
    using that by (simp add: mkrwfs_def mk_file2_other mk_file1_def Let_def rw_consts inode_other) (simp add: strcpy_def put_def)
  show "c_string (map ?F [6656..<7168]) = ?h"
  proof (rule c_string_at)
    show "?F (6656 + j) = ?h ! j" if "j < length ?h" for j
      using that f1 [of j] nth_append_left [of j ?h "[0]"] by simp
    have "(?h @ [0]) ! 11 = 0" by (simp add: nth_append)
    then show "?F (6656 + length ?h) = 0" using f1 [of 11] by simp
  qed (simp_all add: string_bytes_def)
  show "?F (8192 + k) = string_bytes ''0123456789abcdef,'' ! (k mod 17)" if "k < 5627"
    using that fold_pattern [of "string_bytes ''0123456789abcdef,''" 8192 331]
    by (simp add: mkrwfs_def mk_file2_def Let_def rw_consts inode_other del: upt_Suc)
qed

section \<open>A concrete lookup\<close>

lemma demo_rwfs_image: "\<exists>img. mkfs_main demo_files (replicate 131072 0) (rwfs_bytes f) blank_fs = Inr img"
  using demo_image by (auto simp: mkfs_main_def rbind_Inr_iff)

definition demo_load :: "disk_dev \<Rightarrow> int \<Rightarrow> fs_inode option res" where
  "demo_load dev ino = rbind (block_read (of_nat (INODEARR_BLOCK_START + nat (ino - 100) div 8)) dev) (\<lambda>b.
     Inr (Some (inode_of b (nat (ino - 100) mod 8 * sizeof_inode))))"

theorem rwfs_lookup_correct_witness:
  "\<exists>img. mkfs_main demo_files (replicate 131072 0) (rwfs_bytes (mkrwfs (\<lambda>_. 0))) blank_fs = Inr img \<and>
     fs_dir_lookup (demo_load (boot_dev img)) (boot_dev img) 100 (string_bytes ''/dir1//file2.txt'') = Inr 103 \<and>
     fs_dir_lookup (demo_load (boot_dev img)) (boot_dev img) 100 (string_bytes ''file1.txt/x'') = Inr (-1)"
proof -
  obtain img where img: "mkfs_main demo_files (replicate 131072 0) (rwfs_bytes (mkrwfs (\<lambda>_. 0))) blank_fs = Inr img" using demo_rwfs_image by blast
  have l: "loads_inodes (demo_load (boot_dev img)) (boot_dev img)" by (simp add: loads_inodes_def demo_load_def)
  have d: "dtype (boot_dev img) = FLASH_ROM" "rom (boot_dev img) = image_blocks img" by (simp_all add: boot_dev_def)
  have r: "resolve rw_tree 100 (path_names (c_string (string_bytes ''/dir1//file2.txt''))) = Some 103"
    "resolve rw_tree 100 (path_names (c_string (string_bytes ''file1.txt/x''))) = Some (-1)"
    by (simp_all add: c_string_def string_bytes_def path_names_def rw_tree_def entry_map_def rw_root_entries_def rw_dir1_entries_def)
  show ?thesis using img rwfs_lookup_correct [OF img d l r(1)] rwfs_lookup_correct [OF img d l r(2)] by blast
qed

end
