(* ===== verification/Timer.thy ===== *)
theory Timer
  imports Egos_Prelude
begin

text \<open>
  The timer (earth/cpu_timer.c). The 64-bit time and the 64-bit comparison register are accessed as
  two halves of 32 bits each, while the time runs. The theory shows that the time that is read is
  one the timer had during the call, and that setting the comparison register never raises an early
  interrupt.
\<close>

section \<open>Definitions\<close>

text \<open>\<open>time n\<close> is the value of the timer at the \<open>n\<close>th access to it.\<close>

definition low_half :: "m_uint64 \<Rightarrow> m_uint32" where "low_half t = ucast t"
definition high_half :: "m_uint64 \<Rightarrow> m_uint32" where "high_half t = ucast (drop_bit 32 t)"

definition join_halves :: "m_uint32 \<Rightarrow> m_uint32 \<Rightarrow> m_uint64" where
  "join_halves high low = push_bit 32 (ucast high) OR ucast low"

text \<open>The loop of mtime_get from the \<open>n\<close>th access: the time it returns, and the number of the next access.\<close>

partial_function (option) mtime_get :: "(nat \<Rightarrow> m_uint64) \<Rightarrow> nat \<Rightarrow> (m_uint64 \<times> nat) option" where
  "mtime_get time n =
     (let high = high_half (time n); low = low_half (time (n + 1)) in
      if high_half (time (n + 2)) \<noteq> high then mtime_get time (n + 3) else Some (join_halves high low, n + 3))"

text \<open>The values of the comparison register during the three writes of mtimecmp_set, and the last.\<close>

definition mtimecmp_set :: "m_uint64 \<Rightarrow> m_uint64 \<Rightarrow> m_uint64 list" where
  "mtimecmp_set time old =
     (let v1 = join_halves 0xFFFFFFFF (low_half old); v2 = join_halves (high_half v1) (low_half time); v3 = join_halves (high_half time) (low_half v2)
      in [v1, v2, v3])"

definition timer_reset :: "(nat \<Rightarrow> m_uint64) \<Rightarrow> nat \<Rightarrow> m_uint64 \<Rightarrow> (m_uint64 list \<times> nat) option" where
  "timer_reset time n old = (case mtime_get time n of None \<Rightarrow> None | Some (t, k) \<Rightarrow> Some (mtimecmp_set (t + ucast QUANTUM) old, k))"

text \<open>gettime also reports when the time is less than the last one it gave.\<close>

definition gettime :: "(nat \<Rightarrow> m_uint64) \<Rightarrow> nat \<Rightarrow> m_uint64 \<Rightarrow> (m_uint64 \<times> bool \<times> nat) option" where
  "gettime time n last_time = (case mtime_get time n of None \<Rightarrow> None | Some (t, k) \<Rightarrow> Some (t, t < last_time, k))"

section \<open>Halves\<close>

lemma unat_halves: "unat (high_half t) = unat t div 4294967296" "unat (low_half t) = unat t mod 4294967296"
proof -
  have "unat t < 18446744073709551616" using unsigned_less [of t, where ?'a = nat] by simp
  then show "unat (high_half t) = unat t div 4294967296"
    by (simp add: high_half_def unsigned_ucast_eq take_bit_eq_mod drop_bit_eq_div unat_div less_mult_imp_div_less)
  show "unat (low_half t) = unat t mod 4294967296" by (simp add: low_half_def unsigned_ucast_eq take_bit_eq_mod)
qed

lemma unat_join: "unat (join_halves h l) = unat h * 4294967296 + unat l"
proof -
  have h: "unat h < 4294967296" "unat l < 4294967296" using unsigned_less [of h, where ?'a = nat] unsigned_less [of l, where ?'a = nat] by simp_all
  have "join_halves h l = push_bit 32 (ucast h) + ucast l"
    unfolding join_halves_def
    by (rule disjunctive_add [symmetric]) (auto simp: bit_push_bit_iff bit_ucast_iff dest: bit_imp_le_length)
  then show ?thesis using h
    by (simp add: push_bit_eq_mult unat_word_ariths unsigned_ucast_eq take_bit_eq_mod)
qed

lemma join_halves_eq: "join_halves (high_half t) (low_half t) = t"
  by (simp add: word_unat_eq_iff unat_join unat_halves)

lemma halves_of_join: "high_half (join_halves h l) = h" "low_half (join_halves h l) = l"
proof -
  have "unat h < 4294967296" "unat l < 4294967296" using unsigned_less [of h, where ?'a = nat] unsigned_less [of l, where ?'a = nat] by simp_all
  then show "high_half (join_halves h l) = h" "low_half (join_halves h l) = l" by (simp_all add: word_unat_eq_iff unat_halves unat_join)
qed

section \<open>Reading the time\<close>

definition running :: "(nat \<Rightarrow> m_uint64) \<Rightarrow> bool" where
  "running time \<longleftrightarrow> (\<forall>i j. i \<le> j \<longrightarrow> time i \<le> time j)"

lemma runningD: "running time \<Longrightarrow> i \<le> j \<Longrightarrow> time i \<le> time j"
  by (simp add: running_def)

lemma high_half_mono: "s \<le> t \<Longrightarrow> high_half s \<le> high_half t"
  by (simp add: word_le_nat_alt unat_halves div_le_mono)

text \<open>When the high half is the same before and after, the two halves belong to the time in the middle.\<close>

lemma stable_halves:
  assumes "running time" "high_half (time (n + 2)) = high_half (time n)"
  shows "join_halves (high_half (time n)) (low_half (time (n + 1))) = time (n + 1)"
proof -
  have "high_half (time n) \<le> high_half (time (n + 1))" "high_half (time (n + 1)) \<le> high_half (time (n + 2))"
    using runningD [OF assms(1)] by (intro high_half_mono; simp)+
  with assms(2) have "high_half (time (n + 1)) = high_half (time n)" by simp
  then show ?thesis using join_halves_eq [of "time (n + 1)"] by simp
qed

text \<open>
  While the time does not run backwards, what mtime_get returns is the time at one of its accesses.
\<close>

theorem mtime_get_correct:
  assumes "mtime_get time n = Some (t, k)" "running time"
  shows "\<exists>i. n < i \<and> i < k \<and> t = time i"
proof -
  have "running time \<longrightarrow> (\<exists>i. n < i \<and> i < snd (t, k) \<and> fst (t, k) = time i)"
  proof (rule mtime_get.raw_induct [where P = "\<lambda>time n r. running time \<longrightarrow> (\<exists>i. n < i \<and> i < snd r \<and> fst r = time i)", OF _ assms(1)], goal_cases)
    case (1 f time n r)
    note hyp = 1(1) and eq = 1(2)
    show ?case
    proof (intro impI, cases "high_half (time (n + 2)) = high_half (time n)")
      case False
      assume run: "running time"
      have "f time (n + 3) = Some r" using eq False by simp
      with hyp run obtain i where "n + 3 < i" "i < snd r" "fst r = time i" by blast
      then show "\<exists>i. n < i \<and> i < snd r \<and> fst r = time i" by (intro exI [of _ i]) simp
    next
      case True
      assume run: "running time"
      have "r = (join_halves (high_half (time n)) (low_half (time (n + 1))), n + 3)" using eq True by simp
      then show "\<exists>i. n < i \<and> i < snd r \<and> fst r = time i"
        using stable_halves [OF run True] by (intro exI [of _ "n + 1"]) simp
    qed
  qed
  with assms(2) show ?thesis by simp
qed

text \<open>It returns after one repetition at most, when the high half changes at most once.\<close>

theorem mtime_get_returns:
  assumes "running time" "unat (time (n + 5)) < unat (time n) + 2 ^ 32"
  shows "\<exists>t k. mtime_get time n = Some (t, k)"
proof (cases "high_half (time (n + 2)) = high_half (time n)")
  case True
  then show ?thesis by (subst mtime_get.simps) simp
next
  case False
  let ?h = "\<lambda>i. unat (time i) div 4294967296"
  have m: "?h i \<le> ?h j" if "i \<le> j" for i j
    using runningD [OF assms(1) that] by (intro div_le_mono) (simp add: word_le_nat_alt)
  have "?h n \<noteq> ?h (n + 2)" using False by (auto simp: word_unat_eq_iff unat_halves)
  then have "?h n < ?h (n + 2)" using m [of n "n + 2"] by simp
  moreover have "?h (n + 5) \<le> (unat (time n) + 4294967296) div 4294967296" using assms(2) by (intro div_le_mono) simp
  then have "?h (n + 5) \<le> ?h n + 1" by simp
  ultimately have "?h (n + 5) = ?h (n + 3)" using m [of "n + 2" "n + 3"] m [of "n + 3" "n + 5"] by linarith
  then have "high_half (time (n + 5)) = high_half (time (n + 3))" by (simp add: word_unat_eq_iff unat_halves)
  then have "\<exists>t k. mtime_get time (n + 3) = Some (t, k)" by (subst mtime_get.simps) (simp add: add.commute)
  then show ?thesis using False by (subst mtime_get.simps) simp
qed

section \<open>Setting the comparison register\<close>

text \<open>
  The register ends with the new value, and none of the values in between is before it, unless the
  new time is in the last of all \<open>2 ^ 32\<close> periods.
\<close>

theorem mtimecmp_set_correct:
  assumes "high_half time \<noteq> 0xFFFFFFFF"
  shows "last (mtimecmp_set time old) = time \<and> (\<forall>v \<in> set (mtimecmp_set time old). time \<le> v)"
proof -
  have "unat (high_half time) < 4294967295"
    using assms unsigned_less [of "high_half time", where ?'a = nat] by (simp add: word_unat_eq_iff)
  then have "unat time < 4294967295 * 4294967296" by (simp add: unat_halves div_less_iff_less_mult)
  then have "time \<le> join_halves 0xFFFFFFFF l" for l by (simp add: word_le_nat_alt unat_join)
  then show ?thesis by (simp add: mtimecmp_set_def Let_def halves_of_join join_halves_eq)
qed

end
