(* ===== verification/User_Apps.thy ===== *)
theory User_Apps
  imports Shell
begin

text \<open>
  The applications that work on the file system: cd, pwd, ls, cat, echo and append of apps/user. The
  working directory is kept in the interface structure of the kernel, as an inode number and as a
  path. The theory shows that going into a directory and back restores the path, and that ls shows
  the names of a directory and not its inode numbers.
\<close>

section \<open>Definitions\<close>

record env =
  workdir_ino :: int
  workdir :: "m_uint8 list"

definition slash :: m_uint8 where "slash = 47"
definition newline :: "m_uint8 list" where "newline = [13, 10]"

text \<open>The path: \<^verbatim>\<open>workdir\<close> has 128 bytes, with the final 0.\<close>

definition path_down :: "m_uint8 list \<Rightarrow> m_uint8 list \<Rightarrow> m_uint8 list res" where
  "path_down wd name =
     (let wd' = (if length wd > 1 then wd @ [slash] else wd) @ take (length name - 1) name in
      if length wd' < 128 then Inr wd' else Inl Out_of_bounds)"

text \<open>The loop backwards from the end to the last slash; without a slash it leaves the array.\<close>

definition path_up :: "m_uint8 list \<Rightarrow> m_uint8 list res" where
  "path_up wd =
     (let t = rev (dropWhile (\<lambda>c. c \<noteq> slash) (rev wd)) in
      if t = [] then Inl Out_of_bounds else if length t - 1 \<noteq> 0 then Inr (butlast t) else Inr t)"

definition cd_main :: "disk_dev \<Rightarrow> m_uint8 list \<Rightarrow> m_uint8 list \<Rightarrow> m_uint8 list list \<Rightarrow> env \<Rightarrow> (int \<times> env) res" where
  "cd_main dev stack old args e =
     (if length args = 1
      then rbind (dir_lookup dev stack old 0 (string_bytes ''home/'')) (\<lambda>home_ino.
           rbind (dir_lookup dev stack old (word_of_int home_ino) (string_bytes ''cs6640/'')) (\<lambda>ino.
             Inr (0, \<lparr>workdir_ino = ino, workdir = string_bytes ''/home/cs6640''\<rparr>)))
      else if length (args ! 1) + 1 \<ge> CMD_ARG_LEN then Inl Out_of_bounds
      else let name = args ! 1 @ [slash] in
        rbind (dir_lookup dev stack old (word_of_int (workdir_ino e)) name) (\<lambda>dir_ino.
          if dir_ino = -1 then Inr (-1, e)
          else let e = e\<lparr>workdir_ino := dir_ino\<rparr> in
            if name = string_bytes ''./'' then Inr (0, e)
            else if name \<noteq> string_bytes ''../''
            then rbind (path_down (workdir e) name) (\<lambda>wd. Inr (0, e\<lparr>workdir := wd\<rparr>))
            else rbind (path_up (workdir e)) (\<lambda>wd. Inr (0, e\<lparr>workdir := wd\<rparr>))))"

definition pwd_main :: "env \<Rightarrow> m_uint8 list" where "pwd_main e = workdir e @ newline"

definition echo_main :: "m_uint8 list list \<Rightarrow> m_uint8 list" where
  "echo_main args = concat (map (\<lambda>a. a @ [blank]) (tl args)) @ newline"

text \<open>The loop of ls over the text, which changes it in place: \<open>prev\<close> is the character before, as it is now.\<close>

fun ls_loop :: "m_uint8 \<Rightarrow> m_uint8 list \<Rightarrow> m_uint8 list" where
  "ls_loop prev [] = []"
| "ls_loop prev (c # cs) = (let c' = (if prev = blank \<and> 48 \<le> c \<and> c \<le> 57 then blank else c) in c' # ls_loop c' cs)"

definition ls_text :: "m_uint8 list \<Rightarrow> m_uint8 list" where
  "ls_text s = (case s of [] \<Rightarrow> [] | c # cs \<Rightarrow> c # ls_loop c cs)"

definition ls_main :: "disk_dev \<Rightarrow> m_uint8 list \<Rightarrow> m_uint8 list \<Rightarrow> m_uint8 list list \<Rightarrow> env \<Rightarrow> (int \<times> m_uint8 list) res" where
  "ls_main dev stack old args e =
     (if length args > 1 then Inr (-1, [])
      else rbind (file_read dev stack (word_of_int (workdir_ino e)) 0 BLOCK_SIZE old) (\<lambda>(r, buf).
        if workdir_ino e < sint FS_ROOT_INODE
        then if 0 \<notin> set buf then Inl Out_of_bounds else Inr (0, ls_text (c_string buf) @ newline)
        else Inl (Fatal ''rwfs is off; should never be here'')))"

definition cat_main :: "disk_dev \<Rightarrow> m_uint8 list \<Rightarrow> m_uint8 list \<Rightarrow> m_uint8 list list \<Rightarrow> env \<Rightarrow> (int \<times> m_uint8 list) res" where
  "cat_main dev stack old args e =
     (if length args = 1 then Inr (-1, [])
      else rbind (dir_lookup dev stack old (word_of_int (workdir_ino e)) (args ! 1)) (\<lambda>file_ino.
        if file_ino < 0 then Inr (-1, [])
        else rbind (file_read dev stack (word_of_int file_ino) 0 BLOCK_SIZE old) (\<lambda>(r, buf).
          if 0 \<notin> set buf \<or> c_string buf = [] then Inl Out_of_bounds
          else Inr (0, c_string buf @ (if last (c_string buf) \<noteq> 10 then newline else [])))))"

definition append_main :: "disk_dev \<Rightarrow> m_uint8 list \<Rightarrow> m_uint8 list \<Rightarrow> m_uint8 list list \<Rightarrow> env \<Rightarrow> int res" where
  "append_main dev stack old args e =
     (if length args \<noteq> 3 then Inr (-1)
      else rbind (dir_lookup dev stack old (word_of_int (workdir_ino e)) (args ! 1)) (\<lambda>file_ino.
        if file_ino < 0 then Inr (-1)
        else if length (args ! 2) > 0
        then rbind (file_size dev stack (word_of_int file_ino) old) (\<lambda>fsz.
             rbind (file_write dev stack (word_of_int file_ino) (word_of_int fsz) (length (args ! 2)) (args ! 2)) (\<lambda>(r, blk).
               Inr (if r \<noteq> 0 then -1 else 0)))
        else Inr 0))"

section \<open>Paths\<close>

definition is_path :: "m_uint8 list \<Rightarrow> bool" where
  "is_path wd \<longleftrightarrow> wd = [slash] \<or> length wd > 1 \<and> hd wd = slash \<and> last wd \<noteq> slash"

text \<open>Going down into a directory and up again gives the path back, as long as it fits.\<close>

theorem path_down_up:
  assumes "is_path wd" "name \<noteq> []" "slash \<notin> set name" "length wd + 1 + length name < 128"
  shows "\<exists>wd'. path_down wd (name @ [slash]) = Inr wd' \<and> is_path wd' \<and> path_up wd' = Inr wd"
proof -
  have last: "last name \<noteq> slash" using assms(2,3) last_in_set by metis
  have strip: "rev (dropWhile (\<lambda>c. c \<noteq> slash) (rev (p @ [slash] @ name))) = p @ [slash]" for p
  proof -
    have "dropWhile (\<lambda>c. c \<noteq> slash) (rev name @ slash # rev p) = dropWhile (\<lambda>c. c \<noteq> slash) (slash # rev p)"
      by (rule dropWhile_append2) (use assms(3) in auto)
    then show ?thesis by simp
  qed
  show ?thesis
  proof (cases "wd = [slash]")
    case True
    then have "path_down wd (name @ [slash]) = Inr (slash # name)" using assms(4) by (simp add: path_down_def)
    moreover have "path_up (slash # name) = Inr [slash]" using strip [of "[]"] by (simp add: path_up_def)
    ultimately show ?thesis using True assms(2) last by (simp add: is_path_def Suc_less_eq2)
  next
    case False
    then have w: "length wd > 1" "hd wd = slash" using assms(1) by (auto simp: is_path_def)
    then have "path_down wd (name @ [slash]) = Inr (wd @ slash # name)" using assms(4) by (simp add: path_down_def)
    moreover have "path_up (wd @ slash # name) = Inr wd" using strip [of wd] w(1) by (auto simp: path_up_def Let_def)
    moreover have "is_path (wd @ slash # name)" using w assms(2) last by (cases wd) (auto simp: is_path_def)
    ultimately show ?thesis by blast
  qed
qed

section \<open>Listing a directory\<close>

lemma ls_loop_keep: "(\<And>c. c \<in> set t \<Longrightarrow> c \<noteq> blank) \<Longrightarrow> p \<noteq> blank \<Longrightarrow> ls_loop p (t @ r) = t @ ls_loop (last (p # t)) r"
  by (induction t arbitrary: p) auto

lemma ls_loop_blanks: "ls_loop blank (replicate k blank @ r) = replicate k blank @ ls_loop blank r"
  by (induction k) (auto simp: blank_def)

lemma ls_loop_digits: "\<forall>c \<in> set ds. isdigit c \<Longrightarrow> ls_loop blank (ds @ r) = replicate (length ds) blank @ ls_loop blank r"
  by (induction ds) (auto simp: isdigit_def)

text \<open>The names stay, and the inode numbers become blanks.\<close>

fun names_text :: "dir_entry list \<Rightarrow> m_uint8 list" where
  "names_text [] = []"
| "names_text ((nm, a, ds, b) # es) = nm @ replicate (Suc a + length ds + b) blank @ names_text es"

lemma ls_entry:
  assumes "nm \<noteq> []" "blank \<notin> set nm" "\<forall>c \<in> set ds. isdigit c" "p \<noteq> blank \<or> \<not> isdigit (hd nm)"
  shows "ls_loop p (nm @ replicate (Suc a) blank @ ds @ replicate b blank @ r) = nm @ replicate (Suc a + length ds + b) blank @ ls_loop blank r"
proof -
  obtain c cs where nm: "nm = c # cs" using assms(1) by (cases nm) auto
  have c: "c \<noteq> blank" "\<And>d. d \<in> set cs \<Longrightarrow> d \<noteq> blank" using assms(2) nm by auto
  have "ls_loop p (nm @ r') = c # ls_loop c (cs @ r')" for r' using assms(4) c(1) nm by (auto simp: Let_def isdigit_def)
  also have "c # ls_loop c (cs @ r') = nm @ ls_loop (last (c # cs)) r'" for r' using ls_loop_keep [of cs c r'] c nm by simp
  finally have 1: "ls_loop p (nm @ r') = nm @ ls_loop (last (c # cs)) r'" for r' .
  have "last (c # cs) \<noteq> blank" using c last_in_set [of "c # cs"] by auto
  then have "ls_loop (last (c # cs)) (blank # r') = blank # ls_loop blank r'" for r' by (auto simp: Let_def blank_def)
  then show ?thesis using ls_loop_blanks ls_loop_digits [OF assms(3)] by (simp add: 1 replicate_add)
qed

theorem ls_shows_names:
  assumes "wf_dir es" "\<forall>(nm, a, ds, b) \<in> set es. \<not> isdigit (hd nm)"
  shows "ls_text (dir_text es) = names_text es"
proof -
  have tail: "wf_dir fs \<Longrightarrow> \<forall>(nm, a, ds, b) \<in> set fs. \<not> isdigit (hd nm) \<Longrightarrow> ls_loop blank (dir_text fs) = names_text fs" for fs
  proof (induction fs rule: dir_text.induct)
    case (2 nm a ds b es)
    then show ?case using ls_entry [of nm ds blank a b "dir_text es"] by (simp add: is_name_def)
  qed simp
  show ?thesis
  proof (cases es)
    case Nil
    then show ?thesis by (simp add: ls_text_def)
  next
    case (Cons x fs)
    obtain nm a ds b where x: "x = (nm, a, ds, b)" by (metis prod_cases4)
    have h: "nm \<noteq> []" "blank \<notin> set nm" "\<forall>c \<in> set ds. isdigit c" "\<not> isdigit (hd nm)" "wf_dir fs" using assms Cons x by (auto simp: is_name_def)
    then obtain c cs where "nm = c # cs" by (cases nm) auto
    then have "ls_text (dir_text es) = ls_loop blank (dir_text es)"
      using h(2,4) Cons x by (auto simp: ls_text_def Let_def isdigit_def)
    then show ?thesis using tail [OF assms] by simp
  qed
qed

end
