(* ===== verification/Sd_Card.thy ===== *)
theory Sd_Card
  imports Egos_Prelude
begin

text \<open>
  The start of the SD card (earth/dev_sdcard.c): the exchange of bytes with the card through the
  registers of the SPI controller, commands and their replies, and sd_init with its loops that wait
  for the card, as disk_init (earth/dev_disk.c) calls it. The controller with the card is a
  parameter: a state \<open>'c\<close> that reads and writes of the registers change. What the driver relies on is
  stated at the level of the registers: the chip select follows CSMODE and CSDEF, and a card takes
  commands only while it is selected and after its start-up clocks. The theory shows that sd_init ends
  and succeeds on every such card, however long it is busy, and that it ends and fails when no card
  answers.
\<close>

section \<open>Definitions\<close>

record 'c spi_regs =
  read_txdata :: "'c \<Rightarrow> m_uint32 \<times> 'c"
  write_txdata :: "m_uint32 \<Rightarrow> 'c \<Rightarrow> 'c"
  read_rxdata :: "'c \<Rightarrow> m_uint32 \<times> 'c"
  write_csmode :: "m_uint32 \<Rightarrow> 'c \<Rightarrow> 'c"
  write_csdef :: "m_uint32 \<Rightarrow> 'c \<Rightarrow> 'c"

text \<open>The loops that poll a register: \<open>None\<close> when the flag of bit 31 never goes away.\<close>

partial_function (option) wait_tx :: "'c spi_regs \<Rightarrow> 'c \<Rightarrow> 'c option" where
  "wait_tx r c = (case read_txdata r c of (v, c) \<Rightarrow> if v AND 0x80000000 \<noteq> 0 then wait_tx r c else Some c)"

partial_function (option) wait_rx :: "'c spi_regs \<Rightarrow> 'c \<Rightarrow> (m_uint32 \<times> 'c) option" where
  "wait_rx r c = (case read_rxdata r c of (v, c) \<Rightarrow> if v AND 0x80000000 \<noteq> 0 then wait_rx r c else Some (v, c))"

definition spi_exchange :: "'c spi_regs \<Rightarrow> m_uint8 \<Rightarrow> 'c \<Rightarrow> (m_uint8 \<times> 'c) option" where
  "spi_exchange r byte c =
     Option.bind (wait_tx r c) (\<lambda>c.
     Option.bind (wait_rx r (write_txdata r (ucast byte) c)) (\<lambda>(rxdata, c). Some (ucast (rxdata AND 0xFF), c)))"

fun spi_send :: "'c spi_regs \<Rightarrow> m_uint8 list \<Rightarrow> 'c \<Rightarrow> 'c option" where
  "spi_send r [] c = Some c"
| "spi_send r (b # bs) c = Option.bind (spi_exchange r b c) (\<lambda>(_, c). spi_send r bs c)"

text \<open>Waiting for the reply, at most \<open>n\<close> times.\<close>

fun sd_reply :: "'c spi_regs \<Rightarrow> nat \<Rightarrow> 'c \<Rightarrow> (m_uint8 \<times> 'c) option" where
  "sd_reply r 0 c = Some (0xFF, c)"
| "sd_reply r (Suc n) c = Option.bind (spi_exchange r 0xFF c) (\<lambda>(reply, c). if reply \<noteq> 0xFF then Some (reply, c) else sd_reply r n c)"

definition sd_exec_cmd :: "'c spi_regs \<Rightarrow> m_uint8 list \<Rightarrow> 'c \<Rightarrow> (m_uint8 \<times> 'c) option" where
  "sd_exec_cmd r cmd c = Option.bind (spi_send r cmd c) (sd_reply r 8000)"

text \<open>\<^verbatim>\<open>while (spi_exchange(0xFF) != 0xFF);\<close>\<close>

partial_function (option) sd_idle :: "'c spi_regs \<Rightarrow> 'c \<Rightarrow> 'c option" where
  "sd_idle r c = Option.bind (spi_exchange r 0xFF c) (\<lambda>(b, c). if b \<noteq> 0xFF then sd_idle r c else Some c)"

definition cmd0 :: "m_uint8 list" where "cmd0 = [0x40, 0x00, 0x00, 0x00, 0x00, 0x95]"
definition cmd8 :: "m_uint8 list" where "cmd8 = [0x48, 0x00, 0x00, 0x01, 0xAA, 0x87]"
definition cmd55 :: "m_uint8 list" where "cmd55 = [0x77, 0x00, 0x00, 0x00, 0x00, 0xFF]"
definition acmd41 :: "m_uint8 list" where "acmd41 = [0x69, 0x40, 0x00, 0x00, 0x00, 0xFF]"

definition sd_exec_acmd :: "'c spi_regs \<Rightarrow> m_uint8 list \<Rightarrow> 'c \<Rightarrow> (m_uint8 \<times> 'c) option" where
  "sd_exec_acmd r cmd c =
     Option.bind (sd_idle r c) (\<lambda>c. Option.bind (sd_exec_cmd r cmd55 c) (\<lambda>(_, c).
     Option.bind (sd_idle r c) (\<lambda>c. sd_exec_cmd r cmd c)))"

text \<open>\<^verbatim>\<open>while (reply != 0x01) reply = spi_exchange(0xFF);\<close> and \<^verbatim>\<open>while (sd_exec_acmd(acmd41));\<close>\<close>

partial_function (option) sd_until_idle_state :: "'c spi_regs \<Rightarrow> m_uint8 \<Rightarrow> 'c \<Rightarrow> 'c option" where
  "sd_until_idle_state r reply c =
     (if reply \<noteq> 0x01 then Option.bind (spi_exchange r 0xFF c) (\<lambda>(reply, c). sd_until_idle_state r reply c) else Some c)"

partial_function (option) sd_until_ready :: "'c spi_regs \<Rightarrow> 'c \<Rightarrow> 'c option" where
  "sd_until_ready r c = Option.bind (sd_exec_acmd r acmd41 c) (\<lambda>(reply, c). if reply \<noteq> 0 then sd_until_ready r c else Some c)"

text \<open>The four bytes of the reply to cmd8: the first is stored as the most significant.\<close>

fun spi_recv :: "'c spi_regs \<Rightarrow> nat \<Rightarrow> 'c \<Rightarrow> (m_uint8 list \<times> 'c) option" where
  "spi_recv r 0 c = Some ([], c)"
| "spi_recv r (Suc n) c = Option.bind (spi_exchange r 0xFF c) (\<lambda>(b, c). Option.bind (spi_recv r n c) (\<lambda>(bs, c). Some (b # bs, c)))"

definition payload_of :: "m_uint8 list \<Rightarrow> m_uint32" where
  "payload_of bs = le32 (bs ! 3) (bs ! 2) (bs ! 1) (bs ! 0)"

text \<open>A loop that does not return is the outcome \<open>Diverges\<close>.\<close>

definition loops :: "'a option \<Rightarrow> 'a res" where
  "loops x = (case x of None \<Rightarrow> Inl Diverges | Some y \<Rightarrow> Inr y)"

definition sd_check_voltage :: "'c spi_regs \<Rightarrow> 'c \<Rightarrow> 'c res" where
  "sd_check_voltage r c =
     rbind (loops (sd_exec_cmd r cmd8 c)) (\<lambda>(reply, c).
     if reply AND 0x04 \<noteq> 0 then Inl (Fatal ''Only SD2/SDHC/SDXC cards are supported'')
     else rbind (loops (spi_recv r 4 c)) (\<lambda>(bs, c).
       if payload_of bs AND 0xFFF \<noteq> 0x1AA then Inl (Fatal ''Fail to check SD card type'') else Inr c))"

definition sd_init :: "'c spi_regs \<Rightarrow> 'c \<Rightarrow> (int \<times> 'c) res" where
  "sd_init r c =
     rbind (loops (spi_send r (replicate 1000 0xFF) (write_csmode r 2 c))) (\<lambda>c.
     rbind (loops (sd_exec_cmd r cmd0 (write_csdef r 1 c))) (\<lambda>(reply, c).
     if reply = 0xFF then Inr (-1, c)
     else rbind (loops (sd_until_idle_state r reply c)) (\<lambda>c.
       rbind (loops (sd_idle r c)) (\<lambda>c.
       rbind (sd_check_voltage r c) (\<lambda>c.
       rbind (loops (sd_idle r c)) (\<lambda>c.
       rbind (loops (sd_until_ready r c)) (\<lambda>c.
       rbind (loops (sd_idle r c)) (\<lambda>c. Inr (0, c)))))))))"

text \<open>disk_init, when the system is built for the SD card.\<close>

definition disk_init_sd :: "'c spi_regs \<Rightarrow> 'c \<Rightarrow> 'c res" where
  "disk_init_sd r c = rbind (sd_init r c) (\<lambda>(ret, c). if ret \<noteq> 0 then Inl (Fatal ''SD card initialization failed'') else Inr c)"

section \<open>The controller and the card\<close>

text \<open>
  The SPI controller. A register is busy while bit 31 of what is read from it is set; after some busy
  reads of txdata a byte can be written, and after some busy reads of rxdata the byte that came back
  is there. \<open>mode\<close> and \<open>dflt\<close> are the contents of the registers CSMODE and CSDEF, which only writes
  to them change.
\<close>

fun after_busy :: "('c \<Rightarrow> m_uint32 \<times> 'c) \<Rightarrow> nat \<Rightarrow> 'c \<Rightarrow> (m_uint32 \<times> 'c) option" where
  "after_busy rd 0 c = (case rd c of (v, c') \<Rightarrow> if bit v 31 then None else Some (v, c'))"
| "after_busy rd (Suc k) c = (case rd c of (v, c') \<Rightarrow> if bit v 31 then after_busy rd k c' else None)"

definition transfers :: "'c spi_regs \<Rightarrow> m_uint8 \<Rightarrow> m_uint8 \<Rightarrow> 'c \<Rightarrow> 'c \<Rightarrow> bool" where
  "transfers r b x c c' \<longleftrightarrow> (\<exists>i j w c1 v. after_busy (read_txdata r) i c = Some (w, c1) \<and>
     after_busy (read_rxdata r) j (write_txdata r (ucast b) c1) = Some (v, c') \<and> ucast v = x)"

fun exchanges :: "'c spi_regs \<Rightarrow> (m_uint8 \<times> m_uint8) list \<Rightarrow> 'c \<Rightarrow> 'c \<Rightarrow> bool" where
  "exchanges r [] c c' \<longleftrightarrow> c' = c"
| "exchanges r (io # ios) c c' \<longleftrightarrow> (\<exists>c1. transfers r (fst io) (snd io) c c1 \<and> exchanges r ios c1 c')"

definition spi_controller :: "'c spi_regs \<Rightarrow> ('c \<Rightarrow> m_uint32) \<Rightarrow> ('c \<Rightarrow> m_uint32) \<Rightarrow> bool" where
  "spi_controller r mode dflt \<longleftrightarrow>
     (\<forall>v c. mode (write_csmode r v c) = v \<and> dflt (write_csmode r v c) = dflt c) \<and>
     (\<forall>v c. mode (write_csdef r v c) = mode c \<and> dflt (write_csdef r v c) = v) \<and>
     (\<forall>v c. mode (write_txdata r v c) = mode c \<and> dflt (write_txdata r v c) = dflt c) \<and>
     (\<forall>c. mode (snd (read_txdata r c)) = mode c \<and> dflt (snd (read_txdata r c)) = dflt c) \<and>
     (\<forall>c. mode (snd (read_rxdata r c)) = mode c \<and> dflt (snd (read_rxdata r c)) = dflt c)"

text \<open>
  The chip select in mode 2 (hold): the controller keeps the pin at its active level, the opposite of
  the default level in bit 0 of CSDEF. Nothing is said of the pin in other modes.
\<close>

definition cs_high :: "('c \<Rightarrow> m_uint32) \<Rightarrow> ('c \<Rightarrow> m_uint32) \<Rightarrow> 'c \<Rightarrow> bool" where
  "cs_high mode dflt c \<longleftrightarrow> mode c = 2 \<and> \<not> bit (dflt c) 0"

definition cs_low :: "('c \<Rightarrow> m_uint32) \<Rightarrow> ('c \<Rightarrow> m_uint32) \<Rightarrow> 'c \<Rightarrow> bool" where
  "cs_low mode dflt c \<longleftrightarrow> mode c = 2 \<and> bit (dflt c) 0"

text \<open>
  The card in SPI mode, as the SD standard describes it. After power-up it needs some clocks (74 in
  the standard, here any number \<open>m\<close> of bytes with eight clocks each) while its chip select is high. Only
  then, and only while the chip select is low, does it take commands. A command is a frame of six bytes;
  after some bytes \<open>0xFF\<close>, fewer than the driver waits for, the card sends the reply. Without a command
  it sends \<open>0xFF\<close>. \<open>at p n c\<close> holds of the states without a pending reply in phase \<open>p\<close>, when the card
  is still busy for \<open>n\<close> rounds of its start; registers of the controller make no clocks.
\<close>

datatype sd_phase = Power_up nat | Idle | App_cmd | Ready

fun clocks_needed :: "sd_phase \<Rightarrow> nat" where
  "clocks_needed (Power_up m) = m"
| "clocks_needed _ = 0"

fun clocked :: "sd_phase \<Rightarrow> sd_phase" where
  "clocked (Power_up m) = Power_up (m - 1)"
| "clocked p = p"

definition replies :: "'c spi_regs \<Rightarrow> 'c \<Rightarrow> m_uint8 list \<Rightarrow> m_uint8 list \<Rightarrow> ('c \<Rightarrow> bool) \<Rightarrow> bool" where
  "replies r c frame bs Q \<longleftrightarrow> (\<exists>k ios c'. k < 8000 \<and> map fst ios = frame \<and>
     exchanges r (ios @ map (Pair 0xFF) (replicate k 0xFF @ bs)) c c' \<and> Q c')"

definition sd_card :: "'c spi_regs \<Rightarrow> ('c \<Rightarrow> bool) \<Rightarrow> ('c \<Rightarrow> bool) \<Rightarrow> (sd_phase \<Rightarrow> nat \<Rightarrow> 'c \<Rightarrow> bool) \<Rightarrow> bool" where
  "sd_card r high low at \<longleftrightarrow>
     (\<forall>p n v c. at p n c \<longrightarrow> at p n (write_csmode r v c) \<and> at p n (write_csdef r v c)) \<and>
     (\<forall>p n c. at p n c \<and> high c \<longrightarrow> (\<exists>x c'. transfers r 0xFF x c c' \<and> at (clocked p) n c')) \<and>
     (\<forall>p n c. at p n c \<and> low c \<and> clocks_needed p = 0 \<longrightarrow> (\<exists>c'. transfers r 0xFF 0xFF c c' \<and> at p n c')) \<and>
     (\<forall>p n c. at p n c \<and> low c \<and> clocks_needed p = 0 \<longrightarrow> replies r c cmd0 [0x01] (\<lambda>c'. \<exists>n'. at Idle n' c')) \<and>
     (\<forall>n c. at Idle n c \<and> low c \<longrightarrow> replies r c cmd8 [0x01, 0, 0, 0x01, 0xAA] (at Idle n)) \<and>
     (\<forall>n c. at Idle n c \<and> low c \<longrightarrow> replies r c cmd55 [0x01] (at App_cmd n)) \<and>
     (\<forall>n c. at App_cmd (Suc n) c \<and> low c \<longrightarrow> replies r c acmd41 [0x01] (at Idle n)) \<and>
     (\<forall>c. at App_cmd 0 c \<and> low c \<longrightarrow> replies r c acmd41 [0x00] (at Ready 0))"

lemma sd_cardD:
  assumes "sd_card r high low at"
  shows "at p n c \<Longrightarrow> at p n (write_csmode r v c) \<and> at p n (write_csdef r v c)"
    "at p n c \<and> high c \<Longrightarrow> \<exists>x c'. transfers r 0xFF x c c' \<and> at (clocked p) n c'"
    "at p n c \<and> low c \<Longrightarrow> clocks_needed p = 0 \<Longrightarrow> \<exists>c'. transfers r 0xFF 0xFF c c' \<and> at p n c'"
    "at p n c \<and> low c \<Longrightarrow> clocks_needed p = 0 \<Longrightarrow> replies r c cmd0 [0x01] (\<lambda>c'. \<exists>n'. at Idle n' c')"
    "at Idle n c \<and> low c \<Longrightarrow> replies r c cmd8 [0x01, 0, 0, 0x01, 0xAA] (at Idle n)"
    "at Idle n c \<and> low c \<Longrightarrow> replies r c cmd55 [0x01] (at App_cmd n)"
    "at App_cmd (Suc n) c \<and> low c \<Longrightarrow> replies r c acmd41 [0x01] (at Idle n)"
    "at App_cmd 0 c \<and> low c \<Longrightarrow> replies r c acmd41 [0x00] (at Ready 0)"
proof -
  have 4: "\<forall>p n c. at p n c \<and> low c \<and> clocks_needed p = 0 \<longrightarrow> replies r c cmd0 [0x01] (\<lambda>c'. \<exists>n'. at Idle n' c')"
    using assms unfolding sd_card_def by (elim conjE) assumption
  then show "at p n c \<and> low c \<Longrightarrow> clocks_needed p = 0 \<Longrightarrow> replies r c cmd0 [0x01] (\<lambda>c'. \<exists>n'. at Idle n' c')"
    using 4 [THEN spec, of p, THEN spec, of n, THEN spec, of c] by simp
qed (use assms in \<open>unfold sd_card_def, simp_all\<close>)

section \<open>Exchanging bytes\<close>

lemma busy_flag: "v AND 0x80000000 = 0 \<longleftrightarrow> \<not> bit v 31" for v :: m_uint32
proof -
  have "(0x80000000 :: m_uint32) = 2 ^ 31" by simp
  then show ?thesis by (simp only: and_exp_eq_0_iff_not_bit)
qed

lemma low_byte: "ucast (v AND 0xFF) = (ucast v :: m_uint8)" for v :: m_uint32
proof -
  have m: "(0xFF :: m_uint32) = mask 8" by (simp add: mask_eq_exp_minus_1)
  show ?thesis unfolding m by (rule bit_word_eqI) (auto simp: bit_simps)
qed

lemma transfers_exchange:
  assumes "transfers r b x c c'"
  shows "spi_exchange r b c = Some (x, c')"
proof -
  have tx: "wait_tx r c = Some c1" if "after_busy (read_txdata r) i c = Some (w, c1)" for i c c1 w
    using that
  proof (induction i arbitrary: c)
    case 0
    then show ?case by (subst wait_tx.simps) (auto simp: busy_flag split: prod.splits if_splits)
  next
    case (Suc i)
    then show ?case by (subst wait_tx.simps) (auto simp: busy_flag split: prod.splits if_splits)
  qed
  have rx: "wait_rx r c = Some (v, c1)" if "after_busy (read_rxdata r) i c = Some (v, c1)" for i c c1 v
    using that
  proof (induction i arbitrary: c)
    case 0
    then show ?case by (subst wait_rx.simps) (auto simp: busy_flag split: prod.splits if_splits)
  next
    case (Suc i)
    then show ?case by (subst wait_rx.simps) (auto simp: busy_flag split: prod.splits if_splits)
  qed
  show ?thesis using assms tx rx unfolding transfers_def spi_exchange_def by (auto simp: low_byte)
qed

lemma transfers_regs:
  assumes ctl: "spi_controller r mode dflt" and t: "transfers r b x c c'"
  shows "mode c' = mode c" "dflt c' = dflt c"
proof -
  have k: "f c1 = f c" if "\<And>c. f (snd (rd c)) = f c" "after_busy rd i c = Some (v, c1)" for f :: "_ \<Rightarrow> m_uint32" and rd i c v c1
    using that(2)
  proof (induction i arbitrary: c)
    case 0
    then show ?case using that(1) [of c] by (auto split: prod.splits if_splits)
  next
    case (Suc i)
    then show ?case using that(1) [of c] by (auto split: prod.splits if_splits)
  qed
  show "mode c' = mode c" "dflt c' = dflt c"
    using t ctl k [of mode "read_txdata r"] k [of mode "read_rxdata r"] k [of dflt "read_txdata r"] k [of dflt "read_rxdata r"]
    unfolding transfers_def spi_controller_def by metis+
qed

lemma exchanges_append: "exchanges r (xs @ ys) c c' \<longleftrightarrow> (\<exists>c1. exchanges r xs c c1 \<and> exchanges r ys c1 c')"
  by (induction xs arbitrary: c) auto

lemma exchanges_send: "exchanges r ios c c' \<Longrightarrow> spi_send r (map fst ios) c = Some c'"
  by (induction ios arbitrary: c) (auto dest: transfers_exchange)

lemma exchanges_recv: "exchanges r (map (Pair 0xFF) bs) c c' \<Longrightarrow> spi_recv r (length bs) c = Some (bs, c')"
  by (induction bs arbitrary: c) (auto dest: transfers_exchange)

lemma exchanges_regs:
  assumes "spi_controller r mode dflt" "exchanges r ios c c'"
  shows "mode c' = mode c \<and> dflt c' = dflt c"
  using assms(2) by (induction ios arbitrary: c) (auto dest: transfers_regs [OF assms(1)])

text \<open>The same facts in terms of the functions of the driver, on a card that stays selected.\<close>

definition answers :: "'c spi_regs \<Rightarrow> 'c \<Rightarrow> m_uint8 list \<Rightarrow> m_uint8 list \<Rightarrow> ('c \<Rightarrow> bool) \<Rightarrow> bool" where
  "answers r c frame bs Q \<longleftrightarrow> (\<exists>k c1 c2. k < 8000 \<and> spi_send r frame c = Some c1 \<and>
     spi_recv r (k + length bs) c1 = Some (replicate k 0xFF @ bs, c2) \<and> Q c2)"

lemma replies_answers:
  assumes ctl: "spi_controller r mode dflt" and low: "cs_low mode dflt c" and rep: "replies r c frame bs Q"
  shows "answers r c frame bs (\<lambda>c'. Q c' \<and> cs_low mode dflt c')"
proof -
  obtain k ios c' where k: "k < 8000" "map fst ios = frame" "exchanges r (ios @ map (Pair 0xFF) (replicate k 0xFF @ bs)) c c'" "Q c'"
    using rep by (auto simp: replies_def)
  obtain c1 where c1: "exchanges r ios c c1" "exchanges r (map (Pair 0xFF) (replicate k 0xFF @ bs)) c1 c'"
    using k(3) unfolding exchanges_append by blast
  have "cs_low mode dflt c'" using exchanges_regs [OF ctl k(3)] low by (simp add: cs_low_def)
  moreover have "spi_send r frame c = Some c1" using exchanges_send [OF c1(1)] k(2) by simp
  moreover have "spi_recv r (k + length bs) c1 = Some (replicate k 0xFF @ bs, c')" using exchanges_recv [OF c1(2)] by simp
  ultimately show ?thesis unfolding answers_def using k(1,4) by blast
qed

text \<open>A selected card: \<open>at\<close> includes that the chip select is low.\<close>

locale selected_card =
  fixes r :: "'c spi_regs" and at :: "sd_phase \<Rightarrow> nat \<Rightarrow> 'c \<Rightarrow> bool"
  assumes quiet: "at p n c \<Longrightarrow> clocks_needed p = 0 \<Longrightarrow> \<exists>c'. spi_exchange r 0xFF c = Some (0xFF, c') \<and> at p n c'"
    and on_cmd0: "at p n c \<Longrightarrow> clocks_needed p = 0 \<Longrightarrow> answers r c cmd0 [0x01] (\<lambda>c'. \<exists>n'. at Idle n' c')"
    and on_cmd8: "at Idle n c \<Longrightarrow> answers r c cmd8 [0x01, 0, 0, 0x01, 0xAA] (at Idle n)"
    and on_cmd55: "at Idle n c \<Longrightarrow> answers r c cmd55 [0x01] (at App_cmd n)"
    and on_acmd41_busy: "at App_cmd (Suc n) c \<Longrightarrow> answers r c acmd41 [0x01] (at Idle n)"
    and on_acmd41_ready: "at App_cmd 0 c \<Longrightarrow> answers r c acmd41 [0x00] (at Ready 0)"

lemma selected_cardI:
  assumes ctl: "spi_controller r mode dflt" and card: "sd_card r (cs_high mode dflt) (cs_low mode dflt) at"
  shows "selected_card r (\<lambda>p n c. at p n c \<and> cs_low mode dflt c)"
proof
  fix p n c assume a: "at p n c \<and> cs_low mode dflt c" "clocks_needed p = 0"
  then obtain c' where c': "transfers r 0xFF 0xFF c c'" "at p n c'" using sd_cardD(3) [OF card] by blast
  then show "\<exists>c'. spi_exchange r 0xFF c = Some (0xFF, c') \<and> at p n c' \<and> cs_low mode dflt c'"
    using transfers_exchange [OF c'(1)] transfers_regs [OF ctl c'(1)] a(1) by (auto simp: cs_low_def)
  from replies_answers [OF ctl conjunct2 [OF a(1)] sd_cardD(4) [OF card a]]
  show "answers r c cmd0 [0x01] (\<lambda>c'. \<exists>n'. at Idle n' c' \<and> cs_low mode dflt c')" by simp
next
  fix n c assume a: "at Idle n c \<and> cs_low mode dflt c"
  show "answers r c cmd8 [0x01, 0, 0, 0x01, 0xAA] (\<lambda>c. at Idle n c \<and> cs_low mode dflt c)"
    by (rule replies_answers [OF ctl conjunct2 [OF a] sd_cardD(5) [OF card a]])
  show "answers r c cmd55 [0x01] (\<lambda>c. at App_cmd n c \<and> cs_low mode dflt c)"
    by (rule replies_answers [OF ctl conjunct2 [OF a] sd_cardD(6) [OF card a]])
next
  fix n c assume a: "at App_cmd (Suc n) c \<and> cs_low mode dflt c"
  show "answers r c acmd41 [0x01] (\<lambda>c. at Idle n c \<and> cs_low mode dflt c)"
    by (rule replies_answers [OF ctl conjunct2 [OF a] sd_cardD(7) [OF card a]])
next
  fix c assume a: "at App_cmd 0 c \<and> cs_low mode dflt c"
  show "answers r c acmd41 [0x00] (\<lambda>c. at Ready 0 c \<and> cs_low mode dflt c)"
    by (rule replies_answers [OF ctl conjunct2 [OF a] sd_cardD(8) [OF card a]])
qed

lemma sd_reply_finds:
  assumes "spi_recv r (k + Suc m) c = Some (replicate k 0xFF @ b # bs, c')" "k < n" "b \<noteq> 0xFF"
  shows "\<exists>c2. sd_reply r n c = Some (b, c2) \<and> spi_recv r m c2 = Some (bs, c')"
  using assms
proof (induction k arbitrary: n c)
  case 0
  then show ?case by (cases n) (auto simp: bind_eq_Some_conv)
next
  case (Suc k)
  then obtain n' where n: "n = Suc n'" "k < n'" by (cases n) auto
  obtain c1 where c1: "spi_exchange r 0xFF c = Some (0xFF, c1)" "spi_recv r (k + Suc m) c1 = Some (replicate k 0xFF @ b # bs, c')"
    using Suc.prems(1) by (auto simp: bind_eq_Some_conv)
  from Suc.IH [OF c1(2) n(2) Suc.prems(3)] c1(1) n(1) show ?case by simp
qed

lemma sd_exec_cmd_reply:
  assumes "answers r c frame (b # bs) Q" "b \<noteq> 0xFF"
  obtains c2 c3 where "sd_exec_cmd r frame c = Some (b, c2)" "spi_recv r (length bs) c2 = Some (bs, c3)" "Q c3"
proof -
  obtain k c1 c' where k: "k < 8000" "spi_send r frame c = Some c1" "spi_recv r (k + Suc (length bs)) c1 = Some (replicate k 0xFF @ b # bs, c')" "Q c'"
    using assms(1) by (auto simp: answers_def)
  obtain c2 where "sd_reply r 8000 c1 = Some (b, c2)" "spi_recv r (length bs) c2 = Some (bs, c')"
    using sd_reply_finds [OF k(3,1) assms(2)] by blast
  with k(2,4) show thesis by (intro that) (simp_all add: sd_exec_cmd_def)
qed

lemma sd_exec_cmd_r1:
  assumes "answers r c frame [b] Q" "b \<noteq> 0xFF"
  obtains c' where "sd_exec_cmd r frame c = Some (b, c')" "Q c'"
  using assms by (elim sd_exec_cmd_reply) auto

lemma loops_Some [simp]: "loops (Some x) = Inr x"
  by (simp add: loops_def)

context selected_card
begin

lemma idle_at:
  assumes "at p n c" "clocks_needed p = 0"
  obtains c' where "sd_idle r c = Some c'" "at p n c'"
proof -
  obtain c' where "spi_exchange r 0xFF c = Some (0xFF, c')" "at p n c'" using quiet [OF assms] by blast
  then show thesis by (intro that [of c']) (subst sd_idle.simps, simp_all)
qed

lemma send_quiet:
  assumes "at p n c" "clocks_needed p = 0"
  shows "\<exists>c'. spi_send r (replicate k 0xFF) c = Some c' \<and> at p n c'"
  using assms(1)
proof (induction k arbitrary: c)
  case (Suc k)
  obtain c1 where c1: "spi_exchange r 0xFF c = Some (0xFF, c1)" "at p n c1" using quiet [OF Suc.prems assms(2)] by blast
  with Suc.IH [OF c1(2)] show ?case by simp
qed simp

text \<open>The loop that starts the card ends, as the card is busy for finitely many rounds.\<close>

lemma exec_acmd_at:
  assumes "at Idle n c" and r41: "\<And>c. at App_cmd n c \<Longrightarrow> answers r c acmd41 [b] Q" "b \<noteq> 0xFF"
  obtains c' where "sd_exec_acmd r acmd41 c = Some (b, c')" "Q c'"
proof -
  obtain c1 where c1: "sd_idle r c = Some c1" "at Idle n c1" by (rule idle_at [OF assms(1)]) simp
  obtain c2 where c2: "sd_exec_cmd r cmd55 c1 = Some (0x01, c2)" "at App_cmd n c2"
    by (rule sd_exec_cmd_r1 [OF on_cmd55 [OF c1(2)]]) simp
  obtain c3 where c3: "sd_idle r c2 = Some c3" "at App_cmd n c3" by (rule idle_at [OF c2(2)]) simp
  obtain c4 where c4: "sd_exec_cmd r acmd41 c3 = Some (b, c4)" "Q c4" by (rule sd_exec_cmd_r1 [OF r41(1) [OF c3(2)] r41(2)])
  from c1 c2 c3 c4 show thesis by (intro that [of c4]) (simp_all add: sd_exec_acmd_def)
qed

lemma until_ready_at:
  assumes "at Idle n c"
  shows "\<exists>c'. sd_until_ready r c = Some c' \<and> at Ready 0 c'"
  using assms
proof (induction n arbitrary: c)
  case 0
  obtain c' where "sd_exec_acmd r acmd41 c = Some (0x00, c')" "at Ready 0 c'"
    by (rule exec_acmd_at [OF 0 on_acmd41_ready]) simp_all
  then show ?case by (subst sd_until_ready.simps) simp
next
  case (Suc n)
  obtain c1 where c1: "sd_exec_acmd r acmd41 c = Some (0x01, c1)" "at Idle n c1"
    by (rule exec_acmd_at [OF Suc.prems on_acmd41_busy]) simp_all
  then show ?case using Suc.IH [OF c1(2)] by (subst sd_until_ready.simps) simp
qed

lemma check_voltage_at:
  assumes "at Idle n c"
  obtains c' where "sd_check_voltage r c = Inr c'" "at Idle n c'"
proof -
  obtain c2 c3 where c: "sd_exec_cmd r cmd8 c = Some (0x01, c2)" "spi_recv r (length [0 :: m_uint8, 0, 0x01, 0xAA]) c2 = Some ([0, 0, 0x01, 0xAA], c3)" "at Idle n c3"
    by (rule sd_exec_cmd_reply [OF on_cmd8 [OF assms]]) simp
  have "payload_of [0, 0, 0x01, 0xAA] = 0x1AA" by (simp add: payload_of_def le32_def)
  with c show thesis by (intro that [of c3]) (simp_all add: sd_check_voltage_def numeral_eq_Suc del: spi_recv.simps)
qed

text \<open>sd_init from the point where the card is selected on.\<close>

lemma init_selected:
  assumes "spi_send r (replicate 1000 0xFF) (write_csmode r 2 c) = Some c0" "at p n (write_csdef r 1 c0)" "clocks_needed p = 0"
  shows "\<exists>c'. sd_init r c = Inr (0, c') \<and> at Ready 0 c'"
proof -
  obtain c1 m where c1: "sd_exec_cmd r cmd0 (write_csdef r 1 c0) = Some (0x01, c1)" "at Idle m c1"
    by (rule sd_exec_cmd_r1 [OF on_cmd0 [OF assms(2,3)]]) (auto intro: that)
  have c1': "sd_until_idle_state r 0x01 c1 = Some c1" by (subst sd_until_idle_state.simps) simp
  obtain c3 where c3: "sd_idle r c1 = Some c3" "at Idle m c3" by (rule idle_at [OF c1(2)]) simp
  obtain c4 where c4: "sd_check_voltage r c3 = Inr c4" "at Idle m c4" by (rule check_voltage_at [OF c3(2)])
  obtain c5 where c5: "sd_idle r c4 = Some c5" "at Idle m c5" by (rule idle_at [OF c4(2)]) simp
  obtain c6 where c6: "sd_until_ready r c5 = Some c6" "at Ready 0 c6" using until_ready_at [OF c5(2)] by blast
  obtain c7 where c7: "sd_idle r c6 = Some c7" "at Ready 0 c7" by (rule idle_at [OF c6(2)]) simp
  show ?thesis using assms(1) c1(1) c1' c3(1) c4(1) c5(1) c6(1) c7 by (intro exI [of _ c7]) (simp add: sd_init_def)
qed

end

section \<open>Starting a card\<close>

text \<open>The clocks before the first command, with the chip select high.\<close>

lemma power_up_clocks:
  assumes ctl: "spi_controller r mode dflt" and card: "sd_card r (cs_high mode dflt) (cs_low mode dflt) at"
    and c: "at p n c" "cs_high mode dflt c"
  shows "\<exists>c'. spi_send r (replicate k 0xFF) c = Some c' \<and> at ((clocked ^^ k) p) n c' \<and> cs_high mode dflt c'"
  using c
proof (induction k arbitrary: c p)
  case (Suc k)
  obtain x c1 where c1: "transfers r 0xFF x c c1" "at (clocked p) n c1"
    using sd_cardD(2) [OF card conjI [OF Suc.prems]] by blast
  have "cs_high mode dflt c1" using transfers_regs [OF ctl c1(1)] Suc.prems(2) by (simp add: cs_high_def)
  from Suc.IH [OF c1(2) this] transfers_exchange [OF c1(1)] show ?case by (simp add: funpow_swap1)
qed auto

lemma clocks_needed_pow: "clocks_needed ((clocked ^^ k) p) = clocks_needed p - k"
proof (induction k arbitrary: p)
  case (Suc k)
  then show ?case by (cases p) (simp_all add: funpow_swap1)
qed simp

text \<open>
  C40. sd_init ends and succeeds, with an SPI controller and a card that behave as the manual of the
  controller and the SD standard say, however many rounds the card is busy. The chip select must be
  high for the clocks that a card needs after power-up: either CSDEF is 0 at the start, and the loop
  gives the card its clocks (up to 1000 bytes of eight clocks; the standard asks for 74 clocks), or
  the card has had them. In the end the card is selected and ready for commands.
\<close>

theorem sd_init_correct:
  assumes ctl: "spi_controller r mode dflt" and card: "sd_card r (cs_high mode dflt) (cs_low mode dflt) at"
    and c: "at p n c" "clocks_needed p \<le> (if bit (dflt c) 0 then 0 else 1000)"
  shows "\<exists>c'. sd_init r c = Inr (0, c') \<and> at Ready 0 c' \<and> cs_low mode dflt c'"
proof -
  note sel = selected_cardI [OF ctl card]
  let ?c = "write_csmode r 2 c"
  have w: "at q n d \<Longrightarrow> at q n (write_csmode r v d) \<and> at q n (write_csdef r v d)" for q d v
    by (rule sd_cardD(1) [OF card])
  have m: "mode ?c = 2" "dflt ?c = dflt c" "mode (write_csdef r 1 d) = mode d" "dflt (write_csdef r 1 d) = 1" for d
    using ctl unfolding spi_controller_def by blast+
  have a: "at p n ?c" using w [OF c(1)] by blast
  have "\<exists>c0 q. spi_send r (replicate 1000 0xFF) ?c = Some c0 \<and> at q n c0 \<and> clocks_needed q = 0 \<and> mode c0 = 2"
  proof (cases "bit (dflt c) 0")
    case True
    then have z: "clocks_needed p = 0" and "cs_low mode dflt ?c" using c(2) m(1,2) by (simp_all add: cs_low_def)
    then show ?thesis using selected_card.send_quiet [OF sel conjI [OF a] z, of 1000] z unfolding cs_low_def by blast
  next
    case False
    then have "cs_high mode dflt ?c" using m(1,2) by (simp add: cs_high_def)
    from power_up_clocks [OF ctl card a this, of 1000] obtain c0 where
      "spi_send r (replicate 1000 0xFF) ?c = Some c0" "at ((clocked ^^ 1000) p) n c0" "cs_high mode dflt c0" by blast
    moreover have "clocks_needed ((clocked ^^ 1000) p) = 0" using c(2) False by (simp add: clocks_needed_pow)
    ultimately show ?thesis unfolding cs_high_def by blast
  qed
  then obtain c0 q where c0: "spi_send r (replicate 1000 0xFF) ?c = Some c0" "at q n c0" "clocks_needed q = 0" "mode c0 = 2" by blast
  have "cs_low mode dflt (write_csdef r 1 c0)" using m(3,4) c0(4) by (simp add: cs_low_def)
  with w [OF c0(2)] have "at q n (write_csdef r 1 c0) \<and> cs_low mode dflt (write_csdef r 1 c0)" by blast
  from selected_card.init_selected [OF sel c0(1) this c0(3)] show ?thesis by blast
qed

text \<open>Without a card the bus reads all ones: sd_init gives up after 8000 bytes, and disk_init is fatal.\<close>

theorem sd_init_no_card:
  assumes "\<And>b c. \<exists>c'. spi_exchange r b c = Some (0xFF, c')"
  shows "\<exists>c'. sd_init r c = Inr (-1, c')" "disk_init_sd r c = Inl (Fatal ''SD card initialization failed'')"
proof -
  have send: "\<exists>c'. spi_send r bs c = Some c'" for bs c
  proof (induction bs arbitrary: c)
    case (Cons b bs)
    then show ?case using assms [of b c] by (metis bind.bind_lunit case_prod_conv spi_send.simps(2))
  qed simp
  have reply: "\<exists>c'. sd_reply r n c = Some (0xFF, c')" for n c
  proof (induction n arbitrary: c)
    case (Suc n)
    obtain c1 where "spi_exchange r 0xFF c = Some (0xFF, c1)" using assms by blast
    with Suc [of c1] show ?case by simp
  qed simp
  obtain c1 where c1: "spi_send r (replicate 1000 0xFF) (write_csmode r 2 c) = Some c1" using send by blast
  obtain c2 where "spi_send r cmd0 (write_csdef r 1 c1) = Some c2" using send by blast
  moreover obtain c3 where "sd_reply r 8000 c2 = Some (0xFF, c3)" using reply by blast
  ultimately have "sd_init r c = Inr (-1, c3)" using c1 by (simp add: sd_init_def sd_exec_cmd_def)
  then show "\<exists>c'. sd_init r c = Inr (-1, c')" "disk_init_sd r c = Inl (Fatal ''SD card initialization failed'')"
    by (simp_all add: disk_init_sd_def)
qed

section \<open>A card\<close>

record demo_card =
  frame_in :: "m_uint8 list"
  out :: "m_uint8 list"
  phase :: sd_phase
  busy :: nat
  latch :: m_uint8
  csmode :: m_uint32
  csdef :: m_uint32

definition demo_execute :: "m_uint8 list \<Rightarrow> demo_card \<Rightarrow> demo_card" where
  "demo_execute f c =
     (if f = cmd0 then c\<lparr>out := [0xFF, 0x01], phase := Idle\<rparr>
      else if f = cmd8 then c\<lparr>out := [0xFF, 0x01, 0, 0, 0x01, 0xAA]\<rparr>
      else if f = cmd55 then c\<lparr>out := [0xFF, 0x01], phase := App_cmd\<rparr>
      else if f = acmd41 \<and> phase c = App_cmd
      then case busy c of 0 \<Rightarrow> c\<lparr>out := [0xFF, 0x00], phase := Ready\<rparr> | Suc n \<Rightarrow> c\<lparr>out := [0xFF, 0x01], phase := Idle, busy := n\<rparr>
      else c\<lparr>out := [0xFF, 0x05]\<rparr>)"

definition demo_step :: "m_uint8 \<Rightarrow> demo_card \<Rightarrow> demo_card" where
  "demo_step b c =
     (if cs_high csmode csdef c then c\<lparr>latch := 0xFF, phase := clocked (phase c)\<rparr>
      else if \<not> cs_low csmode csdef c \<or> clocks_needed (phase c) \<noteq> 0 then c\<lparr>latch := 0xFF\<rparr>
      else case out c of x # xs \<Rightarrow> c\<lparr>latch := x, out := xs\<rparr>
     | [] \<Rightarrow> if frame_in c = [] \<and> b = 0xFF then c\<lparr>latch := 0xFF\<rparr>
         else let f = frame_in c @ [b] in
           if length f < 6 then c\<lparr>latch := 0xFF, frame_in := f\<rparr> else demo_execute f (c\<lparr>latch := 0xFF, frame_in := []\<rparr>))"

definition demo_spi :: "demo_card spi_regs" where
  "demo_spi = \<lparr>read_txdata = (\<lambda>c. (0, c)), write_txdata = (\<lambda>v. demo_step (ucast v)), read_rxdata = (\<lambda>c. (ucast (latch c), c)),
     write_csmode = (\<lambda>v c. c\<lparr>csmode := v\<rparr>), write_csdef = (\<lambda>v c. c\<lparr>csdef := v\<rparr>)\<rparr>"

definition demo_at :: "sd_phase \<Rightarrow> nat \<Rightarrow> demo_card \<Rightarrow> bool" where
  "demo_at p n c \<longleftrightarrow> frame_in c = [] \<and> out c = [] \<and> phase c = p \<and> busy c = n"

lemma demo_transfers: "transfers demo_spi b (latch (demo_step b c)) c (demo_step b c)"
proof -
  let ?c = "demo_step b c"
  have "\<not> bit (ucast (latch ?c) :: m_uint32) 31" by (simp add: bit_simps) (auto dest: bit_imp_le_length)
  moreover have "ucast (ucast (latch ?c) :: m_uint32) = latch ?c" "ucast (ucast b :: m_uint32) = b" by (rule bit_eqI; auto simp: bit_simps)+
  ultimately show ?thesis unfolding transfers_def
    by (intro exI [of _ 0] exI [of _ "0 :: m_uint32"] exI [of _ c] exI [of _ "ucast (latch ?c)"]) (simp add: demo_spi_def)
qed

lemma demo_execute_regs: "csmode (demo_execute f c) = csmode c" "csdef (demo_execute f c) = csdef c"
  by (simp_all add: demo_execute_def split: nat.split)

lemma demo_regs: "csmode (demo_step b c) = csmode c" "csdef (demo_step b c) = csdef c"
  by (simp_all add: demo_step_def demo_execute_regs Let_def split: list.split)

lemma demo_controller: "spi_controller demo_spi csmode csdef"
  by (simp add: spi_controller_def demo_spi_def demo_regs)

lemma demo_drain:
  assumes "cs_low csmode csdef x" "clocks_needed (phase x) = 0" "out x = ys" "ys \<noteq> []"
  shows "exchanges demo_spi (map (Pair 0xFF) ys) x (x\<lparr>out := [], latch := last ys\<rparr>)"
  using assms
proof (induction ys arbitrary: x)
  case (Cons y ys)
  have h: "\<not> cs_high csmode csdef x" using Cons.prems(1) by (simp add: cs_low_def cs_high_def)
  have step: "demo_step 0xFF x = x\<lparr>latch := y, out := ys\<rparr>" using Cons.prems h by (simp add: demo_step_def)
  have t: "transfers demo_spi 0xFF y x (x\<lparr>latch := y, out := ys\<rparr>)" using demo_transfers [of "0xFF" x] by (simp add: step)
  show ?case
  proof (cases "ys = []")
    case True
    have "x\<lparr>latch := y, out := []\<rparr> = x\<lparr>out := [], latch := y\<rparr>" by simp
    with t True show ?thesis by simp
  next
    case False
    have "exchanges demo_spi (map (Pair 0xFF) ys) (x\<lparr>latch := y, out := ys\<rparr>) (x\<lparr>latch := y, out := ys, out := [], latch := last ys\<rparr>)"
      by (rule Cons.IH) (use Cons.prems False in \<open>simp_all add: cs_low_def\<close>)
    then show ?thesis using t False by auto
  qed
qed simp

lemma demo_frame:
  assumes "cs_low csmode csdef c" "clocks_needed (phase c) = 0" "frame_in c = []" "out c = []" "length f = 6" "hd f \<noteq> 0xFF"
  shows "\<exists>ios. map fst ios = f \<and> exchanges demo_spi ios c (demo_execute f (c\<lparr>latch := 0xFF\<rparr>))"
proof -
  have h: "\<not> cs_high csmode csdef c" using assms(1) by (simp add: cs_low_def cs_high_def)
  obtain a0 a1 a2 a3 a4 a5 where fs: "f = [a0, a1, a2, a3, a4, a5]" using assms(5) by (auto simp: length_Suc_conv numeral_eq_Suc)
  define d where "d g = c\<lparr>latch := 0xFF, frame_in := g\<rparr>" for g
  have low: "cs_low csmode csdef (d g)" "\<not> cs_high csmode csdef (d g)" "clocks_needed (phase (d g)) = 0" "frame_in (d g) = g" "out (d g) = []" for g
    using assms(1,2,4) h by (simp_all add: d_def cs_low_def cs_high_def)
  have dd: "d g\<lparr>latch := 0xFF, frame_in := g'\<rparr> = d g'" for g g' by (simp add: d_def)
  have first: "demo_step a0 c = d [a0]" using assms h fs by (simp add: demo_step_def d_def)
  have step: "demo_step b (d (x # g)) = (if length g < 4 then d (x # g @ [b]) else demo_execute (x # g @ [b]) (d []))" for b x g
    unfolding demo_step_def using low [of "x # g"] dd by (simp add: Let_def)
  have same: "d [] = c\<lparr>latch := 0xFF\<rparr>" unfolding d_def using assms(3) by (cases c) simp
  note t = demo_transfers
  let ?ios = "[(a0, latch (d [a0])), (a1, latch (d [a0, a1])), (a2, latch (d [a0, a1, a2])), (a3, latch (d [a0, a1, a2, a3])),
      (a4, latch (d [a0, a1, a2, a3, a4])), (a5, latch (demo_execute f (d [])))]"
  have "exchanges demo_spi ?ios c (demo_execute f (d []))"
    using t [of a0 c] t [of a1 "d [a0]"] t [of a2 "d [a0, a1]"] t [of a3 "d [a0, a1, a2]"] t [of a4 "d [a0, a1, a2, a3]"] t [of a5 "d [a0, a1, a2, a3, a4]"]
    unfolding fs by (simp add: first step) blast
  moreover have "map fst ?ios = f" using fs by simp
  ultimately show ?thesis unfolding same [symmetric] by (intro exI [of _ ?ios] conjI)
qed

lemma demo_replies:
  assumes f: "length f = 6" "hd f \<noteq> 0xFF" and c: "cs_low csmode csdef c" "clocks_needed (phase c) = 0" "frame_in c = []" "out c = []"
    and e: "out (demo_execute f (c\<lparr>latch := 0xFF\<rparr>)) = 0xFF # bs" "clocks_needed (phase (demo_execute f (c\<lparr>latch := 0xFF\<rparr>))) = 0"
      "Q (demo_execute f (c\<lparr>latch := 0xFF\<rparr>)\<lparr>out := [], latch := last bs\<rparr>)" "bs \<noteq> []"
  shows "replies demo_spi c f bs Q"
proof -
  let ?e = "demo_execute f (c\<lparr>latch := 0xFF\<rparr>)"
  obtain ios where ios: "map fst ios = f" "exchanges demo_spi ios c ?e" using demo_frame [OF c f] by blast
  have "cs_low csmode csdef ?e" using c(1) by (simp add: cs_low_def demo_execute_regs)
  from demo_drain [OF this e(2,1)] have "exchanges demo_spi (map (Pair 0xFF) (0xFF # bs)) ?e (?e\<lparr>out := [], latch := last bs\<rparr>)" using e(4) by simp
  with ios(2) have "exchanges demo_spi (ios @ map (Pair 0xFF) (replicate 1 0xFF @ bs)) c (?e\<lparr>out := [], latch := last bs\<rparr>)"
    unfolding exchanges_append by (simp del: exchanges.simps) blast
  then show ?thesis unfolding replies_def using ios(1) e(3) by (intro exI [of _ 1] exI [of _ ios] exI conjI) (simp, assumption+)
qed

lemmas cmds = cmd0_def cmd8_def cmd55_def acmd41_def

lemma demo_sd_card: "sd_card demo_spi (cs_high csmode csdef) (cs_low csmode csdef) demo_at"
  unfolding sd_card_def
proof (intro conjI allI impI)
  fix p n v c assume a: "demo_at p n c"
  then show "demo_at p n (write_csmode demo_spi v c)" "demo_at p n (write_csdef demo_spi v c)" by (simp_all add: demo_spi_def demo_at_def)
next
  fix p n c assume a: "demo_at p n c \<and> cs_high csmode csdef c"
  then show "\<exists>x c'. transfers demo_spi 0xFF x c c' \<and> demo_at (clocked p) n c'"
    using demo_transfers [of "0xFF" c] by (intro exI conjI) (assumption, simp add: demo_step_def demo_at_def)
next
  fix p n c assume a: "demo_at p n c \<and> cs_low csmode csdef c \<and> clocks_needed p = 0"
  then have s: "demo_step 0xFF c = c\<lparr>latch := 0xFF\<rparr>" by (simp add: demo_step_def demo_at_def cs_low_def cs_high_def)
  show "\<exists>c'. transfers demo_spi 0xFF 0xFF c c' \<and> demo_at p n c'"
    using demo_transfers [of "0xFF" c] a unfolding s by (intro exI conjI) (simp, simp add: demo_at_def)
  show "replies demo_spi c cmd0 [0x01] (\<lambda>c'. \<exists>n'. demo_at Idle n' c')"
    by (rule demo_replies) (use a in \<open>simp_all add: demo_at_def demo_execute_def cmds\<close>)
next
  fix n c assume a: "demo_at Idle n c \<and> cs_low csmode csdef c"
  show "replies demo_spi c cmd8 [0x01, 0, 0, 0x01, 0xAA] (demo_at Idle n)" "replies demo_spi c cmd55 [0x01] (demo_at App_cmd n)"
    by (rule demo_replies; use a in \<open>simp add: demo_at_def demo_execute_def cmds\<close>)+
next
  fix n c assume "demo_at App_cmd (Suc n) c \<and> cs_low csmode csdef c"
  then show "replies demo_spi c acmd41 [0x01] (demo_at Idle n)"
    by (intro demo_replies) (simp_all add: demo_at_def demo_execute_def cmds)
next
  fix c assume "demo_at App_cmd 0 c \<and> cs_low csmode csdef c"
  then show "replies demo_spi c acmd41 [0x00] (demo_at Ready 0)"
    by (intro demo_replies) (simp_all add: demo_at_def demo_execute_def cmds)
qed

interpretation demo: selected_card demo_spi "\<lambda>p n c. demo_at p n c \<and> cs_low csmode csdef c"
  by (rule selected_cardI [OF demo_controller demo_sd_card])

theorem sd_init_correct_witness:
  "\<exists>c'. sd_init demo_spi \<lparr>frame_in = [], out = [], phase = Power_up 10, busy = 3, latch = 0, csmode = 0, csdef = 0\<rparr> = Inr (0, c') \<and> phase c' = Ready"
  using sd_init_correct [OF demo_controller demo_sd_card,
      of "Power_up 10" 3 "\<lparr>frame_in = [], out = [], phase = Power_up 10, busy = 3, latch = 0, csmode = 0, csdef = 0\<rparr>"]
  by (auto simp: demo_at_def)

end
