(* ===== verification/Machine.thy ===== *)
theory Machine
  imports Shell Kernel_IPC
begin

text \<open>
  Small parts near the machine: the interrupt registers (earth/cpu_intr.c), the characters of the
  terminal outside of tty_read (earth/dev_tty.c, earth/bus_uart.c), and the heap of a process
  (library/libc/malloc.c). The theory shows that exactly the timer and software interrupts are
  enabled, that an output ends and is complete, and that the heap gives out disjoint regions.
\<close>

section \<open>Interrupts\<close>

record 'h cpu =
  mstatus :: m_uint32
  mie :: m_uint32
  mtvec :: m_uint32
  handler :: "'h option"

definition trap_handler_register :: "'h \<Rightarrow> 'h cpu \<Rightarrow> 'h cpu" where
  "trap_handler_register h s = s\<lparr>handler := Some h\<rparr>"

text \<open>The handler takes the cause of the trap and the state of the kernel; \<open>run\<close> calls it.\<close>

definition trap_entry :: "('h \<Rightarrow> m_uint32 \<Rightarrow> 'k \<Rightarrow> 'k res) \<Rightarrow> m_uint32 \<Rightarrow> 'h cpu \<Rightarrow> 'k \<Rightarrow> 'k res" where
  "trap_entry run mcause s k = (case handler s of
     None \<Rightarrow> Inl (Fatal ''trap_entry: trap handler not registered'') | Some h \<Rightarrow> run h mcause k)"

definition intr_enable :: "'h cpu \<Rightarrow> 'h cpu" where
  "intr_enable s = s\<lparr>mstatus := mstatus s OR 0x8, mie := mie s OR 0x88\<rparr>"

text \<open>The two entries that the code sets in the earth interface are the definitions above.\<close>

definition intr_init :: "m_uint32 \<Rightarrow> 'h cpu \<Rightarrow> 'h cpu" where
  "intr_init entry s = s\<lparr>mtvec := entry\<rparr>"

text \<open>Bit 3 of mstatus enables interrupts; bits 3 and 7 of mie are those that the handler distinguishes.\<close>

theorem intr_enable_correct:
  "bit (mstatus (intr_enable s)) i \<longleftrightarrow> i = 3 \<or> bit (mstatus s) i"
  "bit (mie (intr_enable s)) i \<longleftrightarrow> i = INTR_ID_SOFT \<or> i = INTR_ID_TIMER \<or> bit (mie s) i"
proof -
  have "bit (0x8 :: m_uint32) i \<longleftrightarrow> i = 3" "bit (0x88 :: m_uint32) i \<longleftrightarrow> i = 3 \<or> i = 7"
  proof -
    have "(0x8 :: m_uint32) = 2 ^ 3" "(0x88 :: m_uint32) = 2 ^ 3 OR 2 ^ 7" by simp_all
    then show "bit (0x8 :: m_uint32) i \<longleftrightarrow> i = 3" "bit (0x88 :: m_uint32) i \<longleftrightarrow> i = 3 \<or> i = 7"
      by (simp_all only: bit_or_iff bit_exp_iff possible_bit_word) auto
  qed
  then show "bit (mstatus (intr_enable s)) i \<longleftrightarrow> i = 3 \<or> bit (mstatus s) i"
    "bit (mie (intr_enable s)) i \<longleftrightarrow> i = INTR_ID_SOFT \<or> i = INTR_ID_TIMER \<or> bit (mie s) i"
    by (auto simp: intr_enable_def bit_or_iff INTR_ID_SOFT_def INTR_ID_TIMER_def)
qed

section \<open>The terminal\<close>

record tty =
  tty_c :: int
  is_reading :: bool

text \<open>\<open>reg\<close> is the value of the receive register, if it is read.\<close>

definition tty_intr :: "m_uint32 \<Rightarrow> tty \<Rightarrow> bool \<times> tty" where
  "tty_intr reg s = (if is_reading s then (False, s) else (uart_getc reg = 3, s\<lparr>tty_c := uart_getc reg\<rparr>))"

text \<open>
  The transmit register: \<open>regs k\<close> is its value at the \<open>k\<close>-th read, whose top bit says that the UART is
  busy; the state is the number of reads so far and the characters written. \<open>None\<close> when the wait
  does not end.
\<close>

partial_function (option) uart_wait :: "(nat \<Rightarrow> m_uint32) \<Rightarrow> nat \<Rightarrow> nat option" where
  "uart_wait regs k = (if regs k AND push_bit 31 1 \<noteq> 0 then uart_wait regs (Suc k) else Some (Suc k))"

definition uart_putc :: "(nat \<Rightarrow> m_uint32) \<Rightarrow> m_uint8 \<Rightarrow> nat \<times> m_uint8 list \<Rightarrow> (nat \<times> m_uint8 list) option" where
  "uart_putc regs c s = Option.bind (uart_wait regs (fst s)) (\<lambda>k. Some (k, snd s @ [c]))"

fun tty_write :: "(nat \<Rightarrow> m_uint32) \<Rightarrow> m_uint8 list \<Rightarrow> nat \<Rightarrow> nat \<times> m_uint8 list \<Rightarrow> (nat \<times> m_uint8 list) option" where
  "tty_write regs buf 0 s = Some s"
| "tty_write regs buf (Suc n) s = Option.bind (tty_write regs buf n s) (uart_putc regs (buf ! n))"

lemma uart_wait_ends:
  assumes "k \<le> j" "regs j AND push_bit 31 1 = 0"
  shows "\<exists>k'. uart_wait regs k = Some k'"
  using assms
proof (induction "j - k" arbitrary: k)
  case 0
  then show ?case by (subst uart_wait.simps) simp
next
  case (Suc m)
  then have "\<exists>k'. uart_wait regs (Suc k) = Some k'" by (intro Suc.hyps(1)) simp_all
  then show ?case by (subst uart_wait.simps) auto
qed

text \<open>If the UART never stays busy forever, the output ends, and it is the first \<open>n\<close> characters in order.\<close>

theorem tty_write_correct:
  assumes "\<And>k. \<exists>j \<ge> k. regs j AND push_bit 31 1 = 0" "n \<le> length buf"
  shows "\<exists>k'. tty_write regs buf n (k, out) = Some (k', out @ take n buf)"
  using assms(2)
proof (induction n)
  case (Suc n)
  then obtain k1 where "tty_write regs buf n (k, out) = Some (k1, out @ take n buf)" by auto
  moreover obtain k2 where "uart_wait regs k1 = Some k2" using uart_wait_ends assms(1) by blast
  ultimately show ?case using Suc.prems by (simp add: uart_putc_def take_Suc_conv_app_nth)
qed simp

text \<open>
  What the C library calls to print. As tty_write has no return statement, the result of a write to
  the standard output is undefined: an argument \<open>u\<close> here.
\<close>

definition STDOUT_FILENO :: int where
  "STDOUT_FILENO = 1"

definition libc_write :: "int \<Rightarrow> (nat \<Rightarrow> m_uint32) \<Rightarrow> int \<Rightarrow> m_uint8 list \<Rightarrow> int \<Rightarrow> nat \<times> m_uint8 list \<Rightarrow> (int \<times> nat \<times> m_uint8 list) option" where
  "libc_write u regs file ptr len s =
     (if file \<noteq> STDOUT_FILENO then Some (-1, s) else map_option (Pair u) (tty_write regs ptr (nat len) s))"

definition libc_isatty :: "int \<Rightarrow> bool" where
  "libc_isatty file \<longleftrightarrow> file = STDOUT_FILENO"

section \<open>The heap\<close>

text \<open>
  The heap of a process between \<open>lo\<close> and \<open>hi\<close>. When it would grow too large, the store to an address
  without memory ends the process with an exception.
\<close>

definition sbrk :: "addr \<Rightarrow> int \<Rightarrow> addr \<Rightarrow> (addr \<times> addr) res" where
  "sbrk hi sz brk = (if brk + word_of_int sz > hi then Inl (Fatal ''_sbrk: heap grows too large'') else Inr (brk, brk + word_of_int sz))"

fun sbrks :: "addr \<Rightarrow> int list \<Rightarrow> addr \<Rightarrow> (addr list \<times> addr) res" where
  "sbrks hi [] brk = Inr ([], brk)"
| "sbrks hi (n # ns) brk = rbind (sbrk hi n brk) (\<lambda>(p, brk). rbind (sbrks hi ns brk) (\<lambda>(ps, brk). Inr (p # ps, brk)))"

lemma sbrk_grows:
  assumes "sbrk hi n brk = Inr (p, brk')" "0 \<le> n" "n < 2 ^ 30" "unat brk \<le> unat hi" "unat hi + 2 ^ 30 \<le> 2 ^ 32"
  shows "p = brk" "unat brk' = unat brk + nat n" "unat brk' \<le> unat hi"
proof -
  show "p = brk" using assms(1) by (auto simp: sbrk_def split: if_splits)
  have b: "brk' = brk + word_of_int n" "\<not> brk + word_of_int n > hi" using assms(1) by (auto simp: sbrk_def split: if_splits)
  have u: "unat (word_of_int n :: addr) = nat n" using assms(2,3) by (simp add: unsigned_of_int take_bit_int_eq_self)
  have "unat brk + nat n < 2 ^ 32" using assms(3-5) by simp
  then show "unat brk' = unat brk + nat n" unfolding b(1) using u by (simp add: unat_word_ariths)
  show "unat brk' \<le> unat hi" using b by (simp add: word_le_nat_alt not_less)
qed

text \<open>
  As long as only growth is asked for, at most 1 GB at once, and the heap ends 1 GB below the top of
  the address space, as it does here, successive calls give regions one behind the other, all of
  them in the heap.
\<close>

theorem sbrks_disjoint:
  assumes "sbrks hi ns brk = Inr (ps, brk')" "\<forall>n \<in> set ns. 0 \<le> n \<and> n < 2 ^ 30" "unat brk \<le> unat hi" "unat hi + 2 ^ 30 \<le> 2 ^ 32"
  shows "length ps = length ns \<and> unat brk' \<le> unat hi \<and>
    (\<forall>i < length ns. unat (ps ! i) = unat brk + nat (sum_list (take i ns)) \<and> unat (ps ! i) + nat (ns ! i) \<le> unat hi)"
  using assms
proof (induction ns arbitrary: brk ps)
  case (Cons n ns)
  obtain b1 ps' where h: "sbrk hi n brk = Inr (brk, b1)" "sbrks hi ns b1 = Inr (ps', brk')" "ps = brk # ps'"
    using Cons.prems(1) by (auto simp: rbind_Inr_iff sbrk_def split: if_splits)
  have n: "0 \<le> n" "n < 2 ^ 30" using Cons.prems(2) by simp_all
  note g = sbrk_grows [OF h(1) n Cons.prems(3,4)]
  have ns: "\<forall>n \<in> set ns. 0 \<le> n \<and> n < 2 ^ 30" using Cons.prems(2) by simp
  have IH: "length ps' = length ns \<and> unat brk' \<le> unat hi \<and>
    (\<forall>i < length ns. unat (ps' ! i) = unat b1 + nat (sum_list (take i ns)) \<and> unat (ps' ! i) + nat (ns ! i) \<le> unat hi)"
    by (rule Cons.IH [OF h(2) ns g(3) Cons.prems(4)])
  have "unat ((brk # ps') ! i) = unat brk + nat (sum_list (take i (n # ns))) \<and> unat ((brk # ps') ! i) + nat ((n # ns) ! i) \<le> unat hi"
    if "i < length (n # ns)" for i
  proof (cases i)
    case 0
    then show ?thesis using g by simp
  next
    case (Suc j)
    have "0 \<le> sum_list (take j ns)" using Cons.prems(2) by (intro sum_list_nonneg) (auto dest: in_set_takeD)
    moreover have "unat (ps' ! j) = unat b1 + nat (sum_list (take j ns)) \<and> unat (ps' ! j) + nat (ns ! j) \<le> unat hi"
      using IH [THEN conjunct2, THEN conjunct2, rule_format, of j] Suc that by auto
    ultimately show ?thesis using Suc g(2) n(1) by (simp add: nat_add_distrib)
  qed
  then have "\<forall>i < length (n # ns). unat ((brk # ps') ! i) = unat brk + nat (sum_list (take i (n # ns))) \<and>
    unat ((brk # ps') ! i) + nat ((n # ns) ! i) \<le> unat hi" by blast
  moreover have "length (brk # ps') = length (n # ns)" "unat brk' \<le> unat hi" using IH by simp_all
  ultimately show ?case unfolding h(3) by (intro conjI)
qed simp

text \<open>A request of nearly 2 GB wraps around and is granted; the break is then below the heap.\<close>

theorem sbrk_wraps: "sbrk 0x80404000 0x7FC00000 0x80402000 = Inr (0x80402000, 0x2000)"
  by (simp add: sbrk_def)

end
