(* ===== verification/Spec2Isabelle.thy ===== *)
theory Spec2Isabelle
  imports Http_Main Process_Exit Rwfs Virtual_Memory Timer User_Apps Sd_Card Machine
begin

text \<open>
  A verification of egos-2k+, a teaching operating system for RISC-V written in C (sources under
  src/), with the file system, the network stack and the servers around its kernel.

  \<^bold>\<open>The program.\<close> The earth layer (src/earth) drives the hardware: physical pages, address spaces,
  timer, disk, terminal and Ethernet controller. The grass layer (src/grass) is the kernel: process
  table, scheduler, traps and message passing. The servers (src/apps/system) are processes that
  answer requests: processes, files, directories, network, and the shell. Applications
  (src/apps/user) reach them through the functions of src/library/servers. The libraries under
  src/library hold the treedisk file system, the ELF loader and the uIP network stack; src/tools
  builds the disk image.

  \<^bold>\<open>Conventions.\<close> C integers are words of their width (\<open>m_uint8\<close> to \<open>m_uint64\<close>), so that
  arithmetic wraps around as in the code; sizes and indices that the code bounds are \<open>nat\<close>. Memory is
  a function from 32-bit addresses to bytes. Code that may fail returns \<open>'a res\<close>, which is \<open>Inr\<close> of a
  result, or \<open>Inl\<close> of \<open>Fatal\<close> (FATAL, ASSERT and panic, with the message), \<open>Out_of_bounds\<close> (an access
  outside an array, where C is undefined) or \<open>Diverges\<close> (a loop that does not end). Structures of C
  are records, and global variables are fields of a record that the operations pass on.

  \<^bold>\<open>Memory and processes.\<close>
  \<^item> \<open>Egos_Prelude\<close>: results, loops over results (\<open>rfor\<close>), memory, little-endian words, pages, the
    constants of library/egos.h, and the lemmas all theories share.
  \<^item> \<open>Bitmap\<close>, \<open>Page_Alloc\<close>: bit_set, bit_clear and bit_test (library/file/fs.c) and the page
    allocator (earth/page_alloc.c): pmalloc gives a free page and marks exactly that one. The locale
    \<open>page_allocator\<close> is its interface, interpreted on pmalloc and pfree.
  \<^item> \<open>Soft_TLB\<close>: address spaces by copying (earth/cpu_mmu.c). A process has private pages that are
    copied to the execution area when it runs. Main result: a switch leaves what every process sees
    unchanged. The locale \<open>address_spaces\<close> states this as a contract.
  \<^item> \<open>Page_Memory\<close>, \<open>Virtual_Memory\<close>: the page tables of earth/cpu_vm.c, and that the translation of
    the hardware on them is the identity on exactly the listed regions.
  \<^item> \<open>Process_Table\<close>: grass/process.c and grass/scheduler.c: allocation and release of processes, the
    round-robin scheduler, its fairness, and the invariant of the kernel.
  \<^item> \<open>Kernel_IPC\<close>: grass/syscall.c and grass/kernel.c: send and receive with the rendezvous of
    blocked processes, the trap handler with its context switch and saved stacks. Messages arrive
    intact and a suspended process resumes where it was.
  \<^item> \<open>Timer\<close>: earth/cpu_timer.c: reading and setting 64-bit registers in halves while time runs.

  \<^bold>\<open>Files.\<close>
  \<^item> \<open>Block_Tree\<close>: radix trees and the free list on a disk of blocks, without the program.
  \<^item> \<open>Treedisk\<close>: library/file/file.c, all operations, on an inode store below (inode.h).
  \<^item> \<open>Treedisk_Refinement\<close>: the contract of an inode store as the locale \<open>inode_store_contract\<close> (a file is
    a list of blocks), and that treedisk implements it on every store that meets it (\<open>disk_below\<close>,
    with a sublocale from the one contract to the other).
  \<^item> \<open>Ramdisk\<close>, \<open>Mkfs\<close>: the ram disk and the image maker of tools/mkfs.c; the contract is interpreted on
    the ram disk, and mkfs makes a file system with exactly the listed contents.
  \<^item> \<open>File_Server\<close>: disk.c, dev_disk.c, dev_sdcard.c, sys_file.c and the client functions: a read
    through all layers gives the block of the file in the image.
  \<^item> \<open>Dir_Server\<close>: sys_dir.c: a lookup in a directory text is a lookup in an association list.
  \<^item> \<open>Shell\<close>, \<open>User_Apps\<close>: the line editor of the terminal, the shell, and cd, pwd, ls, cat, echo
    and append.
  \<^item> \<open>Elf_Loader\<close>, \<open>Sys_Proc\<close>: library/elf/elf.c, apps/system/sys_proc.c and grass/grass.c: from a
    command of the shell to a process that can run the program of that name, through the directory
    server, the file server, the loader, the soft TLB and the process table.
  \<^item> \<open>Boot\<close>: the main function of earth/earth.c, grass/grass.c and the start of sys_proc.c, on an image
    of tools/mkfs.c: kernel, process server, the other servers and the shell are loaded with the
    programs of the build directory, and the invariant of the kernel holds from the first process on.
  \<^item> \<open>Kernel_Runs\<close>: all runs of the system as a step relation: computation of the running process,
    traps, and the calls that start and end processes, in any order. The invariant of the kernel holds
    in every reachable state, and the operations of the process server are runs.
  \<^item> \<open>Process_Exit\<close>: sys_exit and sys_sleep of grass/syscall.c and the main loop of the process server
    on the bytes of a message: a process that exits is gone once the server has taken its message.
  \<^item> \<open>Rwfs\<close>: the second file system: its image (mkrwfs of tools/mkfs.c) and the functions of
    library/file/fs.c. A path is resolved as the directories of the image say.
  \<^item> \<open>Sd_Card\<close>: the start of the SD card in earth/dev_sdcard.c. With a controller and a card as
    their documents describe them, chip select and start-up clocks included, it ends and succeeds; it
    fails without a card. The locale \<open>selected_card\<close> is what the driver sees of a selected card.
  \<^item> \<open>Machine\<close>: the interrupt registers (earth/cpu_intr.c), terminal output (earth/dev_tty.c, bus_uart.c)
    and the heap of a process (library/libc): output is complete, and the regions of the heap are
    disjoint.

  \<^bold>\<open>Network.\<close>
  \<^item> \<open>Uip_Base\<close>, \<open>Uip\<close>, \<open>Uip_Send\<close>: library/uip/uip.c: buffer and header fields, checksums, ports and
    connections, and uip_process with one definition per labelled part of the C function.
  \<^item> \<open>Uip_Safety\<close>, \<open>Httpd\<close>, \<open>Uip_Properties\<close>: the contract of an application as the locale
    \<open>uip_application\<close>, interpreted on the web server of httpd.c; safety of uip_process, the TCP state
    diagram, and what it does with data, connection requests and bad packets.
  \<^item> \<open>Uip_Arp\<close>, \<open>Macb\<close>, \<open>Http_Main\<close>: address resolution, the Ethernet driver, and the loop of the web
    server over all layers.

  \<^bold>\<open>Bounds and fuel.\<close> Loops with a bound in the code are recursions on that bound, or functions with
  a termination proof; no model needs fuel. Loops without a bound of their own (the search for a port
  in uip_connect, the waits for the SD card, the PHY, the UART and the timer, the option loop of uIP, the
  receive loop of the driver) are \<open>partial_function (option)\<close>, and not to return is the value
  \<open>None\<close>. That the port search, the timer loop and the loops of the start of the SD card return is
  proved; for the option loop and the receive loop there are inputs on which it is proved that they
  do not.

  \<^bold>\<open>Parameters.\<close> What is outside the sources is an argument: the values of device registers and the
  changes a device makes to shared memory (Macb, the SD card, the time), the files of the build
  directory (Mkfs), and the code of user programs, which is an arbitrary change of the memory of the
  running process between two traps. In Boot, what the system does until a server reports is an
  argument of the start of the process server; in Rwfs, load_inode is an argument, as the sources have
  only an empty body for it (an exercise); in Sd_Card, the SPI controller with the card is a
  state that the accesses to the registers change; \<open>spi_controller\<close> and \<open>sd_card\<close> say what their
  documents promise of them.

  \<^bold>\<open>Not modelled.\<close> Assembly (earth.S, context.S), the machine registers of earth.c, the
  initialisation of devices other than the disk and the Ethernet controller,
  formatted printing; code that the build leaves out (UDP, IPv6 and reassembly of uIP, the exercises
  under MLFQ, ECALL and RWFSON); the exercises of ult.c and queue.h, whose functions are empty in the
  source; test programs that print or crash.
\<close>

end
